(* ===== verification/Prelude.thy ===== *)
theory Prelude
  imports Main "HOL-Library.Word" "HOL-Library.Multiset"
begin

text \<open>
  Shared vocabulary of the development: machine integer types, the exceptions the C++ code
  throws, the state-and-exception shape every stateful operation has, the checked integer
  conversion \<open>safe_cast\<close> of \<^verbatim>\<open>utils/misc.hpp\<close>, and generic lemmas on lists and sums that
  several components use.
\<close>

unbundle bit_operations_syntax

section \<open>Machine integers and exceptions\<close>

type_synonym u8 = "8 word"
type_synonym u32 = "32 word"
type_synonym u64 = "64 word"

text \<open>
  The exceptions of the code, without their messages. \<open>Logic_Error\<close> is the default of
  \<^verbatim>\<open>RAPIDSMPF_EXPECTS\<close> and \<^verbatim>\<open>RAPIDSMPF_FAIL\<close>; \<open>Fatal\<close> is \<^verbatim>\<open>std::terminate\<close>;
  \<open>Undefined\<close> stands for an execution C++ gives no meaning to (an out-of-bounds read, a null
  dereference, a signed overflow), so that such inputs are a visible branch of the model.
\<close>

datatype exn =
    Logic_Error
  | Runtime_Error
  | Invalid_Argument
  | Out_Of_Range
  | Overflow_Error
  | Reservation_Error
  | Bad_Alloc
  | Bad_Value
  | Fatal
  | Undefined

type_synonym 'a result = "exn + 'a"

text \<open>
  An operation on a state \<open>'s\<close>: the exception or the result, together with the state it leaves
  behind. A C++ operation that throws after it has mutated an object leaves the mutation in
  place, so the state is returned in both cases.
\<close>

type_synonym ('s, 'a) act = "'s \<Rightarrow> 'a result \<times> 's"

definition act_return :: "'a \<Rightarrow> ('s, 'a) act" where
  "act_return a s = (Inr a, s)"

definition act_throw :: "exn \<Rightarrow> ('s, 'a) act" where
  "act_throw e s = (Inl e, s)"

definition act_bind :: "('s, 'a) act \<Rightarrow> ('a \<Rightarrow> ('s, 'b) act) \<Rightarrow> ('s, 'b) act" where
  "act_bind m f s = (case m s of (Inl e, s') \<Rightarrow> (Inl e, s') | (Inr a, s') \<Rightarrow> f a s')"

definition res_bind :: "'a result \<Rightarrow> ('a \<Rightarrow> 'b result) \<Rightarrow> 'b result" where
  "res_bind r f = (case r of Inl e \<Rightarrow> Inl e | Inr a \<Rightarrow> f a)"

definition expects :: "bool \<Rightarrow> exn \<Rightarrow> unit result" where
  "expects c e = (if c then Inr () else Inl e)"

lemma act_return_simp [simp]: "act_return a s = (Inr a, s)"
  by (simp add: act_return_def)

lemma act_throw_simp [simp]: "act_throw e s = (Inl e, s)"
  by (simp add: act_throw_def)

lemma act_bind_cases:
  "act_bind m f s = (r, t) \<longleftrightarrow>
     (\<exists>e. m s = (Inl e, t) \<and> r = Inl e) \<or> (\<exists>a u. m s = (Inr a, u) \<and> f a u = (r, t))"
  by (auto simp: act_bind_def split: prod.splits sum.splits)

lemma act_bind_Inl [simp]: "m s = (Inl e, t) \<Longrightarrow> act_bind m f s = (Inl e, t)"
  by (simp add: act_bind_def)

lemma act_bind_Inr [simp]: "m s = (Inr a, t) \<Longrightarrow> act_bind m f s = f a t"
  by (simp add: act_bind_def)

lemma act_bind_assoc:
  "act_bind (act_bind m f) g = act_bind m (\<lambda>a. act_bind (f a) g)"
  by (rule ext) (simp add: act_bind_def split: prod.splits sum.splits)

lemma res_bind_Inl [simp]: "res_bind (Inl e) f = Inl e"
  by (simp add: res_bind_def)

lemma res_bind_Inr [simp]: "res_bind (Inr a) f = f a"
  by (simp add: res_bind_def)

lemma res_bind_eq_Inr: "res_bind r f = Inr b \<longleftrightarrow> (\<exists>a. r = Inr a \<and> f a = Inr b)"
  by (simp add: res_bind_def split: sum.splits)

lemma expects_eq_Inr [simp]: "expects c e = Inr u \<longleftrightarrow> c"
  by (simp add: expects_def)

lemma expects_True [simp]: "expects True e = Inr ()"
  by (simp add: expects_def)

lemma expects_False [simp]: "expects False e = Inl e"
  by (simp add: expects_def)

text \<open>A result that does not come from undefined behaviour.\<close>

definition defined :: "'a result \<Rightarrow> bool" where
  "defined r \<longleftrightarrow> r \<noteq> Inl Undefined"

lemma defined_Inr [intro, simp]: "defined (Inr a)"
  by (simp add: defined_def)

lemma defined_Inl [simp]: "defined (Inl e) \<longleftrightarrow> e \<noteq> Undefined"
  by (simp add: defined_def)

lemma defined_expects [intro]: "e \<noteq> Undefined \<Longrightarrow> defined (expects c e)"
  by (simp add: defined_def expects_def)

lemma defined_bind [intro]:
  "defined r \<Longrightarrow> (\<And>a. r = Inr a \<Longrightarrow> defined (f a)) \<Longrightarrow> defined (res_bind r f)"
  by (cases r) (auto simp: defined_def)

text \<open>
  An action keeps a predicate of the state when every state it leaves behind, with an exception
  or with a result, satisfies it.
\<close>

definition keeps :: "('s \<Rightarrow> bool) \<Rightarrow> ('s, 'a) act \<Rightarrow> bool" where
  "keeps P m \<longleftrightarrow> (\<forall>s. P s \<longrightarrow> P (snd (m s)))"

lemma keepsI: "(\<And>s. P s \<Longrightarrow> P (snd (m s))) \<Longrightarrow> keeps P m"
  by (simp add: keeps_def)

lemma keepsD: "keeps P m \<Longrightarrow> P s \<Longrightarrow> P (snd (m s))"
  by (simp add: keeps_def)

lemma keeps_return [intro, simp]: "keeps P (act_return a)"
  by (simp add: keeps_def)

lemma keeps_throw [intro, simp]: "keeps P (act_throw e)"
  by (simp add: keeps_def)

lemma keeps_bind [intro]: "keeps P m \<Longrightarrow> (\<And>a. keeps P (f a)) \<Longrightarrow> keeps P (act_bind m f)"
  by (fastforce simp: keeps_def act_bind_def split: prod.splits sum.splits)

section \<open>Checked conversions\<close>

definition int64_max :: int where "int64_max = 2 ^ 63 - 1"

definition int64_min :: int where "int64_min = - (2 ^ 63)"

definition in_int64 :: "int \<Rightarrow> bool" where
  "in_int64 i \<longleftrightarrow> int64_min \<le> i \<and> i \<le> int64_max"

text \<open>\<open>safe_cast\<close> between \<^verbatim>\<open>std::size_t\<close> and \<^verbatim>\<open>std::int64_t\<close>, and to a rank (\<^verbatim>\<open>std::int32_t\<close>).\<close>

definition to_int64 :: "nat \<Rightarrow> int result" where
  "to_int64 n = (if int n \<le> int64_max then Inr (int n) else Inl Overflow_Error)"

definition to_size :: "int \<Rightarrow> nat result" where
  "to_size i = (if 0 \<le> i \<and> i < 2 ^ 64 then Inr (nat i) else Inl Overflow_Error)"

definition to_rank :: "nat \<Rightarrow> int result" where
  "to_rank n = (if n < 2 ^ 31 then Inr (int n) else Inl Overflow_Error)"

text \<open>A signed operation whose mathematical result leaves the 64-bit range is undefined.\<close>

definition chk64 :: "int \<Rightarrow> int result" where
  "chk64 i = (if in_int64 i then Inr i else Inl Undefined)"

lemmas cast_defs = to_int64_def to_size_def to_rank_def chk64_def in_int64_def
  int64_max_def int64_min_def

lemma to_int64_eq_Inr: "to_int64 n = Inr i \<longleftrightarrow> i = int n \<and> n < 2 ^ 63"
  by (auto simp: to_int64_def int64_max_def)

lemma to_size_eq_Inr: "to_size i = Inr n \<longleftrightarrow> i = int n \<and> n < 2 ^ 64"
  by (auto simp: to_size_def)

lemma chk64_eq_Inr: "chk64 i = Inr j \<longleftrightarrow> j = i \<and> in_int64 i"
  by (auto simp: chk64_def)

section \<open>Words\<close>

lemma unat_u8_less: "unat (w :: u8) < 256"
proof -
  have "unat w < 2 ^ LENGTH(8)" by (rule unsigned_less)
  then show ?thesis by simp
qed

lemma unat_u32_less: "unat (w :: u32) < 2 ^ 32"
proof -
  have "unat w < 2 ^ LENGTH(32)" by (rule unsigned_less)
  then show ?thesis by simp
qed

lemma unat_u64_less: "unat (w :: u64) < 2 ^ 64"
proof -
  have "unat w < 2 ^ LENGTH(64)" by (rule unsigned_less)
  then show ?thesis by simp
qed

lemma unat_u32_mod: "unat (w :: u32) mod 2 ^ 32 = unat w"
  using unat_u32_less [of w] by simp

lemma unat_u64_mod: "unat (w :: u64) mod 2 ^ 64 = unat w"
  using unat_u64_less [of w] by simp

text \<open>A rank in the high bits and a counter in the low \<open>k\<close> bits: the identifiers of chunks and messages.\<close>

lemma unat_packed_id:
  fixes r i k :: nat
  assumes "k < 64" and "r < 2 ^ (64 - k)" and "i < 2 ^ k"
  shows "unat (push_bit k (word_of_nat r) OR word_of_nat i :: u64) = r * 2 ^ k + i"
proof -
  have p64: "(2 :: nat) ^ (64 - k) * 2 ^ k = 2 ^ 64" using assms(1) by (simp flip: power_add)
  have le: "r * 2 ^ k + i < 2 ^ 64"
  proof -
    have "Suc r * 2 ^ k \<le> 2 ^ (64 - k) * 2 ^ k" using assms(2) by (intro mult_le_mono1) simp
    then have "r * 2 ^ k + 2 ^ k \<le> 2 ^ 64" by (simp add: p64)
    then show ?thesis using assms(3) by linarith
  qed
  have "i < 2 ^ 64" using le by linarith
  then have i: "unat (word_of_nat i :: u64) = i" by (simp add: unat_of_nat)
  have "push_bit k (word_of_nat r) AND word_of_nat i = (0 :: u64)"
  proof (rule bit_word_eqI)
    fix n :: nat
    have "\<not> bit (word_of_nat i :: u64) n" if "k \<le> n"
    proof -
      have "i < 2 ^ n" using assms(3) that by (meson less_le_trans one_le_numeral power_increasing)
      then have "\<not> bit i n" by (simp add: bit_iff_odd)
      then show ?thesis by (simp add: bit_of_nat_iff)
    qed
    then show "bit (push_bit k (word_of_nat r) AND word_of_nat i :: u64) n = bit (0 :: u64) n"
      by (auto simp: bit_and_iff bit_push_bit_iff)
  qed
  then have "(push_bit k (word_of_nat r) OR word_of_nat i :: u64) = push_bit k (word_of_nat r) + word_of_nat i"
    by (rule disjunctive_add_eq_or [symmetric])
  also have "\<dots> = word_of_nat (r * 2 ^ k + i)" by (simp add: push_bit_eq_mult)
  finally have "unat (push_bit k (word_of_nat r) OR word_of_nat i :: u64) = unat (word_of_nat (r * 2 ^ k + i) :: u64)"
    by (rule arg_cong)
  also have "\<dots> = r * 2 ^ k + i" unfolding unat_of_nat using le by simp
  finally show ?thesis .
qed

lemma drop_packed_id:
  fixes r i k :: nat
  assumes "k < 64" and "r < 2 ^ (64 - k)" and "i < 2 ^ k"
  shows "unat (drop_bit k (push_bit k (word_of_nat r) OR word_of_nat i :: u64)) = r"
proof -
  have "unat (drop_bit k (push_bit k (word_of_nat r) OR word_of_nat i :: u64)) = (r * 2 ^ k + i) div 2 ^ k"
    unfolding unat_drop_bit_eq unat_packed_id [OF assms] by (rule drop_bit_eq_div)
  then show ?thesis using assms(3) by simp
qed

section \<open>Lists\<close>

text \<open>Sums of a measure over a list, the shape every byte count of the code has.\<close>

abbreviation total :: "('a \<Rightarrow> nat) \<Rightarrow> 'a list \<Rightarrow> nat" where
  "total f xs \<equiv> sum_list (map f xs)"

lemma total_filter_partition:
  "total f (filter P xs) + total f (filter (\<lambda>x. \<not> P x) xs) = total f xs"
  by (induction xs) auto

lemma total_mset:
  assumes "mset xs = mset ys"
  shows "total f xs = total f ys"
proof -
  have "sum_mset (mset (map f xs)) = sum_mset (mset (map f ys))" by (simp add: assms)
  then show ?thesis by (simp only: sum_mset_sum_list)
qed

lemma total_ge_mem: "x \<in> set xs \<Longrightarrow> f x \<le> total f xs"
  by (induction xs) auto

lemma takeWhile_dropWhile_all:
  "\<forall>x\<in>set (takeWhile P xs). P x"
  by (auto dest: set_takeWhileD)

text \<open>\<open>list_update\<close> and a sum: replacing one entry moves the sum by the difference.\<close>

lemma total_update:
  "i < length xs \<Longrightarrow> total f (xs[i := y]) + f (xs ! i) = total f xs + f y"
proof (induction xs arbitrary: i)
  case Nil
  then show ?case by simp
next
  case (Cons x xs)
  then show ?case by (cases i) auto
qed

lemma mset_sub_full: "A \<subseteq># B \<Longrightarrow> size B \<le> size A \<Longrightarrow> A = B"
  by (metis leD mset_subset_size subset_mset.le_neq_trans)

lemma word_of_nat_inj64: "(word_of_nat a :: u64) = word_of_nat b \<Longrightarrow> a < 2 ^ 64 \<Longrightarrow> b < 2 ^ 64 \<Longrightarrow> a = b"
  by (drule arg_cong [of _ _ unat]) (simp add: unat_of_nat)

lemma sort_key_unique:
  assumes "mset xs = mset ys" and "sorted (map key xs)" "sorted (map key ys)" "distinct (map key ys)"
  shows "xs = ys"
proof -
  have "inj_on key (set xs)" using assms(1,4) by (metis distinct_map mset_eq_setD)
  from sort_key_inj_key_eq [OF assms(1) this assms(3)] show ?thesis using sort_key_id_if_sorted [OF assms(2)] by simp
qed

end
