(* ===== verification/Bytes.thy ===== *)
theory Bytes
  imports Prelude
begin

text \<open>
  Byte-level layout: \<^verbatim>\<open>std::memcpy\<close> of an unsigned integer into and out of a byte vector, in the
  little-endian order of the platforms the library supports. Every wire format of the code
  (shuffler chunks, collective chunks, the metadata of the payload exchange, serialised options)
  is built from these.
\<close>

fun nat_to_le :: "nat \<Rightarrow> nat \<Rightarrow> u8 list" where
  "nat_to_le 0 k = []"
| "nat_to_le (Suc n) k = word_of_nat (k mod 256) # nat_to_le n (k div 256)"

fun le_to_nat :: "u8 list \<Rightarrow> nat" where
  "le_to_nat [] = 0"
| "le_to_nat (b # bs) = unat b + 256 * le_to_nat bs"

definition enc32 :: "u32 \<Rightarrow> u8 list" where
  "enc32 w = nat_to_le 4 (unat w)"

definition enc64 :: "u64 \<Rightarrow> u8 list" where
  "enc64 w = nat_to_le 8 (unat w)"

text \<open>
  \<open>rd32 bs off\<close> is \<^verbatim>\<open>memcpy(&x, bs.data() + off, 4)\<close>: reading past the end of the vector is
  undefined, so it is an error here.
\<close>

definition rd32 :: "u8 list \<Rightarrow> nat \<Rightarrow> u32 result" where
  "rd32 bs off =
     (if off + 4 \<le> length bs then Inr (word_of_nat (le_to_nat (take 4 (drop off bs))))
      else Inl Undefined)"

definition rd64 :: "u8 list \<Rightarrow> nat \<Rightarrow> u64 result" where
  "rd64 bs off =
     (if off + 8 \<le> length bs then Inr (word_of_nat (le_to_nat (take 8 (drop off bs))))
      else Inl Undefined)"

lemma length_nat_to_le [simp]: "length (nat_to_le n k) = n"
  by (induction n arbitrary: k) auto

lemma length_enc32 [simp]: "length (enc32 w) = 4"
  by (simp add: enc32_def)

lemma length_enc64 [simp]: "length (enc64 w) = 8"
  by (simp add: enc64_def)

lemma unat_byte [simp]: "unat (word_of_nat (k mod 256) :: u8) = k mod 256"
  by (simp add: unat_of_nat)

lemma le_to_nat_nat_to_le: "le_to_nat (nat_to_le n k) = k mod 256 ^ n"
proof (induction n arbitrary: k)
  case 0
  then show ?case by simp
next
  case (Suc n)
  have "k mod (256 * 256 ^ n) = 256 * (k div 256 mod 256 ^ n) + k mod 256"
    by (rule mod_mult2_eq)
  then show ?case by (simp add: Suc.IH)
qed

lemma le_to_nat_bound: "le_to_nat bs < 256 ^ length bs"
proof (induction bs)
  case Nil
  then show ?case by simp
next
  case (Cons b bs)
  have "unat b < 256" by (rule unat_u8_less)
  moreover from Cons.IH have "Suc (le_to_nat bs) * 256 \<le> 256 ^ length bs * 256"
    by (intro mult_le_mono1) simp
  ultimately show ?case by simp
qed

lemma nat_to_le_le_to_nat: "nat_to_le (length bs) (le_to_nat bs) = bs"
proof (induction bs)
  case Nil
  then show ?case by simp
next
  case (Cons b bs)
  have b: "unat b < 256" by (rule unat_u8_less)
  then have "(unat b + 256 * le_to_nat bs) mod 256 = unat b"
    and "(unat b + 256 * le_to_nat bs) div 256 = le_to_nat bs"
    by simp_all
  then show ?case by (simp add: Cons.IH)
qed

lemma le_enc32 [simp]: "le_to_nat (enc32 w) = unat w"
  using unat_u32_less [of w] by (simp add: enc32_def le_to_nat_nat_to_le)

lemma le_enc64 [simp]: "le_to_nat (enc64 w) = unat w"
  using unat_u64_less [of w] by (simp add: enc64_def le_to_nat_nat_to_le)

text \<open>Reading back what was written, at the offset where it was written.\<close>

lemma rd32_enc [simp]: "length xs = off \<Longrightarrow> rd32 (xs @ enc32 w @ ys) off = Inr w"
  by (simp add: rd32_def)

lemma rd64_enc [simp]: "length xs = off \<Longrightarrow> rd64 (xs @ enc64 w @ ys) off = Inr w"
  by (simp add: rd64_def)

lemma rd32_enc0 [simp]: "rd32 (enc32 w @ ys) 0 = Inr w"
  using rd32_enc [of "[]" 0] by simp

lemma rd64_enc0 [simp]: "rd64 (enc64 w @ ys) 0 = Inr w"
  using rd64_enc [of "[]" 0] by simp

lemma enc64_rd64:
  assumes "rd64 bs off = Inr w"
  shows "enc64 w = take 8 (drop off bs)"
proof -
  let ?xs = "take 8 (drop off bs)"
  from assms have len: "length ?xs = 8" and w: "w = word_of_nat (le_to_nat ?xs)"
    by (auto simp: rd64_def split: if_splits)
  have "unat w = le_to_nat ?xs"
    using le_to_nat_bound [of ?xs] len by (simp add: w unat_of_nat)
  then show ?thesis
    using nat_to_le_le_to_nat [of ?xs] len by (simp add: enc64_def)
qed

lemma enc32_rd32:
  assumes "rd32 bs off = Inr w"
  shows "enc32 w = take 4 (drop off bs)"
proof -
  let ?xs = "take 4 (drop off bs)"
  from assms have len: "length ?xs = 4" and w: "w = word_of_nat (le_to_nat ?xs)"
    by (auto simp: rd32_def split: if_splits)
  have "unat w = le_to_nat ?xs"
    using le_to_nat_bound [of ?xs] len by (simp add: w unat_of_nat)
  then show ?thesis
    using nat_to_le_le_to_nat [of ?xs] len by (simp add: enc32_def)
qed

lemma rd64_total: "off + 8 \<le> length bs \<Longrightarrow> \<exists>w. rd64 bs off = Inr w"
  by (simp add: rd64_def)

lemma rd32_total: "off + 4 \<le> length bs \<Longrightarrow> \<exists>w. rd32 bs off = Inr w"
  by (simp add: rd32_def)

section \<open>The contract of a wire format\<close>

text \<open>
  What a component that sends and receives encoded messages relies on: decoding inverts encoding,
  and accepts nothing but encodings. Each message type of the code interprets the locale.
\<close>

locale wire_format =
  fixes enc :: "'a \<Rightarrow> u8 list"
    and dec :: "u8 list \<Rightarrow> 'a result"
    and fits :: "'a \<Rightarrow> bool"
  assumes dec_enc: "fits x \<Longrightarrow> dec (enc x) = Inr x"
    and dec_canonical: "dec bs = Inr x \<Longrightarrow> fits x \<and> enc x = bs"
begin

lemma dec_Inr_iff: "dec bs = Inr x \<longleftrightarrow> fits x \<and> enc x = bs"
  by (metis dec_enc dec_canonical)

lemma enc_inj: "fits x \<Longrightarrow> fits y \<Longrightarrow> enc x = enc y \<Longrightarrow> x = y"
  by (metis dec_enc sum.inject(2))

lemma dec_inj: "dec bs = Inr x \<Longrightarrow> dec cs = Inr x \<Longrightarrow> bs = cs"
  using dec_canonical by blast

lemma map_dec_enc: "\<forall>x\<in>set xs. fits x \<Longrightarrow> map (dec \<circ> enc) xs = map Inr xs"
  by (simp add: dec_enc)

end

end
