(* ===== verification/String_Utils.thy ===== *)
theory String_Utils
  imports Prelude "HOL-Library.Char_ord" "HOL-Library.List_Lexorder"
begin

text \<open>
  The text helpers of \<^verbatim>\<open>cpp/src/utils/string.cpp\<close> the configuration and the memory types
  rest on: \<open>trim\<close>, case conversion, \<open>parse_string<bool>\<close>, \<open>parse_optional\<close> and
  \<open>parse_string_list\<close>. A \<^verbatim>\<open>std::string\<close> is a list of bytes (\<^typ>\<open>string\<close>), in the
  \<^verbatim>\<open>"C"\<close> locale. The floating-point formatting and parsing routines of the file are not
  modelled.
\<close>

definition is_space :: "char \<Rightarrow> bool" where
  "is_space c \<longleftrightarrow> (of_char c :: nat) = 32 \<or> 9 \<le> (of_char c :: nat) \<and> (of_char c :: nat) \<le> 13"

definition is_digit :: "char \<Rightarrow> bool" where
  "is_digit c \<longleftrightarrow> 48 \<le> (of_char c :: nat) \<and> (of_char c :: nat) \<le> 57"

text \<open>
  \<open>trimmer << text; trimmer >> ret\<close>: extraction skips leading white space and stops at the next
  white space, so \<open>trim\<close> returns the first word of the text.
\<close>

definition trim :: "string \<Rightarrow> string" where
  "trim text = takeWhile (\<lambda>c. \<not> is_space c) (dropWhile is_space text)"

definition char_lower :: "char \<Rightarrow> char" where
  "char_lower c = (let n = of_char c :: nat in if 65 \<le> n \<and> n \<le> 90 then char_of (n + 32) else c)"

definition char_upper :: "char \<Rightarrow> char" where
  "char_upper c = (let n = of_char c :: nat in if 97 \<le> n \<and> n \<le> 122 then char_of (n - 32) else c)"

definition to_lower :: "string \<Rightarrow> string" where
  "to_lower text = map char_lower text"

definition to_upper :: "string \<Rightarrow> string" where
  "to_upper text = map char_upper text"

section \<open>Booleans and optional values\<close>

fun digits_value :: "nat \<Rightarrow> string \<Rightarrow> nat" where
  "digits_value acc [] = acc"
| "digits_value acc (c # cs) = digits_value (10 * acc + (of_char c - 48)) cs"

text \<open>
  \<^verbatim>\<open>std::stoi\<close>: leading white space, an optional sign, then the longest run of decimal digits;
  whatever follows is ignored.
\<close>

definition stoi :: "string \<Rightarrow> int result" where
  "stoi text =
     (let t = dropWhile is_space text;
          neg = (case t of c # _ \<Rightarrow> c = CHR ''-'' | [] \<Rightarrow> False);
          body = (case t of c # cs \<Rightarrow> if c = CHR ''-'' \<or> c = CHR ''+'' then cs else t | [] \<Rightarrow> []);
          ds = takeWhile is_digit body;
          v = (if neg then - int (digits_value 0 ds) else int (digits_value 0 ds))
      in if ds = [] then Inl Invalid_Argument
         else if - (2 ^ 31) \<le> v \<and> v < 2 ^ 31 then Inr v
         else Inl Out_Of_Range)"

text \<open>
  \<open>parse_string<bool>\<close>: only \<^verbatim>\<open>std::invalid_argument\<close> of \<open>stoi\<close> is caught, any other
  exception of it leaves the function.
\<close>

definition parse_bool :: "string \<Rightarrow> bool result" where
  "parse_bool text =
     (case stoi text of
        Inr v \<Rightarrow> Inr (v \<noteq> 0)
      | Inl Invalid_Argument \<Rightarrow>
          (let str = to_lower (trim text) in
           if str = ''true'' \<or> str = ''on'' \<or> str = ''yes'' then Inr True
           else if str = ''false'' \<or> str = ''off'' \<or> str = ''no'' then Inr False
           else Inl Invalid_Argument)
      | Inl e \<Rightarrow> Inl e)"

definition disabled_words :: "string list" where
  "disabled_words =
     [''false'', ''no'', ''off'', ''disable'', ''disabled'', ''none'', ''n/a'', ''na'']"

text \<open>The regex \<^verbatim>\<open>^\s*(false|no|...)\s*$\<close>, case-insensitive.\<close>

definition matches_disabled :: "string \<Rightarrow> bool" where
  "matches_disabled text \<longleftrightarrow>
     (let t = dropWhile is_space text;
          w = rev (dropWhile is_space (rev t))
      in to_lower w \<in> set disabled_words)"

definition parse_optional :: "string \<Rightarrow> string option" where
  "parse_optional text = (if matches_disabled text then None else Some text)"

section \<open>Delimited lists\<close>

text \<open>\<^verbatim>\<open>text.find(delimiter, start)\<close>: the first position at or after \<open>start\<close>.\<close>

definition find_char :: "string \<Rightarrow> char \<Rightarrow> nat \<Rightarrow> nat option" where
  "find_char text d start =
     (let k = length (takeWhile (\<lambda>c. c \<noteq> d) (drop start text))
      in if start + k < length text then Some (start + k) else None)"

lemma find_char_Some:
  "find_char text d start = Some pos \<Longrightarrow> start \<le> pos \<and> pos < length text"
  by (auto simp: find_char_def Let_def split: if_splits)

function split_loop :: "string \<Rightarrow> char \<Rightarrow> nat \<Rightarrow> string list" where
  "split_loop text d start =
     (case find_char text d start of
        None \<Rightarrow> [trim (drop start text)]
      | Some pos \<Rightarrow> trim (take (pos - start) (drop start text)) # split_loop text d (pos + 1))"
  by pat_completeness auto
termination
  by (relation "measure (\<lambda>(text, d, start). length text - start)") (auto dest!: find_char_Some)

declare split_loop.simps [simp del]

definition parse_string_list :: "string \<Rightarrow> char \<Rightarrow> string list" where
  "parse_string_list text d = (if trim text = [] then [] else split_loop text d 0)"

section \<open>Properties\<close>

lemma trim_no_space: "c \<in> set (trim text) \<Longrightarrow> \<not> is_space c"
  by (auto simp: trim_def dest: set_takeWhileD)

lemma dropWhile_takeWhile_not [simp]:
  "dropWhile P (takeWhile (\<lambda>c. \<not> P c) xs) = takeWhile (\<lambda>c. \<not> P c) xs"
  by (cases xs) auto

lemma takeWhile_idem_trim: "takeWhile P (takeWhile P xs) = takeWhile P xs"
  by (simp add: takeWhile_eq_all_conv set_takeWhileD)

lemma trim_idem [simp]: "trim (trim text) = trim text"
  by (simp add: trim_def takeWhile_idem_trim)

lemma trim_id: "\<forall>c\<in>set w. \<not> is_space c \<Longrightarrow> trim w = w"
  by (cases w) (auto simp: trim_def takeWhile_eq_all_conv)

lemma trim_eq_Nil: "trim t = [] \<longleftrightarrow> (\<forall>c\<in>set t. is_space c)"
  by (induction t) (auto simp: trim_def)

lemma of_char_char_of_small: "n < 256 \<Longrightarrow> (of_char (char_of n) :: nat) = n"
  by simp

lemma char_lower_idem [simp]: "char_lower (char_lower c) = char_lower c"
  by (simp add: char_lower_def Let_def)

lemma is_space_lower [simp]: "is_space (char_lower c) = is_space c"
  by (auto simp: char_lower_def is_space_def Let_def)

lemma to_lower_idem [simp]: "to_lower (to_lower text) = to_lower text"
  by (simp add: to_lower_def)

lemma length_to_lower [simp]: "length (to_lower text) = length text"
  by (simp add: to_lower_def)

lemma dropWhile_is_space_lower:
  "dropWhile is_space (map char_lower xs) = map char_lower (dropWhile is_space xs)"
  by (induction xs) auto

lemma takeWhile_is_space_lower:
  "takeWhile (\<lambda>c. \<not> is_space c) (map char_lower xs) =
   map char_lower (takeWhile (\<lambda>c. \<not> is_space c) xs)"
  by (induction xs) auto

lemma trim_to_lower: "trim (to_lower text) = to_lower (trim text)"
  by (simp add: trim_def to_lower_def dropWhile_is_space_lower takeWhile_is_space_lower)

text \<open>The name \<open>normalise\<close> of \<open>to_lower(trim(key))\<close>, the form every option key is stored in.\<close>

definition normalise :: "string \<Rightarrow> string" where
  "normalise key = to_lower (trim key)"

lemma normalise_idem [simp]: "normalise (normalise key) = normalise key"
  by (simp add: normalise_def trim_to_lower)

lemma length_normalise_le: "length (normalise key) \<le> length key"
proof -
  have "length (trim key) \<le> length (dropWhile is_space key)"
    unfolding trim_def by (rule length_takeWhile_le)
  also have "\<dots> \<le> length key" by (rule length_dropWhile_le)
  finally show ?thesis by (simp add: normalise_def)
qed

subsection \<open>Splitting at the delimiter\<close>

fun join :: "char \<Rightarrow> string list \<Rightarrow> string" where
  "join d [] = []"
| "join d [w] = w"
| "join d (w # v # ws) = w @ d # join d (v # ws)"

text \<open>The loop over positions is the list recursion that cuts at the first delimiter.\<close>

lemma find_char_drop_None:
  assumes "start \<le> length text"
  shows "find_char text d start = None \<longleftrightarrow> d \<notin> set (drop start text)"
proof -
  have "length (takeWhile (\<lambda>c. c \<noteq> d) xs) < length xs \<longleftrightarrow> d \<in> set xs" for xs :: string
    by (induction xs) auto
  from this [of "drop start text"] show ?thesis
    using assms by (auto simp: find_char_def Let_def)
qed

lemma find_char_at:
  assumes "drop start text = w @ d # rest" and "d \<notin> set w"
  shows "find_char text d start = Some (start + length w)"
proof -
  have "takeWhile (\<lambda>c. c \<noteq> d) (w @ d # rest) = w"
    using assms(2) by (induction w) auto
  moreover have "start + length w < length text"
    using assms(1) by (metis (no_types, lifting) add.commute add_less_cancel_left
        length_append length_drop less_add_same_cancel1 length_Cons less_diff_conv zero_less_Suc)
  ultimately show ?thesis by (simp add: find_char_def assms(1) Let_def)
qed

lemma split_loop_last:
  assumes "start \<le> length text" and "d \<notin> set (drop start text)"
  shows "split_loop text d start = [trim (drop start text)]"
  using find_char_drop_None [OF assms(1), of d] assms(2) by (subst split_loop.simps) simp

lemma split_loop_step:
  assumes "drop start text = w @ d # rest" and "d \<notin> set w"
  shows "split_loop text d start = trim w # split_loop text d (start + length w + 1)"
  using find_char_at [OF assms] assms(1) by (subst split_loop.simps) simp

lemma split_loop_join:
  assumes "ws \<noteq> []" and "\<forall>w\<in>set ws. d \<notin> set w"
    and "drop start text = join d ws" and "start \<le> length text"
  shows "split_loop text d start = map trim ws"
  using assms
proof (induction ws arbitrary: start rule: join.induct)
  case (1 d)
  then show ?case by simp
next
  case (2 d w)
  then show ?case by (simp add: split_loop_last)
next
  case (3 d w v ws)
  have cut: "drop start text = w @ d # join d (v # ws)" and w: "d \<notin> set w"
    using "3.prems" by simp_all
  let ?s = "start + length w + 1"
  have rest: "drop ?s text = join d (v # ws)"
  proof -
    have "drop ?s text = drop (length w + 1) (drop start text)"
      by (simp add: add.commute add.left_commute)
    then show ?thesis by (simp add: cut)
  qed
  have "?s \<le> length text"
    using find_char_at [OF cut w] find_char_Some by fastforce
  then have "split_loop text d ?s = map trim (v # ws)"
    using "3.IH" "3.prems"(2) rest by simp
  then show ?case using split_loop_step [OF cut w] by simp
qed

text \<open>Parsing a list of words back from its delimited form. Words that contain neither
  whitespace nor the delimiter come back in order, empty words included.\<close>

theorem parse_string_list_join:
  assumes "ws \<noteq> []" and "ws \<noteq> [[]]" and "\<forall>w\<in>set ws. d \<notin> set w \<and> (\<forall>c\<in>set w. \<not> is_space c)"
    and "\<not> is_space d"
  shows "parse_string_list (join d ws) d = ws"
proof -
  have "\<exists>c. c \<in> set (join d ws) \<and> \<not> is_space c"
    using assms
  proof (induction ws rule: join.induct)
    case (2 d w)
    then show ?case by (cases w) auto
  next
    case (3 d w v ws)
    then show ?case by (intro exI [of _ d]) simp
  qed simp
  then have "trim (join d ws) \<noteq> []" by (auto simp: trim_eq_Nil)
  moreover have "split_loop (join d ws) d 0 = map trim ws"
    using assms by (intro split_loop_join) auto
  moreover have "map trim ws = ws" using assms(3) by (intro map_idI) (simp add: trim_id)
  ultimately show ?thesis by (simp add: parse_string_list_def)
qed

theorem parse_string_list_join_witness:
  "parse_string_list ''ab,,c'' (CHR '','') = [''ab'', [], ''c'']"
  using parse_string_list_join [of "[''ab'', [], ''c'']" "CHR '',''"] by (simp add: is_space_def)

end
