(* ===== verification/Config_Options.thy ===== *)
theory Config_Options
  imports Bytes String_Utils
begin

text \<open>
  The option store of \<^verbatim>\<open>cpp/src/config.cpp\<close> and \<^verbatim>\<open>config.hpp\<close>: typed lazy access with
  defaults, normalised keys, and the binary format of \<open>serialize\<close> and \<open>deserialize\<close> with its
  magic, offset table and CRC32 trailer. The \<^verbatim>\<open>std::unordered_map\<close> of a store is an association
  list with distinct keys, whose order is the iteration order. \<^verbatim>\<open>std::any\<close> is a type tag with a
  value.
\<close>

section \<open>Option values and the store\<close>

record 'v option_value =
  ov_value :: "(nat \<times> 'v) option"
  ov_string :: string

type_synonym 'v options = "(string \<times> 'v option_value) list"

definition unparsed :: "string \<Rightarrow> 'v option_value" where
  "unparsed s = \<lparr>ov_value = None, ov_string = s\<rparr>"

definition set_value :: "(nat \<times> 'v) \<Rightarrow> 'v option_value \<Rightarrow> 'v option_value result" where
  "set_value v ov =
     (if ov_value ov \<noteq> None then Inl Invalid_Argument else Inr (ov\<lparr>ov_value := Some v\<rparr>))"

text \<open>The constructor: keys are trimmed and lower-cased, and two keys may not become one.\<close>

fun insert_options :: "'v options \<Rightarrow> (string \<times> 'v option_value) list \<Rightarrow> 'v options result" where
  "insert_options opts [] = Inr opts"
| "insert_options opts ((key, value) # rest) =
     (let new_key = normalise key in
      if new_key \<in> set (map fst opts) then Inl Invalid_Argument
      else insert_options (opts @ [(new_key, value)]) rest)"

definition make_options :: "(string \<times> 'v option_value) list \<Rightarrow> 'v options result" where
  "make_options kvs = insert_options [] kvs"

definition from_strings :: "(string \<times> string) list \<Rightarrow> (string \<times> 'v option_value) list" where
  "from_strings kvs = map (\<lambda>(k, v). (k, unparsed v)) kvs"

definition options_of_strings :: "(string \<times> string) list \<Rightarrow> 'v options result" where
  "options_of_strings kvs = make_options (from_strings kvs)"

definition insert_if_absent :: "string \<Rightarrow> string \<Rightarrow> 'v options \<Rightarrow> bool \<times> 'v options" where
  "insert_if_absent key s opts =
     (let k = normalise key in
      if k \<in> set (map fst opts) then (False, opts) else (True, opts @ [(k, unparsed s)]))"

definition insert_value_if_absent ::
  "string \<Rightarrow> nat \<times> 'v \<Rightarrow> 'v options \<Rightarrow> bool \<times> 'v options" where
  "insert_value_if_absent key v opts =
     (let k = normalise key in
      if k \<in> set (map fst opts) then (False, opts)
      else (True, opts @ [(k, \<lparr>ov_value = Some v, ov_string = []\<rparr>)]))"

fun insert_all_if_absent :: "(string \<times> string) list \<Rightarrow> 'v options \<Rightarrow> nat \<times> 'v options" where
  "insert_all_if_absent [] opts = (0, opts)"
| "insert_all_if_absent ((k, v) # kvs) opts =
     (let (ins, opts') = insert_if_absent k v opts; (n, opts'') = insert_all_if_absent kvs opts'
      in (if ins then Suc n else n, opts''))"

definition get_strings :: "'v options \<Rightarrow> (string \<times> string) list" where
  "get_strings opts = map (\<lambda>(k, ov). (k, ov_string ov)) opts"

text \<open>The registered defaults of \<^verbatim>\<open>config_defaults.hpp\<close>.\<close>

definition DEFAULTS :: "(string \<times> string) list" where
  "DEFAULTS =
     [(''statistics'', ''false''),
      (''pinned_memory'', ''false''),
      (''pinned_initial_pool_size'', ''0%''),
      (''pinned_max_pool_size'', ''80%''),
      (''spill_device_limit'', ''80%''),
      (''spill_host_limit'', ''disabled''),
      (''periodic_spill_check'', ''1ms''),
      (''num_streams'', ''16''),
      (''num_streaming_threads'', ''1''),
      (''memory_reserve_timeout'', ''100ms''),
      (''allow_overbooking_by_default'', ''true''),
      (''log'', ''WARN''),
      (''ucxx_progress_mode'', ''thread-blocking''),
      (''disk_spill_dir'', ''false'')]"

text \<open>
  \<open>shared.options[key]\<close> inserts a default-constructed value for a missing key before the
  factory runs, so the entry stays behind when the factory throws.
\<close>

fun replace_value :: "string \<Rightarrow> 'v option_value \<Rightarrow> 'v options \<Rightarrow> 'v options" where
  "replace_value key ov [] = []"
| "replace_value key ov ((k, v) # opts) =
     (if k = key then (k, ov) # opts else (k, v) # replace_value key ov opts)"

definition get_option :: "string \<Rightarrow> nat \<Rightarrow> (string \<Rightarrow> 'v result) \<Rightarrow> ('v options, 'v) act" where
  "get_option key tid factory opts =
     (let opts1 = (if key \<in> set (map fst opts) then opts else opts @ [(key, unparsed [])]);
          option = the (map_of opts1 key)
      in case ov_value option of
           Some (t, v) \<Rightarrow> (if t = tid then Inr v else Inl Invalid_Argument, opts1)
         | None \<Rightarrow>
             (let stored = ov_string option;
                  effective = (case map_of DEFAULTS key of
                                 Some d \<Rightarrow> (if stored = [] then d else stored)
                               | None \<Rightarrow> stored)
              in case factory effective of
                   Inl e \<Rightarrow> (Inl e, opts1)
                 | Inr v \<Rightarrow> (Inr v, replace_value key (option\<lparr>ov_value := Some (tid, v)\<rparr>) opts1)))"

section \<open>The binary format\<close>

definition MAX_OPTIONS :: nat where "MAX_OPTIONS = 64 * 2 ^ 10"
definition MAX_KEY_LEN :: nat where "MAX_KEY_LEN = 4 * 2 ^ 10"
definition MAX_VALUE_LEN :: nat where "MAX_VALUE_LEN = 2 ^ 20"
definition MAX_TOTAL_SIZE :: nat where "MAX_TOTAL_SIZE = 64 * 2 ^ 20"
definition PRELUDE_SIZE :: nat where "PRELUDE_SIZE = 8"
definition CRC32_SIZE :: nat where "CRC32_SIZE = 4"

lemmas format_limits = MAX_OPTIONS_def MAX_KEY_LEN_def MAX_VALUE_LEN_def MAX_TOTAL_SIZE_def
  PRELUDE_SIZE_def CRC32_SIZE_def

definition str_bytes :: "string \<Rightarrow> u8 list" where
  "str_bytes s = map (\<lambda>c. word_of_nat (of_char c)) s"

definition bytes_str :: "u8 list \<Rightarrow> string" where
  "bytes_str bs = map (\<lambda>b. char_of (unat b)) bs"

definition MAGIC :: "u8 list" where "MAGIC = str_bytes ''RMPF''"
definition FORMAT_VERSION :: u8 where "FORMAT_VERSION = 1"
definition FLAG_CRC_PRESENT :: u8 where "FLAG_CRC_PRESENT = 1"

definition crc_bit :: "u32 \<Rightarrow> u32" where
  "crc_bit crc = (let mask = - (crc AND 1) in drop_bit 1 crc XOR (0xEDB88320 AND mask))"

definition crc_byte :: "u32 \<Rightarrow> u8 \<Rightarrow> u32" where
  "crc_byte crc b = (crc_bit ^^ 8) (crc XOR ucast b)"

definition crc32_compute :: "u8 list \<Rightarrow> u32" where
  "crc32_compute bs = NOT (foldl crc_byte 0xFFFFFFFF bs)"

definition crc_to_bytes :: "u32 \<Rightarrow> u8 list" where
  "crc_to_bytes crc =
     [ucast (crc AND 0xFF), ucast (drop_bit 8 crc AND 0xFF),
      ucast (drop_bit 16 crc AND 0xFF), ucast (drop_bit 24 crc AND 0xFF)]"

definition rd_byte :: "u8 list \<Rightarrow> nat \<Rightarrow> u8 result" where
  "rd_byte bs i = (if i < length bs then Inr (bs ! i) else Inl Undefined)"

definition rd_bytes :: "u8 list \<Rightarrow> nat \<Rightarrow> nat \<Rightarrow> u8 list result" where
  "rd_bytes bs off n = (if off + n \<le> length bs then Inr (take n (drop off bs)) else Inl Undefined)"

definition rd_crc :: "u8 list \<Rightarrow> nat \<Rightarrow> u32 result" where
  "rd_crc bs pos =
     res_bind (rd_byte bs pos) (\<lambda>b0.
     res_bind (rd_byte bs (pos + 1)) (\<lambda>b1.
     res_bind (rd_byte bs (pos + 2)) (\<lambda>b2.
     res_bind (rd_byte bs (pos + 3)) (\<lambda>b3.
       Inr (ucast b0 OR push_bit 8 (ucast b1) OR push_bit 16 (ucast b2) OR push_bit 24 (ucast b3))))))"

definition validate_crc_and_get_data_limit :: "u8 list \<Rightarrow> nat \<Rightarrow> u8 \<Rightarrow> nat result" where
  "validate_crc_and_get_data_limit base header_size flags =
     (let total_size = length base in
      if flags AND FLAG_CRC_PRESENT \<noteq> 0 then
        res_bind (expects (total_size \<ge> header_size + CRC32_SIZE) Invalid_Argument) (\<lambda>_.
        let crc_pos = total_size - CRC32_SIZE in
        res_bind (rd_crc base crc_pos) (\<lambda>expected_crc.
        res_bind (rd_bytes base header_size (crc_pos - header_size)) (\<lambda>dat.
        res_bind (expects (expected_crc = crc32_compute dat) Invalid_Argument) (\<lambda>_.
          Inr crc_pos))))
      else Inr total_size)"

subsection \<open>serialize\<close>

text \<open>One pass over the sorted entries writes the two offsets of each entry and its data.\<close>

fun write_entries :: "nat \<Rightarrow> (string \<times> string) list \<Rightarrow> u8 list \<times> u8 list" where
  "write_entries data_offset [] = ([], [])"
| "write_entries data_offset ((key, value) # entries) =
     (let key_offset = data_offset;
          value_offset = key_offset + length key;
          (offs, dat) = write_entries (value_offset + length value) entries
      in (enc64 (word_of_nat key_offset) @ enc64 (word_of_nat value_offset) @ offs,
          str_bytes key @ str_bytes value @ dat))"

fun check_entries :: "'v options \<Rightarrow> nat \<Rightarrow> nat result" where
  "check_entries [] data_size = Inr data_size"
| "check_entries ((key, option) # opts) data_size =
     res_bind (expects (length key \<le> MAX_KEY_LEN) Invalid_Argument) (\<lambda>_.
     res_bind (expects (ov_value option = None) Invalid_Argument) (\<lambda>_.
     res_bind (expects (length (ov_string option) \<le> MAX_VALUE_LEN) Invalid_Argument) (\<lambda>_.
       check_entries opts (data_size + (length key + length (ov_string option))))))"

definition serialize :: "'v options \<Rightarrow> u8 list result" where
  "serialize opts =
     (let count = length opts in
      res_bind (expects (count \<le> MAX_OPTIONS) Invalid_Argument) (\<lambda>_.
      let data_header_size = 8 + count * 2 * 8;
          header_size = PRELUDE_SIZE + data_header_size in
      res_bind (check_entries opts 0) (\<lambda>data_size.
      res_bind (expects (header_size + data_size + CRC32_SIZE \<le> MAX_TOTAL_SIZE) Invalid_Argument) (\<lambda>_.
      let entries = sort_key fst (get_strings opts);
          (offs, dat) = write_entries header_size entries
      in Inr (MAGIC @ [FORMAT_VERSION, FLAG_CRC_PRESENT, 0, 0] @ enc64 (word_of_nat count)
              @ offs @ dat @ crc_to_bytes (crc32_compute dat))))))"

subsection \<open>deserialize\<close>

fun read_offsets :: "u8 list \<Rightarrow> nat \<Rightarrow> nat \<Rightarrow> (nat \<times> nat) list result" where
  "read_offsets base i 0 = Inr []"
| "read_offsets base i (Suc n) =
     res_bind (rd64 base (PRELUDE_SIZE + (1 + 2 * i) * 8)) (\<lambda>k.
     res_bind (rd64 base (PRELUDE_SIZE + (1 + 2 * i + 1) * 8)) (\<lambda>v.
     res_bind (read_offsets base (Suc i) n) (\<lambda>rest. Inr ((unat k, unat v) # rest))))"

definition emplace :: "string \<Rightarrow> string \<Rightarrow> (string \<times> string) list \<Rightarrow> (string \<times> string) list" where
  "emplace key val kvs = (if key \<in> set (map fst kvs) then kvs else kvs @ [(key, val)])"

fun read_entries ::
  "u8 list \<Rightarrow> nat \<Rightarrow> nat \<Rightarrow> (nat \<times> nat) list \<Rightarrow> (string \<times> string) list
     \<Rightarrow> (string \<times> string) list result" where
  "read_entries base header_size data_limit [] ret = Inr ret"
| "read_entries base header_size data_limit ((key_offset, value_offset) # offs) ret =
     res_bind (expects (header_size \<le> key_offset \<and> header_size \<le> value_offset) Out_Of_Range) (\<lambda>_.
     res_bind (expects (key_offset < value_offset) Out_Of_Range) (\<lambda>_.
     let next_key_offset = (case offs of (k, _) # _ \<Rightarrow> k | [] \<Rightarrow> data_limit) in
     res_bind (expects (value_offset \<le> next_key_offset) Out_Of_Range) (\<lambda>_.
     res_bind (expects (key_offset < data_limit \<and> value_offset \<le> data_limit) Out_Of_Range) (\<lambda>_.
     let key_len = value_offset - key_offset; value_len = next_key_offset - value_offset in
     res_bind (expects (key_len \<le> MAX_KEY_LEN) Invalid_Argument) (\<lambda>_.
     res_bind (expects (value_len \<le> MAX_VALUE_LEN) Invalid_Argument) (\<lambda>_.
     res_bind (expects (key_offset + key_len \<le> data_limit \<and> value_offset + value_len \<le> data_limit)
                 Out_Of_Range) (\<lambda>_.
     res_bind (rd_bytes base key_offset key_len) (\<lambda>key.
     res_bind (rd_bytes base value_offset value_len) (\<lambda>val.
       read_entries base header_size data_limit offs
         (emplace (bytes_str key) (bytes_str val) ret))))))))))"

definition deserialize :: "u8 list \<Rightarrow> 'v options result" where
  "deserialize base =
     (let total_size = length base in
      res_bind (expects (total_size \<ge> PRELUDE_SIZE + 8) Invalid_Argument) (\<lambda>_.
      res_bind (expects (total_size \<le> MAX_TOTAL_SIZE) Invalid_Argument) (\<lambda>_.
      res_bind (rd_bytes base 0 (length MAGIC)) (\<lambda>magic.
      res_bind (expects (magic = MAGIC) Invalid_Argument) (\<lambda>_.
      res_bind (rd_byte base 4) (\<lambda>version.
      res_bind (rd_byte base 5) (\<lambda>flags.
      res_bind (expects (version = FORMAT_VERSION) Invalid_Argument) (\<lambda>_.
      res_bind (rd64 base PRELUDE_SIZE) (\<lambda>count_word.
      let count = unat count_word in
      res_bind (expects (count \<le> MAX_OPTIONS) Invalid_Argument) (\<lambda>_.
      let data_header_size = 8 + count * 2 * 8;
          header_size = PRELUDE_SIZE + data_header_size in
      res_bind (expects (header_size \<le> total_size) Invalid_Argument) (\<lambda>_.
      res_bind (validate_crc_and_get_data_limit base header_size flags) (\<lambda>data_limit.
      res_bind (read_offsets base 0 count) (\<lambda>offs.
      res_bind (read_entries base header_size data_limit offs []) (\<lambda>ret.
        options_of_strings ret))))))))))))))"


section \<open>Lemmas on the store\<close>

definition wf_keys :: "'v options \<Rightarrow> bool" where
  "wf_keys opts \<longleftrightarrow> distinct (map fst opts) \<and> (\<forall>k\<in>set (map fst opts). normalise k = k)"

lemma insert_options_wf:
  "insert_options opts kvs = Inr opts' \<Longrightarrow> wf_keys opts \<Longrightarrow> wf_keys opts'"
proof (induction opts kvs rule: insert_options.induct)
  case (1 opts)
  then show ?case by simp
next
  case (2 opts key ov rest)
  then show ?case by (auto simp: Let_def wf_keys_def split: if_splits)
qed

lemma make_options_wf: "make_options kvs = Inr opts \<Longrightarrow> wf_keys opts"
  unfolding make_options_def by (rule insert_options_wf) (auto simp: wf_keys_def)

lemma insert_if_absent_wf: "wf_keys opts \<Longrightarrow> wf_keys (snd (insert_if_absent key s opts))"
  by (auto simp: insert_if_absent_def wf_keys_def Let_def)

lemma insert_options_id:
  assumes "distinct (map fst opts @ map fst kvs)" and "\<forall>k\<in>set (map fst kvs). normalise k = k"
  shows "insert_options opts kvs = Inr (opts @ kvs)"
  using assms
proof (induction opts kvs rule: insert_options.induct)
  case (1 opts)
  then show ?case by simp
next
  case (2 opts key ov rest)
  then show ?case by (simp add: Let_def)
qed

lemma fst_get_strings [simp]: "map fst (get_strings opts) = map fst opts"
  by (simp add: get_strings_def split_def o_def)

lemma get_strings_unparsed [simp]: "get_strings (from_strings kvs) = kvs"
  by (simp add: get_strings_def from_strings_def unparsed_def split_def o_def)

section \<open>Lemmas on the format\<close>

lemma bytes_str_str_bytes [simp]: "bytes_str (str_bytes s) = s"
proof -
  have "char_of (unat (word_of_nat (of_char c) :: u8)) = c" for c :: char
  proof -
    have "(of_char c :: nat) < 256" by simp
    then have "unat (word_of_nat (of_char c) :: u8) = of_char c" by (simp add: unat_of_nat)
    then show ?thesis by simp
  qed
  then show ?thesis by (simp add: bytes_str_def str_bytes_def o_def map_idI)
qed

lemma length_str_bytes [simp]: "length (str_bytes s) = length s"
  by (simp add: str_bytes_def)

lemma length_crc_to_bytes [simp]: "length (crc_to_bytes c) = 4"
  by (simp add: crc_to_bytes_def)

lemma crc_bytes_join:
  "ucast (ucast (c AND 0xFF) :: u8) OR push_bit 8 (ucast (ucast (drop_bit 8 c AND 0xFF) :: u8))
     OR push_bit 16 (ucast (ucast (drop_bit 16 c AND 0xFF) :: u8))
     OR push_bit 24 (ucast (ucast (drop_bit 24 c AND 0xFF) :: u8)) = (c :: u32)"
proof (rule bit_word_eqI)
  fix n :: nat
  assume n: "n < LENGTH(32)"
  have m: "(0xFF :: u32) = mask 8" by (simp add: mask_eq_exp_minus_1)
  from n consider "n < 8" | "8 \<le> n \<and> n < 16" | "16 \<le> n \<and> n < 24" | "24 \<le> n \<and> n < 32"
    by fastforce
  then show "bit (ucast (ucast (c AND 0xFF) :: u8) OR push_bit 8 (ucast (ucast (drop_bit 8 c AND 0xFF) :: u8))
     OR push_bit 16 (ucast (ucast (drop_bit 16 c AND 0xFF) :: u8))
     OR push_bit 24 (ucast (ucast (drop_bit 24 c AND 0xFF) :: u8)) :: u32) n = bit c n"
    unfolding m by cases (auto simp: bit_simps)
qed

lemma rd_crc_to_bytes:
  assumes "length pre = pos"
  shows "rd_crc (pre @ crc_to_bytes c @ post) pos = Inr c"
proof -
  have "rd_byte (pre @ crc_to_bytes c @ post) (pos + i) = Inr (crc_to_bytes c ! i)" if "i < 4" for i
    using assms that by (simp add: rd_byte_def nth_append)
  from this [of 0] this [of 1] this [of 2] this [of 3] show ?thesis
    unfolding rd_crc_def by (simp add: crc_to_bytes_def crc_bytes_join)
qed

text \<open>The offsets as numbers: where each key and each value starts.\<close>

fun layout :: "nat \<Rightarrow> (string \<times> string) list \<Rightarrow> (nat \<times> nat) list" where
  "layout off [] = []"
| "layout off ((k, v) # es) = (off, off + length k) # layout (off + length k + length v) es"

abbreviation data_bytes :: "(string \<times> string) list \<Rightarrow> u8 list" where
  "data_bytes es \<equiv> concat (map (\<lambda>(k, v). str_bytes k @ str_bytes v) es)"

abbreviation data_len :: "(string \<times> string) list \<Rightarrow> nat" where
  "data_len es \<equiv> total (\<lambda>(k, v). length k + length v) es"

lemma length_layout [simp]: "length (layout off es) = length es"
  by (induction off es rule: layout.induct) auto

lemma length_data_bytes [simp]: "length (data_bytes es) = data_len es"
  by (induction es) auto

lemma layout_bound: "(a, b) \<in> set (layout off es) \<Longrightarrow> a \<le> off + data_len es \<and> b \<le> off + data_len es"
  by (induction off es rule: layout.induct) auto

lemma write_entries_eq:
  "write_entries off es =
     (concat (map (\<lambda>(a, b). enc64 (word_of_nat a) @ enc64 (word_of_nat b)) (layout off es)),
      data_bytes es)"
  by (induction off es rule: write_entries.induct) (simp_all add: Let_def)

lemma length_offsets [simp]:
  "length (concat (map (\<lambda>(a, b). enc64 (word_of_nat a) @ enc64 (word_of_nat b)) ps)) = 16 * length ps"
  by (induction ps) auto

lemma read_offsets_write:
  assumes "length pre = PRELUDE_SIZE + (1 + 2 * i) * 8"
    and "\<forall>(a, b)\<in>set ps. a < 2 ^ 64 \<and> b < 2 ^ 64"
  shows "read_offsets (pre @ concat (map (\<lambda>(a, b). enc64 (word_of_nat a) @ enc64 (word_of_nat b)) ps)
           @ post) i (length ps) = Inr ps"
  using assms
proof (induction ps arbitrary: i pre)
  case Nil
  then show ?case by simp
next
  case (Cons p ps)
  obtain a b where p: "p = (a, b)" by force
  let ?w = "\<lambda>n. enc64 (word_of_nat n)"
  let ?rest = "concat (map (\<lambda>(a, b). ?w a @ ?w b) ps) @ post"
  have ab: "a < 2 ^ 64" "b < 2 ^ 64" using Cons.prems(2) p by auto
  have rda: "rd64 (pre @ ?w a @ ?w b @ ?rest) (PRELUDE_SIZE + (1 + 2 * i) * 8) = Inr (word_of_nat a)"
    by (rule rd64_enc) (rule Cons.prems(1))
  have "rd64 ((pre @ ?w a) @ ?w b @ ?rest) (PRELUDE_SIZE + (1 + 2 * i + 1) * 8) = Inr (word_of_nat b)"
    by (rule rd64_enc) (simp add: Cons.prems(1))
  then have rdb: "rd64 (pre @ ?w a @ ?w b @ ?rest) (PRELUDE_SIZE + (1 + 2 * i + 1) * 8)
      = Inr (word_of_nat b)" by simp
  have "read_offsets ((pre @ ?w a @ ?w b) @ ?rest) (Suc i) (length ps) = Inr ps"
    by (rule Cons.IH) (use Cons.prems in auto)
  then have rest: "read_offsets (pre @ ?w a @ ?w b @ ?rest) (Suc i) (length ps) = Inr ps"
    by simp
  have "unat (word_of_nat a :: u64) = a" "unat (word_of_nat b :: u64) = b"
    using ab by (simp_all add: unat_of_nat)
  with rda rdb rest show ?case by (simp add: p)
qed

lemma emplace_new: "key \<notin> set (map fst kvs) \<Longrightarrow> emplace key val kvs = kvs @ [(key, val)]"
  by (simp add: emplace_def)

lemma rd_bytes_mid:
  "length pre = off \<Longrightarrow> n = length xs \<Longrightarrow> rd_bytes (pre @ xs @ post) off n = Inr xs"
  by (simp add: rd_bytes_def)

lemma read_entries_write:
  assumes "length pre = off" and "h \<le> off" and "limit = off + data_len es"
    and "\<forall>(k, v)\<in>set es. k \<noteq> [] \<and> length k \<le> MAX_KEY_LEN \<and> length v \<le> MAX_VALUE_LEN"
    and "distinct (map fst ret @ map fst es)"
  shows "read_entries (pre @ data_bytes es @ post) h limit (layout off es) ret = Inr (ret @ es)"
  using assms
proof (induction es arbitrary: pre off ret)
  case Nil
  then show ?case by simp
next
  case (Cons e es)
  obtain k v where e: "e = (k, v)" by force
  let ?off = "off + length k + length v"
  let ?rest = "data_bytes es @ post"
  let ?base = "pre @ str_bytes k @ str_bytes v @ ?rest"
  from Cons.prems have kv: "k \<noteq> []" "length k \<le> MAX_KEY_LEN" "length v \<le> MAX_VALUE_LEN"
    and fresh: "k \<notin> set (map fst ret)"
    by (auto simp: e)
  have next_off: "(case layout ?off es of (k, _) # _ \<Rightarrow> k | [] \<Rightarrow> limit) = ?off"
    using Cons.prems(3) by (cases es) (auto simp: e)
  have rk: "rd_bytes ?base off (length k) = Inr (str_bytes k)"
    by (rule rd_bytes_mid) (use Cons.prems(1) in auto)
  have "rd_bytes ((pre @ str_bytes k) @ str_bytes v @ ?rest) (off + length k) (length v)
      = Inr (str_bytes v)"
    by (rule rd_bytes_mid) (use Cons.prems(1) in auto)
  then have rv: "rd_bytes ?base (off + length k) (length v) = Inr (str_bytes v)" by simp
  have "read_entries ((pre @ str_bytes k @ str_bytes v) @ ?rest) h limit (layout ?off es)
      (ret @ [(k, v)]) = Inr ((ret @ [(k, v)]) @ es)"
    by (rule Cons.IH) (use Cons.prems in \<open>auto simp: e\<close>)
  then have tail: "read_entries ?base h limit (layout ?off es) (ret @ [(k, v)]) = Inr (ret @ (k, v) # es)"
    by simp
  have "off < limit" "off + length k \<le> limit" "?off \<le> limit"
    using Cons.prems(3) kv(1) by (auto simp: e)
  with kv fresh rk rv tail Cons.prems(2) next_off show ?case
    by (simp add: e Let_def emplace_new)
qed

lemma check_entries_Inr:
  "check_entries opts n = Inr m \<longleftrightarrow>
     m = n + data_len (get_strings opts) \<and>
     (\<forall>(k, ov)\<in>set opts. length k \<le> MAX_KEY_LEN \<and> ov_value ov = None \<and>
        length (ov_string ov) \<le> MAX_VALUE_LEN)"
  by (induction opts n rule: check_entries.induct)
    (auto simp: res_bind_eq_Inr get_strings_def split: prod.splits)


section \<open>The round trip and its limits\<close>

text \<open>What a serialised store looks like: the pieces in order, with the lengths that locate them.\<close>

lemma serialize_shape:
  assumes "serialize opts = Inr buf"
  defines "es \<equiv> sort_key fst (get_strings opts)"
  defines "h \<equiv> 16 + 16 * length opts"
  defines "hdr \<equiv> MAGIC @ [FORMAT_VERSION, FLAG_CRC_PRESENT, 0, 0] @ enc64 (word_of_nat (length opts))"
  defines "offs \<equiv> concat (map (\<lambda>(a, b). enc64 (word_of_nat a) @ enc64 (word_of_nat b)) (layout h es))"
  shows "buf = hdr @ offs @ data_bytes es @ crc_to_bytes (crc32_compute (data_bytes es))"
    and "length opts \<le> MAX_OPTIONS" and "h + data_len es + 4 \<le> MAX_TOTAL_SIZE"
    and "\<forall>(k, v)\<in>set es. length k \<le> MAX_KEY_LEN \<and> length v \<le> MAX_VALUE_LEN"
    and "length hdr = 16" and "length offs = 16 * length opts"
proof -
  have len: "data_len (get_strings opts) = data_len es"
    unfolding es_def by (rule total_mset) simp
  let ?h = "PRELUDE_SIZE + (8 + length opts * 2 * 8)"
  let ?out = "\<lambda>(offs, dat). MAGIC @ [FORMAT_VERSION, FLAG_CRC_PRESENT, 0, 0]
      @ enc64 (word_of_nat (length opts)) @ offs @ dat @ crc_to_bytes (crc32_compute dat)"
  have ser: "serialize opts =
      res_bind (expects (length opts \<le> MAX_OPTIONS) Invalid_Argument) (\<lambda>_.
      res_bind (check_entries opts 0) (\<lambda>ds.
      res_bind (expects (?h + ds + CRC32_SIZE \<le> MAX_TOTAL_SIZE) Invalid_Argument) (\<lambda>_.
        Inr (?out (write_entries ?h es)))))"
    unfolding serialize_def Let_def es_def by (simp only: split_def)
  obtain ds where cnt: "length opts \<le> MAX_OPTIONS" and chk: "check_entries opts 0 = Inr ds"
    and size: "?h + ds + CRC32_SIZE \<le> MAX_TOTAL_SIZE" and out: "buf = ?out (write_entries ?h es)"
    using assms(1) unfolding ser res_bind_eq_Inr expects_eq_Inr by blast
  have h: "PRELUDE_SIZE + (8 + length opts * 2 * 8) = h"
    by (simp add: PRELUDE_SIZE_def h_def)
  from chk have *: "length opts \<le> MAX_OPTIONS" "h + data_len es + 4 \<le> MAX_TOTAL_SIZE"
    "\<forall>(k, ov)\<in>set opts. length k \<le> MAX_KEY_LEN \<and> ov_value ov = None \<and>
        length (ov_string ov) \<le> MAX_VALUE_LEN"
    using cnt size len unfolding h by (simp_all add: check_entries_Inr CRC32_SIZE_def)
  have buf: "buf = MAGIC @ [FORMAT_VERSION, FLAG_CRC_PRESENT, 0, 0] @ enc64 (word_of_nat (length opts)) @
       fst (write_entries h es) @ snd (write_entries h es) @
       crc_to_bytes (crc32_compute (snd (write_entries h es)))"
    using out unfolding h by (simp add: split_def)
  show "buf = hdr @ offs @ data_bytes es @ crc_to_bytes (crc32_compute (data_bytes es))"
    unfolding buf write_entries_eq hdr_def offs_def by simp
  show "length opts \<le> MAX_OPTIONS" and "h + data_len es + 4 \<le> MAX_TOTAL_SIZE"
    using * by simp_all
  show "\<forall>(k, v)\<in>set es. length k \<le> MAX_KEY_LEN \<and> length v \<le> MAX_VALUE_LEN"
    using *(3) by (auto simp: es_def get_strings_def)
  show "length hdr = 16" by (simp add: hdr_def MAGIC_def)
  show "length offs = 16 * length opts"
    by (simp add: offs_def es_def get_strings_def)
qed

text \<open>Reading the header, the checksum and the offset table of a serialised store succeeds.\<close>

lemma deserialize_serialized:
  assumes ser: "serialize opts = Inr buf"
  defines "es \<equiv> sort_key fst (get_strings opts)"
  defines "h \<equiv> 16 + 16 * length opts"
  shows "deserialize buf =
    res_bind (read_entries buf h (h + data_len es) (layout h es) []) options_of_strings"
proof -
  note shape = serialize_shape [OF ser, folded es_def h_def]
  let ?w = "\<lambda>n. enc64 (word_of_nat n)"
  let ?offs = "concat (map (\<lambda>(a, b). ?w a @ ?w b) (layout h es))"
  let ?crc = "crc32_compute (data_bytes es)"
  let ?pre = "MAGIC @ [FORMAT_VERSION, FLAG_CRC_PRESENT, 0, 0]"
  have buf: "buf = ?pre @ ?w (length opts) @ ?offs @ data_bytes es @ crc_to_bytes ?crc"
    using shape(1) by simp
  have len: "length buf = h + data_len es + 4"
    using shape(6) by (simp add: buf MAGIC_def h_def)
  have n: "length (layout h es) = length opts" by (simp add: es_def get_strings_def)
  have cnt: "unat (word_of_nat (length opts) :: u64) = length opts"
    using shape(2) by (simp add: unat_of_nat MAX_OPTIONS_def)
  have count: "rd64 buf PRELUDE_SIZE = Inr (word_of_nat (length opts))"
    unfolding buf by (rule rd64_enc) (simp add: MAGIC_def PRELUDE_SIZE_def)
  have magic: "rd_bytes buf 0 (length MAGIC) = Inr MAGIC"
    by (simp add: buf rd_bytes_def)
  have ver: "rd_byte buf 4 = Inr FORMAT_VERSION" "rd_byte buf 5 = Inr FLAG_CRC_PRESENT"
    by (simp_all add: buf rd_byte_def MAGIC_def str_bytes_def nth_append)
  have "rd_crc (((?pre @ ?w (length opts) @ ?offs) @ data_bytes es) @ crc_to_bytes ?crc @ [])
      (h + data_len es) = Inr ?crc"
    by (rule rd_crc_to_bytes) (use shape(6) in \<open>simp add: MAGIC_def h_def\<close>)
  then have crc: "rd_crc buf (h + data_len es) = Inr ?crc" by (simp add: buf)
  have "rd_bytes ((?pre @ ?w (length opts) @ ?offs) @ data_bytes es @ crc_to_bytes ?crc)
      h (data_len es) = Inr (data_bytes es)"
    by (rule rd_bytes_mid) (use shape(6) in \<open>simp_all add: MAGIC_def h_def\<close>)
  then have dat: "rd_bytes buf h (data_len es) = Inr (data_bytes es)" by (simp add: buf)
  have limit: "validate_crc_and_get_data_limit buf h FLAG_CRC_PRESENT = Inr (h + data_len es)"
    using len crc dat
    by (simp add: validate_crc_and_get_data_limit_def Let_def CRC32_SIZE_def FLAG_CRC_PRESENT_def)
  have "read_offsets ((?pre @ ?w (length opts)) @ ?offs @ data_bytes es @ crc_to_bytes ?crc) 0
      (length (layout h es)) = Inr (layout h es)"
  proof (rule read_offsets_write)
    show "length (?pre @ ?w (length opts)) = PRELUDE_SIZE + (1 + 2 * 0) * 8"
      by (simp add: MAGIC_def PRELUDE_SIZE_def)
    show "\<forall>(a, b)\<in>set (layout h es). a < 2 ^ 64 \<and> b < 2 ^ 64"
      using layout_bound [of _ _ h es] shape(3) by (fastforce simp: MAX_TOTAL_SIZE_def)
  qed
  then have offs: "read_offsets buf 0 (length opts) = Inr (layout h es)"
    using n by (simp add: buf)
  have "PRELUDE_SIZE + (8 + length opts * 2 * 8) = h"
    by (simp add: h_def PRELUDE_SIZE_def)
  then show ?thesis
    using len shape(2,3) count magic ver limit offs cnt
    by (simp add: deserialize_def Let_def h_def PRELUDE_SIZE_def)
qed

lemma config_roundtrip_aux:
  fixes opts :: "'v options"
  assumes "wf_keys opts" and "[] \<notin> set (map fst opts)" and ser: "serialize opts = Inr buf"
  shows "deserialize buf = (Inr (from_strings (sort_key fst (get_strings opts))) :: 'v options result)"
proof -
  let ?es = "sort_key fst (get_strings opts)"
  let ?h = "16 + 16 * length opts"
  note shape = serialize_shape [OF ser]
  have keys: "set (map fst ?es) = set (map fst opts)"
    by (metis fst_get_strings set_map set_sort)
  have dist: "distinct (map fst ?es)"
  proof -
    have "mset (map fst ?es) = mset (map fst opts)" by (metis fst_get_strings mset_map mset_sort)
    then show ?thesis using assms(1) by (metis mset_eq_imp_distinct_iff wf_keys_def)
  qed
  let ?pre = "(MAGIC @ [FORMAT_VERSION, FLAG_CRC_PRESENT, 0, 0] @ enc64 (word_of_nat (length opts))) @
      concat (map (\<lambda>(a, b). enc64 (word_of_nat a) @ enc64 (word_of_nat b)) (layout ?h ?es))"
  have "read_entries (?pre @ data_bytes ?es @ crc_to_bytes (crc32_compute (data_bytes ?es))) ?h
      (?h + data_len ?es) (layout ?h ?es) [] = Inr ([] @ ?es)"
  proof (rule read_entries_write)
    show "length ?pre = ?h" using shape(5,6) by simp
    show "\<forall>(k, v)\<in>set ?es. k \<noteq> [] \<and> length k \<le> MAX_KEY_LEN \<and> length v \<le> MAX_VALUE_LEN"
      using shape(4) keys assms(2) by force
  qed (use dist in auto)
  then have "read_entries buf ?h (?h + data_len ?es) (layout ?h ?es) [] = Inr ?es"
    using shape(1) by simp
  moreover have "(options_of_strings ?es :: 'v options result) = Inr (from_strings ?es)"
  proof -
    have f: "map fst (from_strings ?es :: 'v options) = map fst ?es"
      by (simp add: from_strings_def split_def o_def)
    have "\<forall>k\<in>set (map fst (from_strings ?es :: 'v options)). normalise k = k"
      unfolding f keys using assms(1) by (simp add: wf_keys_def)
    then show ?thesis
      unfolding options_of_strings_def make_options_def
      using insert_options_id [of "[]" "from_strings ?es"] dist f by (metis append_Nil list.simps(8))
  qed
  ultimately show ?thesis by (simp add: deserialize_serialized [OF ser])
qed

text \<open>Every read of \<open>deserialize\<close> stays inside the buffer.\<close>

lemma read_offsets_defined:
  "16 + 16 * (i + n) \<le> length base \<Longrightarrow> defined (read_offsets base i n)"
proof (induction n arbitrary: i)
  case 0
  then show ?case by simp
next
  case (Suc n)
  have "defined (rd64 base (PRELUDE_SIZE + (1 + 2 * i) * 8))"
    and "defined (rd64 base (PRELUDE_SIZE + (1 + 2 * i + 1) * 8))"
    using Suc.prems by (simp_all add: rd64_def PRELUDE_SIZE_def)
  moreover have "defined (read_offsets base (Suc i) n)"
    using Suc.prems by (intro Suc.IH) simp
  ultimately show ?case unfolding read_offsets.simps by (intro defined_bind) simp_all
qed

lemma read_entries_defined:
  "limit \<le> length base \<Longrightarrow> defined (read_entries base h limit offs ret)"
proof (induction base h limit offs ret rule: read_entries.induct)
  case (1 base h limit ret)
  then show ?case by simp
next
  case (2 base h limit k v offs ret)
  show ?case
    unfolding read_entries.simps Let_def
    apply (intro defined_bind defined_expects)
            apply (simp_all add: Let_def 2)
     apply (use 2(2) in \<open>simp_all add: rd_bytes_def\<close>)
    done
qed

lemma validate_crc_limit:
  "validate_crc_and_get_data_limit base h flags = Inr limit \<Longrightarrow> limit \<le> length base"
  by (auto simp: validate_crc_and_get_data_limit_def Let_def CRC32_SIZE_def res_bind_eq_Inr
      split: if_splits)

lemma rd_byte_defined: "i < length bs \<Longrightarrow> defined (rd_byte bs i)"
  by (simp add: rd_byte_def)

lemma rd_crc_defined: "pos + 4 \<le> length bs \<Longrightarrow> defined (rd_crc bs pos)"
  unfolding rd_crc_def by (intro defined_bind defined_Inr rd_byte_defined) simp_all

lemma validate_crc_defined: "defined (validate_crc_and_get_data_limit base h flags)"
proof (cases "h + CRC32_SIZE \<le> length base")
  case True
  then have "defined (rd_crc base (length base - CRC32_SIZE))"
    and "defined (rd_bytes base h (length base - CRC32_SIZE - h))"
    by (auto simp: CRC32_SIZE_def rd_bytes_def intro!: rd_crc_defined)
  then show ?thesis
    unfolding validate_crc_and_get_data_limit_def Let_def
    by (auto intro!: defined_bind defined_expects)
next
  case False
  then show ?thesis by (simp add: validate_crc_and_get_data_limit_def Let_def)
qed

lemma insert_options_defined: "defined (insert_options opts kvs)"
  by (induction opts kvs rule: insert_options.induct) (auto simp: Let_def)

lemma deserialize_defined_aux: "defined (deserialize buf :: 'v options result)"
proof -
  have reads: "defined (rd_bytes buf 0 (length MAGIC))" "defined (rd_byte buf 4)"
    "defined (rd_byte buf 5)" "defined (rd64 buf PRELUDE_SIZE)"
    if "length buf \<ge> PRELUDE_SIZE + 8"
    using that by (simp_all add: rd_bytes_def rd_byte_def rd64_def PRELUDE_SIZE_def MAGIC_def)
  have offs: "defined (read_offsets buf 0 n)" if "PRELUDE_SIZE + (8 + n * 2 * 8) \<le> length buf" for n
    using that by (intro read_offsets_defined) (simp add: PRELUDE_SIZE_def)
  have opts: "defined (options_of_strings ret :: 'v options result)" for ret
    by (simp add: options_of_strings_def make_options_def insert_options_defined)
  show ?thesis
    unfolding deserialize_def Let_def
    by (intro defined_bind defined_expects reads offs opts validate_crc_defined read_entries_defined)
      (auto dest: validate_crc_limit)
qed

section \<open>Properties\<close>

lemma map_of_replace_value: "map_of (replace_value key ov opts) k =
    (if k = key \<and> key \<in> set (map fst opts) then Some ov else map_of opts k)"
  by (induction key ov opts rule: replace_value.induct) (auto, force+)

lemma fst_replace_value [simp]: "map fst (replace_value key ov opts) = map fst opts"
  by (induction key ov opts rule: replace_value.induct) auto

lemma get_option_entry:
  assumes "get_option key ty factory opts = (Inr v, opts')"
  shows "\<exists>ov. map_of opts' key = Some ov \<and> ov_value ov = Some (ty, v)"
proof -
  let ?opts1 = "if key \<in> set (map fst opts) then opts else opts @ [(key, unparsed [])]"
  have in1: "key \<in> set (map fst ?opts1)" by simp
  then obtain ov where ov: "map_of ?opts1 key = Some ov"
    by (metis map_of_eq_None_iff option.exhaust set_map)
  show ?thesis
  proof (cases "ov_value ov")
    case (Some tv)
    then show ?thesis
      using assms ov by (cases tv) (auto simp: get_option_def Let_def split: if_splits)
  next
    case None
    then have "opts' = replace_value key (ov\<lparr>ov_value := Some (ty, v)\<rparr>) ?opts1"
      using assms ov by (auto simp: get_option_def Let_def split: if_splits sum.splits)
    then have "map_of opts' key = Some (ov\<lparr>ov_value := Some (ty, v)\<rparr>)"
      using in1 by (simp only: map_of_replace_value) simp
    then show ?thesis by simp
  qed
qed

lemma get_option_present:
  assumes "map_of opts key = Some ov" and "ov_value ov = Some (t, v)"
  shows "get_option key ty factory opts = (if t = ty then Inr v else Inl Invalid_Argument, opts)"
proof -
  have "key \<in> set (map fst opts)" using assms(1) by (metis map_of_SomeD fst_conv image_eqI set_map)
  then show ?thesis using assms by (simp add: get_option_def)
qed

text \<open>An option value that is accessed is parsed once and cached. After an access that returns,
  every later access of the same key with the same type returns the same value and changes nothing,
  whatever its factory would do; an access with another type is an invalid-argument error.\<close>

theorem get_option_cached:
  assumes "get_option key ty factory opts = (Inr v, opts')"
  shows "get_option key ty factory' opts' = (Inr v, opts') \<and>
    (ty' \<noteq> ty \<longrightarrow> get_option key ty' factory' opts' = (Inl Invalid_Argument, opts'))"
proof -
  obtain ov where ov: "map_of opts' key = Some ov" "ov_value ov = Some (ty, v)"
    using get_option_entry [OF assms] by blast
  show ?thesis by (simp add: get_option_present [OF ov])
qed

theorem get_option_cached_witness:
  "\<exists>opts'. get_option ''log'' 1 (\<lambda>s. Inr (length s)) [(''log'', unparsed ''INFO'')] = (Inr 4, opts') \<and>
     get_option ''log'' 1 (\<lambda>_. Inl Bad_Value) opts' = (Inr 4, opts') \<and>
     get_option ''log'' 2 (\<lambda>_. Inl Bad_Value) opts' = (Inl Invalid_Argument, opts')"
proof -
  have "\<exists>opts'. get_option ''log'' 1 (\<lambda>s. Inr (length s)) [(''log'', unparsed ''INFO'')] = (Inr 4, opts')"
    by (simp add: get_option_def unparsed_def DEFAULTS_def)
  then obtain opts' where
    1: "get_option ''log'' 1 (\<lambda>s. Inr (length s)) [(''log'', unparsed ''INFO'')] = (Inr 4, opts')" by blast
  show ?thesis using 1 get_option_cached [OF 1, of "\<lambda>_. Inl Bad_Value" 2] by auto
qed

text \<open>Property C31: serialising options and deserialising the buffer. Whatever store \<open>serialize\<close> accepts
  (normalised, distinct, non-empty keys), \<open>deserialize\<close> rebuilds from the bytes the same keys and
  strings, in key order, unparsed.\<close>

theorem config_roundtrip:
  fixes opts :: "'v options"
  assumes "wf_keys opts" and "[] \<notin> set (map fst opts)" and "serialize opts = Inr buf"
  shows "deserialize buf = (Inr (from_strings (sort_key fst (get_strings opts))) :: 'v options result)"
  by (rule config_roundtrip_aux [OF assms])

theorem config_roundtrip_witness:
  "\<exists>buf. serialize ([(''log'', unparsed ''INFO''), (''a'', unparsed [])] :: unit options) = Inr buf \<and>
     deserialize buf = (Inr [(''a'', unparsed []), (''log'', unparsed ''INFO'')] :: unit options result)"
proof -
  let ?o = "[(''log'', unparsed ''INFO''), (''a'', unparsed [])] :: unit options"
  have "\<exists>buf. serialize ?o = Inr buf"
    by (simp add: serialize_def MAX_OPTIONS_def MAX_KEY_LEN_def MAX_VALUE_LEN_def MAX_TOTAL_SIZE_def
        PRELUDE_SIZE_def CRC32_SIZE_def unparsed_def Let_def split_def)
  then obtain buf where s: "serialize ?o = Inr buf" by blast
  have wf: "wf_keys ?o" by (simp add: wf_keys_def) code_simp
  have ne: "[] \<notin> set (map fst ?o)" by simp
  have "sort_key fst (get_strings ?o) = [(''a'', []), (''log'', ''INFO'')]"
    by code_simp
  then have "deserialize buf = (Inr [(''a'', unparsed []), (''log'', unparsed ''INFO'')] :: unit options result)"
    using config_roundtrip [OF wf ne s] by (simp add: from_strings_def)
  with s show ?thesis by blast
qed

text \<open>Property C32: whatever bytes it is given, \<open>deserialize\<close> reads none outside the buffer: every
  input is either rejected with an exception or gives options.\<close>

theorem deserialize_in_bounds: "defined (deserialize buf :: 'v options result)"
  by (rule deserialize_defined_aux)

lemma sorted_empty_key_first:
  assumes "[] \<in> set (map fst opts)"
  obtains v es where "sort_key fst (get_strings opts) = ([], v) # es"
proof -
  let ?es = "sort_key fst (get_strings opts)"
  have mem: "[] \<in> set (map fst ?es)"
    using assms by (metis fst_get_strings set_map set_sort)
  then obtain e es where es: "?es = e # es" by (cases ?es) auto
  have "sorted (map fst ?es)" by (rule sorted_sort_key)
  then have "fst e \<le> []" using mem es by auto
  then have "fst e = []" by simp
  then show thesis using that [of "snd e" es] es by (cases e) simp
qed

text \<open>A store that holds an option with the empty key is serialised, and the buffer is then
  rejected by \<open>deserialize\<close>: the round trip fails for that store.\<close>

theorem serialize_empty_key_rejected:
  assumes "[] \<in> set (map fst opts)" and "serialize opts = Inr buf"
  shows "(deserialize buf :: 'v options result) = Inl Out_Of_Range"
proof -
  obtain v es where es: "sort_key fst (get_strings opts) = ([], v) # es"
    by (rule sorted_empty_key_first [OF assms(1)])
  show ?thesis by (simp add: deserialize_serialized [OF assms(2)] es Let_def)
qed

theorem serialize_empty_key_rejected_witness:
  "\<exists>buf. serialize ([([], unparsed ''x'')] :: unit options) = Inr buf \<and>
    (deserialize buf :: unit options result) = Inl Out_Of_Range"
proof -
  have "\<exists>buf. serialize ([([], unparsed ''x'')] :: unit options) = Inr buf"
    by (simp add: serialize_def MAX_OPTIONS_def MAX_KEY_LEN_def MAX_VALUE_LEN_def MAX_TOTAL_SIZE_def
        PRELUDE_SIZE_def CRC32_SIZE_def unparsed_def Let_def split_def)
  then obtain buf where s: "serialize ([([], unparsed ''x'')] :: unit options) = Inr buf" by blast
  have "[] \<in> set (map fst ([([], unparsed ''x'')] :: unit options))" by simp
  from serialize_empty_key_rejected [OF this s] s show ?thesis by blast
qed

end
