(* ===== verification/Scoped_Memory.thy ===== *)
theory Scoped_Memory
  imports Prelude "HOL-Library.AList"
begin

text \<open>
  Allocation statistics: \<^verbatim>\<open>memory/scoped_memory_record.cpp\<close> and the tracking resource adaptor of
  \<^verbatim>\<open>detail/rmm_resource_adaptor_impl.hpp\<close>. The counters are \<^verbatim>\<open>std::int64_t\<close>: every sum is checked with
  \<open>chk64\<close>, and is \<open>Undefined\<close> when it leaves the range. The \<open>plain\<close> operations are the same without
  bounds; \<open>room_for\<close> says which runs of events stay in range, where the two agree. The upstream resource is
  third-party code: what it returns is an argument.
\<close>

section \<open>ScopedMemoryRecord\<close>

record scoped_record =
  num_current_allocs :: int
  num_total_allocs :: int
  current :: int
  total_bytes :: int
  peak :: int
  max_alloc :: int

definition empty_record :: scoped_record where
  "empty_record = \<lparr>num_current_allocs = 0, num_total_allocs = 0, current = 0, total_bytes = 0,
     peak = 0, max_alloc = 0\<rparr>"

definition record_allocation :: "int \<Rightarrow> scoped_record \<Rightarrow> scoped_record result" where
  "record_allocation nbytes r =
     res_bind (chk64 (num_total_allocs r + 1)) (\<lambda>total_allocs.
     res_bind (chk64 (num_current_allocs r + 1)) (\<lambda>current_allocs.
     res_bind (chk64 (current r + nbytes)) (\<lambda>cur.
     res_bind (chk64 (total_bytes r + nbytes)) (\<lambda>tot.
       Inr (r\<lparr>num_total_allocs := total_allocs, num_current_allocs := current_allocs, current := cur, total_bytes := tot,
              peak := max (peak r) cur, max_alloc := max (max_alloc r) nbytes\<rparr>)))))"

definition record_deallocation :: "int \<Rightarrow> scoped_record \<Rightarrow> scoped_record result" where
  "record_deallocation nbytes r =
     res_bind (chk64 (current r - nbytes)) (\<lambda>cur.
     res_bind (chk64 (num_current_allocs r - 1)) (\<lambda>current_allocs.
       Inr (r\<lparr>current := cur, num_current_allocs := current_allocs\<rparr>)))"

definition add_subscope :: "scoped_record \<Rightarrow> scoped_record \<Rightarrow> scoped_record result" where
  "add_subscope sub r =
     res_bind (chk64 (current r + peak sub)) (\<lambda>high.
     res_bind (chk64 (num_total_allocs r + num_total_allocs sub)) (\<lambda>total_allocs.
     res_bind (chk64 (num_current_allocs r + num_current_allocs sub)) (\<lambda>current_allocs.
     res_bind (chk64 (current r + current sub)) (\<lambda>cur.
     res_bind (chk64 (total_bytes r + total_bytes sub)) (\<lambda>tot.
       Inr (r\<lparr>peak := max (peak r) high, max_alloc := max (max_alloc r) (max_alloc sub), num_total_allocs := total_allocs,
              num_current_allocs := current_allocs, current := cur, total_bytes := tot\<rparr>))))))"

definition add_scope :: "scoped_record \<Rightarrow> scoped_record \<Rightarrow> scoped_record result" where
  "add_scope sc r =
     res_bind (chk64 (current r + current sc)) (\<lambda>cur.
     res_bind (chk64 (total_bytes r + total_bytes sc)) (\<lambda>tot.
     res_bind (chk64 (num_total_allocs r + num_total_allocs sc)) (\<lambda>total_allocs.
     res_bind (chk64 (num_current_allocs r + num_current_allocs sc)) (\<lambda>current_allocs.
       Inr (r\<lparr>peak := max (peak r) (peak sc), max_alloc := max (max_alloc r) (max_alloc sc), current := cur, total_bytes := tot,
              num_total_allocs := total_allocs, num_current_allocs := current_allocs\<rparr>)))))"

datatype mem_event = Alloc int | Dealloc int

fun record_event :: "mem_event \<Rightarrow> scoped_record \<Rightarrow> scoped_record result" where
  "record_event (Alloc n) r = record_allocation n r"
| "record_event (Dealloc n) r = record_deallocation n r"

fun record_run :: "mem_event list \<Rightarrow> scoped_record \<Rightarrow> scoped_record result" where
  "record_run [] r = Inr r"
| "record_run (e # es) r = res_bind (record_event e r) (record_run es)"

section \<open>Without bounds\<close>

definition plain_subscope :: "scoped_record \<Rightarrow> scoped_record \<Rightarrow> scoped_record" where
  "plain_subscope sub r =
     r\<lparr>peak := max (peak r) (current r + peak sub),
       max_alloc := max (max_alloc r) (max_alloc sub),
       num_total_allocs := num_total_allocs r + num_total_allocs sub,
       num_current_allocs := num_current_allocs r + num_current_allocs sub,
       current := current r + current sub,
       total_bytes := total_bytes r + total_bytes sub\<rparr>"

fun plain_event :: "mem_event \<Rightarrow> scoped_record \<Rightarrow> scoped_record" where
  "plain_event (Alloc n) r =
     r\<lparr>num_total_allocs := num_total_allocs r + 1,
       num_current_allocs := num_current_allocs r + 1,
       current := current r + n,
       total_bytes := total_bytes r + n,
       peak := max (peak r) (current r + n),
       max_alloc := max (max_alloc r) n\<rparr>"
| "plain_event (Dealloc n) r = r\<lparr>current := current r - n, num_current_allocs := num_current_allocs r - 1\<rparr>"

abbreviation plain_events :: "mem_event list \<Rightarrow> scoped_record \<Rightarrow> scoped_record" where
  "plain_events es r \<equiv> foldl (\<lambda>r e. plain_event e r) r es"

lemmas record_ops = plain_subscope_def empty_record_def

text \<open>
  Folding a finished scope into its parent is the same as having recorded the scope's events on
  the parent itself: the reason \<open>plain_subscope\<close> takes \<open>current + subscope.peak\<close>.
\<close>

lemma plain_subscope_empty:
  "peak r \<ge> current r \<Longrightarrow> max_alloc r \<ge> 0 \<Longrightarrow> plain_subscope empty_record r = r"
  by (simp add: record_ops max_def)

lemma plain_subscope_event:
  "plain_subscope (plain_event e s) r = plain_event e (plain_subscope s r)"
proof (cases e)
  case (Alloc n)
  then show ?thesis by (simp add: record_ops max_def)
next
  case (Dealloc n)
  then show ?thesis by (simp add: record_ops)
qed

lemma plain_subscope_events:
  "plain_subscope (plain_events es s) r = plain_events es (plain_subscope s r)"
  by (induction es arbitrary: s) (simp_all add: plain_subscope_event)

definition record_wf :: "scoped_record \<Rightarrow> bool" where
  "record_wf r \<longleftrightarrow> current r \<le> peak r \<and> 0 \<le> max_alloc r \<and> 0 \<le> peak r \<and> peak r \<le> total_bytes r"

lemma record_wf_empty [simp]: "record_wf empty_record"
  by (simp add: record_wf_def empty_record_def)

lemma plain_subscope_wf: "record_wf r \<Longrightarrow> record_wf s \<Longrightarrow> current r \<le> total_bytes r \<Longrightarrow> record_wf (plain_subscope s r)"
  by (auto simp: record_wf_def plain_subscope_def)

fun event_nonneg :: "mem_event \<Rightarrow> bool" where
  "event_nonneg (Alloc n) = (0 \<le> n)"
| "event_nonneg (Dealloc n) = (0 \<le> n)"

lemma plain_event_wf: "record_wf r \<Longrightarrow> event_nonneg e \<Longrightarrow> record_wf (plain_event e r)"
  by (cases e) (auto simp: record_wf_def record_ops)

lemma record_events_wf:
  "record_wf r \<Longrightarrow> \<forall>e\<in>set es. event_nonneg e \<Longrightarrow> record_wf (plain_events es r)"
  by (induction es arbitrary: r) (simp_all add: plain_event_wf)

text \<open>The peak is the largest value \<open>current\<close> takes over a run of events.\<close>

fun delta :: "mem_event \<Rightarrow> int" where
  "delta (Alloc n) = n"
| "delta (Dealloc n) = - n"

abbreviation net :: "mem_event list \<Rightarrow> int" where
  "net es \<equiv> sum_list (map delta es)"

lemma current_plain_events: "current (plain_events es r) = current r + net es"
proof (induction es arbitrary: r)
  case Nil
  then show ?case by simp
next
  case (Cons e es)
  then show ?case by (cases e) (simp_all add: record_ops)
qed

lemma peak_plain_events_ge:
  assumes "current r \<le> peak r" and "\<forall>e\<in>set es. event_nonneg e"
  shows "peak r \<le> peak (plain_events es r) \<and>
    (\<forall>k\<le>length es. current r + net (take k es) \<le> peak (plain_events es r))"
  using assms
proof (induction es arbitrary: r)
  case Nil
  then show ?case by simp
next
  case (Cons e es)
  have step: "current (plain_event e r) = current r + delta e" "peak r \<le> peak (plain_event e r)"
    "current (plain_event e r) \<le> peak (plain_event e r)"
    using Cons.prems by (cases e; simp add: record_ops)+
  have IH: "peak (plain_event e r) \<le> peak (plain_events (e # es) r)"
    "\<And>k. k \<le> length es \<Longrightarrow> current (plain_event e r) + net (take k es) \<le> peak (plain_events (e # es) r)"
    using Cons.IH [of "plain_event e r"] step(3) Cons.prems(2) by simp_all
  show ?case
  proof (intro conjI allI impI)
    show "peak r \<le> peak (plain_events (e # es) r)" using step IH by simp
    fix k assume k: "k \<le> length (e # es)"
    show "current r + net (take k (e # es)) \<le> peak (plain_events (e # es) r)"
    proof (cases k)
      case 0
      then show ?thesis using Cons.prems(1) step(2) IH(1) by simp
    next
      case (Suc j)
      then show ?thesis using k IH(2) [of j] step(1) by simp
    qed
  qed
qed

lemma peak_plain_events_attained:
  "peak (plain_events es r) = peak r \<or>
   (\<exists>k\<le>length es. peak (plain_events es r) = current r + net (take k es))"
proof (induction es arbitrary: r)
  case Nil
  then show ?case by simp
next
  case (Cons e es)
  have cur: "current (plain_event e r) = current r + delta e"
    by (cases e) (simp_all add: record_ops)
  have pk: "peak (plain_event e r) = peak r \<or> peak (plain_event e r) = current r + delta e"
    by (cases e) (auto simp: record_ops max_def)
  from Cons.IH [of "plain_event e r"] show ?case
  proof
    assume same: "peak (plain_events es (plain_event e r)) = peak (plain_event e r)"
    from pk show ?thesis
    proof
      assume "peak (plain_event e r) = peak r"
      with same show ?thesis by simp
    next
      assume "peak (plain_event e r) = current r + delta e"
      with same show ?thesis by (intro disjI2 exI [of _ 1]) simp
    qed
  next
    assume "\<exists>k\<le>length es. peak (plain_events es (plain_event e r)) =
        current (plain_event e r) + net (take k es)"
    then obtain k where "k \<le> length es"
      "peak (plain_events es (plain_event e r)) = current (plain_event e r) + net (take k es)"
      by blast
    then show ?thesis using cur by (intro disjI2 exI [of _ "Suc k"]) simp
  qed
qed

section \<open>Runs that stay in range\<close>

fun up :: "mem_event \<Rightarrow> int" where
  "up (Alloc n) = n"
| "up (Dealloc n) = 0"

fun down :: "mem_event \<Rightarrow> int" where
  "down (Alloc n) = 0"
| "down (Dealloc n) = n"

abbreviation allocated :: "mem_event list \<Rightarrow> int" where
  "allocated es \<equiv> sum_list (map up es)"

abbreviation freed :: "mem_event list \<Rightarrow> int" where
  "freed es \<equiv> sum_list (map down es)"

text \<open>All that the events can add to or take from a record still fits into its counters.\<close>

definition room_for :: "mem_event list \<Rightarrow> scoped_record \<Rightarrow> bool" where
  "room_for es r \<longleftrightarrow>
     int64_min \<le> num_total_allocs r \<and> num_total_allocs r + int (length es) \<le> int64_max \<and>
     int64_min \<le> num_current_allocs r - int (length es) \<and> num_current_allocs r + int (length es) \<le> int64_max \<and>
     int64_min \<le> current r - freed es \<and> current r + allocated es \<le> int64_max \<and>
     int64_min \<le> total_bytes r \<and> total_bytes r + allocated es \<le> int64_max"

lemma sums_nonneg: "\<forall>e\<in>set es. event_nonneg e \<Longrightarrow> 0 \<le> allocated es \<and> 0 \<le> freed es"
proof (induction es)
  case (Cons e es)
  then show ?case by (cases e) auto
qed simp

lemma room_event:
  assumes "room_for (e # es) r" and "event_nonneg e" and "\<forall>e\<in>set es. event_nonneg e"
  shows "record_event e r = Inr (plain_event e r)" and "room_for es (plain_event e r)" and "room_for es r"
  using assms sums_nonneg [OF assms(3)]
  by (cases e; auto simp: room_for_def record_allocation_def record_deallocation_def chk64_def in_int64_def)+

lemma record_run_plain:
  "room_for es r \<Longrightarrow> \<forall>e\<in>set es. event_nonneg e \<Longrightarrow> record_run es r = Inr (plain_events es r)"
  by (induction es arbitrary: r) (simp_all add: room_event)

lemma room_mono:
  assumes "room_for es r" and "length fs \<le> length es" and "allocated fs \<le> allocated es" and "freed fs \<le> freed es"
  shows "room_for fs r"
  using assms by (auto simp: room_for_def)

lemma take_sums:
  "\<forall>e\<in>set es. event_nonneg e \<Longrightarrow> allocated (take k es) \<le> allocated es \<and> freed (take k es) \<le> freed es"
proof (induction es arbitrary: k)
  case (Cons e es)
  then have n: "0 \<le> allocated es" "0 \<le> freed es" "event_nonneg e" using sums_nonneg [of es] by auto
  then show ?case using Cons by (cases k; cases e) auto
qed simp

lemma room_take:
  assumes "room_for es r" and "\<forall>e\<in>set es. event_nonneg e"
  shows "room_for (take k es) r"
  by (rule room_mono [OF assms(1) _ conjunct1 conjunct2]) (simp, rule take_sums [OF assms(2)], rule take_sums [OF assms(2)])

text \<open>How far \<open>n\<close> events that allocate \<open>A\<close> and free \<open>D\<close> bytes take a record.\<close>

definition moved :: "int \<Rightarrow> int \<Rightarrow> int \<Rightarrow> scoped_record \<Rightarrow> scoped_record \<Rightarrow> bool" where
  "moved n A D r s \<longleftrightarrow>
     total_bytes s = total_bytes r + A \<and>
     num_total_allocs r \<le> num_total_allocs s \<and> num_total_allocs s \<le> num_total_allocs r + n \<and>
     num_current_allocs r - n \<le> num_current_allocs s \<and> num_current_allocs s \<le> num_current_allocs r + n \<and>
     current r - D \<le> current s \<and> current s \<le> current r + A \<and> peak s \<le> max (peak r) (current r + A)"

lemma moved_event: "event_nonneg e \<Longrightarrow> moved 1 (up e) (down e) r (plain_event e r)"
  by (cases e) (simp_all add: moved_def)

lemma moved_trans: "moved n A D r s \<Longrightarrow> moved m B C s q \<Longrightarrow> 0 \<le> B \<Longrightarrow> moved (n + m) (A + B) (D + C) r q"
  unfolding moved_def by linarith

lemma moved_events: "\<forall>e\<in>set es. event_nonneg e \<Longrightarrow> moved (int (length es)) (allocated es) (freed es) r (plain_events es r)"
proof (induction es arbitrary: r)
  case (Cons e es)
  have "moved (1 + int (length es)) (up e + allocated es) (down e + freed es) r (plain_events es (plain_event e r))"
    by (rule moved_trans [OF moved_event Cons.IH]) (use Cons.prems sums_nonneg [of es] in auto)
  then show ?case by simp
qed (simp add: moved_def)

text \<open>A scope that stays in range folds into a parent that has room for its events.\<close>

lemma add_subscope_room:
  assumes "room_for es r" and "\<forall>e\<in>set es. event_nonneg e"
  shows "add_subscope (plain_events es empty_record) r = Inr (plain_subscope (plain_events es empty_record) r)"
proof -
  let ?s = "plain_events es empty_record"
  note B = moved_events [OF assms(2), of empty_record, unfolded moved_def]
  have z: "total_bytes empty_record = 0" "num_total_allocs empty_record = 0" "num_current_allocs empty_record = 0"
    "current empty_record = 0" "peak empty_record = 0" by (simp_all add: empty_record_def)
  have n: "0 \<le> allocated es" "0 \<le> freed es" using sums_nonneg [OF assms(2)] by auto
  have "0 \<le> peak ?s" using peak_plain_events_ge [OF _ assms(2), of empty_record] z by simp
  then have "in_int64 (current r + peak ?s) \<and> in_int64 (num_total_allocs r + num_total_allocs ?s) \<and>
      in_int64 (num_current_allocs r + num_current_allocs ?s) \<and> in_int64 (current r + current ?s) \<and> in_int64 (total_bytes r + total_bytes ?s)"
    using assms(1) B n unfolding room_for_def in_int64_def z by simp
  then show ?thesis by (simp add: add_subscope_def plain_subscope_def chk64_def)
qed

section \<open>The tracking resource adaptor\<close>

text \<open>
  Threads and addresses are numbers. \<open>record_stacks\<close> has an entry for each thread that ever opened
  a scope (or was looked up with \<^verbatim>\<open>operator[]\<close>); the head of the list is the top of the stack.
\<close>

record adaptor =
  main_record :: scoped_record
  record_stacks :: "(nat \<times> scoped_record list) list"
  allocating_threads :: "(nat \<times> nat) list"

definition adaptor_init :: adaptor where
  "adaptor_init = \<lparr>main_record = empty_record, record_stacks = [], allocating_threads = []\<rparr>"

definition stack_of :: "adaptor \<Rightarrow> nat \<Rightarrow> scoped_record list" where
  "stack_of a t = (case map_of (record_stacks a) t of None \<Rightarrow> [] | Some s \<Rightarrow> s)"

definition set_stack :: "nat \<Rightarrow> scoped_record list \<Rightarrow> adaptor \<Rightarrow> adaptor" where
  "set_stack t s a = a\<lparr>record_stacks := AList.update t s (record_stacks a)\<rparr>"

definition begin_scoped_memory_record :: "nat \<Rightarrow> adaptor \<Rightarrow> adaptor" where
  "begin_scoped_memory_record t a = set_stack t (empty_record # stack_of a t) a"

definition end_scoped_memory_record :: "nat \<Rightarrow> (adaptor, scoped_record) act" where
  "end_scoped_memory_record t a =
     (case map_of (record_stacks a) t of
        None \<Rightarrow> (Inl Out_Of_Range, a)
      | Some [] \<Rightarrow> (Inl Out_Of_Range, a)
      | Some (ret # stack) \<Rightarrow>
          (case stack of
             [] \<Rightarrow> (Inr ret, set_stack t [] a)
           | tp # rest \<Rightarrow>
               (case add_subscope ret tp of
                  Inl e \<Rightarrow> (Inl e, a)
                | Inr tp' \<Rightarrow> (Inr ret, set_stack t (tp' # rest) a))))"

text \<open>
  \<open>allocate\<close>: \<open>primary\<close> is what the primary resource returned (\<open>Inl\<close> if it threw). The record of
  the calling thread is looked up with \<^verbatim>\<open>operator[]\<close>, which creates an empty stack for it.
\<close>

definition adaptor_allocate :: "nat \<Rightarrow> nat \<Rightarrow> nat result \<Rightarrow> (adaptor, nat) act" where
  "adaptor_allocate t bytes primary a =
     (case primary of
        Inl e \<Rightarrow> (Inl e, a)
      | Inr ret \<Rightarrow>
          (case to_int64 bytes of
             Inl e \<Rightarrow> (Inl e, a)
           | Inr n \<Rightarrow>
               (case record_allocation n (main_record a) of
                  Inl e \<Rightarrow> (Inl e, a)
                | Inr m \<Rightarrow>
                    (let a1 = a\<lparr>main_record := m\<rparr> in
                     if record_stacks a = [] then (Inr ret, a1)
                     else case stack_of a t of
                            [] \<Rightarrow> (Inr ret, set_stack t [] a1)
                          | tp # rest \<Rightarrow>
                              (case record_allocation n tp of
                                 Inl e \<Rightarrow> (Inl e, a1)
                               | Inr tp' \<Rightarrow>
                                   (let a2 = set_stack t (tp' # rest) a1 in
                                    if map_of (allocating_threads a) ret \<noteq> None then (Inl Logic_Error, a2)
                                    else (Inr ret, a2\<lparr>allocating_threads := (ret, t) # allocating_threads a\<rparr>)))))))"

text \<open>\<open>deallocate\<close> is \<^verbatim>\<open>noexcept\<close>: a size \<open>safe_cast\<close> rejects terminates the program.\<close>

definition adaptor_deallocate :: "nat \<Rightarrow> nat \<Rightarrow> (adaptor, unit) act" where
  "adaptor_deallocate ptr bytes a =
     (case to_int64 bytes of
        Inl e \<Rightarrow> (Inl Fatal, a)
      | Inr n \<Rightarrow>
          (case record_deallocation n (main_record a) of
             Inl e \<Rightarrow> (Inl e, a)
           | Inr m \<Rightarrow>
               (let a1 = a\<lparr>main_record := m\<rparr> in
                case map_of (allocating_threads a) ptr of
                  None \<Rightarrow> (Inr (), a1)
                | Some t \<Rightarrow>
                    (let a2 = a1\<lparr>allocating_threads := AList.delete ptr (allocating_threads a)\<rparr> in
                     case stack_of a t of
                       [] \<Rightarrow> (Inr (), set_stack t [] a2)
                     | tp # rest \<Rightarrow>
                         (case record_deallocation n tp of
                            Inl e \<Rightarrow> (Inl e, a2)
                          | Inr tp' \<Rightarrow> (Inr (), set_stack t (tp' # rest) a2))))))"

lemma stack_of_set_stack [simp]:
  "stack_of (set_stack t s a) u = (if u = t then s else stack_of a u)"
  by (simp add: stack_of_def set_stack_def update_conv')

lemma set_stack_frame [simp]:
  "main_record (set_stack t s a) = main_record a"
  "allocating_threads (set_stack t s a) = allocating_threads a"
  by (simp_all add: set_stack_def)

lemma stack_of_frame [simp]:
  "stack_of (a\<lparr>main_record := r\<rparr>) = stack_of a"
  "stack_of (a\<lparr>allocating_threads := m\<rparr>) = stack_of a"
  by (simp_all add: stack_of_def fun_eq_iff)

text \<open>
  A scope: the allocation events of one thread between \<open>begin\<close> and \<open>end\<close>. An exception is the caller's
  to handle, and the adaptor lives on; undefined behaviour and \<^verbatim>\<open>std::terminate\<close> end the run.
\<close>

datatype adaptor_event = A_Alloc nat nat | A_Free nat nat

fun fatal :: "'a result \<times> 'b \<Rightarrow> 'b result" where
  "fatal (Inl e, b) = (if e = Undefined \<or> e = Fatal then Inl e else Inr b)"
| "fatal (Inr _, b) = Inr b"

fun adaptor_step :: "nat \<Rightarrow> adaptor_event \<Rightarrow> adaptor \<Rightarrow> adaptor result" where
  "adaptor_step t (A_Alloc p n) a = fatal (adaptor_allocate t n (Inr p) a)"
| "adaptor_step t (A_Free p n) a = fatal (adaptor_deallocate p n a)"

fun adaptor_run :: "nat \<Rightarrow> adaptor_event list \<Rightarrow> adaptor \<Rightarrow> adaptor result" where
  "adaptor_run t [] a = Inr a"
| "adaptor_run t (e # es) a = res_bind (adaptor_step t e a) (adaptor_run t es)"

text \<open>What one event adds to the open scope of thread \<open>t\<close>: a deallocation counts where the
  pointer was allocated inside a scope of \<open>t\<close>. The main record counts all of them.\<close>

fun scope_event :: "nat \<Rightarrow> adaptor \<Rightarrow> adaptor_event \<Rightarrow> mem_event list" where
  "scope_event t a (A_Alloc p n) = [Alloc (int n)]"
| "scope_event t a (A_Free p n) =
     (if map_of (allocating_threads a) p = Some t then [Dealloc (int n)] else [])"

fun scope_trace :: "nat \<Rightarrow> adaptor \<Rightarrow> adaptor_event list \<Rightarrow> mem_event list" where
  "scope_trace t a [] = []"
| "scope_trace t a (e # es) =
     scope_event t a e @ (case adaptor_step t e a of Inl _ \<Rightarrow> [] | Inr a' \<Rightarrow> scope_trace t a' es)"

fun main_event :: "adaptor_event \<Rightarrow> mem_event" where
  "main_event (A_Alloc p n) = Alloc (int n)"
| "main_event (A_Free p n) = Dealloc (int n)"

fun event_fits :: "adaptor_event \<Rightarrow> bool" where
  "event_fits (A_Alloc p n) \<longleftrightarrow> n < 2 ^ 63"
| "event_fits (A_Free p n) \<longleftrightarrow> n < 2 ^ 63"

text \<open>The main record and the innermost scope of every thread have room for the events.\<close>

definition roomy :: "mem_event list \<Rightarrow> adaptor \<Rightarrow> bool" where
  "roomy es a \<longleftrightarrow> room_for es (main_record a) \<and> (\<forall>u r rs. stack_of a u = r # rs \<longrightarrow> room_for es r)"

lemma main_event_nonneg [simp]: "event_nonneg (main_event e)" "\<forall>e\<in>set (map main_event es). event_nonneg e"
proof -
  have n: "event_nonneg (main_event e)" for e by (cases e) simp_all
  show "event_nonneg (main_event e)" by (rule n)
  show "\<forall>e\<in>set (map main_event es). event_nonneg e" using n by auto
qed

lemma stack_of_nonempty: "stack_of a t = tp # rest \<Longrightarrow> record_stacks a \<noteq> []"
  by (auto simp: stack_of_def)

lemma adaptor_step_stack:
  assumes "stack_of a t = tp # rest" and "event_fits e" and "roomy (main_event e # map main_event es) a"
  obtains a' where "adaptor_step t e a = Inr a'" and "roomy (map main_event es) a'"
    and "stack_of a' t = plain_events (scope_event t a e) tp # rest"
proof -
  let ?es = "map main_event es"
  have R: "room_for (main_event e # ?es) (main_record a)" "\<And>u r rs. stack_of a u = r # rs \<Longrightarrow> room_for (main_event e # ?es) r"
    using assms(3) by (auto simp: roomy_def)
  note M = room_event [OF R(1) main_event_nonneg(1) main_event_nonneg(2)]
  note S = room_event [OF R(2) main_event_nonneg(1) main_event_nonneg(2)]
  show thesis
  proof (cases e)
    case (A_Alloc p n)
    have n: "to_int64 n = Inr (int n)" using A_Alloc assms(2) by (simp add: to_int64_eq_Inr)
    have "record_allocation (int n) (main_record a) = Inr (plain_event (main_event e) (main_record a))"
      "record_allocation (int n) tp = Inr (plain_event (main_event e) tp)"
      using M(1) S(1) [OF assms(1)] A_Alloc by simp_all
    then have "adaptor_step t e a = Inr (let a2 = set_stack t (plain_event (main_event e) tp # rest) (a\<lparr>main_record := plain_event (main_event e) (main_record a)\<rparr>)
        in if map_of (allocating_threads a) p \<noteq> None then a2 else a2\<lparr>allocating_threads := (p, t) # allocating_threads a\<rparr>)"
      using A_Alloc n assms(1) stack_of_nonempty [OF assms(1)]
      by (simp add: adaptor_allocate_def Let_def del: plain_event.simps)
    then show thesis
      by (rule that) (use A_Alloc assms(1) M(2) S(2,3) in \<open>auto simp: Let_def roomy_def simp del: plain_event.simps\<close>)
  next
    case (A_Free p n)
    have n: "to_int64 n = Inr (int n)" using A_Free assms(2) by (simp add: to_int64_eq_Inr)
    have m: "record_deallocation (int n) (main_record a) = Inr (plain_event (main_event e) (main_record a))" using M(1) A_Free by simp
    let ?a1 = "a\<lparr>main_record := plain_event (main_event e) (main_record a)\<rparr>"
    show thesis
    proof (cases "map_of (allocating_threads a) p")
      case None
      then have "adaptor_step t e a = Inr ?a1" using A_Free n m by (simp add: adaptor_deallocate_def Let_def del: plain_event.simps)
      then show thesis
        by (rule that) (use A_Free None assms(1) M(2) S(3) in \<open>auto simp: roomy_def simp del: plain_event.simps\<close>)
    next
      case (Some u)
      let ?s = "case stack_of a u of [] \<Rightarrow> [] | r # rs \<Rightarrow> plain_event (main_event e) r # rs"
      let ?a2 = "set_stack u ?s (?a1\<lparr>allocating_threads := AList.delete p (allocating_threads a)\<rparr>)"
      have "adaptor_step t e a = Inr ?a2"
      proof (cases "stack_of a u")
        case (Cons r rs)
        then have "record_deallocation (int n) r = Inr (plain_event (main_event e) r)" using S(1) [OF Cons] A_Free by simp
        then show ?thesis using A_Free n m Some Cons by (simp add: adaptor_deallocate_def Let_def del: plain_event.simps)
      qed (use A_Free n m Some in \<open>simp add: adaptor_deallocate_def Let_def del: plain_event.simps\<close>)
      then show thesis
      proof (rule that)
        show "roomy ?es ?a2" using M(2) S(2,3) by (auto simp: roomy_def simp del: plain_event.simps split: list.splits if_splits)
        show "stack_of ?a2 t = plain_events (scope_event t a e) tp # rest"
          using A_Free Some assms(1) by (auto simp del: plain_event.simps)
      qed
    qed
  qed
qed

lemma scope_event_small:
  "length (scope_event t a e) \<le> 1 \<and> allocated (scope_event t a e) \<le> up (main_event e) \<and> freed (scope_event t a e) \<le> down (main_event e) \<and>
   (\<forall>x\<in>set (scope_event t a e). event_nonneg x)"
  by (cases e) auto

lemma adaptor_run_stack:
  "stack_of a t = tp # rest \<Longrightarrow> \<forall>e\<in>set es. event_fits e \<Longrightarrow> roomy (map main_event es) a \<Longrightarrow>
   \<exists>b. adaptor_run t es a = Inr b \<and> stack_of b t = plain_events (scope_trace t a es) tp # rest \<and>
     length (scope_trace t a es) \<le> length es \<and> allocated (scope_trace t a es) \<le> allocated (map main_event es) \<and>
     freed (scope_trace t a es) \<le> freed (map main_event es) \<and> (\<forall>x\<in>set (scope_trace t a es). event_nonneg x)"
proof (induction es arbitrary: a tp)
  case (Cons e es)
  obtain a' where a': "adaptor_step t e a = Inr a'" "roomy (map main_event es) a'" "stack_of a' t = plain_events (scope_event t a e) tp # rest"
    using adaptor_step_stack [OF Cons.prems(1), of e es] Cons.prems(2,3) by auto
  from Cons.IH [OF a'(3) _ a'(2)] Cons.prems(2) obtain b where "adaptor_run t es a' = Inr b"
    "stack_of b t = plain_events (scope_trace t a' es) (plain_events (scope_event t a e) tp) # rest"
    "length (scope_trace t a' es) \<le> length es" "allocated (scope_trace t a' es) \<le> allocated (map main_event es)"
    "freed (scope_trace t a' es) \<le> freed (map main_event es)" "\<forall>x\<in>set (scope_trace t a' es). event_nonneg x" by auto
  then show ?case using a'(1) scope_event_small [of t a e] by auto
qed simp

lemma end_scoped_memory_record_Cons:
  assumes "stack_of a t = ret # tp # rest" and "add_subscope ret tp = Inr tp'"
  shows "fst (end_scoped_memory_record t a) = Inr ret"
    and "stack_of (snd (end_scoped_memory_record t a)) t = tp' # rest"
  using assms
  by (auto simp: end_scoped_memory_record_def stack_of_def set_stack_def update_conv' split: option.splits list.splits)

section \<open>Properties\<close>

text \<open>Property C38: the peak of a scope is exactly the largest value its live byte count takes over the
  allocations and deallocations it records. The sums of the sizes and the number of events have to fit into
  64-bit integers; then no counter overflows on the way.\<close>

theorem scope_peak_exact:
  assumes "\<forall>e\<in>set es. event_nonneg e" and "room_for es empty_record"
  shows "\<exists>r. record_run es empty_record = Inr r \<and>
    (\<forall>k\<le>length es. \<exists>q. record_run (take k es) empty_record = Inr q \<and> current q \<le> peak r) \<and>
    (\<exists>k\<le>length es. \<exists>q. record_run (take k es) empty_record = Inr q \<and> peak r = current q)"
proof -
  have r: "record_run es empty_record = Inr (plain_events es empty_record)" by (rule record_run_plain [OF assms(2,1)])
  have q: "record_run (take k es) empty_record = Inr (plain_events (take k es) empty_record)" for k
    by (rule record_run_plain [OF room_take [OF assms(2,1)]]) (use assms(1) in \<open>auto dest: in_set_takeD\<close>)
  have e: "current empty_record = 0" "peak empty_record = 0" by (simp_all add: empty_record_def)
  have c: "current (plain_events (take k es) empty_record) = net (take k es)" for k
    by (simp add: current_plain_events e)
  have "\<exists>k\<le>length es. peak (plain_events es empty_record) = net (take k es)"
    using peak_plain_events_attained [where es = es and r = empty_record] e by (auto intro: exI [of _ 0])
  then show ?thesis
    using peak_plain_events_ge [where es = es and r = empty_record] assms e by (simp add: r q c)
qed

theorem scope_peak_exact_witness:
  "\<exists>r. record_run [Alloc 5, Dealloc 3, Alloc 2] empty_record = Inr r \<and> peak r = 5 \<and>
     (\<exists>q. record_run (take 2 [Alloc 5, Dealloc 3, Alloc 2]) empty_record = Inr q \<and> current q \<le> 5)"
proof -
  let ?es = "[Alloc 5, Dealloc 3, Alloc 2]"
  have p: "record_run ?es empty_record = Inr r \<Longrightarrow> peak r = 5" for r
    by (auto simp: record_allocation_def record_deallocation_def empty_record_def cast_defs)
  have "\<forall>e\<in>set ?es. event_nonneg e" "room_for ?es empty_record" by (simp_all add: room_for_def empty_record_def cast_defs)
  from scope_peak_exact [OF this] obtain r where r: "record_run ?es empty_record = Inr r"
    "\<forall>k\<le>length ?es. \<exists>q. record_run (take k ?es) empty_record = Inr q \<and> current q \<le> peak r" by blast
  have "\<exists>q. record_run (take 2 ?es) empty_record = Inr q \<and> current q \<le> peak r" by (rule r(2) [rule_format]) simp
  then show ?thesis using r(1) p [OF r(1)] by metis
qed

text \<open>Property C37: nested memory scopes. When the sums of the sizes fit into 64-bit integers beside what the
  records already hold, no counter overflows, ending a scope returns the record of exactly the events of that
  thread since it began, and leaves on the enclosing scope the record it would have had if the events
  had been recorded on it directly.\<close>

theorem scope_folds_into_parent:
  assumes "stack_of a t = tp # rest" and "record_wf tp" and "\<forall>e\<in>set es. event_fits e"
    and "roomy (map main_event es) a" and "room_for (map main_event es) empty_record"
    and "a1 = begin_scoped_memory_record t a" and "tr = scope_trace t a1 es"
  shows "\<exists>b own tp'. adaptor_run t es a1 = Inr b \<and> record_run tr empty_record = Inr own \<and> record_run tr tp = Inr tp' \<and>
    fst (end_scoped_memory_record t b) = Inr own \<and> stack_of (snd (end_scoped_memory_record t b)) t = tp' # rest"
proof -
  let ?es = "map main_event es"
  have s: "stack_of a1 t = empty_record # tp # rest" using assms(1,6) by (simp add: begin_scoped_memory_record_def)
  have "roomy ?es a1" using assms(4-6) by (auto simp: roomy_def begin_scoped_memory_record_def)
  from adaptor_run_stack [OF s assms(3) this] obtain b where b: "adaptor_run t es a1 = Inr b"
    "stack_of b t = plain_events tr empty_record # tp # rest" "length tr \<le> length ?es" "allocated tr \<le> allocated ?es"
    "freed tr \<le> freed ?es" "\<forall>x\<in>set tr. event_nonneg x" unfolding assms(7) by auto
  have "room_for ?es tp" using assms(1,4) unfolding roomy_def by blast
  then have room: "room_for tr empty_record" "room_for tr tp"
    using room_mono [OF assms(5) b(3-5)] room_mono [OF _ b(3-5)] by blast+
  have f: "add_subscope (plain_events tr empty_record) tp = Inr (plain_events tr tp)"
    unfolding add_subscope_room [OF room(2) b(6)] plain_subscope_events
    by (subst plain_subscope_empty) (use assms(2) in \<open>simp_all add: record_wf_def\<close>)
  show ?thesis
    using b(1) record_run_plain [OF room(1) b(6)] record_run_plain [OF room(2) b(6)] end_scoped_memory_record_Cons [OF b(2) f] by blast
qed

theorem scope_folds_into_parent_witness:
  "\<exists>b. adaptor_run 1 [A_Alloc 100 8, A_Free 100 8]
      (begin_scoped_memory_record 1 (begin_scoped_memory_record 1 adaptor_init)) = Inr b \<and>
    fst (end_scoped_memory_record 1 b) = record_run [Alloc 8, Dealloc 8] empty_record"
proof -
  let ?a = "begin_scoped_memory_record 1 adaptor_init" and ?es = "[A_Alloc 100 8, A_Free 100 8]"
  have 1: "stack_of ?a 1 = empty_record # []"
    by (simp add: begin_scoped_memory_record_def) (simp add: adaptor_init_def stack_of_def)
  have fits: "\<forall>e\<in>set ?es. event_fits e" by simp
  have room: "room_for (map main_event ?es) empty_record" by (simp add: room_for_def empty_record_def cast_defs)
  have st: "stack_of adaptor_init u = []" for u by (simp add: adaptor_init_def stack_of_def)
  have "main_record adaptor_init = empty_record" by (simp add: adaptor_init_def)
  then have roomy: "roomy (map main_event ?es) ?a"
    using room by (auto simp: roomy_def begin_scoped_memory_record_def st simp del: list.map split: if_splits)
  have "scope_trace 1 (begin_scoped_memory_record 1 ?a) ?es = [Alloc 8, Dealloc 8]" by code_simp
  with scope_folds_into_parent [OF 1 record_wf_empty fits roomy room refl refl] show ?thesis by auto
qed

end
