(* ===== verification/Pausable_Thread_Loop.thy ===== *)
theory Pausable_Thread_Loop
  imports Prelude
begin

text \<open>
  The pausable worker thread of \<^verbatim>\<open>pausable_thread_loop.cpp\<close>: one atomic state, a loop thread that
  runs the user's function over and over, and callers that pause, resume and stop it. The steps of
  the model are the atomic operations of the code: the loop thread's wait, its two
  compare-and-exchange operations and the call, and the one successful compare-and-exchange of each
  caller (a failed or spurious one is retried and changes nothing). The user's function returns; the
  CUDA initialisation before the first call is a flag.
\<close>

datatype loop_state = Stopped | Stopping | Paused | Pausing | Running

datatype loop_pc = At_Wait | At_Pausing_Check | At_Stopping_Check | Before_Call | In_Call | Exited

record thread_loop =
  tl_state :: loop_state
  tl_pc :: loop_pc
  tl_initialised :: bool
  tl_calls :: nat

definition new_thread_loop :: thread_loop where
  "new_thread_loop = \<lparr>tl_state = Paused, tl_pc = At_Wait, tl_initialised = False, tl_calls = 0\<rparr>"

text \<open>One step of the loop thread; \<open>None\<close> when it is blocked in the wait or has returned.\<close>

definition loop_step :: "thread_loop \<Rightarrow> thread_loop option" where
  "loop_step s =
     (case tl_pc s of
        At_Wait \<Rightarrow> (if tl_state s = Paused then None else Some (s\<lparr>tl_pc := At_Pausing_Check\<rparr>))
      | At_Pausing_Check \<Rightarrow>
          (if tl_state s = Pausing then Some (s\<lparr>tl_state := Paused, tl_pc := At_Wait\<rparr>)
           else Some (s\<lparr>tl_pc := At_Stopping_Check\<rparr>))
      | At_Stopping_Check \<Rightarrow>
          (if tl_state s = Stopping then Some (s\<lparr>tl_state := Stopped, tl_pc := Exited\<rparr>)
           else Some (s\<lparr>tl_pc := Before_Call\<rparr>))
      | Before_Call \<Rightarrow> Some (s\<lparr>tl_initialised := True, tl_calls := Suc (tl_calls s), tl_pc := In_Call\<rparr>)
      | In_Call \<Rightarrow> Some (s\<lparr>tl_pc := At_Wait\<rparr>)
      | Exited \<Rightarrow> None)"

section \<open>The callers\<close>

definition is_running :: "thread_loop \<Rightarrow> bool" where
  "is_running s \<longleftrightarrow> tl_state s \<noteq> Paused \<and> tl_state s \<noteq> Stopped"

definition pause_nb :: "thread_loop \<Rightarrow> thread_loop" where
  "pause_nb s = (if tl_state s = Running then s\<lparr>tl_state := Pausing\<rparr> else s)"

text \<open>\<open>pause\<close> is \<open>pause_nb\<close>, then a wait that returns once this holds.\<close>

definition pause_returns :: "thread_loop \<Rightarrow> bool" where
  "pause_returns s \<longleftrightarrow> tl_state s \<noteq> Pausing"

definition resume :: "thread_loop \<Rightarrow> bool \<times> thread_loop" where
  "resume s =
     (if tl_state s = Paused \<or> tl_state s = Pausing then (True, s\<lparr>tl_state := Running\<rparr>) else (False, s))"

text \<open>\<open>stop\<close> is this request, then, when it made the change, a join that returns once \<open>stop_joins\<close> holds.\<close>

definition stop_request :: "thread_loop \<Rightarrow> bool \<times> thread_loop" where
  "stop_request s =
     (if tl_state s = Running \<or> tl_state s = Pausing \<or> tl_state s = Paused
      then (True, s\<lparr>tl_state := Stopping\<rparr>) else (False, s))"

definition stop_joins :: "thread_loop \<Rightarrow> bool" where
  "stop_joins s \<longleftrightarrow> tl_pc s = Exited"

inductive caller_step :: "thread_loop \<Rightarrow> thread_loop \<Rightarrow> bool" where
  pausing: "caller_step s (pause_nb s)"
| resuming: "caller_step s (snd (resume s))"
| stopping: "caller_step s (snd (stop_request s))"

text \<open>Any interleaving of the loop thread and its callers.\<close>

inductive reachable_loop :: "thread_loop \<Rightarrow> bool" where
  start: "reachable_loop new_thread_loop"
| loop: "reachable_loop s \<Longrightarrow> loop_step s = Some s' \<Longrightarrow> reachable_loop s'"
| caller: "reachable_loop s \<Longrightarrow> caller_step s s' \<Longrightarrow> reachable_loop s'"

lemmas caller_defs = pause_nb_def resume_def stop_request_def

inductive_cases caller_stepE: "caller_step s s'"

section \<open>The invariant\<close>

text \<open>
  Only the loop thread enters \<open>Paused\<close> and \<open>Stopped\<close>, and it does so outside the user's function.
\<close>

definition loop_ok :: "thread_loop \<Rightarrow> bool" where
  "loop_ok s \<longleftrightarrow>
     (tl_state s = Paused \<longrightarrow> tl_pc s = At_Wait) \<and>
     (tl_state s = Stopped \<longleftrightarrow> tl_pc s = Exited) \<and>
     (tl_calls s > 0 \<longrightarrow> tl_initialised s)"

lemma loop_ok_loop: "loop_ok s \<Longrightarrow> loop_step s = Some s' \<Longrightarrow> loop_ok s'"
  by (auto simp: loop_ok_def loop_step_def split: loop_pc.splits if_splits)

lemma loop_ok_caller: "loop_ok s \<Longrightarrow> caller_step s s' \<Longrightarrow> loop_ok s'"
  by (erule caller_stepE) (auto simp: loop_ok_def caller_defs)

lemma reachable_loop_ok: "reachable_loop s \<Longrightarrow> loop_ok s"
proof (induction rule: reachable_loop.induct)
  case start
  then show ?case by (simp add: loop_ok_def new_thread_loop_def)
next
  case (loop s s')
  then show ?case using loop_ok_loop by blast
next
  case (caller s s')
  then show ?case using loop_ok_caller by blast
qed

section \<open>Pausing and stopping take effect\<close>

text \<open>The loop thread on its own, for \<open>n\<close> steps or until it blocks.\<close>

fun loop_run :: "nat \<Rightarrow> thread_loop \<Rightarrow> thread_loop" where
  "loop_run 0 s = s"
| "loop_run (Suc n) s = (case loop_step s of None \<Rightarrow> s | Some s' \<Rightarrow> loop_run n s')"

lemma loop_run_numeral [simp]:
  "loop_run (numeral k) s = (case loop_step s of None \<Rightarrow> s | Some s' \<Rightarrow> loop_run (pred_numeral k) s')"
  by (simp add: numeral_eq_Suc)

lemma stopping_exits:
  assumes "loop_ok s" and "tl_state s = Stopping"
  shows "tl_state (loop_run 6 s) = Stopped \<and> tl_pc (loop_run 6 s) = Exited \<and>
    tl_calls (loop_run 6 s) \<le> Suc (tl_calls s)"
  using assms by (cases "tl_pc s") (simp_all add: loop_step_def loop_ok_def)

lemma pausing_pauses:
  assumes "loop_ok s" and "tl_state s = Pausing"
  shows "tl_state (loop_run 6 s) = Paused \<and> tl_pc (loop_run 6 s) = At_Wait \<and>
    tl_calls (loop_run 6 s) \<le> Suc (tl_calls s)"
  using assms by (cases "tl_pc s") (simp_all add: loop_step_def loop_ok_def)

lemma caller_keeps_stopping:
  "caller_step s s' \<Longrightarrow> tl_state s = Stopping \<or> tl_state s = Stopped \<Longrightarrow> s' = s"
  by (erule caller_stepE) (auto simp: caller_defs)

text \<open>Steps of the loop thread and of callers that do not resume.\<close>

inductive quiet_run :: "thread_loop \<Rightarrow> thread_loop \<Rightarrow> bool" where
  refl: "quiet_run s s"
| loop: "quiet_run s t \<Longrightarrow> loop_step t = Some u \<Longrightarrow> quiet_run s u"
| pause: "quiet_run s t \<Longrightarrow> quiet_run s (pause_nb t)"
| stop: "quiet_run s t \<Longrightarrow> quiet_run s (snd (stop_request t))"

lemma quiet_run_calls:
  assumes "quiet_run s t" and "loop_ok s" and "tl_state s = Paused \<or> tl_state s = Stopped"
  shows "loop_ok t \<and> tl_calls t = tl_calls s \<and> tl_pc t \<noteq> Before_Call \<and> tl_pc t \<noteq> In_Call \<and>
    (tl_state t = Paused \<or> tl_state t = Stopping \<or> tl_state t = Stopped)"
  using assms
proof (induction rule: quiet_run.induct)
  case (refl s)
  then show ?case by (auto simp: loop_ok_def)
next
  case (loop s t u)
  then have t: "loop_ok t" "tl_calls t = tl_calls s" "tl_pc t \<noteq> Before_Call" "tl_pc t \<noteq> In_Call"
    "tl_state t = Paused \<or> tl_state t = Stopping \<or> tl_state t = Stopped" by simp_all
  have "loop_ok u" by (rule loop_ok_loop [OF t(1) loop.hyps(2)])
  moreover have "tl_calls u = tl_calls t \<and> tl_pc u \<noteq> Before_Call \<and> tl_pc u \<noteq> In_Call \<and>
      (tl_state u = Paused \<or> tl_state u = Stopping \<or> tl_state u = Stopped)"
    using loop.hyps(2) t by (cases "tl_pc t") (auto simp: loop_step_def loop_ok_def split: if_splits)
  ultimately show ?case using t(2) by simp
next
  case (pause s t)
  then show ?case by (auto simp: pause_nb_def)
next
  case (stop s t)
  then show ?case using loop_ok_caller [OF _ caller_step.stopping, of t] by (auto simp: stop_request_def)
qed

section \<open>Properties\<close>

text \<open>Property C24: pausing is effective. In every reachable state in which the thread is paused or stopped the
  user's function is not running, and it is not called again, whatever pauses and stops follow, until
  somebody resumes the thread. The note on \<open>is_running\<close> in \<^verbatim>\<open>pausable_thread_loop.hpp\<close> is weaker: it lets the function be in its
  last iteration when the answer is false. In the code only the loop thread enters these two states, and only outside the function.\<close>

theorem paused_means_quiet:
  assumes "reachable_loop s" and "\<not> is_running s" and "quiet_run s t"
  shows "tl_pc t \<noteq> In_Call \<and> tl_calls t = tl_calls s"
  using quiet_run_calls [OF assms(3) reachable_loop_ok [OF assms(1)]] assms(2)
  by (auto simp: is_running_def)

theorem paused_means_quiet_witness:
  "tl_calls (snd (stop_request new_thread_loop)) = 0"
proof -
  have "quiet_run new_thread_loop (snd (stop_request new_thread_loop))"
    by (rule quiet_run.stop) (rule quiet_run.refl)
  moreover have "\<not> is_running new_thread_loop" by (simp add: is_running_def new_thread_loop_def)
  ultimately show ?thesis using paused_means_quiet [OF reachable_loop.start] by (simp add: new_thread_loop_def)
qed

text \<open>Property C26: stopping terminates. Once a stop is requested no caller can take it back, and the loop
  thread exits within six of its own steps, having called the user's function at most once more, so
  the join of \<open>stop\<close> returns; a pause takes effect within the same bound.\<close>

theorem stop_and_pause_terminate:
  assumes "reachable_loop s"
  shows "(fst (stop_request s) \<longrightarrow>
      (\<forall>t. caller_step (snd (stop_request s)) t \<longrightarrow> t = snd (stop_request s)) \<and>
      stop_joins (loop_run 6 (snd (stop_request s))) \<and>
      tl_calls (loop_run 6 (snd (stop_request s))) \<le> Suc (tl_calls s)) \<and>
    pause_returns (loop_run 6 (pause_nb s)) \<and>
    (tl_state s = Running \<longrightarrow> tl_state (loop_run 6 (pause_nb s)) = Paused)"
proof -
  let ?t = "snd (stop_request s)" and ?p = "pause_nb s"
  have ok: "loop_ok s" using assms by (rule reachable_loop_ok)
  have t: "loop_ok ?t" "loop_ok ?p"
    using loop_ok_caller [OF ok caller_step.stopping] loop_ok_caller [OF ok caller_step.pausing] by simp_all
  have calls: "tl_calls ?t = tl_calls s" by (simp add: stop_request_def)
  have "tl_state ?t = Stopping" if "fst (stop_request s)"
    using that by (auto simp: stop_request_def split: if_splits)
  note stop = stopping_exits [OF t(1) this] caller_keeps_stopping [of ?t, OF _ disjI1 [OF this]]
  have pause: "tl_state (loop_run 6 ?p) = Paused" if "tl_state ?p = Pausing"
    using pausing_pauses [OF t(2) that] by simp
  have other: "tl_state (loop_run 6 ?p) \<noteq> Pausing" if "tl_state ?p \<noteq> Pausing"
    using that t(2) by (cases "tl_pc ?p"; cases "tl_state ?p") (simp_all add: loop_step_def loop_ok_def)
  have "tl_state (loop_run 6 ?p) \<noteq> Pausing"
  proof (cases "tl_state ?p = Pausing")
    case True
    show ?thesis unfolding pause [OF True] by simp
  next
    case False
    then show ?thesis by (rule other)
  qed
  then have returns: "pause_returns (loop_run 6 ?p)" unfolding pause_returns_def .
  have "tl_state ?p = Pausing" if "tl_state s = Running" using that by (simp add: pause_nb_def)
  then show ?thesis
    using stop calls pause returns unfolding stop_joins_def by metis
qed

theorem stop_and_pause_terminate_witness:
  "stop_joins (loop_run 6 (snd (stop_request (snd (resume new_thread_loop)))))"
proof -
  have "reachable_loop (snd (resume new_thread_loop))"
    by (rule reachable_loop.caller [OF reachable_loop.start caller_step.resuming])
  moreover have "fst (stop_request (snd (resume new_thread_loop)))"
    by (simp add: resume_def stop_request_def new_thread_loop_def)
  ultimately show ?thesis using stop_and_pause_terminate by blast
qed

end
