(* ===== verification/Progress_Thread.thy ===== *)
theory Progress_Thread
  imports Pausable_Thread_Loop
begin

text \<open>
  The progress thread of \<^verbatim>\<open>progress_thread.cpp\<close>: registered functions that the event loop calls
  once per iteration until they report \<open>Done\<close>. A function is an action on an outside world \<open>'w\<close>; an
  exception that leaves it leaves the thread, which terminates the program. The event loop holds the
  mutex for its whole pass, so a pass is one step; \<open>remove_function\<close> is split where it waits on the
  condition variable, \<open>pause\<close> and \<open>resume\<close> where they act outside the mutex.
\<close>

datatype progress_state = InProgress | Done

record 'w function_state =
  fs_function :: "('w, progress_state) act"
  fs_done :: bool

record function_id =
  thread_address :: nat
  function_index :: nat

definition is_valid :: "function_id \<Rightarrow> bool" where
  "is_valid fid \<longleftrightarrow> thread_address fid \<noteq> 0"

record 'w progress_thread =
  pt_address :: nat
  pt_active :: bool
  pt_next_id :: nat
  pt_functions :: "(nat \<times> 'w function_state) list"
  pt_loop :: thread_loop

definition new_progress_thread :: "nat \<Rightarrow> bool \<Rightarrow> 'w progress_thread result" where
  "new_progress_thread this statistics_set =
     (if \<not> statistics_set then Inl Logic_Error
      else Inr \<lparr>pt_address = this, pt_active = False, pt_next_id = 0, pt_functions = [],
                pt_loop = new_thread_loop\<rparr>)"

text \<open>\<open>FunctionState::operator()\<close>.\<close>

definition call_function :: "'w function_state \<Rightarrow> 'w \<Rightarrow> 'w function_state result \<times> 'w" where
  "call_function fs w =
     (if fs_done fs then (Inr fs, w)
      else case fs_function fs w of
             (Inl e, w') \<Rightarrow> (Inl Fatal, w')
           | (Inr st, w') \<Rightarrow> (Inr (if st = Done then fs\<lparr>fs_done := True\<rparr> else fs), w'))"

fun call_functions ::
  "(nat \<times> 'w function_state) list \<Rightarrow> 'w \<Rightarrow> (nat \<times> 'w function_state) list result \<times> 'w" where
  "call_functions [] w = (Inr [], w)"
| "call_functions ((i, fs) # rest) w =
     (case call_function fs w of
        (Inl e, w') \<Rightarrow> (Inl e, w')
      | (Inr fs', w') \<Rightarrow>
          (case call_functions rest w' of
             (Inl e, w'') \<Rightarrow> (Inl e, w'')
           | (Inr rest', w'') \<Rightarrow> (Inr ((i, fs') # rest'), w'')))"

definition event_loop :: "('w progress_thread \<times> 'w, unit) act" where
  "event_loop s =
     (case s of (pt, w) \<Rightarrow>
        (case call_functions (pt_functions pt) w of
           (Inl e, w') \<Rightarrow> (Inl e, (pt, w'))
         | (Inr fs, w') \<Rightarrow> (Inr (), (pt\<lparr>pt_functions := fs\<rparr>, w'))))"

definition add_function ::
  "('w, progress_state) act \<Rightarrow> 'w progress_thread \<Rightarrow> function_id \<times> 'w progress_thread" where
  "add_function f pt =
     (let id = pt_next_id pt;
          fs = pt_functions pt in
      (\<lparr>thread_address = pt_address pt, function_index = id\<rparr>,
       pt\<lparr>pt_next_id := (id + 1) mod 2 ^ 64,
          pt_functions := (if id \<in> set (map fst fs) then fs
                           else fs @ [(id, \<lparr>fs_function = f, fs_done = False\<rparr>)]),
          pt_loop := snd (resume (pt_loop pt)),
          pt_active := True\<rparr>))"

text \<open>\<open>remove_function\<close>: the checks, the condition it waits for, and what it does once that holds.\<close>

definition remove_check :: "function_id \<Rightarrow> 'w progress_thread \<Rightarrow> unit result" where
  "remove_check fid pt =
     res_bind (expects (is_valid fid) Logic_Error) (\<lambda>_.
     res_bind (expects (thread_address fid = pt_address pt) Logic_Error) (\<lambda>_.
       expects (function_index fid \<in> set (map fst (pt_functions pt))) Logic_Error))"

definition remove_ready :: "function_id \<Rightarrow> 'w progress_thread \<Rightarrow> bool result" where
  "remove_ready fid pt =
     (if \<not> pt_active pt then Inr True
      else case map_of (pt_functions pt) (function_index fid) of
             None \<Rightarrow> Inl Out_Of_Range
           | Some fs \<Rightarrow> Inr (fs_done fs))"

definition remove_finish :: "function_id \<Rightarrow> 'w progress_thread \<Rightarrow> 'w progress_thread" where
  "remove_finish fid pt =
     (let fs = filter (\<lambda>(i, _). i \<noteq> function_index fid) (pt_functions pt);
          pt1 = pt\<lparr>pt_functions := fs\<rparr> in
      if fs = [] then pt1\<lparr>pt_loop := pause_nb (pt_loop pt), pt_active := False\<rparr> else pt1)"

text \<open>\<open>pause\<close> and \<open>resume\<close>, in their two steps each.\<close>

definition pause_request :: "'w progress_thread \<Rightarrow> 'w progress_thread" where
  "pause_request pt = pt\<lparr>pt_loop := pause_nb (pt_loop pt)\<rparr>"

definition pause_flag :: "'w progress_thread \<Rightarrow> 'w progress_thread" where
  "pause_flag pt = pt\<lparr>pt_active := False\<rparr>"

definition resume_request :: "'w progress_thread \<Rightarrow> 'w progress_thread" where
  "resume_request pt = pt\<lparr>pt_loop := snd (resume (pt_loop pt))\<rparr>"

definition resume_flag :: "'w progress_thread \<Rightarrow> 'w progress_thread" where
  "resume_flag pt = pt\<lparr>pt_active := True\<rparr>"

definition stop_thread :: "'w progress_thread \<Rightarrow> 'w progress_thread" where
  "stop_thread pt = pt\<lparr>pt_loop := snd (stop_request (pt_loop pt))\<rparr>"

section \<open>A function is called once per pass until it is done\<close>

text \<open>
  A world that counts calls, and a function that counts its own and is done at the \<open>k\<close>-th.
\<close>

definition counting :: "nat \<Rightarrow> nat \<Rightarrow> (nat \<Rightarrow> nat, progress_state) act" where
  "counting i k w = (Inr (if Suc (w i) \<ge> k then Done else InProgress), w(i := Suc (w i)))"

definition registered :: "(nat \<Rightarrow> nat) \<Rightarrow> (nat \<Rightarrow> nat) \<Rightarrow> nat \<Rightarrow> nat \<times> (nat \<Rightarrow> nat) function_state" where
  "registered k w i = (i, \<lparr>fs_function = counting i (k i), fs_done = (k i \<le> w i)\<rparr>)"

lemma registered_frame: "j \<notin> set is \<Longrightarrow> map (registered k (w(j := n))) is = map (registered k w) is"
  by (simp add: registered_def)

lemma map_of_registered: "i \<in> set is \<Longrightarrow> map_of (map (registered k w) is) i = Some (snd (registered k w i))"
  by (induction "is") (auto simp: registered_def)

lemma call_functions_Cons:
  "call_function (snd p) w = (Inr fs, w1) \<Longrightarrow> call_functions ps w1 = (Inr qs, w2) \<Longrightarrow>
   call_functions (p # ps) w = (Inr ((fst p, fs) # qs), w2)"
  by (cases p) simp

lemma call_functions_counting:
  assumes "distinct is"
  shows "call_functions (map (registered k w) is) w =
    (Inr (map (registered k (\<lambda>j. if j \<in> set is then min (Suc (w j)) (max (k j) (w j)) else w j)) is),
     \<lambda>j. if j \<in> set is then min (Suc (w j)) (max (k j) (w j)) else w j)"
  using assms
proof (induction "is" arbitrary: w)
  case Nil
  then show ?case by simp
next
  case (Cons i "is")
  let ?n = "min (Suc (w i)) (max (k i) (w i))"
  let ?w = "w(i := ?n)"
  have i: "i \<notin> set is" "distinct is" using Cons.prems by simp_all
  let ?w' = "\<lambda>j. if j \<in> set (i # is) then min (Suc (w j)) (max (k j) (w j)) else w j"
  have call: "call_function (snd (registered k w i)) w = (Inr (snd (registered k ?w i)), ?w)"
    by (auto simp: call_function_def registered_def counting_def min_def max_def)
  have w: "(\<lambda>j. if j \<in> set is then min (Suc (?w j)) (max (k j) (?w j)) else ?w j) = ?w'"
    using i(1) by (auto simp: fun_eq_iff)
  have rest: "call_functions (map (registered k ?w) is) ?w = (Inr (map (registered k ?w') is), ?w')"
    using Cons.IH [OF i(2), of ?w] unfolding w .
  have "(fst (registered k w i), snd (registered k ?w i)) = registered k ?w' i"
    by (simp add: registered_def)
  then show ?case
    using call_functions_Cons [OF call rest] registered_frame [OF i(1), of k w] by simp
qed

fun passes :: "nat \<Rightarrow> 'w progress_thread \<times> 'w \<Rightarrow> 'w progress_thread \<times> 'w" where
  "passes 0 s = s"
| "passes (Suc n) s = passes n (snd (event_loop s))"

section \<open>The active flag\<close>

text \<open>All operations, not overlapping each other, with the loop thread stepping in between; a pass happens inside its call.\<close>

inductive sequential :: "'w progress_thread \<Rightarrow> bool" where
  start: "new_progress_thread this True = Inr pt \<Longrightarrow> sequential pt"
| add: "sequential pt \<Longrightarrow> sequential (snd (add_function f pt))"
| remove: "sequential pt \<Longrightarrow> remove_check fid pt = Inr () \<Longrightarrow> remove_ready fid pt = Inr True \<Longrightarrow>
    sequential (remove_finish fid pt)"
| pause: "sequential pt \<Longrightarrow> sequential (pause_flag (pause_request pt))"
| resume: "sequential pt \<Longrightarrow> sequential (resume_flag (resume_request pt))"
| stop: "sequential pt \<Longrightarrow> sequential (stop_thread pt)"
| pass: "sequential pt \<Longrightarrow> tl_pc (pt_loop pt) = In_Call \<Longrightarrow> event_loop (pt, w) = (Inr (), (pt', w')) \<Longrightarrow> sequential pt'"
| loop: "sequential pt \<Longrightarrow> loop_step (pt_loop pt) = Some l \<Longrightarrow> sequential (pt\<lparr>pt_loop := l\<rparr>)"

definition is_stopped :: "thread_loop \<Rightarrow> bool" where
  "is_stopped l \<longleftrightarrow> tl_state l = Stopping \<or> tl_state l = Stopped"

definition flag_ok :: "'w progress_thread \<Rightarrow> bool" where
  "flag_ok pt \<longleftrightarrow> is_stopped (pt_loop pt) \<or> (pt_active pt \<longleftrightarrow> tl_state (pt_loop pt) = Running)"

lemma event_loop_frame:
  "event_loop (pt, w) = (Inr (), (pt', w')) \<Longrightarrow> pt_loop pt' = pt_loop pt \<and> pt_active pt' = pt_active pt"
  by (auto simp: event_loop_def split: prod.splits sum.splits)

lemma loop_step_flag:
  "loop_step l = Some l' \<Longrightarrow>
   is_stopped l' = is_stopped l \<and> (\<not> is_stopped l \<longrightarrow> (tl_state l' = Running \<longleftrightarrow> tl_state l = Running))"
  by (auto simp: loop_step_def is_stopped_def split: loop_pc.splits if_splits)

lemma not_stopped_cases: "\<not> is_stopped l \<longleftrightarrow> tl_state l = Running \<or> tl_state l = Paused \<or> tl_state l = Pausing"
  by (cases "tl_state l") (simp_all add: is_stopped_def)

lemma is_stopped_update [simp]: "is_stopped (l\<lparr>tl_state := st\<rparr>) \<longleftrightarrow> st = Stopping \<or> st = Stopped"
  by (simp add: is_stopped_def)

lemma sequential_flag_ok: "sequential pt \<Longrightarrow> flag_ok pt"
proof (induction rule: sequential.induct)
  case (start this pt)
  then show ?case by (auto simp: new_progress_thread_def flag_ok_def new_thread_loop_def is_stopped_def)
next
  case (add pt f)
  then show ?case using not_stopped_cases [of "pt_loop pt"] by (auto simp: add_function_def Let_def flag_ok_def resume_def split: if_splits)
next
  case (remove pt fid)
  then show ?case by (auto simp: remove_finish_def Let_def flag_ok_def pause_nb_def split: if_splits)
next
  case (pause pt)
  then show ?case by (auto simp: pause_flag_def pause_request_def flag_ok_def pause_nb_def split: if_splits)
next
  case (resume pt)
  then show ?case using not_stopped_cases [of "pt_loop pt"] by (auto simp: resume_flag_def resume_request_def flag_ok_def resume_def split: if_splits)
next
  case (stop pt)
  then show ?case by (auto simp: stop_thread_def flag_ok_def stop_request_def is_stopped_def)
next
  case (pass pt w pt' w')
  then show ?case using event_loop_frame [OF pass.hyps(3)] by (simp add: flag_ok_def)
next
  case (loop pt l)
  then show ?case using loop_step_flag [OF loop.hyps(2)] by (auto simp: flag_ok_def split: if_splits)
qed

section \<open>Properties\<close>

text \<open>Property C39: the event loop calls each registered function exactly once per pass until it reports that it
  is done, and never again: after \<open>n\<close> passes a function that is done at its \<open>k\<close>-th call has been
  called \<open>min n k\<close> times, whatever order the functions are visited in.\<close>

theorem event_loop_calls:
  assumes "pt_functions pt = map (registered k (\<lambda>_. 0)) is" and "distinct is" and "\<forall>i\<in>set is. k i > 0"
  shows "\<forall>i\<in>set is. snd (passes n (pt, \<lambda>_. 0)) i = min n (k i) \<and>
    map_of (pt_functions (fst (passes n (pt, \<lambda>_. 0)))) i =
      Some \<lparr>fs_function = counting i (k i), fs_done = (k i \<le> n)\<rparr>"
proof -
  let ?cnt = "\<lambda>n j. if j \<in> set is then min n (k j) else (0 :: nat)"
  have gen: "passes n (pt, ?cnt m) =
      (pt\<lparr>pt_functions := map (registered k (?cnt (m + n))) is\<rparr>, ?cnt (m + n))"
    if "pt_functions pt = map (registered k (?cnt m)) is" for m pt
    using that
  proof (induction n arbitrary: m pt)
    case 0
    then show ?case unfolding add_0_right by (cases pt) simp
  next
    case (Suc n)
    have "(\<lambda>j. if j \<in> set is then min (Suc (?cnt m j)) (max (k j) (?cnt m j)) else ?cnt m j) = ?cnt (Suc m)"
      using assms(3) by (auto simp: fun_eq_iff min_def max_def)
    then have "event_loop (pt, ?cnt m) =
        (Inr (), (pt\<lparr>pt_functions := map (registered k (?cnt (Suc m))) is\<rparr>, ?cnt (Suc m)))"
      using call_functions_counting [OF assms(2), of k "?cnt m"]
      by (simp only: event_loop_def Suc.prems prod.case sum.case)
    then show ?case using Suc.IH [of _ "Suc m"] unfolding add_Suc_right add_Suc by simp
  qed
  have "?cnt 0 = (\<lambda>_. 0)" by auto
  then have p: "passes n (pt, \<lambda>_. 0) = (pt\<lparr>pt_functions := map (registered k (?cnt n)) is\<rparr>, ?cnt n)"
    using gen [of pt 0] assms(1) unfolding add_0_left by simp
  show ?thesis
    using map_of_registered [of _ "is" k "?cnt n"] by (auto simp: p registered_def)
qed

theorem event_loop_calls_witness:
  "snd (passes 5 (\<lparr>pt_address = 1, pt_active = True, pt_next_id = 2,
       pt_functions = map (registered (\<lambda>i. i + 2) (\<lambda>_. 0)) [1, 0], pt_loop = new_thread_loop\<rparr>, \<lambda>_. 0)) 1 = 3"
  using event_loop_calls [of "\<lparr>pt_address = 1, pt_active = True, pt_next_id = 2,
       pt_functions = map (registered (\<lambda>i. i + 2) (\<lambda>_. 0)) [1, 0], pt_loop = new_thread_loop\<rparr>"
       "\<lambda>i. i + 2" "[1, 0]" 5] by simp

text \<open>Property C25: as long as nobody called \<open>stop\<close>, and whatever operations are made one after the other, the
  \<open>active\<close> flag says exactly whether the thread is running, so a function is removed while the thread runs
  only once it is done. Once stopped, the thread stays stopped: no operation and no step of the loop revives it.\<close>

theorem active_iff_running:
  assumes "sequential pt"
  shows "(\<not> is_stopped (pt_loop pt) \<longrightarrow> (pt_active pt \<longleftrightarrow> tl_state (pt_loop pt) = Running)) \<and>
    (tl_state (pt_loop pt) = Running \<and> remove_ready fid pt = Inr True \<longrightarrow>
       (\<exists>fs. map_of (pt_functions pt) (function_index fid) = Some fs \<and> fs_done fs)) \<and>
    (is_stopped (pt_loop pt) \<longrightarrow>
       is_stopped (pt_loop (snd (add_function f pt))) \<and> is_stopped (pt_loop (remove_finish fid pt)) \<and>
       is_stopped (pt_loop (pause_request pt)) \<and> is_stopped (pt_loop (resume_request pt)) \<and>
       is_stopped (pt_loop (stop_thread pt)) \<and> (\<forall>l. loop_step (pt_loop pt) = Some l \<longrightarrow> is_stopped l))"
proof -
  have flag: "flag_ok pt" by (rule sequential_flag_ok [OF assms])
  have ready: "\<exists>fs. map_of (pt_functions pt) (function_index fid) = Some fs \<and> fs_done fs"
    if "tl_state (pt_loop pt) = Running" "remove_ready fid pt = Inr True"
    using flag that by (auto simp: flag_ok_def is_stopped_def remove_ready_def split: option.splits)
  have stays: "is_stopped (pt_loop (snd (add_function f pt)))" "is_stopped (pt_loop (remove_finish fid pt))"
      "is_stopped (pt_loop (pause_request pt))" "is_stopped (pt_loop (resume_request pt))" "is_stopped (pt_loop (stop_thread pt))"
    if "is_stopped (pt_loop pt)"
    using that
    by (auto simp: is_stopped_def add_function_def remove_finish_def pause_request_def resume_request_def stop_thread_def Let_def
        pause_nb_def resume_def stop_request_def)
  show ?thesis using flag ready stays loop_step_flag unfolding flag_ok_def by blast
qed

theorem active_iff_running_witness:
  "\<exists>pt. new_progress_thread 1 True = Inr pt \<and>
     tl_state (pt_loop (snd (add_function (counting 0 1) pt))) = Running \<and>
     pt_active (snd (add_function (counting 0 1) pt))"
proof -
  obtain pt :: "(nat \<Rightarrow> nat) progress_thread" where pt: "new_progress_thread 1 True = Inr pt"
    by (simp add: new_progress_thread_def)
  have "sequential (snd (add_function (counting 0 1) pt))"
    by (intro sequential.add sequential.start [OF pt])
  from active_iff_running [OF this] pt show ?thesis
    by (auto simp: new_progress_thread_def add_function_def Let_def resume_def new_thread_loop_def)
qed

text \<open>An overlapping \<open>pause\<close> breaks that. When a function is added between the two steps of a
  \<open>pause\<close>, the thread runs with the flag cleared, and the function is removed at once, neither done nor
  paused.\<close>

theorem pause_overlapping_add:
  fixes pt :: "'w progress_thread"
  assumes "new_progress_thread this True = Inr pt" and "this \<noteq> 0"
  shows "let (fid, pt1) = add_function f (pause_request pt); pt2 = pause_flag pt1 in
      tl_state (pt_loop pt2) = Running \<and> \<not> pt_active pt2 \<and> remove_check fid pt2 = Inr () \<and>
      remove_ready fid pt2 = Inr True \<and>
      map_option fs_done (map_of (pt_functions pt2) (function_index fid)) = Some False"
  using assms
  by (auto simp: new_progress_thread_def add_function_def pause_request_def pause_flag_def Let_def
      remove_check_def is_valid_def remove_ready_def resume_def pause_nb_def new_thread_loop_def)

theorem pause_overlapping_add_witness:
  "\<exists>pt. new_progress_thread 1 True = Inr (pt :: (nat \<Rightarrow> nat) progress_thread) \<and>
     \<not> pt_active (pause_flag (snd (add_function (counting 0 1) (pause_request pt)))) \<and>
     tl_state (pt_loop (pause_flag (snd (add_function (counting 0 1) (pause_request pt))))) = Running"
proof -
  obtain pt :: "(nat \<Rightarrow> nat) progress_thread" where pt: "new_progress_thread 1 True = Inr pt"
    by (simp add: new_progress_thread_def)
  show ?thesis using pause_overlapping_add [OF pt, of "counting 0 1"] pt by (auto simp: Let_def split_def)
qed

text \<open>\<open>stop\<close> leaves the flag as it is. A function that is not done when the thread stops is never
  called again, and \<open>remove_function\<close> waits for it until somebody calls \<open>pause\<close>.\<close>

lemma stop_leaves_waiter:
  fixes pt :: "'w progress_thread"
  assumes "new_progress_thread this True = Inr pt" and "this \<noteq> 0"
  shows "let (fid, pt1) = add_function f pt; pt2 = stop_thread pt1; l = loop_run 6 (pt_loop pt2) in
      stop_joins l \<and> loop_step l = None \<and> pt_active pt2 \<and>
      remove_check fid pt2 = Inr () \<and> remove_ready fid pt2 = Inr False"
proof -
  define l where "l = new_thread_loop\<lparr>tl_state := Stopping\<rparr>"
  have "loop_ok l" "tl_state l = Stopping" by (simp_all add: l_def loop_ok_def new_thread_loop_def)
  note S = stopping_exits [OF this]
  have pt: "pt = \<lparr>pt_address = this, pt_active = False, pt_next_id = 0, pt_functions = [], pt_loop = new_thread_loop\<rparr>"
    using assms(1) by (simp add: new_progress_thread_def)
  let ?pt2 = "stop_thread (snd (add_function f pt))" and ?fid = "fst (add_function f pt)"
  have l: "pt_loop ?pt2 = l"
    by (simp add: pt add_function_def Let_def stop_thread_def resume_def stop_request_def new_thread_loop_def l_def)
  have 1: "stop_joins (loop_run 6 l)" "loop_step (loop_run 6 l) = None"
    using S by (simp_all del: loop_run_numeral add: stop_joins_def loop_step_def)
  have 2: "pt_active ?pt2 \<and> remove_check ?fid ?pt2 = Inr () \<and> remove_ready ?fid ?pt2 = Inr False"
    using assms(2) by (simp add: pt add_function_def Let_def stop_thread_def remove_check_def is_valid_def remove_ready_def)
  show ?thesis unfolding Let_def split_def l using 1 2 by blast
qed

end
