(* ===== verification/Finish_Counter.thy ===== *)
theory Finish_Counter
  imports Prelude
begin

text \<open>
  The counter that tells a rank when every chunk sent to it has arrived:
  \<^verbatim>\<open>shuffler/finish_counter.cpp\<close>. Each rank reports once how many chunks it sent (the goalpost,
  which counts the report itself); the shuffle is finished for this rank when all have reported and
  as many chunks have arrived. Ranks that own no partition expect nothing. Counters are 64-bit.
\<close>

record finish_counter =
  fc_nranks :: nat
  fc_with_goalpost :: nat
  fc_goal :: nat
  fc_finished :: nat
  fc_reported :: "bool list"

definition new_finish_counter :: "nat \<Rightarrow> nat \<Rightarrow> finish_counter" where
  "new_finish_counter nranks n_local_partitions =
     (let n = (if n_local_partitions > 0 then nranks else 0) in
      \<lparr>fc_nranks = n, fc_with_goalpost = 0, fc_goal = 0, fc_finished = 0, fc_reported = replicate n False\<rparr>)"

definition all_finished :: "finish_counter \<Rightarrow> bool" where
  "all_finished fc \<longleftrightarrow> fc_with_goalpost fc = fc_nranks fc \<and> fc_finished fc = fc_goal fc"

text \<open>A rank is signed: the range check lets a negative one through, and the cast rejects it.\<close>

definition move_goalpost :: "int \<Rightarrow> nat \<Rightarrow> (finish_counter, unit) act" where
  "move_goalpost src_rank nchunks fc =
     (if nchunks = 0 then (Inl Logic_Error, fc)
      else if \<not> src_rank < int (fc_nranks fc) then (Inl Logic_Error, fc)
      else case to_size src_rank of
             Inl e \<Rightarrow> (Inl e, fc)
           | Inr r \<Rightarrow>
               if fc_reported fc ! r then (Inl Logic_Error, fc)
               else (Inr (), fc\<lparr>fc_reported := (fc_reported fc)[r := True],
                                fc_with_goalpost := fc_with_goalpost fc + 1,
                                fc_goal := (fc_goal fc + nchunks) mod 2 ^ 64\<rparr>))"

text \<open>The chunk is counted before the check.\<close>

definition add_finished_chunk :: "(finish_counter, unit) act" where
  "add_finished_chunk fc =
     (let fc1 = fc\<lparr>fc_finished := (fc_finished fc + 1) mod 2 ^ 64\<rparr> in
      if fc_with_goalpost fc1 < fc_nranks fc1 \<or> fc_finished fc1 \<le> fc_goal fc1 then (Inr (), fc1)
      else (Inl Logic_Error, fc1))"

section \<open>Arrivals in any order\<close>

text \<open>What the arrival of a chunk does to the counter: a control message moves the goalpost first.\<close>

datatype arrival = Data_Arrival | Goal_Arrival int nat

fun arrive :: "arrival \<Rightarrow> (finish_counter, unit) act" where
  "arrive Data_Arrival fc = add_finished_chunk fc"
| "arrive (Goal_Arrival r n) fc = act_bind (move_goalpost r n) (\<lambda>_. add_finished_chunk) fc"

fun arrive_all :: "arrival list \<Rightarrow> (finish_counter, unit) act" where
  "arrive_all [] fc = (Inr (), fc)"
| "arrive_all (e # es) fc = act_bind (arrive e) (\<lambda>_. arrive_all es) fc"

fun goals :: "arrival list \<Rightarrow> (int \<times> nat) list" where
  "goals [] = []"
| "goals (Data_Arrival # es) = goals es"
| "goals (Goal_Arrival r n # es) = (r, n) # goals es"

lemma goals_append [simp]: "goals (p @ q) = goals p @ goals q"
  by (induction p rule: goals.induct) auto

lemma length_goals_le: "length (goals p) \<le> length p"
  by (induction p rule: goals.induct) auto

lemma arrive_all_append:
  "arrive_all (p @ q) fc = act_bind (arrive_all p) (\<lambda>_. arrive_all q) fc"
proof (induction p arbitrary: fc)
  case Nil
  then show ?case by simp
next
  case (Cons e p)
  then show ?case by (simp add: act_bind_def split: prod.splits sum.splits)
qed

text \<open>The arrivals rank \<open>r < n\<close> causes: \<open>c r\<close> data chunks and one goalpost of \<open>c r + 1\<close>.\<close>

definition complete_arrivals :: "nat \<Rightarrow> (nat \<Rightarrow> nat) \<Rightarrow> arrival list \<Rightarrow> bool" where
  "complete_arrivals n c es \<longleftrightarrow>
     mset (goals es) = mset (map (\<lambda>r. (int r, c r + 1)) [0..<n]) \<and>
     length es = (\<Sum>r<n. c r + 1) \<and> length es < 2 ^ 64"

definition counter_at :: "nat \<Rightarrow> arrival list \<Rightarrow> finish_counter \<Rightarrow> bool" where
  "counter_at n p fc \<longleftrightarrow>
     fc_nranks fc = n \<and> fc_with_goalpost fc = length (goals p) \<and>
     fc_goal fc = sum_list (map snd (goals p)) \<and> fc_finished fc = length p \<and>
     length (fc_reported fc) = n \<and> (\<forall>r<n. fc_reported fc ! r \<longleftrightarrow> int r \<in> fst ` set (goals p))"

lemma complete_arrivals_facts:
  assumes "complete_arrivals n c es"
  shows "length (goals es) = n" "sum_list (map snd (goals es)) = length es"
    "distinct (map fst (goals es))" "fst ` set (goals es) = int ` {..<n}"
    "\<forall>(r, k)\<in>set (goals es). k > 0"
proof -
  let ?l = "map (\<lambda>r. (int r, c r + 1)) [0..<n]"
  have m: "mset (goals es) = mset ?l" using assms by (simp add: complete_arrivals_def)
  show "length (goals es) = n" using m by (metis diff_zero length_map length_upt size_mset)
  have "sum_list (map snd (goals es)) = sum_list (map snd ?l)" by (rule total_mset) (rule m)
  also have "\<dots> = (\<Sum>r<n. c r + 1)"
    by (simp add: o_def interv_sum_list_conv_sum_set_nat atLeast0LessThan)
  finally show "sum_list (map snd (goals es)) = length es"
    using assms by (simp add: complete_arrivals_def)
  have "mset (map fst (goals es)) = mset (map int [0..<n])"
    using arg_cong [OF m, of "image_mset fst"] by (simp add: o_def flip: mset_map)
  then show "distinct (map fst (goals es))"
    by (metis distinct_map distinct_upt inj_on_of_nat mset_eq_imp_distinct_iff)
  have s: "set (goals es) = set ?l" using m by (metis set_mset_mset)
  then show "fst ` set (goals es) = int ` {..<n}" by (auto simp: image_image)
  from s show "\<forall>(r, k)\<in>set (goals es). k > 0" by auto
qed

lemma arrive_step:
  assumes es: "complete_arrivals n c (p @ e # q)" and at: "counter_at n p fc" and "n > 0"
  shows "\<exists>fc'. arrive e fc = (Inr (), fc') \<and> counter_at n (p @ [e]) fc'"
proof -
  note F = complete_arrivals_facts [OF es]
  have len: "length (p @ e # q) < 2 ^ 64" using es by (simp add: complete_arrivals_def)
  have A: "fc_nranks fc = n" "fc_with_goalpost fc = length (goals p)"
    using at by (simp_all add: counter_at_def)
  have n: "length (goals p) + length (goals (e # q)) = n" using F(1) by simp
  have all: "length p + 1 \<le> sum_list (map snd (goals (p @ e # q)))" using F(2) by simp
  show ?thesis
  proof (cases e)
    case Data_Arrival
    have "length p + 1 \<le> fc_goal fc" if "\<not> fc_with_goalpost fc < fc_nranks fc"
    proof -
      have "length (goals q) = 0" using that A n unfolding Data_Arrival goals.simps by linarith
      then show ?thesis using all at Data_Arrival by (simp add: counter_at_def)
    qed
    then have "arrive e fc = (Inr (), fc\<lparr>fc_finished := length p + 1\<rparr>)"
      using at len by (auto simp: Data_Arrival add_finished_chunk_def Let_def counter_at_def)
    then show ?thesis using at by (simp add: counter_at_def Data_Arrival)
  next
    case (Goal_Arrival r k)
    have rk: "(r, k) \<in> set (goals (p @ e # q))" by (simp add: Goal_Arrival)
    then have k: "k > 0" using F(5) by blast
    from rk F(4) obtain i where i: "r = int i" "i < n" by force
    have new: "r \<notin> fst ` set (goals p)" using F(3) by (auto simp: Goal_Arrival)
    have le: "fc_goal fc + k \<le> length (p @ e # q)"
      using F(2) at by (simp add: Goal_Arrival counter_at_def)
    have i64: "to_size r = Inr i"
    proof -
      have "n \<le> length (p @ e # q)" using F(1) length_goals_le [of "p @ e # q"] by simp
      then have "i < 2 ^ 64" using len i(2) by linarith
      then show ?thesis by (simp add: to_size_eq_Inr i)
    qed
    let ?fc1 = "fc\<lparr>fc_reported := (fc_reported fc)[i := True], fc_with_goalpost := fc_with_goalpost fc + 1,
        fc_goal := fc_goal fc + k\<rparr>"
    have mv: "move_goalpost r k fc = (Inr (), ?fc1)"
      using k i i64 new at le len by (simp add: move_goalpost_def counter_at_def)
    have "length p + 1 \<le> fc_goal ?fc1" if "\<not> fc_with_goalpost ?fc1 < fc_nranks ?fc1"
    proof -
      have "\<not> fc_with_goalpost fc + 1 < fc_nranks fc" using that by simp
      then have "length (goals q) = 0" using A n unfolding Goal_Arrival goals.simps list.size by linarith
      then show ?thesis using all at Goal_Arrival by (simp add: counter_at_def)
    qed
    then have "add_finished_chunk ?fc1 = (Inr (), ?fc1\<lparr>fc_finished := length p + 1\<rparr>)"
      using at len by (auto simp: add_finished_chunk_def Let_def counter_at_def)
    with mv have "arrive e fc = (Inr (), ?fc1\<lparr>fc_finished := length p + 1\<rparr>)"
      by (simp add: Goal_Arrival)
    moreover have "counter_at n (p @ [e]) (?fc1\<lparr>fc_finished := length p + 1\<rparr>)"
      using at i new by (auto simp: counter_at_def Goal_Arrival nth_list_update)
    ultimately show ?thesis by blast
  qed
qed

lemma arrive_all_counter_at:
  assumes "complete_arrivals n c (p @ q)" and "n > 0" and "n_local > 0"
  shows "\<exists>fc. arrive_all p (new_finish_counter n n_local) = (Inr (), fc) \<and> counter_at n p fc"
  using assms(1)
proof (induction p arbitrary: q rule: rev_induct)
  case Nil
  then show ?case using assms(2,3) by (simp add: new_finish_counter_def counter_at_def)
next
  case (snoc e p)
  then obtain fc where fc: "arrive_all p (new_finish_counter n n_local) = (Inr (), fc)" "counter_at n p fc"
    by fastforce
  obtain fc' where "arrive e fc = (Inr (), fc')" "counter_at n (p @ [e]) fc'"
    using arrive_step [OF _ fc(2) assms(2)] snoc.prems by fastforce
  then show ?case using fc(1) by (simp add: arrive_all_append)
qed

lemma counter_at_finished:
  assumes es: "complete_arrivals n c (p @ q)" and at: "counter_at n p fc"
  shows "all_finished fc \<longleftrightarrow> q = []"
proof -
  note F = complete_arrivals_facts [OF es]
  show ?thesis
  proof
    assume "all_finished fc"
    then have "length (goals p) = n" and s: "length p = sum_list (map snd (goals p))"
      using at unfolding all_finished_def counter_at_def by auto
    then have "goals q = []" using F(1) by simp
    then have "length p = length (p @ q)" using F(2) s by simp
    then show "q = []" by simp
  next
    assume "q = []"
    then show "all_finished fc" using at F(1,2) by (simp add: all_finished_def counter_at_def)
  qed
qed

section \<open>Properties\<close>

text \<open>Property C20: the finish counter, whatever the order in which chunks arrive. If rank \<open>r\<close> sends \<open>c r\<close> data
  chunks and one goalpost of \<open>c r + 1\<close>, in any interleaving (goalposts before the data they count
  included), then no arrival is rejected, and the counter reports that all is finished exactly when
  the last of all these chunks has arrived, never earlier.\<close>

theorem finished_iff_all_arrived:
  assumes "complete_arrivals n c (p @ q)" and "n > 0" and "n_local > 0"
  shows "fst (arrive_all p (new_finish_counter n n_local)) = Inr () \<and>
    (all_finished (snd (arrive_all p (new_finish_counter n n_local))) \<longleftrightarrow> q = [])"
proof -
  obtain fc where fc: "arrive_all p (new_finish_counter n n_local) = (Inr (), fc)" "counter_at n p fc"
    using arrive_all_counter_at [OF assms] by blast
  have "all_finished fc \<longleftrightarrow> q = []" by (rule counter_at_finished [OF assms(1) fc(2)])
  then show ?thesis using fc(1) by simp
qed

theorem finished_iff_all_arrived_witness:
  "\<not> all_finished (snd (arrive_all [Goal_Arrival 1 2, Data_Arrival, Goal_Arrival 0 2] (new_finish_counter 2 3))) \<and>
   all_finished (snd (arrive_all [Goal_Arrival 1 2, Data_Arrival, Goal_Arrival 0 2, Data_Arrival] (new_finish_counter 2 3)))"
proof -
  have "{..<2 :: nat} = {0, 1}" by auto
  then have "complete_arrivals 2 (\<lambda>_. 1) [Goal_Arrival 1 2, Data_Arrival, Goal_Arrival 0 2, Data_Arrival]"
    by (simp add: complete_arrivals_def upt_rec add_mset_commute flip: numeral_2_eq_2)
  then show ?thesis
    using finished_iff_all_arrived [of 2 "\<lambda>_. 1" "[Goal_Arrival 1 2, Data_Arrival, Goal_Arrival 0 2]" "[Data_Arrival]" 3]
      finished_iff_all_arrived [of 2 "\<lambda>_. 1" "[Goal_Arrival 1 2, Data_Arrival, Goal_Arrival 0 2, Data_Arrival]" "[]" 3]
    by simp
qed

end
