(* ===== verification/Memory_Types.thy ===== *)
theory Memory_Types
  imports String_Utils
begin

text \<open>
  Memory kinds and content descriptions: \<^verbatim>\<open>memory/memory_type.hpp\<close>,
  \<^verbatim>\<open>memory/memory_type.cpp\<close> and \<^verbatim>\<open>memory/content_description.hpp\<close>. The enumeration order is the
  order of preference, so \<open>mem_type\<close> is made a linear order with it.
\<close>

datatype mem_type = DEVICE | PINNED_HOST | HOST | DISK

definition mt_index :: "mem_type \<Rightarrow> nat" where
  "mt_index m = (case m of DEVICE \<Rightarrow> 0 | PINNED_HOST \<Rightarrow> 1 | HOST \<Rightarrow> 2 | DISK \<Rightarrow> 3)"

lemma mt_index_inj: "mt_index a = mt_index b \<Longrightarrow> a = b"
  by (cases a; cases b) (simp_all add: mt_index_def)

instantiation mem_type :: linorder
begin

definition less_eq_mem_type :: "mem_type \<Rightarrow> mem_type \<Rightarrow> bool" where
  "less_eq_mem_type a b \<longleftrightarrow> mt_index a \<le> mt_index b"

definition less_mem_type :: "mem_type \<Rightarrow> mem_type \<Rightarrow> bool" where
  "less_mem_type a b \<longleftrightarrow> mt_index a < mt_index b"

instance
  by standard (auto simp: less_eq_mem_type_def less_mem_type_def dest: mt_index_inj)

end

definition MEMORY_TYPES :: "mem_type list" where
  "MEMORY_TYPES = [DEVICE, PINNED_HOST, HOST, DISK]"

definition MEMORY_TYPE_NAMES :: "string list" where
  "MEMORY_TYPE_NAMES = [''DEVICE'', ''PINNED_HOST'', ''HOST'', ''DISK'']"

definition ADDRESSABLE_MEMORY_TYPES :: "mem_type list" where
  "ADDRESSABLE_MEMORY_TYPES = [DEVICE, PINNED_HOST, HOST]"

definition SPILL_TARGET_MEMORY_TYPES :: "mem_type list" where
  "SPILL_TARGET_MEMORY_TYPES = [PINNED_HOST, HOST]"

definition leq_memory_types :: "mem_type \<Rightarrow> mem_type list" where
  "leq_memory_types m = dropWhile (\<lambda>mt. mt \<noteq> m) ADDRESSABLE_MEMORY_TYPES"

definition mem_type_to_string :: "mem_type \<Rightarrow> string" where
  "mem_type_to_string m = MEMORY_TYPE_NAMES ! mt_index m"

text \<open>
  \<^verbatim>\<open>operator>>\<close>: one token is extracted. \<open>None\<close> is a failed stream; the token is compared in
  upper case.
\<close>

definition read_mem_type :: "string \<Rightarrow> mem_type option" where
  "read_mem_type input =
     (if trim input = [] then None
      else let token = to_upper (trim input) in
        if token = ''DEVICE'' then Some DEVICE
        else if token = ''PINNED_HOST'' \<or> token = ''PINNED'' \<or> token = ''PINNED-HOST'' then Some PINNED_HOST
        else if token = ''HOST'' then Some HOST
        else if token = ''DISK'' then Some DISK
        else None)"

definition parse_mem_type :: "string \<Rightarrow> mem_type result" where
  "parse_mem_type input =
     (case read_mem_type input of None \<Rightarrow> Inl Invalid_Argument | Some m \<Rightarrow> Inr m)"

section \<open>Content descriptions\<close>

record content_desc =
  content_sizes :: "mem_type \<Rightarrow> nat"
  cd_spillable :: bool

definition content_description :: "(mem_type \<times> nat) list \<Rightarrow> bool \<Rightarrow> content_desc" where
  "content_description sizes spillable =
     \<lparr>content_sizes = foldl (\<lambda>f (m, n). f(m := n)) (\<lambda>_. 0) sizes, cd_spillable = spillable\<rparr>"

fun first_nonzero :: "(mem_type \<Rightarrow> nat) \<Rightarrow> mem_type list \<Rightarrow> mem_type" where
  "first_nonzero f [] = DEVICE"
| "first_nonzero f (m # ms) = (if f m > 0 then m else first_nonzero f ms)"

definition principal_memory_type :: "content_desc \<Rightarrow> mem_type" where
  "principal_memory_type cd = first_nonzero (content_sizes cd) MEMORY_TYPES"

definition content_size_total :: "content_desc \<Rightarrow> nat" where
  "content_size_total cd = foldl (+) 0 (map (content_sizes cd) MEMORY_TYPES)"

section \<open>Lemmas\<close>

lemma in_MEMORY_TYPES [simp]: "m \<in> set MEMORY_TYPES"
  by (cases m) (simp_all add: MEMORY_TYPES_def)

lemma UNIV_mem_type: "UNIV = {DEVICE, PINNED_HOST, HOST, DISK}"
  by (auto intro: mem_type.exhaust)

lemma finite_mem_type [simp]: "finite (UNIV :: mem_type set)"
  by (simp add: UNIV_mem_type)

lemma all_mem_type: "(\<forall>m. P m) \<longleftrightarrow> P DEVICE \<and> P PINNED_HOST \<and> P HOST \<and> P DISK"
  by (metis mem_type.exhaust)

lemma spill_targets_addressable: "set SPILL_TARGET_MEMORY_TYPES \<subseteq> set ADDRESSABLE_MEMORY_TYPES"
  by (auto simp: SPILL_TARGET_MEMORY_TYPES_def ADDRESSABLE_MEMORY_TYPES_def)

lemma leq_memory_types_set:
  "set (leq_memory_types m) =
     (if m = DISK then {} else {mt \<in> set ADDRESSABLE_MEMORY_TYPES. m \<le> mt})"
  by (cases m)
    (auto simp: leq_memory_types_def ADDRESSABLE_MEMORY_TYPES_def less_eq_mem_type_def mt_index_def)

lemma content_size_total_zero:
  "content_size_total cd = 0 \<longleftrightarrow> (\<forall>m. content_sizes cd m = 0)"
  by (simp add: content_size_total_def MEMORY_TYPES_def all_mem_type)

lemma first_nonzero_least:
  assumes "sorted ms" and "\<exists>m\<in>set ms. f m > 0"
  shows "f (first_nonzero f ms) > 0 \<and> (\<forall>m\<in>set ms. f m > 0 \<longrightarrow> first_nonzero f ms \<le> m)"
  using assms by (induction ms) (auto)

lemma sorted_MEMORY_TYPES [simp]: "sorted MEMORY_TYPES"
  by (simp add: MEMORY_TYPES_def less_eq_mem_type_def mt_index_def)

lemma principal_memory_type_least:
  assumes "content_size_total cd > 0"
  shows "content_sizes cd (principal_memory_type cd) > 0"
    and "content_sizes cd m > 0 \<Longrightarrow> principal_memory_type cd \<le> m"
proof -
  from assms obtain m where "content_sizes cd m > 0"
    using content_size_total_zero [of cd] by auto
  then have "\<exists>m\<in>set MEMORY_TYPES. content_sizes cd m > 0" by (intro bexI [of _ m]) simp_all
  from first_nonzero_least [OF sorted_MEMORY_TYPES this]
  show "content_sizes cd (principal_memory_type cd) > 0"
    and "content_sizes cd m > 0 \<Longrightarrow> principal_memory_type cd \<le> m" for m
    by (simp_all add: principal_memory_type_def)
qed

lemma content_sizes_later_entry_wins:
  "content_sizes (content_description (sizes @ [(m, n)]) b) =
   (content_sizes (content_description sizes b))(m := n)"
  by (simp add: content_description_def)

section \<open>Properties\<close>

text \<open>The name of a memory type reads back as that type, in any letter case, and with
  whitespace around it.\<close>

theorem mem_type_names: "read_mem_type (mem_type_to_string mt) = Some mt \<and>
    read_mem_type ('' '' @ to_lower (mem_type_to_string mt) @ '' '') = Some mt"
  by (cases mt; hypsubst; code_simp)

text \<open>The principal memory type of a message with content is the fastest memory type any of its
  content is in.\<close>

theorem principal_memory_type_spec:
  assumes "content_size_total cd > 0"
  shows "content_sizes cd (principal_memory_type cd) > 0 \<and>
    (\<forall>m. content_sizes cd m > 0 \<longrightarrow> principal_memory_type cd \<le> m)"
  using principal_memory_type_least [OF assms] by blast

theorem principal_memory_type_spec_witness:
  "principal_memory_type (content_description [(DISK, 4), (HOST, 3)] True) = HOST \<and> HOST \<le> DISK"
proof -
  let ?cd = "content_description [(DISK, 4), (HOST, 3)] True"
  have p: "principal_memory_type ?cd = HOST" by code_simp
  have "content_size_total ?cd > 0" by code_simp
  note spec = principal_memory_type_spec [OF this]
  have "content_sizes ?cd DISK > 0" by code_simp
  then have "principal_memory_type ?cd \<le> DISK" using spec by blast
  then show ?thesis by (simp only: p simp_thms)
qed

end
