(* ===== verification/Buffers.thy ===== *)
theory Buffers
  imports Memory_Types
begin

text \<open>
  \<^verbatim>\<open>memory/buffer.cpp\<close> and \<^verbatim>\<open>memory/buffer.hpp\<close>: a buffer with its storage, its stream, the event
  of its latest write and the exclusive lock, the operations that check the lock, and
  \<open>buffer_copy\<close>.

  CUDA is third-party code. A stream is a number (\<open>invalid_stream\<close> is the reserved one) and the
  bytes of a buffer are its contents in stream order. \<open>buf_ready\<close> says whether the event recorded
  by the latest write has completed: recording an event clears it, and \<open>write_completes\<close> is the
  step by which the device finishes the work. Disk input and output is third-party too: the number of bytes it
  reports as transferred is an argument.
\<close>

type_synonym stream = nat

definition invalid_stream :: stream where "invalid_stream = 0"

text \<open>
  \<open>buf_storage\<close> is the alternative of the variant that goes with the memory type: device memory,
  host memory, or the current contents of the backing file. \<open>None\<close> is the null pointer a released buffer
  holds.
\<close>

record buffer =
  buf_size :: nat
  buf_mem :: mem_type
  buf_storage :: "u8 list option"
  buf_stream :: stream
  buf_ready :: bool
  buf_locked :: bool
  buf_token :: bool

definition host_buffer_types :: "mem_type list" where
  "host_buffer_types = [HOST, PINNED_HOST]"

definition device_buffer_types :: "mem_type list" where
  "device_buffer_types = [DEVICE]"

text \<open>
  The three constructors. The one for host memory does not record an event (a default event is complete);
  a fresh disk file is empty.
\<close>

definition new_host_buffer :: "u8 list option \<Rightarrow> stream \<Rightarrow> mem_type \<Rightarrow> buffer result" where
  "new_host_buffer host_buffer s mt =
     (case host_buffer of
        None \<Rightarrow> Inl Invalid_Argument
      | Some bs \<Rightarrow>
          if mt \<notin> set host_buffer_types then Inl Logic_Error
          else Inr \<lparr>buf_size = length bs, buf_mem = mt, buf_storage = Some bs, buf_stream = s,
                    buf_ready = True, buf_locked = False, buf_token = False\<rparr>)"

definition new_device_buffer :: "(u8 list \<times> stream) option \<Rightarrow> mem_type \<Rightarrow> buffer result" where
  "new_device_buffer device_buffer mt =
     (case device_buffer of
        None \<Rightarrow> Inl Invalid_Argument
      | Some (bs, s) \<Rightarrow>
          if mt \<notin> set device_buffer_types then Inl Logic_Error
          else Inr \<lparr>buf_size = length bs, buf_mem = mt, buf_storage = Some bs, buf_stream = s,
                    buf_ready = False, buf_locked = False, buf_token = False\<rparr>)"

definition new_disk_buffer :: "nat option \<Rightarrow> stream \<Rightarrow> buffer result" where
  "new_disk_buffer disk_buffer s =
     (case disk_buffer of
        None \<Rightarrow> Inl Invalid_Argument
      | Some n \<Rightarrow>
          Inr \<lparr>buf_size = n, buf_mem = DISK, buf_storage = Some [], buf_stream = s,
               buf_ready = False, buf_locked = False, buf_token = False\<rparr>)"

definition write_completes :: "buffer \<Rightarrow> buffer" where
  "write_completes b = b\<lparr>buf_ready := True\<rparr>"

section \<open>Operations\<close>

definition throw_if_locked :: "buffer \<Rightarrow> unit result" where
  "throw_if_locked b = expects (\<not> buf_locked b) Logic_Error"

text \<open>The bytes behind the data pointer; a null storage is a null dereference.\<close>

definition storage_bytes :: "buffer \<Rightarrow> u8 list result" where
  "storage_bytes b =
     (if buf_mem b = DISK then Inl Logic_Error
      else case buf_storage b of None \<Rightarrow> Inl Undefined | Some bs \<Rightarrow> Inr bs)"

definition buffer_data :: "buffer \<Rightarrow> u8 list result" where
  "buffer_data b = res_bind (throw_if_locked b) (\<lambda>_. storage_bytes b)"

definition is_latest_write_done :: "buffer \<Rightarrow> bool result" where
  "is_latest_write_done b =
     res_bind (throw_if_locked b) (\<lambda>_. Inr (buf_size b = 0 \<or> buf_ready b))"

definition exclusive_data_access :: "(buffer, u8 list) act" where
  "exclusive_data_access b =
     (case is_latest_write_done b of
        Inl e \<Rightarrow> (Inl e, b)
      | Inr done_ \<Rightarrow>
          if \<not> done_ then (Inl Logic_Error, b)
          else if buf_locked b then (Inl Logic_Error, b)
          else (storage_bytes b, b\<lparr>buf_locked := True\<rparr>))"

definition unlock :: "buffer \<Rightarrow> buffer" where
  "unlock b = b\<lparr>buf_locked := False\<rparr>"

definition release_storage :: "mem_type list \<Rightarrow> (buffer, u8 list option) act" where
  "release_storage types b =
     (case throw_if_locked b of
        Inl e \<Rightarrow> (Inl e, b)
      | Inr _ \<Rightarrow>
          if buf_mem b \<in> set types then (Inr (buf_storage b), b\<lparr>buf_storage := None\<rparr>)
          else (Inl Logic_Error, b))"

definition release_device_buffer :: "(buffer, u8 list option) act" where
  "release_device_buffer = release_storage device_buffer_types"

definition release_host_buffer :: "(buffer, u8 list option) act" where
  "release_host_buffer = release_storage host_buffer_types"

definition release_disk_buffer :: "(buffer, u8 list option) act" where
  "release_disk_buffer = release_storage [DISK]"

definition rebind_stream :: "stream \<Rightarrow> (buffer, unit) act" where
  "rebind_stream new_stream b =
     (case throw_if_locked b of
        Inl e \<Rightarrow> (Inl e, b)
      | Inr _ \<Rightarrow>
          if new_stream = invalid_stream then (Inl Invalid_Argument, b)
          else if new_stream = buf_stream b then (Inr (), b)
          else if buf_storage b = None then (Inl Undefined, b\<lparr>buf_stream := new_stream\<rparr>)
          else (Inr (), b\<lparr>buf_stream := new_stream\<rparr>))"

definition record_write_event :: "(buffer, unit) act" where
  "record_write_event b =
     (case throw_if_locked b of
        Inl e \<Rightarrow> (Inl e, b)
      | Inr _ \<Rightarrow> (Inr (), b\<lparr>buf_ready := False\<rparr>))"

text \<open>
  \<open>write_access\<close>: the callable sees the bytes and leaves new ones behind, with a result or an
  exception. An exception leaves before the write event is recorded.
\<close>

definition write_access :: "(u8 list \<Rightarrow> 'a result \<times> u8 list) \<Rightarrow> (buffer, 'a) act" where
  "write_access f b =
     (case buffer_data b of
        Inl e \<Rightarrow> (Inl e, b)
      | Inr bs \<Rightarrow>
          (case f bs of
             (Inl e, bs') \<Rightarrow> (Inl e, b\<lparr>buf_storage := Some bs'\<rparr>)
           | (Inr a, bs') \<Rightarrow>
               (case record_write_event (b\<lparr>buf_storage := Some bs'\<rparr>) of
                  (Inl e, b') \<Rightarrow> (Inl e, b')
                | (Inr _, b') \<Rightarrow> (Inr a, b'))))"

section \<open>Copying\<close>

definition overwrite :: "nat \<Rightarrow> 'a list \<Rightarrow> 'a list \<Rightarrow> 'a list" where
  "overwrite off xs ys = take off ys @ xs @ drop (off + length xs) ys"

text \<open>A \<^verbatim>\<open>memcpy\<close> of \<open>nbytes\<close> bytes is undefined when either range leaves its buffer.\<close>

definition memcpy :: "u8 list \<Rightarrow> nat \<Rightarrow> u8 list \<Rightarrow> nat \<Rightarrow> nat \<Rightarrow> unit result \<times> u8 list" where
  "memcpy src src_off dst dst_off nbytes =
     (if src_off + nbytes \<le> length src \<and> dst_off + nbytes \<le> length dst
      then (Inr (), overwrite dst_off (take nbytes (drop src_off src)) dst)
      else (Inl Undefined, dst))"

text \<open>\<open>std::ptrdiff_t(nbytes)\<close> reads a 64-bit unsigned number as a signed one.\<close>

definition to_ptrdiff :: "nat \<Rightarrow> int" where
  "to_ptrdiff n = (if n < 2 ^ 63 then int n else int n - 2 ^ 64)"

definition check_range :: "int \<Rightarrow> nat \<Rightarrow> nat \<Rightarrow> unit result" where
  "check_range off nbytes limit =
     (if off < 0 then Inl Invalid_Argument
      else res_bind (chk64 (off + to_ptrdiff nbytes)) (\<lambda>e. expects (e \<le> to_ptrdiff limit) Invalid_Argument))"

text \<open>
  \<open>buffer_copy\<close> for two different buffers: the result and the destination. Buffers are values here, so the code's
  check that source and destination are not one object has no counterpart. \<open>transferred\<close> is what
  the disk resource reports; a file write extends the file with zeros up to its offset.
\<close>

definition file_write :: "nat \<Rightarrow> u8 list \<Rightarrow> u8 list \<Rightarrow> u8 list" where
  "file_write off xs file = overwrite off xs (file @ replicate (off - length file) 0)"

definition buffer_copy ::
  "bool \<Rightarrow> buffer \<Rightarrow> nat \<Rightarrow> int \<Rightarrow> int \<Rightarrow> nat \<Rightarrow> (buffer, unit) act" where
  "buffer_copy statistics_set src nbytes dst_offset src_offset transferred dst =
     (case res_bind (check_range dst_offset nbytes (buf_size dst))
             (\<lambda>_. check_range src_offset nbytes (buf_size src)) of
        Inl e \<Rightarrow> (Inl e, dst)
      | Inr _ \<Rightarrow>
          if nbytes = 0 then (Inr (), dst)
          else if \<not> statistics_set then (Inl Logic_Error, dst)
          else if buf_mem src = DISK \<and> buf_mem dst = DISK then (Inl Invalid_Argument, dst)
          else if buf_mem dst = DISK then
            (case (buffer_data src, buf_storage dst) of
               (Inl e, _) \<Rightarrow> (Inl e, dst)
             | (Inr bs, None) \<Rightarrow> (Inl Undefined, dst)
             | (Inr bs, Some file) \<Rightarrow>
                 (let dst1 = dst\<lparr>buf_storage :=
                        Some (file_write (nat dst_offset)
                          (take (min nbytes transferred) (drop (nat src_offset) bs)) file)\<rparr> in
                  if transferred \<noteq> nbytes then (Inl Runtime_Error, dst1)
                  else record_write_event dst1))
          else if buf_mem src = DISK then
            (case buf_storage src of
               None \<Rightarrow> (Inl Undefined, dst)
             | Some file \<Rightarrow>
                 if nat src_offset \<le> length file \<and> nbytes \<le> length file - nat src_offset then
                   write_access (\<lambda>bs.
                     (if transferred \<noteq> nbytes then
                        (Inl Runtime_Error,
                         snd (memcpy file (nat src_offset) bs (nat dst_offset) (min nbytes transferred)))
                      else memcpy file (nat src_offset) bs (nat dst_offset) nbytes)) dst
                 else (Inl Invalid_Argument, dst))
          else
            write_access (\<lambda>bs.
              (case buffer_data src of
                 Inl e \<Rightarrow> (Inl e, bs)
               | Inr sbs \<Rightarrow> memcpy sbs (nat src_offset) bs (nat dst_offset) nbytes)) dst)"

section \<open>Lemmas\<close>

text \<open>What every constructor gives and every operation but a release keeps.\<close>

definition buffer_wf :: "buffer \<Rightarrow> bool" where
  "buffer_wf b \<longleftrightarrow>
     (\<forall>bs. buf_storage b = Some bs \<longrightarrow> (if buf_mem b = DISK then length bs \<le> buf_size b else length bs = buf_size b))"

lemma new_buffer_wf:
  "new_host_buffer hb s mt = Inr b \<Longrightarrow> buffer_wf b"
  "new_device_buffer db mt = Inr b \<Longrightarrow> buffer_wf b"
  "new_disk_buffer kb s = Inr b \<Longrightarrow> buffer_wf b"
  by (auto simp: new_host_buffer_def new_device_buffer_def new_disk_buffer_def buffer_wf_def
      host_buffer_types_def device_buffer_types_def split: option.splits if_splits)

lemma length_overwrite: "off + length xs \<le> length ys \<Longrightarrow> length (overwrite off xs ys) = length ys"
  by (simp add: overwrite_def)

lemma nth_overwrite:
  assumes "off + length xs \<le> length ys" and "i < length ys"
  shows "overwrite off xs ys ! i = (if off \<le> i \<and> i < off + length xs then xs ! (i - off) else ys ! i)"
  using assms by (auto simp: overwrite_def nth_append)

lemma locked_throws:
  assumes "buf_locked b"
  shows "buffer_data b = Inl Logic_Error" and "is_latest_write_done b = Inl Logic_Error"
    and "exclusive_data_access b = (Inl Logic_Error, b)"
    and "release_storage types b = (Inl Logic_Error, b)"
    and "rebind_stream s b = (Inl Logic_Error, b)"
    and "record_write_event b = (Inl Logic_Error, b)"
    and "write_access f b = (Inl Logic_Error, b)"
  using assms
  by (simp_all add: buffer_data_def is_latest_write_done_def exclusive_data_access_def
      release_storage_def rebind_stream_def record_write_event_def write_access_def
      throw_if_locked_def)

lemma exclusive_data_access_Inr:
  "exclusive_data_access b = (Inr bs, b') \<longleftrightarrow>
     \<not> buf_locked b \<and> (buf_size b = 0 \<or> buf_ready b) \<and> storage_bytes b = Inr bs \<and>
     b' = b\<lparr>buf_locked := True\<rparr>"
  by (auto simp: exclusive_data_access_def is_latest_write_done_def throw_if_locked_def)

lemma exclusive_data_access_disk:
  assumes "buf_mem b = DISK" and "\<not> buf_locked b" and "buf_size b = 0 \<or> buf_ready b"
  shows "exclusive_data_access b = (Inl Logic_Error, b\<lparr>buf_locked := True\<rparr>)"
  using assms
  by (simp add: exclusive_data_access_def is_latest_write_done_def throw_if_locked_def
      storage_bytes_def)

lemma check_range_ok:
  assumes "check_range off nbytes limit = Inr u" and "nbytes < 2 ^ 63" and "limit < 2 ^ 63"
  shows "0 \<le> off" and "nat off + nbytes \<le> limit"
  using assms
  by (auto simp: check_range_def to_ptrdiff_def res_bind_eq_Inr chk64_eq_Inr split: if_splits)

lemma check_range_fits:
  assumes "off + nbytes \<le> limit" and "limit < 2 ^ 63"
  shows "check_range (int off) nbytes limit = Inr ()"
  using assms
  by (auto simp: check_range_def to_ptrdiff_def chk64_def in_int64_def int64_max_def int64_min_def)

text \<open>
  Copying between two memory buffers that are unlocked and whose ranges fit puts the source range
  at the destination offset and changes nothing else.
\<close>

lemma buffer_copy_memory:
  assumes "buffer_wf src" "buf_storage src = Some sbs" "buf_mem src \<noteq> DISK" "\<not> buf_locked src"
    and "buffer_wf dst" "buf_storage dst = Some dbs" "buf_mem dst \<noteq> DISK" "\<not> buf_locked dst"
    and "nbytes > 0" "doff + nbytes \<le> buf_size dst" "soff + nbytes \<le> buf_size src"
    and "buf_size dst < 2 ^ 63" "buf_size src < 2 ^ 63"
  shows "buffer_copy True src nbytes (int doff) (int soff) tr dst =
    (Inr (), dst\<lparr>buf_storage := Some (overwrite doff (take nbytes (drop soff sbs)) dbs),
                 buf_ready := False\<rparr>)"
proof -
  have len: "length sbs = buf_size src" "length dbs = buf_size dst"
    using assms(1,2,3,5,6,7) by (simp_all add: buffer_wf_def)
  have "memcpy sbs soff dbs doff nbytes = (Inr (), overwrite doff (take nbytes (drop soff sbs)) dbs)"
    using assms(10,11) len by (simp add: memcpy_def)
  moreover have "buffer_data src = Inr sbs" "buffer_data dst = Inr dbs"
    using assms by (simp_all add: buffer_data_def throw_if_locked_def storage_bytes_def)
  moreover have "check_range (int doff) nbytes (buf_size dst) = Inr ()"
    "check_range (int soff) nbytes (buf_size src) = Inr ()"
    using assms(10-13) by (simp_all add: check_range_fits)
  ultimately show ?thesis
    using assms(3,7,8,9)
    by (simp add: buffer_copy_def write_access_def record_write_event_def throw_if_locked_def)
qed

text \<open>A whole buffer spilled to disk and read back has the bytes it started with.\<close>

lemma buffer_copy_to_disk:
  assumes "buffer_wf src" "buf_storage src = Some sbs" "buf_mem src \<noteq> DISK" "\<not> buf_locked src"
    and "buf_mem disk = DISK" "buf_storage disk = Some []" "\<not> buf_locked disk"
    and "buf_size disk = buf_size src" "buf_size src > 0" "buf_size src < 2 ^ 63"
  shows "buffer_copy True src (buf_size src) 0 0 (buf_size src) disk =
    (Inr (), disk\<lparr>buf_storage := Some sbs, buf_ready := False\<rparr>)"
proof -
  have "check_range 0 (buf_size src) (buf_size src) = Inr ()"
    using check_range_fits [of 0 "buf_size src" "buf_size src"] assms(10) by simp
  moreover have "length sbs = buf_size src" using assms(1,2,3) by (simp add: buffer_wf_def)
  ultimately show ?thesis
    using assms
    by (simp add: buffer_copy_def buffer_data_def throw_if_locked_def storage_bytes_def
        file_write_def overwrite_def record_write_event_def)
qed

lemma buffer_copy_from_disk:
  assumes "buf_mem disk = DISK" "buf_storage disk = Some bs" "length bs = buf_size disk"
    and "buffer_wf dst" "buf_storage dst = Some dbs" "buf_mem dst \<noteq> DISK" "\<not> buf_locked dst"
    and "buf_size disk = buf_size dst" "buf_size dst > 0" "buf_size dst < 2 ^ 63"
  shows "buffer_copy True disk (buf_size dst) 0 0 (buf_size dst) dst =
    (Inr (), dst\<lparr>buf_storage := Some bs, buf_ready := False\<rparr>)"
proof -
  have "check_range 0 (buf_size dst) (buf_size dst) = Inr ()"
    using check_range_fits [of 0 "buf_size dst" "buf_size dst"] assms(10) by simp
  moreover have "length dbs = buf_size dst" using assms(4,5,6) by (simp add: buffer_wf_def)
  ultimately show ?thesis
    using assms
    by (simp add: buffer_copy_def buffer_data_def throw_if_locked_def storage_bytes_def
        write_access_def memcpy_def overwrite_def record_write_event_def)
qed

section \<open>Properties\<close>

text \<open>Property C36: exclusive access. A buffer hands out its bytes exclusively only when it is unlocked and its
  latest write has completed; from then on until \<open>unlock\<close> every other access throws and changes nothing,
  a second exclusive access included.\<close>

theorem exclusive_access_excludes:
  assumes "exclusive_data_access b = (Inr bs, b')"
  shows "\<not> buf_locked b \<and> (buf_size b = 0 \<or> buf_ready b) \<and>
    buffer_data b' = Inl Logic_Error \<and> exclusive_data_access b' = (Inl Logic_Error, b') \<and>
    write_access f b' = (Inl Logic_Error, b') \<and> rebind_stream s b' = (Inl Logic_Error, b') \<and>
    release_host_buffer b' = (Inl Logic_Error, b') \<and> release_device_buffer b' = (Inl Logic_Error, b') \<and>
    release_disk_buffer b' = (Inl Logic_Error, b') \<and> record_write_event b' = (Inl Logic_Error, b') \<and>
    is_latest_write_done b' = Inl Logic_Error \<and> buffer_data (unlock b') = Inr bs"
proof -
  from assms have b: "\<not> buf_locked b" "buf_size b = 0 \<or> buf_ready b" "storage_bytes b = Inr bs"
    "b' = b\<lparr>buf_locked := True\<rparr>" by (simp_all add: exclusive_data_access_Inr)
  then have "buf_locked b'" by simp
  then show ?thesis
    using b by (auto simp: locked_throws release_host_buffer_def release_device_buffer_def release_disk_buffer_def unlock_def
        buffer_data_def throw_if_locked_def storage_bytes_def)
qed

theorem exclusive_access_excludes_witness:
  "\<exists>b b'. exclusive_data_access b = (Inr [1], b') \<and> buffer_data b' = Inl Logic_Error \<and>
     buffer_data (unlock b') = Inr [1]"
proof -
  let ?b = "\<lparr>buf_size = 1, buf_mem = HOST, buf_storage = Some [1], buf_stream = 7,
     buf_ready = True, buf_locked = False, buf_token = False\<rparr>"
  have 1: "exclusive_data_access ?b = (Inr [1], ?b\<lparr>buf_locked := True\<rparr>)"
    by (simp add: exclusive_data_access_Inr storage_bytes_def)
  show ?thesis using 1 exclusive_access_excludes [OF 1] by blast
qed

text \<open>Asking a disk-backed buffer for exclusive access throws, and leaves the buffer locked, so
  that every later operation on it throws as well.\<close>

theorem exclusive_access_disk_stays_locked:
  assumes "buf_mem b = DISK" and "\<not> buf_locked b" and "buf_size b = 0 \<or> buf_ready b"
  shows "fst (exclusive_data_access b) = Inl Logic_Error \<and>
    fst (release_disk_buffer (snd (exclusive_data_access b))) = Inl Logic_Error \<and>
    fst (release_disk_buffer b) = Inr (buf_storage b)"
  using exclusive_data_access_disk [OF assms] assms
  by (simp add: locked_throws release_disk_buffer_def) (simp add: release_storage_def throw_if_locked_def)

theorem exclusive_access_disk_stays_locked_witness:
  "\<exists>b. new_disk_buffer (Some 0) 7 = Inr b \<and> fst (exclusive_data_access b) = Inl Logic_Error \<and>
     fst (release_disk_buffer (snd (exclusive_data_access b))) = Inl Logic_Error"
proof -
  let ?b = "\<lparr>buf_size = 0, buf_mem = DISK, buf_storage = Some [], buf_stream = 7,
               buf_ready = False, buf_locked = False, buf_token = False\<rparr>"
  have "new_disk_buffer (Some 0) 7 = Inr ?b" by (simp add: new_disk_buffer_def)
  moreover have "fst (exclusive_data_access ?b) = Inl Logic_Error \<and>
     fst (release_disk_buffer (snd (exclusive_data_access ?b))) = Inl Logic_Error"
    using exclusive_access_disk_stays_locked [of ?b] by simp
  ultimately show ?thesis by blast
qed

end
