(* ===== verification/Buffer_Resource.thy ===== *)
theory Buffer_Resource
  imports Buffers
begin

text \<open>
  The memory ledger of \<^verbatim>\<open>memory/buffer_resource.cpp\<close>: limits, reservations with and without
  overbooking, buffer creation against a reservation, and moving a buffer between memory types;
  with the reservation handle of \<^verbatim>\<open>memory/memory_reservation.cpp\<close> and
  \<^verbatim>\<open>memory/spill.cpp\<close>. The record \<open>br\<close> is extensible: components that own spillable
  buffers extend it, so a spill function is an action on the extended state.

  What the upstream resources decide is in the state as well: \<open>br_alloc_ok\<close> says whether an
  allocation succeeds, \<open>br_junk\<close> is the content of uninitialised memory and \<open>br_transfer\<close> the byte
  count a disk transfer reports. Concurrency: each function takes the mutex once around its
  read-modify-write, so a call is one step.
\<close>

datatype allow_overbooking = Overbooking_NO | Overbooking_YES

record br =
  br_limits :: "mem_type \<Rightarrow> int"
  br_allocated :: "mem_type \<Rightarrow> int"
  br_reserved :: "mem_type \<Rightarrow> nat"
  br_has_pinned :: bool
  br_has_disk :: bool
  br_default_overbooking :: allow_overbooking
  br_alloc_ok :: "mem_type \<Rightarrow> nat \<Rightarrow> bool"
  br_junk :: "nat \<Rightarrow> u8"
  br_transfer :: "nat \<Rightarrow> nat"

record reservation =
  res_mem :: mem_type
  res_br :: bool
  res_size :: nat

definition null_reservation :: "mem_type \<Rightarrow> reservation" where
  "null_reservation mt = \<lparr>res_mem = mt, res_br = False, res_size = 0\<rparr>"

text \<open>The constructor: unlimited unless the caller gives a limit.\<close>

definition initial_limits :: "(mem_type \<times> int) list \<Rightarrow> mem_type \<Rightarrow> int" where
  "initial_limits memory_limits = foldl (\<lambda>f (mt, limit). f(mt := limit)) (\<lambda>_. int64_max) memory_limits"

section \<open>Availability and reservations\<close>

definition memory_available :: "mem_type \<Rightarrow> 'w br_scheme \<Rightarrow> int result" where
  "memory_available mt b =
     (let limit = br_limits b mt in
      case mt of
        DEVICE \<Rightarrow> chk64 (limit - br_allocated b DEVICE)
      | PINNED_HOST \<Rightarrow>
          (if \<not> br_has_pinned b then Inr 0 else chk64 (limit - br_allocated b PINNED_HOST))
      | HOST \<Rightarrow> chk64 (limit - br_allocated b HOST)
      | DISK \<Rightarrow> Inr (if br_has_disk b then limit else 0))"

definition set_memory_limit :: "mem_type \<Rightarrow> int \<Rightarrow> 'w br_scheme \<Rightarrow> 'w br_scheme" where
  "set_memory_limit mt limit b = b\<lparr>br_limits := (br_limits b)(mt := limit)\<rparr>"

definition memory_available_for_reservation :: "mem_type \<Rightarrow> 'w br_scheme \<Rightarrow> int result" where
  "memory_available_for_reservation mt b =
     res_bind (memory_available mt b) (\<lambda>available.
     res_bind (to_int64 (br_reserved b mt)) (\<lambda>reserved.
       chk64 (available - reserved)))"

definition headroom_after :: "mem_type \<Rightarrow> nat \<Rightarrow> 'w br_scheme \<Rightarrow> int result" where
  "headroom_after mt n b =
     res_bind (memory_available mt b) (\<lambda>available.
     res_bind (to_int64 (br_reserved b mt)) (\<lambda>reserved.
     res_bind (to_int64 n) (\<lambda>sz.
     res_bind (chk64 (reserved + sz)) (\<lambda>needed.
       chk64 (available - needed)))))"

definition overbooking_of :: "int \<Rightarrow> nat result" where
  "overbooking_of headroom =
     (if headroom < 0 then res_bind (chk64 (- headroom)) to_size else Inr 0)"

definition reserve ::
  "mem_type \<Rightarrow> nat \<Rightarrow> allow_overbooking \<Rightarrow> ('w br_scheme, reservation \<times> nat) act" where
  "reserve mt n allow b =
     (if mt = DISK \<and> \<not> br_has_disk b then (Inl Invalid_Argument, b)
      else if mt = PINNED_HOST \<and> \<not> br_has_pinned b then (Inl Invalid_Argument, b)
      else case res_bind (headroom_after mt n b) overbooking_of of
             Inl e \<Rightarrow> (Inl e, b)
           | Inr overbooking \<Rightarrow>
               if overbooking > 0 \<and> allow = Overbooking_NO then
                 (Inr (\<lparr>res_mem = mt, res_br = True, res_size = 0\<rparr>, overbooking), b)
               else
                 (Inr (\<lparr>res_mem = mt, res_br = True, res_size = n\<rparr>, overbooking),
                  b\<lparr>br_reserved := (br_reserved b)(mt := br_reserved b mt + n)\<rparr>))"

text \<open>\<open>release\<close> returns the remaining size; the state is the resource and the handle.\<close>

definition release :: "nat \<Rightarrow> ('w br_scheme \<times> reservation, nat) act" where
  "release n s =
     (case s of (b, r) \<Rightarrow>
        if \<not> n \<le> res_size r then (Inl Reservation_Error, s)
        else if \<not> br_reserved b (res_mem r) \<ge> n then (Inl Logic_Error, s)
        else (Inr (res_size r - n),
              (b\<lparr>br_reserved := (br_reserved b)(res_mem r := br_reserved b (res_mem r) - n)\<rparr>,
               r\<lparr>res_size := res_size r - n\<rparr>)))"

text \<open>
  \<open>clear\<close>, also the destructor. It is \<^verbatim>\<open>noexcept\<close>: an exception of \<open>release\<close> terminates.
\<close>

definition clear :: "('w br_scheme \<times> reservation, unit) act" where
  "clear s =
     (if res_size (snd s) > 0 then
        if \<not> res_br (snd s) then (Inl Undefined, s)
        else case release (res_size (snd s)) s of
               (Inl e, s') \<Rightarrow> (Inl Fatal, s')
             | (Inr _, s') \<Rightarrow> (Inr (), s')
      else (Inr (), s))"

definition split_reservation :: "nat \<Rightarrow> (reservation, reservation) act" where
  "split_reservation n r =
     (if n \<le> res_size r then
        (Inr \<lparr>res_mem = res_mem r, res_br = res_br r, res_size = n\<rparr>, r\<lparr>res_size := res_size r - n\<rparr>)
      else (Inl Reservation_Error, r))"

text \<open>The move constructor: the new handle and what is left of the old one.\<close>

definition move_construct :: "reservation \<Rightarrow> reservation \<times> reservation" where
  "move_construct r = (r, r\<lparr>res_br := False, res_size := 0\<rparr>)"

definition move_assign :: "reservation \<Rightarrow> ('w br_scheme \<times> reservation, reservation) act" where
  "move_assign src s =
     (case clear s of
        (Inl e, s') \<Rightarrow> (Inl e, s')
      | (Inr _, (b, _)) \<Rightarrow> (Inr (src\<lparr>res_br := False, res_size := 0\<rparr>), (b, src)))"

fun try_reserve :: "nat \<Rightarrow> mem_type list \<Rightarrow> ('w br_scheme, reservation option) act" where
  "try_reserve n [] b = (Inr None, b)"
| "try_reserve n (mt # mts) b =
     (if mt = DISK \<and> \<not> br_has_disk b then try_reserve n mts b
      else if mt = PINNED_HOST \<and> \<not> br_has_pinned b then try_reserve n mts b
      else case reserve mt n Overbooking_NO b of
             (Inl e, b') \<Rightarrow> (Inl e, b')
           | (Inr (res, _), b') \<Rightarrow>
               if res_size res = n then (Inr (Some res), b') else try_reserve n mts b')"

definition reserve_or_fail :: "nat \<Rightarrow> mem_type list \<Rightarrow> ('w br_scheme, reservation) act" where
  "reserve_or_fail n mts b =
     (case try_reserve n mts b of
        (Inl e, b') \<Rightarrow> (Inl e, b')
      | (Inr (Some res), b') \<Rightarrow> (Inr res, b')
      | (Inr None, b') \<Rightarrow> (Inl Runtime_Error, b'))"

section \<open>Buffers\<close>

definition add_allocated :: "mem_type \<Rightarrow> int \<Rightarrow> 'w br_scheme \<Rightarrow> 'w br_scheme" where
  "add_allocated mt n b = b\<lparr>br_allocated := (br_allocated b)(mt := br_allocated b mt + n)\<rparr>"

text \<open>Destroying a buffer gives its storage back, if it still holds it.\<close>

definition destroy_buffer :: "buffer \<Rightarrow> 'w br_scheme \<Rightarrow> 'w br_scheme" where
  "destroy_buffer buf b =
     (if buf_storage buf = None then b else add_allocated (buf_mem buf) (- int (buf_size buf)) b)"

text \<open>The \<^verbatim>\<open>switch\<close> of \<open>make_buffer\<close>: allocate storage of the reservation's memory type.\<close>

definition allocate_storage :: "mem_type \<Rightarrow> nat \<Rightarrow> stream \<Rightarrow> ('w br_scheme, buffer) act" where
  "allocate_storage mt n s b =
     (let bytes = map (br_junk b) [0..<n];
          made = (case mt of
                    HOST \<Rightarrow> new_host_buffer (Some bytes) s HOST
                  | PINNED_HOST \<Rightarrow> new_host_buffer (Some bytes) s PINNED_HOST
                  | DEVICE \<Rightarrow> new_device_buffer (Some (bytes, s)) DEVICE
                  | DISK \<Rightarrow> new_disk_buffer (Some n) s)
      in if mt = PINNED_HOST \<and> \<not> br_has_pinned b then (Inl Invalid_Argument, b)
         else if mt = DISK \<and> \<not> br_has_disk b then (Inl Logic_Error, b)
         else if \<not> br_alloc_ok b mt n then (Inl Bad_Alloc, b)
         else case made of
                Inl e \<Rightarrow> (Inl e, b)
              | Inr buf \<Rightarrow> (Inr buf, add_allocated mt (int n) b))"

definition make_buffer :: "nat \<Rightarrow> stream \<Rightarrow> ('w br_scheme \<times> reservation, buffer) act" where
  "make_buffer n s st =
     (case st of (b, r) \<Rightarrow>
        if s = invalid_stream then (Inl Invalid_Argument, st)
        else case allocate_storage (res_mem r) n s b of
               (Inl e, b1) \<Rightarrow> (Inl e, (b1, r))
             | (Inr buf, b1) \<Rightarrow>
                 (case release n (b1, r) of
                    (Inl e, (b2, r2)) \<Rightarrow> (Inl e, (destroy_buffer buf b2, r2))
                  | (Inr _, st2) \<Rightarrow> (Inr buf, st2)))"

text \<open>
  \<open>move(buffer, reservation)\<close>. The buffer is owned by the call, so it is destroyed when the call
  throws. \<open>stats\<close> is whether statistics are enabled.
\<close>

definition move_buffer :: "bool \<Rightarrow> buffer \<Rightarrow> ('w br_scheme \<times> reservation, buffer) act" where
  "move_buffer stats buf st =
     (if res_mem (snd st) = buf_mem buf then (Inr buf, st)
      else
        let nbytes = buf_size buf; tracked = nbytes > 0; from = buf_mem buf; token = buf_token buf in
        case make_buffer nbytes (buf_stream buf) st of
          (Inl e, (b1, r1)) \<Rightarrow> (Inl e, (destroy_buffer buf b1, r1))
        | (Inr ret, (b1, r1)) \<Rightarrow>
            (let token1 = (if tracked \<and> res_mem r1 = DEVICE \<and> token then False else token) in
             case buffer_copy True buf nbytes 0 0 (br_transfer b1 nbytes) ret of
               (Inl e, ret1) \<Rightarrow> (Inl e, (destroy_buffer buf (destroy_buffer ret1 b1), r1))
             | (Inr _, ret1) \<Rightarrow>
                 (Inr (if from = DEVICE then ret1\<lparr>buf_token := tracked \<and> stats\<rparr>
                       else ret1\<lparr>buf_token := token1\<rparr>),
                  (destroy_buffer buf b1, r1))))"

definition ensure_memory_type ::
  "bool \<Rightarrow> buffer option \<Rightarrow> mem_type list \<Rightarrow> ('w br_scheme, buffer) act" where
  "ensure_memory_type stats buffer accepted b =
     (case buffer of
        None \<Rightarrow> (Inl Invalid_Argument, b)
      | Some buf \<Rightarrow>
          if accepted = [] then (Inl Invalid_Argument, destroy_buffer buf b)
          else if buf_mem buf \<in> set accepted then (Inr buf, b)
          else
            let finish = (\<lambda>res b2.
                  (case move_buffer stats buf (b2, res) of
                     (out, st) \<Rightarrow>
                       (case clear st of
                          (Inl e, (b3, _)) \<Rightarrow> (Inl e, b3)
                        | (Inr _, (b3, _)) \<Rightarrow> (out, b3)))) in
            case try_reserve (buf_size buf) (rev accepted) b of
              (Inl e, b1) \<Rightarrow> (Inl e, destroy_buffer buf b1)
            | (Inr (Some res), b1) \<Rightarrow> finish res b1
            | (Inr None, b1) \<Rightarrow>
                if br_default_overbooking b1 \<noteq> Overbooking_YES then
                  (Inl Reservation_Error, destroy_buffer buf b1)
                else case reserve (last accepted) (buf_size buf) Overbooking_YES b1 of
                       (Inl e, b2) \<Rightarrow> (Inl e, destroy_buffer buf b2)
                     | (Inr (res, _), b2) \<Rightarrow> finish res b2)"

definition move_to_device_buffer ::
  "bool \<Rightarrow> buffer \<Rightarrow> ('w br_scheme \<times> reservation, u8 list option) act" where
  "move_to_device_buffer stats buf st =
     (if res_mem (snd st) \<noteq> DEVICE then (Inl Invalid_Argument, (destroy_buffer buf (fst st), snd st))
      else act_bind (move_buffer stats buf)
             (\<lambda>ret (b1, r1).
               (case release_device_buffer ret of
                  (Inl e, ret1) \<Rightarrow> (Inl e, (destroy_buffer ret1 b1, r1))
                | (Inr bytes, _) \<Rightarrow> (Inr bytes, (b1, r1)))) st)"

definition move_to_host_buffer ::
  "bool \<Rightarrow> buffer \<Rightarrow> ('w br_scheme \<times> reservation, u8 list option) act" where
  "move_to_host_buffer stats buf st =
     (if res_mem (snd st) \<noteq> HOST then (Inl Invalid_Argument, (destroy_buffer buf (fst st), snd st))
      else act_bind (move_buffer stats buf)
             (\<lambda>ret (b1, r1).
               (case release_host_buffer ret of
                  (Inl e, ret1) \<Rightarrow> (Inl e, (destroy_buffer ret1 b1, r1))
                | (Inr bytes, _) \<Rightarrow> (Inr bytes, (b1, r1)))) st)"


section \<open>Spilling and unspilling partitions\<close>

record packed_data =
  pd_metadata :: "u8 list"
  pd_data :: buffer

definition make_packed_data :: "u8 list option \<Rightarrow> buffer option \<Rightarrow> packed_data result" where
  "make_packed_data metadata dat =
     (case (metadata, dat) of
        (None, _) \<Rightarrow> Inl Logic_Error
      | (_, None) \<Rightarrow> Inl Logic_Error
      | (Some m, Some d) \<Rightarrow>
          if length m > 0 \<or> buf_size d = 0 then Inr \<lparr>pd_metadata = m, pd_data = d\<rparr> else Inl Logic_Error)"

definition packed_empty :: "packed_data \<Rightarrow> bool" where
  "packed_empty p \<longleftrightarrow> pd_metadata p = [] \<and> buf_size (pd_data p) = 0"

text \<open>Move the data of the partitions selected by \<open>sel\<close> against one shared reservation.\<close>

fun move_selected ::
  "bool \<Rightarrow> (mem_type \<Rightarrow> bool) \<Rightarrow> packed_data list
     \<Rightarrow> ('w br_scheme \<times> reservation, packed_data list) act" where
  "move_selected stats sel [] st = (Inr [], st)"
| "move_selected stats sel (p # ps) st =
     (if sel (buf_mem (pd_data p)) then
        act_bind (move_buffer stats (pd_data p)) (\<lambda>d.
        act_bind (move_selected stats sel ps) (\<lambda>rest. act_return (p\<lparr>pd_data := d\<rparr> # rest))) st
      else act_bind (move_selected stats sel ps) (\<lambda>rest. act_return (p # rest)) st)"

definition with_reservation ::
  "reservation \<Rightarrow> ('w br_scheme \<times> reservation, 'a) act \<Rightarrow> ('w br_scheme, 'a) act" where
  "with_reservation res body b =
     (case body (b, res) of
        (out, st) \<Rightarrow>
          (case clear st of
             (Inl e, (b', _)) \<Rightarrow> (Inl e, b')
           | (Inr _, (b', _)) \<Rightarrow> (out, b')))"

definition spill_partitions :: "bool \<Rightarrow> packed_data list \<Rightarrow> ('w br_scheme, packed_data list) act" where
  "spill_partitions stats ps =
     (let device_size = total (\<lambda>p. buf_size (pd_data p)) (filter (\<lambda>p. buf_mem (pd_data p) = DEVICE) ps) in
      act_bind (reserve_or_fail device_size SPILL_TARGET_MEMORY_TYPES) (\<lambda>res.
        with_reservation res (move_selected stats (\<lambda>mt. mt = DEVICE) ps)))"

text \<open>\<open>unspill_partitions\<close>, over the device reservation \<open>reserve_device\<close> makes (in the code,
  \<open>reserve_device_memory_and_spill\<close>, modelled with the spill manager).\<close>

definition unspill_partitions ::
  "(nat \<Rightarrow> allow_overbooking \<Rightarrow> ('w br_scheme, reservation) act) \<Rightarrow> bool \<Rightarrow> packed_data list
     \<Rightarrow> allow_overbooking \<Rightarrow> ('w br_scheme, packed_data list) act" where
  "unspill_partitions reserve_device stats ps allow =
     (let non_device_size = total (\<lambda>p. buf_size (pd_data p)) (filter (\<lambda>p. buf_mem (pd_data p) \<noteq> DEVICE) ps) in
      act_bind (reserve_device non_device_size allow) (\<lambda>res.
        with_reservation res (move_selected stats (\<lambda>mt. mt \<noteq> DEVICE) ps)))"

section \<open>Lemmas on the ledger\<close>

text \<open>
  \<open>held\<close> is what a handle contributes to the counter of a memory type, and \<open>slack\<close> what the
  counter holds beyond it: the bytes of every other live handle. No operation on a handle changes it.
\<close>

definition held :: "mem_type \<Rightarrow> reservation \<Rightarrow> nat" where
  "held mt r = (if res_mem r = mt then res_size r else 0)"

definition slack :: "mem_type \<Rightarrow> 'w br_scheme \<times> reservation \<Rightarrow> int" where
  "slack mt s = int (br_reserved (fst s) mt) - int (held mt (snd s))"

definition covered :: "'w br_scheme \<times> reservation \<Rightarrow> bool" where
  "covered s \<longleftrightarrow> (\<forall>mt. 0 \<le> slack mt s)"

named_theorems ledger_simps

lemma br_frame [ledger_simps]:
  "br_reserved (add_allocated mt n b) = br_reserved b"
  "br_reserved (destroy_buffer buf b) = br_reserved b"
  "br_limits (add_allocated mt n b) = br_limits b"
  "br_limits (destroy_buffer buf b) = br_limits b"
  by (simp_all add: add_allocated_def destroy_buffer_def)

lemma release_cases:
  assumes "release n (b, r) = (out, (b', r'))"
  shows "(n \<le> res_size r \<and> n \<le> br_reserved b (res_mem r) \<and> out = Inr (res_size r - n) \<and>
          b' = b\<lparr>br_reserved := (br_reserved b)(res_mem r := br_reserved b (res_mem r) - n)\<rparr> \<and>
          r' = r\<lparr>res_size := res_size r - n\<rparr>) \<or>
         (b' = b \<and> r' = r \<and> (res_size r < n \<and> out = Inl Reservation_Error \<or>
            n \<le> res_size r \<and> br_reserved b (res_mem r) < n \<and> out = Inl Logic_Error))"
  using assms by (auto simp: release_def split: if_splits)

lemma release_slack: "slack mt (snd (release n s)) = slack mt s"
proof (cases s)
  case (Pair b r)
  then show ?thesis by (auto simp: release_def slack_def held_def of_nat_diff)
qed

lemma covered_release:
  assumes "covered (b, r)" and "n \<le> res_size r"
  shows "release n (b, r) = (Inr (res_size r - n),
    (b\<lparr>br_reserved := (br_reserved b)(res_mem r := br_reserved b (res_mem r) - n)\<rparr>,
     r\<lparr>res_size := res_size r - n\<rparr>))"
proof -
  have "int (res_size r) \<le> int (br_reserved b (res_mem r))"
    using assms(1) [unfolded covered_def, rule_format, of "res_mem r"] by (simp add: slack_def held_def)
  then show ?thesis using assms(2) by (simp add: release_def)
qed

lemma clear_slack: "slack mt (snd (clear s)) = slack mt s"
  by (cases "release (res_size (snd s)) s")
    (auto simp: clear_def release_slack [of mt "res_size (snd s)" s, symmetric] split: sum.splits)

lemma covered_clear:
  assumes "covered (b, r)" and "res_size r > 0 \<Longrightarrow> res_br r"
  shows "clear (b, r) = (Inr (),
    (b\<lparr>br_reserved := (br_reserved b)(res_mem r := br_reserved b (res_mem r) - res_size r)\<rparr>,
     r\<lparr>res_size := 0\<rparr>))"
  using assms covered_release [OF assms(1), of "res_size r"]
  by (cases "res_size r = 0") (auto simp: clear_def)

lemma allocate_storage_reserved [ledger_simps]:
  "br_reserved (snd (allocate_storage mt n s b)) = br_reserved b"
  by (auto simp: allocate_storage_def Let_def ledger_simps split: sum.splits)

lemma make_buffer_slack: "slack mt (snd (make_buffer n s st)) = slack mt st"
proof (cases st)
  case (Pair b r)
  have alloc: "br_reserved b1 = br_reserved b" if "allocate_storage (res_mem r) n s b = (out, b1)" for out b1
    using allocate_storage_reserved [of "res_mem r" n s b] that by simp
  have rel: "slack mt (b2, r2) = slack mt (b1, r)" if "release n (b1, r) = (out, (b2, r2))" for out b1 b2 r2
    using release_slack [of mt n "(b1, r)"] that by simp
  show ?thesis
    unfolding Pair make_buffer_def
    by (auto split: prod.splits sum.splits dest!: alloc rel simp: slack_def ledger_simps)
qed

lemma move_buffer_slack: "slack mt (snd (move_buffer stats buf st)) = slack mt st"
proof -
  have mk: "slack mt (b1, r1) = slack mt st"
    if "make_buffer (buf_size buf) (buf_stream buf) st = (out, (b1, r1))" for out b1 r1
    using make_buffer_slack [of mt "buf_size buf" "buf_stream buf" st] that by simp
  have frame: "slack mt (destroy_buffer x c, r) = slack mt (c, r)" for x c r
    by (simp add: slack_def ledger_simps)
  show ?thesis
    by (auto simp: move_buffer_def Let_def frame split: prod.splits sum.splits dest!: mk)
qed

lemma move_selected_slack:
  fixes st :: "'w br_scheme \<times> reservation"
  shows "slack mt (snd (move_selected stats sel ps st)) = slack mt st"
proof (induction ps arbitrary: st)
  case Nil
  then show ?case by simp
next
  case (Cons p ps)
  have "slack mt st1 = slack mt st" if "move_buffer stats (pd_data p) st = (out, st1)"
    for out and st1 :: "'w br_scheme \<times> reservation"
    using move_buffer_slack [of mt stats "pd_data p" st] that by simp
  moreover have "slack mt st2 = slack mt st1" if "move_selected stats sel ps st1 = (out, st2)"
    for out and st1 st2 :: "'w br_scheme \<times> reservation"
    using Cons.IH [of st1] that by simp
  ultimately show ?case
    by (auto simp: act_bind_def split: prod.splits sum.splits)
qed

lemma slack_covered: "(\<And>mt. slack mt t = slack mt s) \<Longrightarrow> covered s \<Longrightarrow> covered t"
  by (simp add: covered_def)

lemma reserve_cases:
  assumes "reserve mt n allow b = (Inr (r, ob), b')"
  obtains (made) "res_size r = n" "b' = b\<lparr>br_reserved := (br_reserved b)(mt := br_reserved b mt + n)\<rparr>"
    "ob = 0 \<or> allow = Overbooking_YES" "res_mem r = mt" "res_br r"
  | (refused) "ob > 0" "allow = Overbooking_NO" "res_size r = 0" "b' = b" "res_mem r = mt" "res_br r"
proof -
  from assms have "res_bind (headroom_after mt n b) overbooking_of = Inr ob"
    by (auto simp: reserve_def split: if_splits sum.splits)
  then have "(if ob > 0 \<and> allow = Overbooking_NO
      then (Inr (\<lparr>res_mem = mt, res_br = True, res_size = 0\<rparr>, ob), b)
      else (Inr (\<lparr>res_mem = mt, res_br = True, res_size = n\<rparr>, ob),
        b\<lparr>br_reserved := (br_reserved b)(mt := br_reserved b mt + n)\<rparr>)) = (Inr (r, ob), b')"
    using assms by (auto simp: reserve_def split: if_splits)
  then consider "ob > 0" "allow = Overbooking_NO" "r = \<lparr>res_mem = mt, res_br = True, res_size = 0\<rparr>" "b' = b"
    | "\<not> (ob > 0 \<and> allow = Overbooking_NO)" "r = \<lparr>res_mem = mt, res_br = True, res_size = n\<rparr>"
      "b' = b\<lparr>br_reserved := (br_reserved b)(mt := br_reserved b mt + n)\<rparr>"
    by (auto split: if_splits)
  then show thesis
  proof cases
    case 1
    then show ?thesis using refused by simp
  next
    case 2
    moreover have "allow = Overbooking_NO \<or> allow = Overbooking_YES" by (cases allow) simp_all
    ultimately show ?thesis by (intro made) auto
  qed
qed

lemma overbooking_value:
  assumes "reserve mt n allow b = (Inr (r, ob), b')" and "memory_available mt b = Inr av"
  shows "int ob = max 0 (int (br_reserved b mt) + int n - av)"
  using assms
  by (auto simp: reserve_def headroom_after_def overbooking_of_def res_bind_eq_Inr to_int64_eq_Inr
      chk64_eq_Inr to_size_eq_Inr split: if_splits sum.splits)

lemma reserve_error_unchanged: "reserve mt n allow b = (Inl e, b') \<Longrightarrow> b' = b"
  by (auto simp: reserve_def split: if_splits sum.splits)

lemma try_reserve_Some:
  "try_reserve n mts b = (Inr (Some r), b') \<Longrightarrow>
   res_size r = n \<and> res_mem r \<in> set mts \<and> res_br r \<and>
   b' = b\<lparr>br_reserved := (br_reserved b)(res_mem r := br_reserved b (res_mem r) + n)\<rparr>"
proof (induction n mts b rule: try_reserve.induct)
  case (1 n b)
  then show ?case by simp
next
  case (2 n mt mts b)
  show ?case
  proof (cases "mt = DISK \<and> \<not> br_has_disk b \<or> mt = PINNED_HOST \<and> \<not> br_has_pinned b")
    case True
    then show ?thesis using 2 by (auto split: if_splits)
  next
    case False
    then obtain res ob b1 where res: "reserve mt n Overbooking_NO b = (Inr (res, ob), b1)"
      and rest: "(if res_size res = n then (Inr (Some res), b1) else try_reserve n mts b1) = (Inr (Some r), b')"
      using 2(4) by (auto split: if_splits sum.splits prod.splits)
    from res show ?thesis
    proof (cases rule: reserve_cases)
      case made
      then show ?thesis using rest by (auto simp: fun_upd_def)
    next
      case refused
      show ?thesis
      proof (cases "res_size res = n")
        case True
        then have "n = 0" "r = res" "b' = b1" using refused rest by auto
        then show ?thesis using refused by simp
      next
        case ne: False
        then show ?thesis using 2(3) [OF _ _ res [symmetric]] False refused rest by auto
      qed
    qed
  qed
qed

lemma try_reserve_None: "try_reserve n mts b = (Inr None, b') \<Longrightarrow> b' = b"
proof (induction n mts b rule: try_reserve.induct)
  case (1 n b)
  then show ?case by simp
next
  case (2 n mt mts b)
  show ?case
  proof (cases "mt = DISK \<and> \<not> br_has_disk b \<or> mt = PINNED_HOST \<and> \<not> br_has_pinned b")
    case True
    then show ?thesis using 2 by (auto split: if_splits)
  next
    case False
    then obtain res ob b1 where res: "reserve mt n Overbooking_NO b = (Inr (res, ob), b1)"
      and rest: "res_size res \<noteq> n" "try_reserve n mts b1 = (Inr None, b')"
      using 2(4) by (auto split: if_splits sum.splits prod.splits)
    from res rest(1) have "b1 = b" by (cases rule: reserve_cases) auto
    then show ?thesis using 2(3) [OF _ _ res [symmetric]] False rest by auto
  qed
qed


section \<open>The whole ledger: every live handle\<close>

text \<open>
  The state of a program that uses a buffer resource: the resource and its live handles. Each
  operation of the interface is a step; an index that names no handle does nothing.
\<close>

type_synonym 'w ledger = "'w br_scheme \<times> reservation list"

datatype ledger_op =
    L_Reserve mem_type nat allow_overbooking
  | L_Release nat nat
  | L_Split nat nat
  | L_Clear nat
  | L_Assign nat nat
  | L_Make nat nat stream
  | L_Move nat bool buffer
  | L_Limit mem_type int
  | L_Destroy buffer

definition on_handle ::
  "nat \<Rightarrow> ('w br_scheme \<times> reservation, 'a) act \<Rightarrow> 'w ledger \<Rightarrow> 'a result option \<times> 'w ledger" where
  "on_handle i f l =
     (case l of (b, rs) \<Rightarrow>
        if i < length rs then
          (case f (b, rs ! i) of (out, (b', r')) \<Rightarrow> (Some out, (b', rs[i := r'])))
        else (None, l))"

fun ledger_step :: "ledger_op \<Rightarrow> 'w ledger \<Rightarrow> 'w ledger" where
  "ledger_step (L_Reserve mt n allow) (b, rs) =
     (case reserve mt n allow b of
        (Inl e, b') \<Rightarrow> (b', rs)
      | (Inr (r, _), b') \<Rightarrow> (b', rs @ [r]))"
| "ledger_step (L_Release i n) l = snd (on_handle i (release n) l)"
| "ledger_step (L_Split i n) (b, rs) =
     (if i < length rs then
        (case split_reservation n (rs ! i) of
           (Inl e, r) \<Rightarrow> (b, rs[i := r])
         | (Inr r2, r) \<Rightarrow> (b, rs[i := r] @ [r2]))
      else (b, rs))"
| "ledger_step (L_Clear i) l = snd (on_handle i clear l)"
| "ledger_step (L_Assign i j) (b, rs) =
     (if i < length rs \<and> j < length rs \<and> i \<noteq> j then
        (case move_assign (rs ! j) (b, rs ! i) of
           (Inl e, (b', r)) \<Rightarrow> (b', rs[i := r])
         | (Inr old, (b', r)) \<Rightarrow> (b', rs[i := r, j := old]))
      else (b, rs))"
| "ledger_step (L_Make i n s) l = snd (on_handle i (make_buffer n s) l)"
| "ledger_step (L_Move i stats buf) l = snd (on_handle i (move_buffer stats buf) l)"
| "ledger_step (L_Limit mt limit) (b, rs) = (set_memory_limit mt limit b, rs)"
| "ledger_step (L_Destroy buf) (b, rs) = (destroy_buffer buf b, rs)"

inductive reachable_ledger :: "'w ledger \<Rightarrow> bool" where
  start: "(\<forall>mt. br_reserved b mt = 0) \<Longrightarrow> reachable_ledger (b, [])"
| step: "reachable_ledger l \<Longrightarrow> reachable_ledger (ledger_step op l)"

definition ledger_ok :: "'w ledger \<Rightarrow> bool" where
  "ledger_ok l \<longleftrightarrow>
     (\<forall>mt. br_reserved (fst l) mt = total (held mt) (snd l)) \<and>
     (\<forall>r\<in>set (snd l). res_size r > 0 \<longrightarrow> res_br r)"

lemma ledger_ok_covered:
  assumes "ledger_ok (b, rs)" and "r \<in> set rs"
  shows "covered (b, r)"
  using assms total_ge_mem [OF assms(2), of "held _"]
  by (auto simp: covered_def slack_def ledger_ok_def)

lemma release_res_br: "res_br (snd (snd (release n s))) = res_br (snd s)"
  by (cases s) (auto simp: release_def)

lemma clear_res_br: "res_br (snd (snd (clear s))) = res_br (snd s)"
  by (cases "release (res_size (snd s)) s")
    (auto simp: clear_def release_res_br [of "res_size (snd s)" s, symmetric] split: sum.splits)

lemma release_res_size_le: "res_size (snd (snd (release n s))) \<le> res_size (snd s)"
  by (cases s) (auto simp: release_def)

lemma make_buffer_handle:
  "res_br (snd (snd (make_buffer n s st))) = res_br (snd st) \<and>
   res_mem (snd (snd (make_buffer n s st))) = res_mem (snd st)"
  by (cases st) (auto simp: make_buffer_def release_def split: sum.splits prod.splits if_splits)

lemma move_buffer_handle:
  "res_br (snd (snd (move_buffer stats buf st))) = res_br (snd st)"
  using make_buffer_handle [of "buf_size buf" "buf_stream buf" st]
  by (auto simp: move_buffer_def Let_def split: prod.splits sum.splits)

text \<open>One argument for every operation on a handle: the slack is kept, and so is the ledger.\<close>

lemma on_handle_ok:
  assumes "ledger_ok l"
    and "\<And>mt s. slack mt (snd (f s)) = slack mt s"
    and "\<And>s. res_br (snd (snd (f s))) = res_br (snd s)"
    and size: "\<And>s. \<not> res_br (snd s) \<Longrightarrow> res_size (snd s) = 0 \<Longrightarrow> res_size (snd (snd (f s))) = 0"
  shows "ledger_ok (snd (on_handle i f l))"
proof (cases l)
  case (Pair b rs)
  show ?thesis
  proof (cases "i < length rs")
    case False
    then show ?thesis using assms(1) by (simp add: on_handle_def Pair)
  next
    case True
    obtain out b' r' where f: "f (b, rs ! i) = (out, (b', r'))" by (metis surj_pair)
    have slack: "slack mt (b', r') = slack mt (b, rs ! i)" for mt
      using assms(2) [of mt "(b, rs ! i)"] f by simp
    have mem: "rs ! i \<in> set rs" using True by simp
    have "br_reserved b' mt = total (held mt) (rs[i := r'])" for mt
    proof -
      have "int (br_reserved b mt) = int (total (held mt) rs)"
        using assms(1) by (simp add: ledger_ok_def Pair)
      then have "int (br_reserved b' mt) + int (held mt (rs ! i)) = int (total (held mt) rs) + int (held mt r')"
        using slack [of mt] by (simp add: slack_def)
      then show ?thesis using total_update [OF True, of "held mt" r'] by linarith
    qed
    moreover have "\<forall>r\<in>set (rs[i := r']). res_size r > 0 \<longrightarrow> res_br r"
    proof
      fix r assume "r \<in> set (rs[i := r'])"
      then consider "r \<in> set rs" | "r = r'" using set_update_subset_insert by fastforce
      then show "res_size r > 0 \<longrightarrow> res_br r"
      proof cases
        case 1
        then show ?thesis using assms(1) by (simp add: ledger_ok_def Pair)
      next
        case 2
        then show ?thesis
          using assms(1,3) size [of "(b, rs ! i)"] mem f
          by (metis Pair fst_conv gr_zeroI ledger_ok_def snd_conv)
      qed
    qed
    ultimately show ?thesis using True f by (simp add: on_handle_def Pair ledger_ok_def)
  qed
qed

lemma release_zero: "res_size (snd s) = 0 \<Longrightarrow> res_size (snd (snd (release n s))) = 0"
  using release_res_size_le [of n s] by simp

lemma clear_zero: "res_size (snd s) = 0 \<Longrightarrow> res_size (snd (snd (clear s))) = 0"
  by (simp add: clear_def)

lemma make_buffer_zero: "res_size (snd st) = 0 \<Longrightarrow> res_size (snd (snd (make_buffer n s st))) = 0"
  by (cases st) (auto simp: make_buffer_def release_def split: sum.splits prod.splits if_splits)

lemma move_buffer_zero: "res_size (snd st) = 0 \<Longrightarrow> res_size (snd (snd (move_buffer stats buf st))) = 0"
  using make_buffer_zero [of st "buf_size buf" "buf_stream buf"]
  by (auto simp: move_buffer_def Let_def split: prod.splits sum.splits)

lemma ledger_step_reserve: "ledger_ok (b, rs) \<Longrightarrow> ledger_ok (ledger_step (L_Reserve mt n allow) (b, rs))"
proof (cases "reserve mt n allow b")
  case (Pair out b')
  assume ok: "ledger_ok (b, rs)"
  show ?thesis
  proof (cases out)
    case (Inl e)
    then show ?thesis using Pair ok reserve_error_unchanged [of mt n allow b e b'] by simp
  next
    case (Inr p)
    obtain r ob where p: "p = (r, ob)" by force
    from Pair Inr p have "reserve mt n allow b = (Inr (r, ob), b')" by simp
    then show ?thesis
      by (cases rule: reserve_cases) (use ok Pair Inr p in \<open>auto simp: ledger_ok_def held_def\<close>)
  qed
qed

lemma ledger_step_split: "ledger_ok (b, rs) \<Longrightarrow> ledger_ok (ledger_step (L_Split i n) (b, rs))"
proof (cases "i < length rs \<and> n \<le> res_size (rs ! i)")
  case True
  assume ok: "ledger_ok (b, rs)"
  let ?r = "(rs ! i)\<lparr>res_size := res_size (rs ! i) - n\<rparr>"
  have br: "res_br (rs ! i)" if "res_size (rs ! i) > 0"
    using ok True that by (auto simp: ledger_ok_def)
  let ?new = "\<lparr>res_mem = res_mem (rs ! i), res_br = res_br (rs ! i), res_size = n\<rparr>"
  have step: "ledger_step (L_Split i n) (b, rs) = (b, rs[i := ?r] @ [?new])"
    using True by (simp add: split_reservation_def)
  have "br_reserved b mt = total (held mt) (rs[i := ?r] @ [?new])" for mt
  proof -
    have "total (held mt) (rs[i := ?r]) + held mt (rs ! i) = total (held mt) rs + held mt ?r"
      using total_update [of i rs] True by simp
    moreover have "held mt (rs ! i) = held mt ?r + held mt ?new"
      using True by (simp add: held_def)
    moreover have "br_reserved b mt = total (held mt) rs" using ok by (simp add: ledger_ok_def)
    ultimately show ?thesis by simp
  qed
  moreover have "\<forall>r\<in>set (rs[i := ?r] @ [?new]). res_size r > 0 \<longrightarrow> res_br r"
  proof
    fix r assume "r \<in> set (rs[i := ?r] @ [?new])"
    then have "r = ?new \<or> r = ?r \<or> r \<in> set rs"
      using set_update_subset_insert [of rs i ?r] by auto
    then show "res_size r > 0 \<longrightarrow> res_br r"
    proof (elim disjE)
      assume r: "r = ?new"
      have "res_br (rs ! i)" if "n > 0" using br True that by linarith
      then show ?thesis unfolding r by simp
    next
      assume r: "r = ?r"
      have "res_br (rs ! i)" if "res_size (rs ! i) - n > 0" using br that by linarith
      then show ?thesis unfolding r by simp
    next
      assume "r \<in> set rs"
      then show ?thesis using ok by (simp add: ledger_ok_def)
    qed
  qed
  ultimately show ?thesis unfolding step ledger_ok_def fst_conv snd_conv by blast
next
  case False
  assume ok: "ledger_ok (b, rs)"
  have "ledger_step (L_Split i n) (b, rs) = (b, rs)"
    using False by (cases "i < length rs") (simp_all add: split_reservation_def)
  with ok show ?thesis by (simp only:)
qed

lemma ledger_step_assign: "ledger_ok (b, rs) \<Longrightarrow> ledger_ok (ledger_step (L_Assign i j) (b, rs))"
proof (cases "i < length rs \<and> j < length rs \<and> i \<noteq> j")
  case True
  assume ok: "ledger_ok (b, rs)"
  let ?dst = "rs ! i" and ?src = "rs ! j"
  have "covered (b, ?dst)" using ok True by (intro ledger_ok_covered [of b rs]) simp_all
  moreover have "res_size ?dst > 0 \<Longrightarrow> res_br ?dst" using ok True by (simp add: ledger_ok_def)
  ultimately have clr: "clear (b, ?dst) = (Inr (),
      (b\<lparr>br_reserved := (br_reserved b)(res_mem ?dst := br_reserved b (res_mem ?dst) - res_size ?dst)\<rparr>,
       ?dst\<lparr>res_size := 0\<rparr>))"
    by (rule covered_clear)
  let ?b = "b\<lparr>br_reserved := (br_reserved b)(res_mem ?dst := br_reserved b (res_mem ?dst) - res_size ?dst)\<rparr>"
  let ?old = "?src\<lparr>res_br := False, res_size := 0\<rparr>"
  have step: "ledger_step (L_Assign i j) (b, rs) = (?b, rs[i := ?src, j := ?old])"
    using True clr by (simp add: move_assign_def)
  have j: "rs[i := ?src] ! j = ?src" using True by simp
  have "br_reserved ?b mt = total (held mt) (rs[i := ?src, j := ?old])" for mt
  proof -
    have 1: "total (held mt) (rs[i := ?src]) + held mt ?dst = total (held mt) rs + held mt ?src"
      using total_update [of i rs] True by simp
    have 2: "total (held mt) (rs[i := ?src, j := ?old]) + held mt ?src = total (held mt) (rs[i := ?src])"
      using total_update [of j "rs[i := ?src]" "held mt" ?old] True j by (simp add: held_def)
    have "br_reserved b mt = total (held mt) rs" using ok by (simp add: ledger_ok_def)
    with 1 2 show ?thesis by (auto simp: held_def)
  qed
  moreover have "\<forall>r\<in>set (rs[i := ?src, j := ?old]). res_size r > 0 \<longrightarrow> res_br r"
  proof
    fix r assume "r \<in> set (rs[i := ?src, j := ?old])"
    then have "r = ?old \<or> r = ?src \<or> r \<in> set rs"
      using set_update_subset_insert [of "rs[i := ?src]" j ?old] set_update_subset_insert [of rs i ?src]
      by blast
    moreover have "?src \<in> set rs" using True by simp
    ultimately show "res_size r > 0 \<longrightarrow> res_br r" using ok by (auto simp: ledger_ok_def)
  qed
  ultimately show ?thesis unfolding step ledger_ok_def fst_conv snd_conv by blast
next
  case False
  assume ok: "ledger_ok (b, rs)"
  have "ledger_step (L_Assign i j) (b, rs) = (b, rs)" using False by auto
  with ok show ?thesis by (simp only:)
qed

lemma ledger_step_ok: "ledger_ok l \<Longrightarrow> ledger_ok (ledger_step op l)"
proof (cases l)
  case (Pair b rs)
  assume ok: "ledger_ok l"
  show ?thesis
  proof (cases op)
    case (L_Reserve mt n allow)
    then show ?thesis using ledger_step_reserve [of b rs mt n allow] ok Pair by (simp only:)
  next
    case (L_Release i n)
    then show ?thesis
      using on_handle_ok [OF ok, of "release n"] by (simp add: release_slack release_res_br release_zero)
  next
    case (L_Split i n)
    then show ?thesis using ledger_step_split [of b rs i n] ok Pair by (simp only:)
  next
    case (L_Clear i)
    then show ?thesis
      using on_handle_ok [OF ok, of clear] by (simp add: clear_slack clear_res_br clear_zero)
  next
    case (L_Assign i j)
    then show ?thesis using ledger_step_assign [of b rs i j] ok Pair by (simp only:)
  next
    case (L_Make i n s)
    then show ?thesis
      using on_handle_ok [OF ok, of "make_buffer n s"]
      by (simp add: make_buffer_slack make_buffer_handle make_buffer_zero)
  next
    case (L_Move i stats buf)
    then show ?thesis
      using on_handle_ok [OF ok, of "move_buffer stats buf"]
      by (simp add: move_buffer_slack move_buffer_handle move_buffer_zero)
  next
    case (L_Limit mt limit)
    then show ?thesis using ok Pair by (simp add: set_memory_limit_def ledger_ok_def)
  next
    case (L_Destroy buf)
    then show ?thesis using ok Pair by (simp add: ledger_ok_def ledger_simps)
  qed
qed

lemma reachable_ledger_ok: "reachable_ledger l \<Longrightarrow> ledger_ok l"
proof (induction rule: reachable_ledger.induct)
  case (start b)
  then show ?case by (simp add: ledger_ok_def)
next
  case (step l op)
  show ?case by (rule ledger_step_ok) (rule step.IH)
qed

section \<open>Contents\<close>

text \<open>
  \<open>holds bs b\<close>: an unlocked buffer whose whole contents are the bytes \<open>bs\<close>. \<open>fresh\<close> is what the
  allocation of \<open>make_buffer\<close> returns. A successful move gives a buffer with the same bytes in the
  reservation's memory type and moves the accounting with it.
\<close>

definition holds :: "u8 list \<Rightarrow> buffer \<Rightarrow> bool" where
  "holds bs b \<longleftrightarrow> buf_storage b = Some bs \<and> length bs = buf_size b \<and> \<not> buf_locked b"

definition fresh :: "mem_type \<Rightarrow> nat \<Rightarrow> stream \<Rightarrow> buffer \<Rightarrow> bool" where
  "fresh mt n s b \<longleftrightarrow> buf_mem b = mt \<and> buf_size b = n \<and> buf_stream b = s \<and> \<not> buf_locked b \<and>
     (\<exists>ds. buf_storage b = Some ds \<and> length ds = (if mt = DISK then 0 else n))"

lemma allocate_storage_Inr:
  fixes b :: "'w br_scheme"
  assumes "allocate_storage mt n s b = (Inr buf, b1)"
  shows "fresh mt n s buf \<and> b1 = add_allocated mt (int n) b"
  using assms
  by (cases mt)
    (auto simp: allocate_storage_def Let_def fresh_def new_host_buffer_def new_device_buffer_def
      new_disk_buffer_def host_buffer_types_def device_buffer_types_def split: if_splits)

lemma make_buffer_Inr:
  fixes b :: "'w br_scheme"
  assumes "make_buffer n s (b, r) = (Inr buf, st)"
  shows "fresh (res_mem r) n s buf \<and> n \<le> res_size r \<and> s \<noteq> invalid_stream \<and>
    fst st = (add_allocated (res_mem r) (int n) b)\<lparr>br_reserved :=
      (br_reserved b)(res_mem r := br_reserved b (res_mem r) - n)\<rparr> \<and>
    snd st = r\<lparr>res_size := res_size r - n\<rparr>"
proof -
  from assms obtain b1 where s: "s \<noteq> invalid_stream"
    and alloc: "allocate_storage (res_mem r) n s b = (Inr buf, b1)"
    and rel: "\<exists>k. release n (b1, r) = (Inr k, st)"
    by (auto simp: make_buffer_def split: if_splits sum.splits prod.splits)
  from rel obtain k b2 r2 where "release n (b1, r) = (Inr k, (b2, r2))" "st = (b2, r2)"
    by (cases st) auto
  with release_cases [of n b1 r "Inr k" b2 r2] allocate_storage_Inr [OF alloc] s
  show ?thesis by (simp add: ledger_simps)
qed

lemma move_copy_whole:
  assumes src: "holds bs src" "buf_size src < 2 ^ 63"
    and dst: "fresh mt (buf_size src) s dst"
    and copy: "buffer_copy True src (buf_size src) 0 0 tr dst = (Inr (), dst')"
  shows "holds bs dst' \<and> buf_mem dst' = mt \<and> buf_size dst' = buf_size src \<and> buf_stream dst' = s"
proof (cases "buf_size src = 0")
  case True
  then have "dst' = dst" "bs = []"
    using copy src by (auto simp: buffer_copy_def check_range_def to_ptrdiff_def holds_def split: sum.splits)
  then show ?thesis using dst True by (auto simp: fresh_def holds_def split: if_splits)
next
  case False
  have rng: "check_range 0 (buf_size src) (buf_size src) = Inr ()"
    using check_range_fits [of 0 "buf_size src" "buf_size src"] src(2) by simp
  from dst obtain ds where ds: "buf_storage dst = Some ds" "length ds = (if mt = DISK then 0 else buf_size src)"
    and d: "buf_mem dst = mt" "buf_size dst = buf_size src" "buf_stream dst = s" "\<not> buf_locked dst"
    by (auto simp: fresh_def)
  have s: "buf_storage src = Some bs" "length bs = buf_size src" "\<not> buf_locked src"
    using src by (simp_all add: holds_def)
  consider "mt = DISK" "buf_mem src \<noteq> DISK" | "mt \<noteq> DISK" "buf_mem src = DISK"
    | "mt \<noteq> DISK" "buf_mem src \<noteq> DISK" | "mt = DISK" "buf_mem src = DISK" by blast
  then show ?thesis
  proof cases
    case 1
    then show ?thesis
      using copy False rng ds d s
      by (auto simp: buffer_copy_def buffer_data_def throw_if_locked_def storage_bytes_def Let_def
          record_write_event_def file_write_def overwrite_def holds_def split: if_splits)
  next
    case 2
    then show ?thesis
      using copy False rng ds d s
      by (auto simp: buffer_copy_def buffer_data_def throw_if_locked_def storage_bytes_def Let_def
          record_write_event_def write_access_def memcpy_def overwrite_def holds_def split: if_splits)
  next
    case 3
    then show ?thesis
      using copy False rng ds d s
      by (auto simp: buffer_copy_def buffer_data_def throw_if_locked_def storage_bytes_def Let_def
          record_write_event_def write_access_def memcpy_def overwrite_def holds_def split: if_splits)
  next
    case 4
    then show ?thesis using copy False rng d by (simp add: buffer_copy_def)
  qed
qed

lemma move_buffer_Inr:
  fixes b b' :: "'w br_scheme"
  assumes "holds bs buf" "buf_size buf < 2 ^ 63" "move_buffer stats buf (b, r) = (Inr ret, (b', r'))"
  shows "holds bs ret \<and> buf_mem ret = res_mem r \<and> buf_size ret = buf_size buf \<and>
    buf_stream ret = buf_stream buf \<and> 
    (if res_mem r = buf_mem buf then b' = b \<and> r' = r
     else buf_size buf \<le> res_size r \<and> r' = r\<lparr>res_size := res_size r - buf_size buf\<rparr> \<and>
       b' = (add_allocated (buf_mem buf) (- int (buf_size buf)) (add_allocated (res_mem r) (int (buf_size buf)) b))
         \<lparr>br_reserved := (br_reserved b)(res_mem r := br_reserved b (res_mem r) - buf_size buf)\<rparr>)"
proof (cases "res_mem r = buf_mem buf")
  case True
  then show ?thesis using assms by (simp add: move_buffer_def)
next
  case False
  let ?n = "buf_size buf"
  from False assms(3) obtain new b1 r1 new1 where
    mk: "make_buffer ?n (buf_stream buf) (b, r) = (Inr new, (b1, r1))"
    and copy: "buffer_copy True buf ?n 0 0 (br_transfer b1 ?n) new = (Inr (), new1)"
    and ret: "ret = new1\<lparr>buf_token := buf_token ret\<rparr>"
    and st: "b' = destroy_buffer buf b1" "r' = r1"
    by (auto simp: move_buffer_def Let_def split: prod.splits sum.splits if_splits)
  have "holds bs new1 \<and> buf_mem new1 = res_mem r \<and> buf_size new1 = ?n \<and> buf_stream new1 = buf_stream buf"
    using move_copy_whole [OF assms(1,2) _ copy] make_buffer_Inr [OF mk] by blast
  moreover have "holds bs ret = holds bs new1" "buf_mem ret = buf_mem new1" "buf_size ret = buf_size new1"
    "buf_stream ret = buf_stream new1"
    by (subst ret, simp add: holds_def)+
  ultimately show ?thesis
    using False make_buffer_Inr [OF mk] st assms(1)
    by (simp add: destroy_buffer_def holds_def add_allocated_def)
qed

definition packed_holds :: "packed_data \<Rightarrow> bool" where
  "packed_holds p \<longleftrightarrow> buf_size (pd_data p) < 2 ^ 63 \<and> (\<exists>bs. holds bs (pd_data p))"

definition moved_to :: "mem_type \<Rightarrow> packed_data \<Rightarrow> packed_data \<Rightarrow> bool" where
  "moved_to mt p q \<longleftrightarrow> pd_metadata q = pd_metadata p \<and> buf_storage (pd_data q) = buf_storage (pd_data p) \<and>
     buf_size (pd_data q) = buf_size (pd_data p) \<and> buf_stream (pd_data q) = buf_stream (pd_data p) \<and>
     buf_mem (pd_data q) = mt \<and> packed_holds q"

lemma moved_to_refl: "packed_holds p \<Longrightarrow> moved_to (buf_mem (pd_data p)) p p"
  by (simp add: moved_to_def)

lemma move_selected_Inr:
  fixes b b' :: "'w br_scheme"
  assumes "\<forall>p\<in>set ps. packed_holds p" and "\<not> sel (res_mem r)"
    and "move_selected stats sel ps (b, r) = (Inr qs, (b', r'))"
  shows "list_all2 (\<lambda>p q. moved_to (if sel (buf_mem (pd_data p)) then res_mem r else buf_mem (pd_data p)) p q) ps qs \<and>
    res_mem r' = res_mem r \<and> res_br r' = res_br r \<and>
    (\<forall>mt. sel mt \<longrightarrow> br_allocated b' mt = br_allocated b mt -
        int (total (\<lambda>p. buf_size (pd_data p)) (filter (\<lambda>p. buf_mem (pd_data p) = mt) ps)))"
  using assms
proof (induction ps arbitrary: b r qs)
  case Nil
  then show ?case by simp
next
  case (Cons p ps)
  show ?case
  proof (cases "sel (buf_mem (pd_data p))")
    case True
    then obtain d b1 r1 rest where mv: "move_buffer stats (pd_data p) (b, r) = (Inr d, (b1, r1))"
      and rec: "move_selected stats sel ps (b1, r1) = (Inr rest, (b', r'))"
      and qs: "qs = p\<lparr>pd_data := d\<rparr> # rest"
      using Cons.prems(3) by (auto simp: act_bind_cases)
    obtain bs where bs: "holds bs (pd_data p)" "buf_size (pd_data p) < 2 ^ 63"
      using Cons.prems(1) by (auto simp: packed_holds_def)
    have ne: "res_mem r \<noteq> buf_mem (pd_data p)" using True Cons.prems(2) by auto
    note m = move_buffer_Inr [OF bs mv]
    have r1: "res_mem r1 = res_mem r" "res_br r1 = res_br r" using m ne by auto
    have al: "br_allocated b1 mt = br_allocated b mt -
        (if buf_mem (pd_data p) = mt then int (buf_size (pd_data p)) else 0)" if "sel mt" for mt
      using m ne that Cons.prems(2) by (auto simp: add_allocated_def)
    have "moved_to (res_mem r) p (p\<lparr>pd_data := d\<rparr>)"
      using m bs by (auto simp: moved_to_def packed_holds_def holds_def)
    moreover note Cons.IH [OF _ _ rec, unfolded r1]
    ultimately show ?thesis using Cons.prems(1,2) r1 al True by (auto simp: qs)
  next
    case False
    then obtain rest where rec: "move_selected stats sel ps (b, r) = (Inr rest, (b', r'))"
      and qs: "qs = p # rest"
      using Cons.prems(3) by (auto simp: act_bind_cases)
    have "moved_to (buf_mem (pd_data p)) p p" using Cons.prems(1) by (simp add: moved_to_refl)
    moreover note Cons.IH [OF _ Cons.prems(2) rec]
    ultimately show ?thesis using Cons.prems(1) False by (auto simp: qs)
  qed
qed

text \<open>A reservation that is cleared at the end of the scope leaves the counters as they were.\<close>

lemma clear_Inr_size: "clear s = (Inr u, s') \<Longrightarrow> res_size (snd s') = 0"
  by (cases s) (auto simp: clear_def release_def split: if_splits)

lemma clear_allocated: "br_allocated (fst (snd (clear s))) = br_allocated (fst s)"
  by (cases s) (auto simp: clear_def release_def)

lemma with_reservation_Inr:
  fixes b b' :: "'w br_scheme"
  assumes body: "with_reservation res body b = (Inr a, b')"
    and sl: "\<And>mt st. slack mt (snd (body st)) = slack mt st"
  obtains b1 r1 where "body (b, res) = (Inr a, (b1, r1))" "br_allocated b' = br_allocated b1"
    "\<And>mt. int (br_reserved b' mt) = int (br_reserved b mt) - int (held mt res)"
proof -
  from body obtain b1 r1 r2 where 1: "body (b, res) = (Inr a, (b1, r1))" "clear (b1, r1) = (Inr (), (b', r2))"
    by (auto simp: with_reservation_def split: prod.splits sum.splits)
  have "slack mt (b', r2) = slack mt (b, res)" for mt
    using clear_slack [of mt "(b1, r1)"] sl [of mt "(b, res)"] 1 by simp
  moreover have "held mt r2 = 0" for mt using clear_Inr_size [OF 1(2)] by (simp add: held_def)
  ultimately have "int (br_reserved b' mt) = int (br_reserved b mt) - int (held mt res)" for mt
    by (simp add: slack_def)
  moreover have "br_allocated b' = br_allocated b1" using clear_allocated [of "(b1, r1)"] 1(2) by simp
  ultimately show thesis using that 1(1) by blast
qed

lemma reserve_or_fail_Inr:
  fixes b b' :: "'w br_scheme"
  assumes "reserve_or_fail n mts b = (Inr r, b')"
  shows "res_size r = n \<and> res_mem r \<in> set mts \<and> res_br r \<and>
    b' = b\<lparr>br_reserved := (br_reserved b)(res_mem r := br_reserved b (res_mem r) + n)\<rparr>"
  using assms try_reserve_Some [of n mts b r b']
  by (auto simp: reserve_or_fail_def split: prod.splits sum.splits option.splits)

lemma spill_partitions_aux:
  fixes b b' :: "'w br_scheme"
  assumes "\<forall>p\<in>set ps. packed_holds p" and "spill_partitions stats ps b = (Inr qs, b')"
  shows "\<exists>mt\<in>set SPILL_TARGET_MEMORY_TYPES.
      list_all2 (\<lambda>p q. moved_to (if buf_mem (pd_data p) = DEVICE then mt else buf_mem (pd_data p)) p q) ps qs"
    and "br_allocated b' DEVICE = br_allocated b DEVICE -
      int (total (\<lambda>p. buf_size (pd_data p)) (filter (\<lambda>p. buf_mem (pd_data p) = DEVICE) ps))"
    and "br_reserved b' = br_reserved b"
proof -
  let ?n = "total (\<lambda>p. buf_size (pd_data p)) (filter (\<lambda>p. buf_mem (pd_data p) = DEVICE) ps)"
  from assms(2) obtain res b0 where res: "reserve_or_fail ?n SPILL_TARGET_MEMORY_TYPES b = (Inr res, b0)"
    and body: "with_reservation res (move_selected stats (\<lambda>mt. mt = DEVICE) ps) b0 = (Inr qs, b')"
    by (auto simp: spill_partitions_def act_bind_cases)
  note r = reserve_or_fail_Inr [OF res]
  have mt: "res_mem res \<noteq> DEVICE" using r by (auto simp: SPILL_TARGET_MEMORY_TYPES_def)
  from with_reservation_Inr [OF body move_selected_slack]
  obtain b1 r1 where mv: "move_selected stats (\<lambda>mt. mt = DEVICE) ps (b0, res) = (Inr qs, (b1, r1))"
    and al: "br_allocated b' = br_allocated b1"
    and rs: "\<And>mt. int (br_reserved b' mt) = int (br_reserved b0 mt) - int (held mt res)" by metis
  note m = move_selected_Inr [OF assms(1) _ mv]
  show "\<exists>mt\<in>set SPILL_TARGET_MEMORY_TYPES.
      list_all2 (\<lambda>p q. moved_to (if buf_mem (pd_data p) = DEVICE then mt else buf_mem (pd_data p)) p q) ps qs"
    using m mt r by blast
  show "br_allocated b' DEVICE = br_allocated b DEVICE - int ?n" using m mt r al by simp
  have "br_reserved b' mt = br_reserved b mt" for mt
    using rs [of mt] r by (cases "mt = res_mem res") (simp_all add: held_def)
  then show "br_reserved b' = br_reserved b" by blast
qed

text \<open>
  Moving one buffer against a reservation made for it: what every spill function of the code does.
  Nothing is left reserved, and the state changes in the two allocation counts only.
\<close>

lemma reserve_and_move_Inr:
  fixes b b' :: "'w br_scheme"
  assumes d: "holds bs d" "buf_size d < 2 ^ 63"
    and mts: "buf_mem d \<notin> set mts"
    and mv: "act_bind (reserve_or_fail (buf_size d) mts) (\<lambda>res. with_reservation res (move_buffer stats d)) b = (Inr d', b')"
  shows "\<exists>mt\<in>set mts. holds bs d' \<and> buf_mem d' = mt \<and> buf_size d' = buf_size d \<and> buf_stream d' = buf_stream d \<and>
    b' = add_allocated (buf_mem d) (- int (buf_size d)) (add_allocated mt (int (buf_size d)) b)"
proof -
  let ?n = "buf_size d"
  from mv obtain res b0 where r: "reserve_or_fail ?n mts b = (Inr res, b0)"
    and w: "with_reservation res (move_buffer stats d) b0 = (Inr d', b')"
    by (auto simp: act_bind_cases)
  note R = reserve_or_fail_Inr [OF r]
  from w obtain b1 r1 r2 where m: "move_buffer stats d (b0, res) = (Inr d', (b1, r1))"
    and c: "clear (b1, r1) = (Inr (), (b', r2))"
    by (auto simp: with_reservation_def split: prod.splits sum.splits)
  have ne: "res_mem res \<noteq> buf_mem d" using R mts by auto
  note M = move_buffer_Inr [OF d m]
  have "res_size r1 = 0" using M ne R by simp
  then have "b' = b1" using c by (simp add: clear_def)
  moreover have "b1 = add_allocated (buf_mem d) (- int ?n) (add_allocated (res_mem res) (int ?n) b)"
    using M ne R by (cases b) (simp add: add_allocated_def)
  ultimately show ?thesis using M R by auto
qed

section \<open>The ledger operations only touch the ledger\<close>

lemma br_more_updates [simp]:
  "br.more (add_allocated mt n b) = br.more b" "br.more (destroy_buffer buf b) = br.more b"
  by (simp_all add: add_allocated_def destroy_buffer_def)

lemma reserve_more: "br.more (snd (reserve mt n allow b)) = br.more b"
  by (auto simp: reserve_def split: sum.splits)

lemma try_reserve_more: "br.more (snd (try_reserve n mts b)) = br.more b"
proof (induction mts arbitrary: b)
  case Nil
  then show ?case by simp
next
  case (Cons mt mts)
  then show ?case using reserve_more [of mt n Overbooking_NO b]
    by (auto split: prod.splits sum.splits)
qed

lemma release_more: "br.more (fst (snd (release n s))) = br.more (fst s)"
  by (auto simp: release_def split: prod.splits)

lemma clear_more: "br.more (fst (snd (clear s))) = br.more (fst s)"
  using release_more [of "res_size (snd s)" s] by (auto simp: clear_def split: sum.splits prod.splits)

lemma allocate_storage_more: "br.more (snd (allocate_storage mt n st b)) = br.more b"
  by (auto simp: allocate_storage_def Let_def split: sum.splits)

lemma make_buffer_more: "br.more (fst (snd (make_buffer n sm st))) = br.more (fst st)"
proof -
  obtain b r where st: "st = (b, r)" by fastforce
  obtain o1 b1 where a: "allocate_storage (res_mem r) n sm b = (o1, b1)" by fastforce
  obtain o2 b2 r2 where re: "release n (b1, r) = (o2, b2, r2)" by (metis surj_pair)
  have "br.more b1 = br.more b" "br.more b2 = br.more b1"
    using allocate_storage_more [of "res_mem r" n sm b] release_more [of n "(b1, r)"] a re by simp_all
  then show ?thesis by (auto simp: st make_buffer_def a re split: sum.splits)
qed

lemma move_buffer_more: "br.more (fst (snd (move_buffer stats buf st))) = br.more (fst st)"
proof -
  obtain o1 b1 r1 where m: "make_buffer (buf_size buf) (buf_stream buf) st = (o1, b1, r1)" by (metis surj_pair)
  have "br.more b1 = br.more (fst st)" using make_buffer_more [of "buf_size buf" "buf_stream buf" st] m by simp
  then show ?thesis by (auto simp: move_buffer_def Let_def m split: sum.splits prod.splits)
qed

lemma with_reservation_more:
  assumes "\<And>st. br.more (fst (snd (body st))) = br.more (fst st)"
  shows "br.more (snd (with_reservation res body b)) = br.more b"
proof -
  obtain o1 b1 r1 where m: "body (b, res) = (o1, b1, r1)" by (metis surj_pair)
  obtain o2 b2 r2 where c: "clear (b1, r1) = (o2, b2, r2)" by (metis surj_pair)
  have "br.more b1 = br.more b" "br.more b2 = br.more b1"
    using assms [of "(b, res)"] m clear_more [of "(b1, r1)"] c by simp_all
  then show ?thesis by (auto simp: with_reservation_def m c split: sum.splits)
qed

lemmas br_more_frame = reserve_more try_reserve_more clear_more make_buffer_more move_buffer_more with_reservation_more

section \<open>Sizes\<close>

lemma write_access_size: "buf_size (snd (write_access f b)) = buf_size b"
  by (auto simp: write_access_def record_write_event_def split: sum.splits prod.splits)

lemma buffer_copy_size: "buf_size (snd (buffer_copy st src n doff soff tr dst)) = buf_size dst"
  using write_access_size [of _ dst]
  by (auto simp: buffer_copy_def record_write_event_def Let_def split: sum.splits prod.splits option.splits if_splits)

lemma move_buffer_size:
  fixes b :: "'w br_scheme"
  assumes "move_buffer stats buf (b, r) = (Inr ret, st)"
  shows "buf_size ret = buf_size buf"
proof (cases "res_mem r = buf_mem buf")
  case True
  then show ?thesis using assms by (simp add: move_buffer_def)
next
  case False
  obtain new b1 r1 ret1 where mk: "make_buffer (buf_size buf) (buf_stream buf) (b, r) = (Inr new, (b1, r1))"
    and cp: "buffer_copy True buf (buf_size buf) 0 0 (br_transfer b1 (buf_size buf)) new = (Inr (), ret1)"
    and ret: "buf_size ret = buf_size ret1"
    using assms False by (auto simp: move_buffer_def Let_def split: sum.splits prod.splits if_splits)
  have "buf_size ret1 = buf_size new" using buffer_copy_size [of True buf "buf_size buf" 0 0 "br_transfer b1 (buf_size buf)" new] cp by simp
  then show ?thesis using make_buffer_Inr [OF mk] ret by (simp add: fresh_def)
qed

lemma ensure_memory_type_Inr:
  fixes b b' :: "'w br_scheme"
  assumes "ensure_memory_type stats (Some buf) accepted b = (Inr d, b')"
  shows "br.more b' = br.more b \<and> buf_size d = buf_size buf"
proof (cases "buf_mem buf \<in> set accepted")
  case True
  then have "accepted \<noteq> []" by auto
  then have "ensure_memory_type stats (Some buf) accepted b = (Inr buf, b)" using True by (simp add: ensure_memory_type_def)
  then show ?thesis using assms by simp
next
  case False
  define finish where "finish res b2 = (case move_buffer stats buf (b2, res) of
      (out, st) \<Rightarrow> (case clear st of (Inl e, (b3, _)) \<Rightarrow> (Inl e, b3) | (Inr _, (b3, _)) \<Rightarrow> (out, b3)))" for res and b2 :: "'w br_scheme"
  have F: "br.more b' = br.more b2 \<and> buf_size d = buf_size buf" if fin: "finish res b2 = (Inr d, b')" for res b2
  proof -
    obtain b3 r3 where m: "move_buffer stats buf (b2, res) = (Inr d, (b3, r3))" and c: "b' = fst (snd (clear (b3, r3)))"
      using fin by (auto simp: finish_def split: prod.splits sum.splits)
    then show ?thesis using move_buffer_size [OF m] move_buffer_more [of stats buf "(b2, res)"] clear_more [of "(b3, r3)"] by simp
  qed
  obtain o1 b1 where t: "try_reserve (buf_size buf) (rev accepted) b = (o1, b1)" by fastforce
  then have 1: "br.more b1 = br.more b" using try_reserve_more [of "buf_size buf" "rev accepted" b] by simp
  obtain o2 b2 where r: "reserve (last accepted) (buf_size buf) Overbooking_YES b1 = (o2, b2)" by fastforce
  then have 2: "br.more b2 = br.more b" using 1 reserve_more [of "last accepted" "buf_size buf" Overbooking_YES b1] by simp
  have e: "ensure_memory_type stats (Some buf) accepted b = (if accepted = [] then (Inl Invalid_Argument, destroy_buffer buf b)
      else case o1 of Inl e \<Rightarrow> (Inl e, destroy_buffer buf b1) | Inr (Some res) \<Rightarrow> finish res b1
           | Inr None \<Rightarrow> if br_default_overbooking b1 \<noteq> Overbooking_YES then (Inl Reservation_Error, destroy_buffer buf b1)
                else case o2 of Inl e \<Rightarrow> (Inl e, destroy_buffer buf b2) | Inr (res, _) \<Rightarrow> finish res b2)"
    unfolding ensure_memory_type_def Let_def finish_def using False by (simp add: t r cong: option.case_cong sum.case_cong)
  have "\<exists>res. finish res b1 = (Inr d, b') \<or> finish res b2 = (Inr d, b')"
    using assms unfolding e by (auto split: sum.splits option.splits prod.splits if_splits)
  then show ?thesis using F 1 2 by metis
qed

section \<open>Properties\<close>

definition example_br :: br where
  "example_br = \<lparr>br_limits = (\<lambda>_. 100), br_allocated = (\<lambda>_. 0), br_reserved = (\<lambda>_. 0),
     br_has_pinned = False, br_has_disk = False, br_default_overbooking = Overbooking_NO,
     br_alloc_ok = (\<lambda>_ _. True), br_junk = (\<lambda>_. 0), br_transfer = id\<rparr>"

definition example_buffer :: "mem_type \<Rightarrow> u8 list \<Rightarrow> buffer" where
  "example_buffer mt bs = \<lparr>buf_size = length bs, buf_mem = mt, buf_storage = Some bs, buf_stream = 7,
     buf_ready = True, buf_locked = False, buf_token = False\<rparr>"

lemmas reserve_evals = memory_available_def headroom_after_def overbooking_of_def cast_defs
  reserve_def example_br_def Let_def

text \<open>Property C18: what a reservation does. It either grants all of the requested size and adds it to the
  counter, or (when overbooking is not allowed) grants nothing and changes nothing; the overbooking it
  reports is exactly what the counter, with the request, exceeds the availability by, so a reservation
  granted without overbooking never takes the counter beyond the availability.\<close>

theorem reserve_all_or_nothing:
  assumes "reserve mt n allow b = (Inr (r, ob), b')" and "memory_available mt b = Inr av"
  shows "int ob = max 0 (int (br_reserved b mt) + int n - av) \<and>
    ((ob = 0 \<or> allow = Overbooking_YES) \<and> res_size r = n \<and> br_reserved b' mt = br_reserved b mt + n \<or>
     ob > 0 \<and> allow = Overbooking_NO \<and> res_size r = 0 \<and> b' = b)"
proof
  show "int ob = max 0 (int (br_reserved b mt) + int n - av)" by (rule overbooking_value [OF assms])
  from assms(1) show "(ob = 0 \<or> allow = Overbooking_YES) \<and> res_size r = n \<and>
      br_reserved b' mt = br_reserved b mt + n \<or> ob > 0 \<and> allow = Overbooking_NO \<and> res_size r = 0 \<and> b' = b"
    by (cases rule: reserve_cases) simp_all
qed

theorem reserve_all_or_nothing_witness:
  "\<exists>r b'. reserve HOST 130 Overbooking_NO example_br = (Inr (r, 30), b') \<and> res_size r = 0 \<and> b' = example_br"
proof -
  have 1: "reserve HOST 130 Overbooking_NO example_br =
      (Inr (\<lparr>res_mem = HOST, res_br = True, res_size = 0\<rparr>, 30), example_br)"
    by (simp add: reserve_evals)
  have 2: "memory_available HOST example_br = Inr 100" by (simp add: reserve_evals)
  show ?thesis using reserve_all_or_nothing [OF 1 2] 1 by simp
qed

text \<open>Property C17: the ledger of a program. However reservations are made, split, assigned, released,
  cleared and used up by buffers, the counter of each memory type is the sum of the live handles of
  that type, so releasing up to a handle's size always succeeds and clearing a handle never terminates
  the program.\<close>

theorem ledger_balanced:
  assumes "reachable_ledger l"
  shows "(\<forall>mt. br_reserved (fst l) mt = total (held mt) (snd l)) \<and>
    (\<forall>r\<in>set (snd l). (\<forall>n\<le>res_size r. fst (release n (fst l, r)) = Inr (res_size r - n)) \<and>
       fst (clear (fst l, r)) = Inr ())"
proof -
  obtain b rs where l: "l = (b, rs)" by force
  have ok: "ledger_ok (b, rs)" using reachable_ledger_ok [OF assms] l by simp
  have "fst (release n (b, r)) = Inr (res_size r - n)" if "r \<in> set rs" "n \<le> res_size r" for r n
    using covered_release [OF ledger_ok_covered [OF ok that(1)] that(2)] by simp
  moreover have "fst (clear (b, r)) = Inr ()" if "r \<in> set rs" for r
    using covered_clear [OF ledger_ok_covered [OF ok that]] ok that by (simp add: ledger_ok_def)
  ultimately show ?thesis using ok by (simp add: l ledger_ok_def)
qed

theorem ledger_balanced_witness:
  "\<exists>l. l = ledger_step (L_Split 0 3) (ledger_step (L_Reserve HOST 10 Overbooking_NO) (example_br, [])) \<and>
     map res_size (snd l) = [7, 3] \<and> br_reserved (fst l) HOST = 10"
proof -
  let ?l = "ledger_step (L_Split 0 3) (ledger_step (L_Reserve HOST 10 Overbooking_NO) (example_br, []))"
  have "reachable_ledger ?l"
    by (intro reachable_ledger.step reachable_ledger.start) (simp add: example_br_def)
  then have "br_reserved (fst ?l) HOST = total (held HOST) (snd ?l)" using ledger_balanced by blast
  moreover have "snd ?l = [\<lparr>res_mem = HOST, res_br = True, res_size = 7\<rparr>, \<lparr>res_mem = HOST, res_br = True, res_size = 3\<rparr>]"
    by (simp add: reserve_evals split_reservation_def)
  ultimately show ?thesis by (simp add: held_def)
qed

text \<open>Property C21: moving a buffer against a reservation keeps its bytes, size and stream, gives it the
  reservation's memory type, and shifts exactly the buffer's size between the allocation counts and out of
  the reservation, through memory and disk alike.\<close>

theorem move_buffer_preserves:
  fixes b b' :: "'w br_scheme"
  assumes "holds bs buf" and "buf_size buf < 2 ^ 63" and "res_mem r \<noteq> buf_mem buf"
    and "move_buffer stats buf (b, r) = (Inr ret, (b', r'))"
  shows "holds bs ret \<and> buf_mem ret = res_mem r \<and> buf_size ret = buf_size buf \<and> buf_stream ret = buf_stream buf \<and>
    res_size r' + buf_size buf = res_size r \<and>
    br_reserved b' (res_mem r) = br_reserved b (res_mem r) - buf_size buf \<and>
    br_allocated b' (buf_mem buf) = br_allocated b (buf_mem buf) - int (buf_size buf) \<and>
    br_allocated b' (res_mem r) = br_allocated b (res_mem r) + int (buf_size buf)"
  using move_buffer_Inr [OF assms(1,2,4)] assms(3) by (simp add: add_allocated_def)

theorem move_buffer_preserves_witness:
  "\<exists>ret b' r'. move_buffer False (example_buffer DEVICE [1, 2, 3])
      (example_br\<lparr>br_reserved := (\<lambda>_. 5)\<rparr>, \<lparr>res_mem = HOST, res_br = True, res_size = 5\<rparr>) = (Inr ret, (b', r')) \<and>
    holds [1, 2, 3] ret \<and> buf_mem ret = HOST \<and> res_size r' = 2"
proof -
  let ?buf = "example_buffer DEVICE [1, 2, 3]" and ?r = "\<lparr>res_mem = HOST, res_br = True, res_size = 5\<rparr>"
  let ?b = "example_br\<lparr>br_reserved := (\<lambda>_. 5)\<rparr>"
  have "\<exists>ret b' r'. move_buffer False ?buf (?b, ?r) = (Inr ret, (b', r'))"
    by (simp add: move_buffer_def make_buffer_def allocate_storage_def example_buffer_def example_br_def
        invalid_stream_def new_host_buffer_def host_buffer_types_def release_def add_allocated_def
        buffer_copy_def check_range_def to_ptrdiff_def cast_defs Let_def upt_rec write_access_def
        buffer_data_def throw_if_locked_def storage_bytes_def memcpy_def record_write_event_def)
  then obtain ret b' r' where mv: "move_buffer False ?buf (?b, ?r) = (Inr ret, (b', r'))" by blast
  have "holds [1, 2, 3] ?buf" "buf_size ?buf < 2 ^ 63" "res_mem ?r \<noteq> buf_mem ?buf"
    by (simp_all add: holds_def example_buffer_def)
  from move_buffer_preserves [OF this mv] show ?thesis
    using mv by (auto simp: example_buffer_def)
qed

text \<open>Property C19: spilling a vector of partitions. Every partition that was in device memory ends in one
  and the same spill target, the others stay where they are, metadata and bytes are those of the input in
  the same order, the device allocation count falls by exactly the device bytes of the input, and no
  reservation is left behind.\<close>

theorem spill_partitions_preserves:
  fixes b b' :: "'w br_scheme"
  assumes "\<forall>p\<in>set ps. packed_holds p" and "spill_partitions stats ps b = (Inr qs, b')"
  shows "(\<exists>mt\<in>set SPILL_TARGET_MEMORY_TYPES.
      list_all2 (\<lambda>p q. moved_to (if buf_mem (pd_data p) = DEVICE then mt else buf_mem (pd_data p)) p q) ps qs) \<and>
    br_allocated b' DEVICE = br_allocated b DEVICE -
      int (total (\<lambda>p. buf_size (pd_data p)) (filter (\<lambda>p. buf_mem (pd_data p) = DEVICE) ps)) \<and>
    br_reserved b' = br_reserved b"
  using spill_partitions_aux [OF assms] by blast

theorem spill_partitions_preserves_witness:
  "\<exists>qs b'. spill_partitions False
      [\<lparr>pd_metadata = [9], pd_data = example_buffer DEVICE [1, 2]\<rparr>,
       \<lparr>pd_metadata = [8], pd_data = example_buffer HOST [3]\<rparr>] example_br = (Inr qs, b') \<and>
    length qs = 2 \<and> br_allocated b' DEVICE = - 2"
proof -
  let ?ps = "[\<lparr>pd_metadata = [9], pd_data = example_buffer DEVICE [1, 2]\<rparr>,
       \<lparr>pd_metadata = [8], pd_data = example_buffer HOST [3]\<rparr>]"
  have "\<exists>qs b'. spill_partitions False ?ps example_br = (Inr qs, b')"
    by (simp add: spill_partitions_def reserve_or_fail_def SPILL_TARGET_MEMORY_TYPES_def reserve_evals
        with_reservation_def example_buffer_def act_bind_def move_buffer_def make_buffer_def
        allocate_storage_def invalid_stream_def new_host_buffer_def host_buffer_types_def release_def
        add_allocated_def buffer_copy_def check_range_def to_ptrdiff_def upt_rec write_access_def
        buffer_data_def throw_if_locked_def storage_bytes_def memcpy_def record_write_event_def clear_def)
  then obtain qs b' where sp: "spill_partitions False ?ps example_br = (Inr qs, b')" by blast
  have "\<forall>p\<in>set ?ps. packed_holds p" by (simp add: packed_holds_def holds_def example_buffer_def)
  from spill_partitions_preserves [OF this sp] show ?thesis
    using sp by (auto simp: example_buffer_def example_br_def dest: list_all2_lengthD)
qed

end
