(* ===== verification/Shuffle_Chunk.thy ===== *)
theory Shuffle_Chunk
  imports Bytes Buffer_Resource
begin

text \<open>
  The unit the shuffler moves: \<^verbatim>\<open>shuffler/chunk.cpp\<close> and \<^verbatim>\<open>shuffler/chunk.hpp\<close>. A chunk is
  either a data message or a control message that announces how many chunks its sender sent to
  the owner of a partition. The header is 32 bytes, then the metadata; the data buffer travels on its own.
\<close>

record chunk =
  ck_id :: u64
  ck_part :: u32
  ck_expected :: u64
  ck_metadata_size :: u32
  ck_data_size :: u64
  ck_metadata :: "u8 list option"
  ck_data :: "buffer option"

definition metadata_message_header_size :: nat where
  "metadata_message_header_size = 8 + 4 + 8 + 4 + 8"

definition is_control_message :: "chunk \<Rightarrow> bool" where
  "is_control_message c \<longleftrightarrow> ck_expected c > 0"

definition set_data_buffer :: "buffer option \<Rightarrow> chunk \<Rightarrow> chunk result" where
  "set_data_buffer d c = (if ck_data c \<noteq> None then Inl Logic_Error else Inr (c\<lparr>ck_data := d\<rparr>))"

definition is_data_buffer_set :: "chunk \<Rightarrow> bool" where
  "is_data_buffer_set c \<longleftrightarrow> ck_data c \<noteq> None"

definition is_metadata_buffer_set :: "chunk \<Rightarrow> bool" where
  "is_metadata_buffer_set c \<longleftrightarrow> (case ck_metadata c of None \<Rightarrow> False | Some m \<Rightarrow> m \<noteq> [])"

definition data_memory_type :: "chunk \<Rightarrow> mem_type result" where
  "data_memory_type c = (case ck_data c of None \<Rightarrow> Inl Logic_Error | Some b \<Rightarrow> Inr (buf_mem b))"

definition release_metadata_buffer :: "chunk \<Rightarrow> u8 list option \<times> chunk" where
  "release_metadata_buffer c = (ck_metadata c, c\<lparr>ck_metadata := None\<rparr>)"

definition release_data_buffer :: "chunk \<Rightarrow> buffer option \<times> chunk" where
  "release_data_buffer c = (ck_data c, c\<lparr>ck_data := None\<rparr>)"

text \<open>\<open>is_ready\<close> asks the buffer, which throws while it is locked.\<close>

definition is_ready :: "chunk \<Rightarrow> bool result" where
  "is_ready c =
     (if ck_data_size c = 0 then Inr True
      else case ck_data c of None \<Rightarrow> Inr False | Some b \<Rightarrow> is_latest_write_done b)"

text \<open>The metadata size is narrowed to 32 bits. A packed data is a pair of pointers.\<close>

definition from_packed_data :: "u64 \<Rightarrow> u32 \<Rightarrow> u8 list option \<Rightarrow> buffer option \<Rightarrow> chunk result" where
  "from_packed_data cid pid metadata dat =
     (case metadata of
        None \<Rightarrow> Inl Logic_Error
      | Some m \<Rightarrow>
          (case dat of
             None \<Rightarrow> Inl Logic_Error
           | Some d \<Rightarrow>
               Inr \<lparr>ck_id = cid, ck_part = pid, ck_expected = 0,
                    ck_metadata_size = word_of_nat (length m), ck_data_size = word_of_nat (buf_size d),
                    ck_metadata = Some m, ck_data = Some d\<rparr>))"

definition from_finished_partition :: "u64 \<Rightarrow> u32 \<Rightarrow> u64 \<Rightarrow> chunk" where
  "from_finished_partition cid pid expected =
     \<lparr>ck_id = cid, ck_part = pid, ck_expected = expected, ck_metadata_size = 0, ck_data_size = 0,
      ck_metadata = None, ck_data = None\<rparr>"

section \<open>The wire format\<close>

text \<open>What a message carries.\<close>

record chunk_message =
  cm_id :: u64
  cm_part :: u32
  cm_expected :: u64
  cm_metadata_size :: u32
  cm_data_size :: u64
  cm_metadata :: "u8 list"

definition write_message :: "chunk_message \<Rightarrow> u8 list" where
  "write_message m =
     enc64 (cm_id m) @ enc32 (cm_part m) @ enc64 (cm_expected m) @ enc32 (cm_metadata_size m)
       @ enc64 (cm_data_size m) @ cm_metadata m"

text \<open>\<open>serialize\<close> empties the metadata it has written.\<close>

definition message_of :: "chunk \<Rightarrow> chunk_message" where
  "message_of c =
     \<lparr>cm_id = ck_id c, cm_part = ck_part c, cm_expected = ck_expected c,
      cm_metadata_size = ck_metadata_size c, cm_data_size = ck_data_size c,
      cm_metadata = (case ck_metadata c of None \<Rightarrow> [] | Some m \<Rightarrow> m)\<rparr>"

definition serialize_chunk :: "chunk \<Rightarrow> u8 list \<times> chunk" where
  "serialize_chunk c = (write_message (message_of c), c\<lparr>ck_metadata := map_option (\<lambda>_. []) (ck_metadata c)\<rparr>)"

definition validate_format :: "u8 list \<Rightarrow> bool result" where
  "validate_format buf =
     (if length buf < metadata_message_header_size then Inr False
      else res_bind (rd32 buf (8 + 4 + 8)) (\<lambda>metadata_size.
             Inr (length buf = metadata_message_header_size + unat metadata_size)))"

definition read_message :: "u8 list \<Rightarrow> chunk_message result" where
  "read_message msg =
     res_bind (rd64 msg 0) (\<lambda>cid.
     res_bind (rd32 msg 8) (\<lambda>pid.
     res_bind (rd64 msg 12) (\<lambda>expected.
     res_bind (rd32 msg 20) (\<lambda>metadata_size.
     res_bind (rd64 msg 24) (\<lambda>data_size.
       Inr \<lparr>cm_id = cid, cm_part = pid, cm_expected = expected, cm_metadata_size = metadata_size,
            cm_data_size = data_size, cm_metadata = drop 32 msg\<rparr>)))))"

definition read_valid_message :: "bool \<Rightarrow> u8 list \<Rightarrow> chunk_message result" where
  "read_valid_message validate msg =
     (if validate then
        res_bind (validate_format msg) (\<lambda>valid.
        res_bind (expects valid Logic_Error) (\<lambda>_. read_message msg))
      else read_message msg)"

text \<open>
  \<open>deserialize\<close>: a data message that comes without a buffer gets one, from the fastest memory type
  that has room. \<open>s\<close> is the stream the pool hands out.
\<close>

definition chunk_of :: "chunk_message \<Rightarrow> buffer option \<Rightarrow> chunk" where
  "chunk_of m d =
     \<lparr>ck_id = cm_id m, ck_part = cm_part m, ck_expected = cm_expected m,
      ck_metadata_size = cm_metadata_size m, ck_data_size = cm_data_size m,
      ck_metadata = Some (cm_metadata m), ck_data = d\<rparr>"

definition deserialize_chunk ::
  "bool \<Rightarrow> bool \<Rightarrow> stream \<Rightarrow> u8 list \<Rightarrow> buffer option \<Rightarrow> ('w br_scheme, chunk) act" where
  "deserialize_chunk br_set validate s msg dat b =
     (case read_valid_message validate msg of
        Inl e \<Rightarrow> (Inl e, b)
      | Inr m \<Rightarrow>
          if dat = None \<and> cm_expected m = 0 then
            if \<not> br_set then (Inl Logic_Error, b)
            else act_bind (reserve_or_fail (unat (cm_data_size m)) ADDRESSABLE_MEMORY_TYPES)
                   (\<lambda>res. act_bind (with_reservation res (\<lambda>st. make_buffer (res_size (snd st)) s st))
                   (\<lambda>d. act_return (chunk_of m (Some d)))) b
          else (Inr (chunk_of m dat), b))"

section \<open>Lemmas\<close>

definition message_fits :: "chunk_message \<Rightarrow> bool" where
  "message_fits m \<longleftrightarrow> length (cm_metadata m) = unat (cm_metadata_size m)"

lemma length_write_message: "length (write_message m) = 32 + length (cm_metadata m)"
  by (simp add: write_message_def)

lemma read_write_message: "read_message (write_message m) = Inr m"
proof -
  let ?h1 = "enc64 (cm_id m)" and ?h2 = "enc32 (cm_part m)" and ?h3 = "enc64 (cm_expected m)"
  let ?h4 = "enc32 (cm_metadata_size m)" and ?h5 = "enc64 (cm_data_size m)"
  have "rd32 (?h1 @ ?h2 @ ?h3 @ ?h4 @ ?h5 @ cm_metadata m) 8 = Inr (cm_part m)"
    by (rule rd32_enc) simp
  moreover have "rd64 ((?h1 @ ?h2) @ ?h3 @ ?h4 @ ?h5 @ cm_metadata m) 12 = Inr (cm_expected m)"
    by (rule rd64_enc) simp
  moreover have "rd32 ((?h1 @ ?h2 @ ?h3) @ ?h4 @ ?h5 @ cm_metadata m) 20 = Inr (cm_metadata_size m)"
    by (rule rd32_enc) simp
  moreover have "rd64 ((?h1 @ ?h2 @ ?h3 @ ?h4) @ ?h5 @ cm_metadata m) 24 = Inr (cm_data_size m)"
    by (rule rd64_enc) simp
  ultimately show ?thesis by (simp add: read_message_def write_message_def)
qed

lemma validate_write_message: "validate_format (write_message m) = Inr (message_fits m)"
proof -
  have "rd32 ((enc64 (cm_id m) @ enc32 (cm_part m) @ enc64 (cm_expected m)) @ enc32 (cm_metadata_size m)
      @ enc64 (cm_data_size m) @ cm_metadata m) 20 = Inr (cm_metadata_size m)"
    by (rule rd32_enc) simp
  then show ?thesis
    by (simp add: validate_format_def metadata_message_header_size_def length_write_message message_fits_def)
      (simp add: write_message_def)
qed

lemma read_message_pieces:
  assumes "read_message bs = Inr m"
  shows "write_message m = bs"
proof -
  from assms have r: "rd64 bs 0 = Inr (cm_id m)" "rd32 bs 8 = Inr (cm_part m)" "rd64 bs 12 = Inr (cm_expected m)"
    "rd32 bs 20 = Inr (cm_metadata_size m)" "rd64 bs 24 = Inr (cm_data_size m)" "cm_metadata m = drop 32 bs"
    by (auto simp: read_message_def res_bind_eq_Inr)
  have cut: "take a (drop k bs) @ drop (k + a) bs = drop k bs" for a k
    by (metis append_take_drop_id drop_drop add.commute)
  show ?thesis
    using enc64_rd64 [OF r(1)] enc32_rd32 [OF r(2)] enc64_rd64 [OF r(3)] enc32_rd32 [OF r(4)] enc64_rd64 [OF r(5)] r(6)
      cut [of 8 24] cut [of 4 20] cut [of 8 12] cut [of 4 8] cut [of 8 0]
    by (simp add: write_message_def)
qed

text \<open>The format as an instance of the interface: validated reading of what was written.\<close>

interpretation chunk_wire: wire_format write_message "read_valid_message True" message_fits
proof
  fix m
  assume "message_fits m"
  then show "read_valid_message True (write_message m) = Inr m"
    by (simp add: read_valid_message_def validate_write_message read_write_message)
next
  fix bs m
  assume "read_valid_message True bs = Inr m"
  then have v: "validate_format bs = Inr True" and "read_message bs = Inr m"
    by (auto simp: read_valid_message_def res_bind_eq_Inr)
  then have "write_message m = bs" by (simp add: read_message_pieces)
  with v show "message_fits m \<and> write_message m = bs" using validate_write_message [of m] by simp
qed

lemma read_message_defined: "32 \<le> length bs \<Longrightarrow> \<exists>m. read_message bs = Inr m"
  by (simp add: read_message_def rd64_def rd32_def)

lemma validate_format_defined: "defined (validate_format bs)"
  by (auto simp: validate_format_def metadata_message_header_size_def rd32_def)

lemma message_of_fits:
  "from_packed_data cid pid (Some m) (Some d) = Inr c \<Longrightarrow> message_fits (message_of c) \<longleftrightarrow> length m < 2 ^ 32"
  by (auto simp: from_packed_data_def message_of_def message_fits_def unat_of_nat
      dest: sym [of "length m"])

section \<open>Properties\<close>

text \<open>Property C34: the format of a chunk message. The validating reader accepts exactly the byte strings the
  writer produces for a message whose size field fits its metadata, and gives back that message.\<close>

theorem chunk_format_exact:
  "read_valid_message True bs = Inr m \<longleftrightarrow> message_fits m \<and> write_message m = bs"
  by (rule chunk_wire.dec_Inr_iff)

text \<open>Property C35: sending a chunk. The receiver that deserialises the serialised chunk with the data buffer that
  travelled with it has the chunk its sender made, provided the metadata is shorter than 4 GiB; for longer
  metadata, whose 32-bit size field is truncated, it rejects the message.\<close>

theorem chunk_roundtrip:
  fixes b :: "'w br_scheme"
  assumes "from_packed_data cid pid (Some m) (Some d) = Inr c"
  shows "deserialize_chunk br_set True s (fst (serialize_chunk c)) (fst (release_data_buffer c)) b =
    (if length m < 2 ^ 32 then (Inr c, b) else (Inl Logic_Error, b))"
proof (cases "length m < 2 ^ 32")
  case True
  then have "read_valid_message True (write_message (message_of c)) = Inr (message_of c)"
    using message_of_fits [OF assms] chunk_wire.dec_enc by blast
  moreover have "ck_data c = Some d" "chunk_of (message_of c) (Some d) = c"
    using assms by (auto simp: from_packed_data_def chunk_of_def message_of_def)
  ultimately show ?thesis
    using True by (simp add: deserialize_chunk_def serialize_chunk_def release_data_buffer_def)
next
  case False
  then have "\<not> message_fits (message_of c)" using message_of_fits [OF assms] by blast
  then have "read_valid_message True (write_message (message_of c)) = Inl Logic_Error"
    by (simp add: read_valid_message_def validate_write_message)
  then show ?thesis using False by (simp add: deserialize_chunk_def serialize_chunk_def)
qed

theorem chunk_roundtrip_witness:
  "\<exists>c. from_packed_data 5 1 (Some [7, 8]) (Some (example_buffer HOST [1])) = Inr c \<and>
     fst (deserialize_chunk True True 3 (fst (serialize_chunk c)) (fst (release_data_buffer c)) example_br) = Inr c"
proof -
  obtain c where c: "from_packed_data 5 1 (Some [7, 8]) (Some (example_buffer HOST [1])) = Inr c"
    by (simp add: from_packed_data_def)
  show ?thesis using chunk_roundtrip [OF c, of True 3 example_br] c by simp
qed

end
