(* ===== verification/Spill_Manager.thy ===== *)
theory Spill_Manager
  imports Buffer_Resource Pausable_Thread_Loop
begin

text \<open>
  The spill manager of \<^verbatim>\<open>memory/spill_manager.cpp\<close> and the device reservation that spills
  (\<^verbatim>\<open>reserve_device_memory_and_spill\<close> of \<^verbatim>\<open>memory/buffer_resource.cpp\<close>). A spill function is
  an action on the state \<open>'b\<close> of the buffer resource and whatever owns the spillable buffers; it
  takes the bytes asked for and returns the bytes it spilled. The manager holds its mutex over a
  whole call, so a call is one step; \<open>spill_begin\<close> and \<open>spill_end\<close> are the atomics an observer
  that takes no lock sees.
\<close>

type_synonym 'b spill_function = "nat \<Rightarrow> ('b, nat) act"

record 'b spill_manager =
  sm_id_counter :: nat
  sm_functions :: "(nat \<times> 'b spill_function) list"
  sm_priorities :: "(int \<times> nat) list"
  sm_thread :: "thread_loop option"
  sm_in_flight :: nat
  sm_generation :: nat

definition new_spill_manager :: "bool \<Rightarrow> 'b spill_manager" where
  "new_spill_manager periodic_spill_check =
     \<lparr>sm_id_counter = 0, sm_functions = [], sm_priorities = [],
      sm_thread = (if periodic_spill_check then Some new_thread_loop else None),
      sm_in_flight = 0, sm_generation = 0\<rparr>"

definition destroy_spill_manager :: "'b spill_manager \<Rightarrow> 'b spill_manager" where
  "destroy_spill_manager sm = sm\<lparr>sm_thread := map_option (\<lambda>l. snd (stop_request l)) (sm_thread sm)\<rparr>"

text \<open>\<^verbatim>\<open>std::multimap\<close> with \<^verbatim>\<open>std::greater\<close>: descending keys, equal keys in insertion order.\<close>

fun insert_priority :: "int \<Rightarrow> nat \<Rightarrow> (int \<times> nat) list \<Rightarrow> (int \<times> nat) list" where
  "insert_priority p fid [] = [(p, fid)]"
| "insert_priority p fid ((q, i) # rest) =
     (if p > q then (p, fid) # (q, i) # rest else (q, i) # insert_priority p fid rest)"

fun erase_first :: "nat \<Rightarrow> (int \<times> nat) list \<Rightarrow> (int \<times> nat) list" where
  "erase_first fid [] = []"
| "erase_first fid ((q, i) # rest) = (if i = fid then rest else (q, i) # erase_first fid rest)"

definition add_spill_function :: "'b spill_function \<Rightarrow> int \<Rightarrow> ('b spill_manager, nat) act" where
  "add_spill_function f priority sm =
     (let fid = sm_id_counter sm; sm1 = sm\<lparr>sm_id_counter := (fid + 1) mod 2 ^ 64\<rparr> in
      if fid \<in> set (map fst (sm_functions sm)) then (Inl Logic_Error, sm1)
      else (Inr fid,
            sm1\<lparr>sm_functions := (fid, f) # sm_functions sm,
                sm_priorities := insert_priority priority fid (sm_priorities sm),
                sm_thread := map_option (\<lambda>l. snd (resume l)) (sm_thread sm)\<rparr>))"

definition remove_spill_function :: "nat \<Rightarrow> 'b spill_manager \<Rightarrow> 'b spill_manager" where
  "remove_spill_function fid sm =
     (let fns = filter (\<lambda>(i, _). i \<noteq> fid) (sm_functions sm) in
      sm\<lparr>sm_priorities := erase_first fid (sm_priorities sm), sm_functions := fns,
         sm_thread := (if fns = [] then map_option pause_nb (sm_thread sm) else sm_thread sm)\<rparr>)"

section \<open>Spilling\<close>

definition spill_begin :: "'b spill_manager \<Rightarrow> 'b spill_manager" where
  "spill_begin sm = sm\<lparr>sm_in_flight := sm_in_flight sm + 1\<rparr>"

definition spill_end :: "'b spill_manager \<Rightarrow> 'b spill_manager" where
  "spill_end sm = sm\<lparr>sm_generation := (sm_generation sm + 1) mod 2 ^ 64, sm_in_flight := sm_in_flight sm - 1\<rparr>"

definition spilling_now :: "'b spill_manager \<Rightarrow> bool" where
  "spilling_now sm \<longleftrightarrow> sm_in_flight sm > 0"

fun spill_loop ::
  "(nat \<times> 'b spill_function) list \<Rightarrow> nat \<Rightarrow> nat \<Rightarrow> (int \<times> nat) list \<Rightarrow> ('b, nat) act" where
  "spill_loop fns amount spilled [] b = (Inr spilled, b)"
| "spill_loop fns amount spilled ((_, fid) # rest) b =
     (if spilled \<ge> amount then (Inr spilled, b)
      else case map_of fns fid of
             None \<Rightarrow> (Inl Out_Of_Range, b)
           | Some f \<Rightarrow>
               (case f (amount - spilled) b of
                  (Inl e, b') \<Rightarrow> (Inl e, b')
                | (Inr n, b') \<Rightarrow> spill_loop fns amount ((spilled + n) mod 2 ^ 64) rest b'))"

definition spill_unsafe :: "nat \<Rightarrow> ('b spill_manager \<times> 'b, nat) act" where
  "spill_unsafe amount s =
     (case s of (sm, b) \<Rightarrow>
        if amount = 0 then (Inr 0, s)
        else
          let sm1 = spill_begin sm in
          case spill_loop (sm_functions sm1) amount 0 (sm_priorities sm1) b of
            (out, b') \<Rightarrow> (out, (spill_end sm1, b')))"

definition spill :: "nat \<Rightarrow> ('b spill_manager \<times> 'b, nat) act" where
  "spill amount = spill_unsafe amount"

text \<open>The deficit found under the lock, and what was spilled.\<close>

definition spill_to_make_headroom ::
  "int \<Rightarrow> (('w br_scheme) spill_manager \<times> 'w br_scheme, nat \<times> nat) act" where
  "spill_to_make_headroom headroom s =
     (case memory_available_for_reservation DEVICE (snd s) of
        Inl e \<Rightarrow> (Inl e, s)
      | Inr available \<Rightarrow>
          if headroom \<le> available then (Inr (0, 0), s)
          else case res_bind (chk64 (headroom - available)) to_size of
                 Inl e \<Rightarrow> (Inl e, s)
               | Inr deficit \<Rightarrow>
                   (case spill_unsafe deficit s of
                      (Inl e, s') \<Rightarrow> (Inl e, s')
                    | (Inr spilled, s') \<Rightarrow> (Inr (deficit, spilled), s')))"

text \<open>The reservation is a local: it is cleared when an exception leaves the function.\<close>

definition reserve_device_memory_and_spill ::
  "nat \<Rightarrow> allow_overbooking \<Rightarrow> (('w br_scheme) spill_manager \<times> 'w br_scheme, reservation) act" where
  "reserve_device_memory_and_spill n allow s =
     (let unwind = (\<lambda>e res (sm, b).
            (case clear (b, res) of
               (Inl e', (b', _)) \<Rightarrow> (Inl e', (sm, b'))
             | (Inr _, (b', _)) \<Rightarrow> (Inl e, (sm, b')))) in
      case reserve DEVICE n Overbooking_YES (snd s) of
        (Inl e, b) \<Rightarrow> (Inl e, (fst s, b))
      | (Inr (res, total_overbooking), b) \<Rightarrow>
          if total_overbooking > 0 then
            let own_overbooking = min n total_overbooking in
            case spill_to_make_headroom 0 (fst s, b) of
              (Inl e, s') \<Rightarrow> unwind e res s'
            | (Inr (deficit, spilled), s') \<Rightarrow>
                if allow = Overbooking_YES \<or> spilled \<ge> min own_overbooking deficit then (Inr res, s')
                else unwind Reservation_Error res s'
          else (Inr res, (fst s, b)))"

section \<open>The registry\<close>

abbreviation descending :: "(int \<times> nat) list \<Rightarrow> bool" where
  "descending \<equiv> sorted_wrt (\<lambda>x y. fst x \<ge> fst y)"

definition registry_ok :: "'b spill_manager \<Rightarrow> bool" where
  "registry_ok sm \<longleftrightarrow>
     descending (sm_priorities sm) \<and>
     distinct (map snd (sm_priorities sm)) \<and> distinct (map fst (sm_functions sm)) \<and>
     set (map snd (sm_priorities sm)) = set (map fst (sm_functions sm))"

lemma set_insert_priority [simp]: "set (insert_priority p fid ps) = insert (p, fid) (set ps)"
  by (induction p fid ps rule: insert_priority.induct) auto

lemma insert_priority_descending: "descending ps \<Longrightarrow> descending (insert_priority p fid ps)"
proof (induction p fid ps rule: insert_priority.induct)
  case (1 p fid)
  then show ?case by simp
next
  case (2 p fid q i rest)
  then show ?case by (cases "p > q") auto
qed

lemma insert_priority_distinct:
  "distinct (map snd ps) \<Longrightarrow> fid \<notin> snd ` set ps \<Longrightarrow> distinct (map snd (insert_priority p fid ps))"
proof (induction p fid ps rule: insert_priority.induct)
  case (1 p fid)
  then show ?case by simp
next
  case (2 p fid q i rest)
  then show ?case by (cases "p > q") (auto simp: image_iff)
qed

lemma set_erase_first:
  "distinct (map snd ps) \<Longrightarrow> set (erase_first fid ps) = {x \<in> set ps. snd x \<noteq> fid}"
  by (induction fid ps rule: erase_first.induct) force+

lemma erase_first_sorted:
  "sorted_wrt R ps \<Longrightarrow> sorted_wrt R (erase_first fid ps)"
proof (induction fid ps rule: erase_first.induct)
  case (2 fid q i rest)
  have "set (erase_first fid rest) \<subseteq> set rest"
    by (induction fid rest rule: erase_first.induct) auto
  with 2 show ?case by auto
qed simp

lemma erase_first_distinct: "distinct (map snd ps) \<Longrightarrow> distinct (map snd (erase_first fid ps))"
proof (induction fid ps rule: erase_first.induct)
  case (2 fid q i rest)
  have "set (erase_first fid rest) \<subseteq> set rest"
    by (induction fid rest rule: erase_first.induct) auto
  with 2 show ?case by auto
qed simp

lemma add_spill_function_ok:
  assumes ok: "registry_ok sm" and add: "add_spill_function f p sm = (Inr fid, sm')"
  shows "registry_ok sm'"
proof -
  from add have fid: "fid \<notin> set (map fst (sm_functions sm))"
    and sm': "sm_functions sm' = (fid, f) # sm_functions sm"
      "sm_priorities sm' = insert_priority p fid (sm_priorities sm)"
    by (auto simp: add_spill_function_def Let_def split: if_splits)
  have "fid \<notin> snd ` set (sm_priorities sm)" using ok fid by (simp add: registry_ok_def)
  then show ?thesis
    using ok fid unfolding registry_ok_def sm'
    by (simp add: insert_priority_descending insert_priority_distinct)
qed

lemma remove_spill_function_ok: "registry_ok sm \<Longrightarrow> registry_ok (remove_spill_function fid sm)"
proof -
  assume ok: "registry_ok sm"
  let ?fns = "filter (\<lambda>(i, _). i \<noteq> fid) (sm_functions sm)"
  have fst_fns: "map fst ?fns = filter (\<lambda>i. i \<noteq> fid) (map fst (sm_functions sm))"
    by (simp add: filter_map o_def split_def)
  have d: "distinct (map snd (sm_priorities sm))" using ok by (simp add: registry_ok_def)
  have "set (map snd (erase_first fid (sm_priorities sm))) = {i \<in> set (map snd (sm_priorities sm)). i \<noteq> fid}"
    using set_erase_first [OF d, of fid] by auto
  then show ?thesis
    using ok unfolding registry_ok_def remove_spill_function_def Let_def
    by (simp add: fst_fns erase_first_sorted erase_first_distinct)
qed

section \<open>The contract of a spill function\<close>

text \<open>
  What the manager relies on: a spill function that returns reports exactly what it added to the
  device headroom. The locale is the interface between the manager and the components that own
  spillable buffers; each of them interprets it on its own spill function.
\<close>

definition device_headroom :: "'w br_scheme \<Rightarrow> int" where
  "device_headroom b = br_limits b DEVICE - br_allocated b DEVICE - int (br_reserved b DEVICE)"

text \<open>What spilling does to the resource: device bytes go, nothing else the contract sees changes.\<close>

definition spilled_by :: "nat \<Rightarrow> 'w br_scheme \<Rightarrow> 'w br_scheme \<Rightarrow> bool" where
  "spilled_by n b b' \<longleftrightarrow>
     br_allocated b' DEVICE = br_allocated b DEVICE - int n \<and>
     (\<exists>al. b' = b\<lparr>br_allocated := al\<rparr>)"

lemma spilled_by_refl [simp]: "spilled_by 0 b b"
  by (auto simp: spilled_by_def intro: exI [of _ "br_allocated b"])

lemma spilled_by_trans: "spilled_by m a b \<Longrightarrow> spilled_by n b c \<Longrightarrow> spilled_by (m + n) a c"
  by (auto simp: spilled_by_def)

lemma spilled_by_headroom: "spilled_by n b b' \<Longrightarrow> device_headroom b' = device_headroom b + int n"
  by (auto simp: spilled_by_def device_headroom_def)

text \<open>Moving a buffer out of device memory, the step every spill function is made of.\<close>

lemma spill_buffer_Inr:
  fixes b b' :: "'w br_scheme"
  assumes "holds bs d" "buf_size d < 2 ^ 63" and dev: "buf_mem d = DEVICE"
    and mv: "act_bind (reserve_or_fail (buf_size d) SPILL_TARGET_MEMORY_TYPES)
       (\<lambda>res. with_reservation res (move_buffer stats d)) b = (Inr d', b')"
  shows "holds bs d' \<and> buf_mem d' \<in> set SPILL_TARGET_MEMORY_TYPES \<and> buf_mem d' \<noteq> DEVICE \<and> buf_size d' = buf_size d \<and> buf_stream d' = buf_stream d \<and>
    spilled_by (buf_size d) b b'"
proof -
  have "buf_mem d \<notin> set SPILL_TARGET_MEMORY_TYPES" by (simp add: dev SPILL_TARGET_MEMORY_TYPES_def)
  from reserve_and_move_Inr [OF assms(1,2) this mv] obtain mt where mt: "mt \<in> set SPILL_TARGET_MEMORY_TYPES"
    "holds bs d'" "buf_mem d' = mt" "buf_size d' = buf_size d" "buf_stream d' = buf_stream d"
    "b' = add_allocated DEVICE (- int (buf_size d)) (add_allocated mt (int (buf_size d)) b)"
    using dev by auto
  then have ne: "mt \<noteq> DEVICE" by (auto simp: SPILL_TARGET_MEMORY_TYPES_def)
  have "spilled_by (buf_size d) b b'"
    using mt(6) ne by (simp add: spilled_by_def add_allocated_def) blast
  then show ?thesis using mt ne by simp
qed

definition frees_exactly :: "('b \<Rightarrow> bool) \<Rightarrow> ('b \<Rightarrow> int) \<Rightarrow> 'b spill_function \<Rightarrow> bool" where
  "frees_exactly ok headroom f \<longleftrightarrow>
     (\<forall>n b k b'. ok b \<longrightarrow> f n b = (Inr k, b') \<longrightarrow> ok b' \<and> k < 2 ^ 63 \<and> headroom b' = headroom b + int k)"

locale spillable =
  fixes spill_fn :: "nat \<Rightarrow> 'b \<Rightarrow> nat result \<times> 'b"
    and ok :: "'b \<Rightarrow> bool"
    and headroom :: "'b \<Rightarrow> int"
  assumes keeps_ok: "ok b \<Longrightarrow> spill_fn n b = (Inr k, b') \<Longrightarrow> ok b'"
    and small: "ok b \<Longrightarrow> spill_fn n b = (Inr k, b') \<Longrightarrow> k < 2 ^ 63"
    and frees: "ok b \<Longrightarrow> spill_fn n b = (Inr k, b') \<Longrightarrow> headroom b' = headroom b + int k"
begin

lemma contract: "frees_exactly ok headroom spill_fn"
  unfolding frees_exactly_def using keeps_ok small frees by blast

text \<open>A manager with this function alone spills at most once per call and reports what it freed.\<close>

lemma single_function:
  assumes "ok b" and "amount > 0" and "spill_loop [(i, spill_fn)] amount 0 [(p, i)] b = (Inr k, b')"
  shows "spill_fn amount b = (Inr k, b') \<and> headroom b' = headroom b + int k"
proof -
  from assms(2,3) obtain n where n: "spill_fn amount b = (Inr n, b')" "k = n mod 2 ^ 64"
    by (auto split: prod.splits sum.splits)
  moreover have "n < 2 ^ 63" using small [OF assms(1) n(1)] .
  ultimately have "k = n" by simp
  with n show ?thesis using frees [OF assms(1) n(1)] by simp
qed

end

lemma spill_loop_frees:
  assumes "\<forall>f\<in>set (map snd fns). frees_exactly ok headroom f"
    and "ok b" and "spilled < 2 ^ 63" and "amount < 2 ^ 63"
    and "spill_loop fns amount spilled ps b = (Inr k, b')"
  shows "ok b' \<and> spilled \<le> k \<and> headroom b' = headroom b + int k - int spilled"
  using assms(2-)
proof (induction ps arbitrary: spilled b)
  case Nil
  then show ?case by simp
next
  case (Cons p ps)
  obtain q fid where p: "p = (q, fid)" by force
  show ?case
  proof (cases "spilled \<ge> amount")
    case True
    then show ?thesis using Cons.prems by (simp add: p)
  next
    case False
    then obtain f n b1 where f: "map_of fns fid = Some f" "f (amount - spilled) b = (Inr n, b1)"
      and rest: "spill_loop fns amount ((spilled + n) mod 2 ^ 64) ps b1 = (Inr k, b')"
      using Cons.prems(4) by (auto simp: p split: option.splits prod.splits sum.splits)
    have "f \<in> set (map snd fns)" using map_of_SomeD [OF f(1)] by force
    then have c: "ok b1" "n < 2 ^ 63" "headroom b1 = headroom b + int n"
      using assms(1) Cons.prems(1) f(2) unfolding frees_exactly_def by blast+
    then have m: "(spilled + n) mod 2 ^ 64 = spilled + n" using Cons.prems(2) by simp
    show ?thesis
    proof (cases "spilled + n < 2 ^ 63")
      case True
      then show ?thesis using Cons.IH [OF c(1) True Cons.prems(3)] rest c m by simp
    next
      case big: False
      then have "(Inr k, b') = (Inr (spilled + n), b1)"
        using rest Cons.prems(3) m by (cases ps) (auto split: if_splits)
      then show ?thesis using c by simp
    qed
  qed
qed

text \<open>Either the amount was reached, or every function was asked for something and gave less than that.\<close>

definition fell_short :: "(nat \<times> 'b spill_function) list \<Rightarrow> nat \<Rightarrow> nat \<Rightarrow> bool" where
  "fell_short fns amount fid \<longleftrightarrow>
     (\<exists>f m b n b'. map_of fns fid = Some f \<and> 0 < m \<and> m \<le> amount \<and> f m b = (Inr n, b') \<and> n < m)"

lemma fell_shortI:
  "map_of fns fid = Some f \<Longrightarrow> f m b = (Inr n, b') \<Longrightarrow> n < m \<Longrightarrow> m \<le> amount \<Longrightarrow> fell_short fns amount fid"
  unfolding fell_short_def
  by (rule exI [of _ f], rule exI [of _ m], rule exI [of _ b], rule exI [of _ n], rule exI [of _ b']) simp

lemma spill_loop_reached_or_tried:
  assumes "spill_loop fns amount spilled ps b = (Inr k, b')" and "k < amount"
    and fns: "\<forall>f\<in>set (map snd fns). frees_exactly ok headroom f" and "ok b"
    and "spilled < 2 ^ 63" "amount < 2 ^ 63"
  shows "\<forall>p\<in>set ps. fell_short fns amount (snd p)"
  using assms(1,4,5)
proof (induction ps arbitrary: spilled b)
  case Nil
  then show ?case by simp
next
  case (Cons p ps)
  obtain q fid where p: "p = (q, fid)" by force
  from Cons.prems assms(2) have lt: "spilled < amount" by (auto simp: p split: if_splits)
  then obtain f n b1 where f: "map_of fns fid = Some f" "f (amount - spilled) b = (Inr n, b1)"
    and rest: "spill_loop fns amount ((spilled + n) mod 2 ^ 64) ps b1 = (Inr k, b')"
    using Cons.prems(1) by (auto simp: p split: option.splits prod.splits sum.splits)
  have "f \<in> set (map snd fns)" using map_of_SomeD [OF f(1)] by force
  then have n: "n < 2 ^ 63" and ok1: "ok b1"
    using fns f(2) Cons.prems(2) unfolding frees_exactly_def by blast+
  then have m: "(spilled + n) mod 2 ^ 64 = spilled + n" using Cons.prems(3) by simp
  have le: "spilled + n < amount"
  proof (rule ccontr)
    assume big: "\<not> spilled + n < amount"
    then have "k = spilled + n" using rest m by (cases ps) (auto split: if_splits)
    then show False using assms(2) big by simp
  qed
  then have "spilled + n < 2 ^ 63" using assms(6) by simp
  from Cons.IH [OF rest [unfolded m] ok1 this]
  have "\<forall>p\<in>set ps. fell_short fns amount (snd p)" .
  moreover have "fell_short fns amount fid"
    by (rule fell_shortI [OF f]) (use le lt in simp_all)
  ultimately show ?case by (simp add: p)
qed

section \<open>Properties\<close>

lemma filter_insert_priority:
  "descending ps \<Longrightarrow> filter (\<lambda>x. fst x = c) (insert_priority p fid ps) =
     filter (\<lambda>x. fst x = c) ps @ (if p = c then [(p, fid)] else [])"
proof (induction p fid ps rule: insert_priority.induct)
  case (1 p fid)
  then show ?case by simp
next
  case (2 p fid q i rest)
  have "filter (\<lambda>x. fst x = p) ((q, i) # rest) = []" if "p > q"
    using "2.prems" that by (auto simp: filter_empty_conv)
  then show ?case using 2 by (cases "p > q") auto
qed

lemma mset_insert_priority: "mset (insert_priority p fid ps) = add_mset (p, fid) (mset ps)"
  by (induction p fid ps rule: insert_priority.induct) auto

text \<open>The order spill functions are called in. Registering functions one after another with any
  priorities leaves them sorted by descending priority, functions of equal priority in the order they
  were registered.\<close>

theorem priorities_stable_sorted:
  "foldl (\<lambda>ps (p, fid). insert_priority p fid ps) [] regs = sort_key (\<lambda>x. - fst x) regs"
proof -
  let ?f = "\<lambda>regs. foldl (\<lambda>ps (p, fid). insert_priority p fid ps) [] regs"
  have desc: "descending (?f regs)" for regs
    by (induction regs rule: rev_induct) (simp_all add: insert_priority_descending split_def)
  have m: "mset (?f regs) = mset regs" for regs
    by (induction regs rule: rev_induct) (simp_all add: mset_insert_priority split_def)
  have fil: "filter (\<lambda>x. fst x = c) (?f regs) = filter (\<lambda>x. fst x = c) regs" for c regs
  proof (induction regs rule: rev_induct)
    case (snoc x xs)
    obtain p fid where x: "x = (p, fid)" by force
    show ?case using snoc by (simp add: x filter_insert_priority [OF desc])
  qed simp
  have sorted: "sorted (map (\<lambda>x. - fst x) (?f regs))"
    using desc [of regs] by (simp add: sorted_map)
  show ?thesis
    by (rule properties_for_sort_key [symmetric]) (use m sorted fil in \<open>auto simp: eq_commute\<close>)
qed

text \<open>Property C27: what a spill reports. When every registered function frees exactly what it says, \<open>spill\<close>
  returns the bytes the device headroom grew by; if that is less than what was asked for, every
  registered function was called for an amount it did not reach. Each call with an amount is counted
  once.\<close>

theorem spill_reports_freed:
  assumes fns: "\<forall>f\<in>set (map snd (sm_functions sm)). frees_exactly ok headroom f"
    and "registry_ok sm" and "0 < amount" and "amount < 2 ^ 63" and ok: "ok b"
    and sp: "spill amount (sm, b) = (Inr k, (sm', b'))"
  shows "ok b' \<and> headroom b' = headroom b + int k \<and>
    (k \<ge> amount \<or> (\<forall>fid\<in>set (map fst (sm_functions sm)). fell_short (sm_functions sm) amount fid)) \<and>
    sm_generation sm' = (sm_generation sm + 1) mod 2 ^ 64 \<and> sm_in_flight sm' = sm_in_flight sm"
proof -
  from assms(3) sp have loop: "spill_loop (sm_functions sm) amount 0 (sm_priorities sm) b = (Inr k, b')"
    and sm': "sm' = spill_end (spill_begin sm)"
    by (auto simp: spill_def spill_unsafe_def Let_def spill_begin_def split: prod.splits)
  have F: "ok b' \<and> headroom b' = headroom b + int k - int 0"
    using spill_loop_frees [OF fns ok _ assms(4) loop] by simp
  have "\<forall>p\<in>set (sm_priorities sm). fell_short (sm_functions sm) amount (snd p)" if "k < amount"
    by (rule spill_loop_reached_or_tried [OF loop that fns ok _ assms(4)]) simp
  moreover have "set (map fst (sm_functions sm)) = snd ` set (sm_priorities sm)"
    using assms(2) by (simp add: registry_ok_def)
  ultimately have "k \<ge> amount \<or> (\<forall>fid\<in>set (map fst (sm_functions sm)). fell_short (sm_functions sm) amount fid)"
    by (metis (no_types, lifting) imageE not_le)
  then show ?thesis
    using F by (simp add: sm' spill_end_def spill_begin_def)
qed

definition counted_pool :: "nat \<Rightarrow> (nat, nat) act" where
  "counted_pool n b = (Inr (min (n mod 2 ^ 63) b), b - min (n mod 2 ^ 63) b)"

lemma counted_pool_frees: "frees_exactly (\<lambda>_. True) (\<lambda>b. - int b) counted_pool"
proof -
  have "min (n mod 2 ^ 63) b < (2 :: nat) ^ 63" for n b :: nat
    by (rule le_less_trans [OF min.cobounded1]) simp
  then show ?thesis by (auto simp: frees_exactly_def counted_pool_def)
qed

theorem spill_reports_freed_witness:
  "\<exists>sm sm' b'. snd (add_spill_function counted_pool 5 (new_spill_manager False)) = sm \<and>
     spill 30 (sm, 20) = (Inr 20, (sm', b')) \<and> fell_short (sm_functions sm) 30 0 \<and> sm_generation sm' = 1"
proof -
  let ?sm = "snd (add_spill_function counted_pool 5 (new_spill_manager False))"
  have sm: "sm_functions ?sm = [(0, counted_pool)]" "sm_priorities ?sm = [(5, 0)]"
    "sm_generation ?sm = 0" "sm_in_flight ?sm = 0"
    by (simp_all add: add_spill_function_def new_spill_manager_def)
  have ok: "registry_ok ?sm" by (simp add: registry_ok_def sm)
  have fns: "\<forall>f\<in>set (map snd (sm_functions ?sm)). frees_exactly (\<lambda>_. True) (\<lambda>b. - int b) f"
    unfolding sm using counted_pool_frees by simp
  obtain sm' b' where sp: "spill 30 (?sm, 20) = (Inr 20, (sm', b'))"
    by (simp add: spill_def spill_unsafe_def Let_def spill_begin_def spill_end_def sm counted_pool_def)
  from spill_reports_freed [OF fns ok _ _ _ sp] sp show ?thesis by (auto simp: sm)
qed

text \<open>Property C28: a device reservation that is granted without overbooking allowed has not made things worse:
  once it returns, the headroom with the whole request reserved is at least what it was before, or is not
  negative.\<close>

theorem reserve_and_spill_headroom:
  fixes b b' :: "'w br_scheme"
  assumes fns: "\<forall>f\<in>set (map snd (sm_functions sm)). frees_exactly ok device_headroom f"
    and ok: "ok b" "\<And>c rs. ok c \<Longrightarrow> ok (c\<lparr>br_reserved := rs\<rparr>)"
    and res: "reserve_device_memory_and_spill n Overbooking_NO (sm, b) = (Inr res, (sm', b'))"
  shows "res_size res = n \<and> res_mem res = DEVICE \<and> device_headroom b' \<ge> min 0 (device_headroom b)"
proof -
  let ?s = "reserve DEVICE n Overbooking_YES b"
  from res obtain r ob b1 where r: "?s = (Inr (r, ob), b1)"
    by (auto simp: reserve_device_memory_and_spill_def Let_def split: prod.splits sum.splits if_splits)
  from r obtain av where av: "memory_available DEVICE b = Inr av"
    by (auto simp: reserve_def headroom_after_def res_bind_def split: if_splits sum.splits)
  then have av_eq: "av = br_limits b DEVICE - br_allocated b DEVICE"
    by (simp add: memory_available_def chk64_eq_Inr)
  have ob: "int ob = max 0 (int n - device_headroom b)"
    using overbooking_value [OF r av] by (simp add: device_headroom_def av_eq)
  from r have rb: "res_size r = n \<and> res_mem r = DEVICE \<and>
      b1 = b\<lparr>br_reserved := (br_reserved b)(DEVICE := br_reserved b DEVICE + n)\<rparr>"
    by (cases rule: reserve_cases) simp_all
  then have hb1: "device_headroom b1 = device_headroom b - int n" by (simp add: device_headroom_def)
  show ?thesis
  proof (cases "ob = 0")
    case True
    then have "res = r" "b' = b1" using res r by (simp_all add: reserve_device_memory_and_spill_def Let_def)
    then show ?thesis using rb hb1 ob True by simp
  next
    case False
    then obtain deficit spilled where sp: "spill_to_make_headroom 0 (sm, b1) = (Inr (deficit, spilled), (sm', b'))"
      and enough: "spilled \<ge> min (min n ob) deficit" and "res = r"
      using res r by (auto simp: reserve_device_memory_and_spill_def Let_def split: prod.splits sum.splits if_splits)
    from sp obtain a where a: "memory_available_for_reservation DEVICE b1 = Inr a"
      by (auto simp: spill_to_make_headroom_def split: sum.splits)
    then have a_eq: "a = device_headroom b1"
      by (auto simp: memory_available_for_reservation_def memory_available_def res_bind_eq_Inr chk64_eq_Inr
          to_int64_eq_Inr device_headroom_def)
    have neg: "device_headroom b1 < 0" using ob False hb1 by simp
    from sp a have "res_bind (chk64 (0 - a)) to_size = Inr deficit"
      using neg a_eq by (auto simp: spill_to_make_headroom_def split: sum.splits prod.splits)
    then have d: "int deficit = - a" "deficit < 2 ^ 63"
      by (auto simp: res_bind_eq_Inr cast_defs split: if_splits)
    from sp a have "spill_unsafe deficit (sm, b1) = (Inr spilled, (sm', b'))"
      using neg a_eq \<open>res_bind (chk64 (0 - a)) to_size = Inr deficit\<close>
      by (auto simp: spill_to_make_headroom_def split: sum.splits prod.splits)
    then have "spill_loop (sm_functions sm) deficit 0 (sm_priorities sm) b1 = (Inr spilled, b')"
      using neg a_eq d by (auto simp: spill_unsafe_def Let_def spill_begin_def split: prod.splits if_splits)
    from spill_loop_frees [OF fns _ _ d(2) this]
    have "device_headroom b' = device_headroom b1 + int spilled" using ok rb by simp
    moreover have "int deficit = int ob" using d(1) a_eq hb1 ob neg by simp
    then have "deficit = ob" by simp
    ultimately show ?thesis
      using rb \<open>res = r\<close> hb1 ob enough d a_eq by auto
  qed
qed

definition freeing_50 :: "nat \<Rightarrow> (br, nat) act" where
  "freeing_50 n b = (Inr (min n 50), add_allocated DEVICE (- int (min n 50)) b)"

theorem reserve_and_spill_headroom_witness:
  "\<exists>sm res s'. sm = snd (add_spill_function freeing_50 0 (new_spill_manager False)) \<and>
    reserve_device_memory_and_spill 60 Overbooking_NO (sm, example_br\<lparr>br_allocated := (\<lambda>_. 50)\<rparr>) = (Inr res, s') \<and>
    res_size res = 60 \<and> device_headroom (snd s') \<ge> 0"
proof -
  define sm where "sm = snd (add_spill_function freeing_50 0 (new_spill_manager False))"
  let ?b = "example_br\<lparr>br_allocated := (\<lambda>_. 50)\<rparr>"
  have sm: "sm_functions sm = [(0, freeing_50)]" "sm_priorities sm = [(0, 0)]"
    by (simp_all add: sm_def add_spill_function_def new_spill_manager_def)
  have fns: "\<forall>f\<in>set (map snd (sm_functions sm)). frees_exactly (\<lambda>_. True) device_headroom f"
    by (auto simp: sm frees_exactly_def device_headroom_def add_allocated_def freeing_50_def)
  obtain res s' where res: "reserve_device_memory_and_spill 60 Overbooking_NO (sm, ?b) = (Inr res, s')"
    by (simp add: reserve_device_memory_and_spill_def reserve_evals spill_to_make_headroom_def
        memory_available_for_reservation_def spill_unsafe_def spill_begin_def sm freeing_50_def add_allocated_def)
  obtain sm' b' where s': "s' = (sm', b')" by force
  have "device_headroom ?b = 50" by (simp add: device_headroom_def example_br_def)
  with reserve_and_spill_headroom [OF fns _ _ res [unfolded s']] res s' sm_def show ?thesis by auto
qed

end
