(* ===== verification/Shuffle_Postbox.thy ===== *)
theory Shuffle_Postbox
  imports Shuffle_Chunk Spill_Manager "HOL-Library.AList"
begin

text \<open>
  The two containers of the shuffler, \<^verbatim>\<open>shuffler/postbox.cpp\<close>: chunks waiting to be sent, in
  order, and received chunks by partition, which can be spilled. The hash map is an association
  list in the order it is iterated in; no property depends on that order.
\<close>

section \<open>Chunks to send\<close>

text \<open>An entry is \<open>None\<close> while it has been moved from; that shows only when a chunk throws.\<close>

type_synonym chunks_to_send = "chunk option list"

definition cts_insert :: "chunk \<Rightarrow> chunks_to_send \<Rightarrow> chunks_to_send" where
  "cts_insert c cs = cs @ [Some c]"

fun take_ready :: "chunks_to_send \<Rightarrow> chunk list result \<times> chunks_to_send" where
  "take_ready [] = (Inr [], [])"
| "take_ready (None # cs) = (Inl Undefined, None # cs)"
| "take_ready (Some c # cs) =
     (case is_ready c of
        Inl e \<Rightarrow> (Inl e, Some c # cs)
      | Inr r \<Rightarrow>
          if \<not> r then (Inr [], Some c # cs)
          else case take_ready cs of
                 (Inl e, cs') \<Rightarrow> (Inl e, None # cs')
               | (Inr out, cs') \<Rightarrow> (Inr (c # out), None # cs'))"

definition extract_ready :: "(chunks_to_send, chunk list) act" where
  "extract_ready cs =
     (case take_ready cs of
        (Inl e, cs') \<Rightarrow> (Inl e, cs')
      | (Inr out, cs') \<Rightarrow> (Inr out, filter (\<lambda>x. x \<noteq> None) cs'))"

definition cts_empty :: "chunks_to_send \<Rightarrow> bool" where
  "cts_empty cs \<longleftrightarrow> cs = []"

section \<open>Received chunks\<close>

type_synonym pigeonhole = "(u32 \<times> chunk list) list"

definition rc_insert :: "chunk \<Rightarrow> pigeonhole \<Rightarrow> pigeonhole" where
  "rc_insert c ph =
     AList.update (ck_part c) ((case map_of ph (ck_part c) of None \<Rightarrow> [] | Some cs \<Rightarrow> cs) @ [c]) ph"

definition rc_is_empty :: "u32 \<Rightarrow> pigeonhole \<Rightarrow> bool" where
  "rc_is_empty pid ph \<longleftrightarrow> map_of ph pid = None"

definition rc_extract :: "u32 \<Rightarrow> (pigeonhole, chunk list) act" where
  "rc_extract pid ph =
     (case map_of ph pid of None \<Rightarrow> (Inl Out_Of_Range, ph) | Some cs \<Rightarrow> (Inr cs, AList.delete pid ph))"

definition rc_empty :: "pigeonhole \<Rightarrow> bool" where
  "rc_empty ph \<longleftrightarrow> ph = []"

text \<open>One chunk: reserve in a spill target, move the data there, put it back. A failed move loses the buffer.\<close>

definition spill_chunk :: "bool \<Rightarrow> chunk \<Rightarrow> 'w br_scheme \<Rightarrow> (unit result \<times> chunk) \<times> 'w br_scheme" where
  "spill_chunk stats c b =
     (case reserve_or_fail (unat (ck_data_size c)) SPILL_TARGET_MEMORY_TYPES b of
        (Inl e, b1) \<Rightarrow> ((Inl e, c), b1)
      | (Inr res, b1) \<Rightarrow>
          (case release_data_buffer c of
             (None, c1) \<Rightarrow> ((Inl Undefined, c1), b1)
           | (Some d, c1) \<Rightarrow>
               (case with_reservation res (move_buffer stats d) b1 of
                  (Inl e, b2) \<Rightarrow> ((Inl e, c1), b2)
                | (Inr d', b2) \<Rightarrow>
                    (case set_data_buffer (Some d') c1 of
                       Inl e \<Rightarrow> ((Inl e, c1), b2)
                     | Inr c2 \<Rightarrow> ((Inr (), c2), b2)))))"

definition spill_skips :: "chunk \<Rightarrow> bool" where
  "spill_skips c \<longleftrightarrow>
     ck_data_size c = 0 \<or> \<not> is_data_buffer_set c \<or> data_memory_type c \<noteq> Inr DEVICE"

fun spill_chunks ::
  "bool \<Rightarrow> nat \<Rightarrow> nat \<Rightarrow> chunk list \<Rightarrow> 'w br_scheme \<Rightarrow> (nat result \<times> chunk list) \<times> 'w br_scheme" where
  "spill_chunks stats amount spilled [] b = ((Inr spilled, []), b)"
| "spill_chunks stats amount spilled (c # cs) b =
     (if spill_skips c then
        (case spill_chunks stats amount spilled cs b of ((out, cs'), b') \<Rightarrow> ((out, c # cs'), b'))
      else case spill_chunk stats c b of
             ((Inl e, c'), b') \<Rightarrow> ((Inl e, c' # cs), b')
           | ((Inr _, c'), b') \<Rightarrow>
               (let spilled' = (spilled + unat (ck_data_size c)) mod 2 ^ 64 in
                if spilled' \<ge> amount then ((Inr spilled', c' # cs), b')
                else case spill_chunks stats amount spilled' cs b' of
                       ((out, cs'), b'') \<Rightarrow> ((out, c' # cs'), b'')))"

fun spill_pigeonhole ::
  "bool \<Rightarrow> nat \<Rightarrow> nat \<Rightarrow> pigeonhole \<Rightarrow> 'w br_scheme \<Rightarrow> (nat result \<times> pigeonhole) \<times> 'w br_scheme" where
  "spill_pigeonhole stats amount spilled [] b = ((Inr spilled, []), b)"
| "spill_pigeonhole stats amount spilled ((k, cs) # ph) b =
     (case spill_chunks stats amount spilled cs b of
        ((Inl e, cs'), b') \<Rightarrow> ((Inl e, (k, cs') # ph), b')
      | ((Inr spilled', cs'), b') \<Rightarrow>
          if spilled' \<ge> amount then ((Inr spilled', (k, cs') # ph), b')
          else case spill_pigeonhole stats amount spilled' ph b' of
                 ((out, ph'), b'') \<Rightarrow> ((out, (k, cs') # ph'), b''))"

text \<open>The container together with the buffer resource it spills through.\<close>

record received = br +
  rc_chunks :: pigeonhole
  rc_stats :: bool

definition rc_spill :: "nat \<Rightarrow> ('w received_scheme, nat) act" where
  "rc_spill amount s =
     (case spill_pigeonhole (rc_stats s) amount 0 (rc_chunks s) s of
        ((out, ph), s') \<Rightarrow> (out, s'\<lparr>rc_chunks := ph\<rparr>))"

section \<open>Sending in order\<close>

lemma take_ready_split:
  "take_ready (map Some cs) = (Inr out, cs') \<Longrightarrow>
   \<exists>rest. cs = out @ rest \<and> filter (\<lambda>x. x \<noteq> None) cs' = map Some rest \<and>
     (\<forall>c\<in>set out. is_ready c = Inr True) \<and> (case rest of [] \<Rightarrow> True | c # _ \<Rightarrow> is_ready c = Inr False)"
proof (induction cs arbitrary: out cs')
  case Nil
  then show ?case by simp
next
  case (Cons c cs)
  from Cons.prems obtain r where r: "is_ready c = Inr r"
    by (auto split: sum.splits)
  show ?case
  proof (cases r)
    case True
    then obtain out1 cs1 where 1: "take_ready (map Some cs) = (Inr out1, cs1)" "out = c # out1" "cs' = None # cs1"
      using Cons.prems r by (auto split: prod.splits sum.splits)
    from Cons.IH [OF 1(1)] obtain rest where "cs = out1 @ rest"
      "filter (\<lambda>x. x \<noteq> None) cs1 = map Some rest" "\<forall>c\<in>set out1. is_ready c = Inr True"
      "case rest of [] \<Rightarrow> True | c # _ \<Rightarrow> is_ready c = Inr False" by blast
    then show ?thesis using 1 r True by (intro exI [of _ rest]) simp
  next
    case False
    then have "out = []" "cs' = map Some (c # cs)" using Cons.prems r by auto
    moreover have "filter (\<lambda>x. x \<noteq> None) (map Some xs) = map Some xs" for xs :: "chunk list"
      by (simp add: filter_id_conv)
    ultimately show ?thesis using r False by (intro exI [of _ "c # cs"]) simp
  qed
qed

section \<open>Spilling\<close>

text \<open>A chunk as the shuffler keeps it: a data buffer of the size the header says, unlocked and whole.\<close>

definition chunk_ok :: "chunk \<Rightarrow> bool" where
  "chunk_ok c \<longleftrightarrow>
     (\<forall>d. ck_data c = Some d \<longrightarrow> buf_size d = unat (ck_data_size c) \<and> buf_size d < 2 ^ 63 \<and> (\<exists>bs. holds bs d))"

definition same_payload :: "chunk \<Rightarrow> chunk \<Rightarrow> bool" where
  "same_payload c c' \<longleftrightarrow>
     c' = c\<lparr>ck_data := ck_data c'\<rparr> \<and>
     map_option (\<lambda>d. (buf_storage d, buf_size d, buf_stream d)) (ck_data c') =
     map_option (\<lambda>d. (buf_storage d, buf_size d, buf_stream d)) (ck_data c)"

definition device_bytes :: "chunk \<Rightarrow> nat" where
  "device_bytes c = (case ck_data c of None \<Rightarrow> 0 | Some d \<Rightarrow> (if buf_mem d = DEVICE then buf_size d else 0))"

lemma same_payload_refl [simp]: "same_payload c c"
  by (simp add: same_payload_def)

lemma spill_skips_device: "chunk_ok c \<Longrightarrow> spill_skips c \<longleftrightarrow> device_bytes c = 0"
  by (auto simp: spill_skips_def is_data_buffer_set_def data_memory_type_def device_bytes_def chunk_ok_def
      unat_eq_0 split: option.splits)

lemma spill_chunk_Inr:
  fixes b b' :: "'w br_scheme"
  assumes ok: "chunk_ok c" and dev: "\<not> spill_skips c" and sp: "spill_chunk stats c b = ((Inr u, c'), b')"
  shows "chunk_ok c' \<and> same_payload c c' \<and> device_bytes c' = 0 \<and> spilled_by (device_bytes c) b b' \<and>
    device_bytes c = unat (ck_data_size c)"
proof -
  from dev obtain d where d: "ck_data c = Some d" "buf_mem d = DEVICE"
    by (auto simp: spill_skips_def is_data_buffer_set_def data_memory_type_def split: option.splits)
  from ok d(1) obtain bs where h: "holds bs d" "buf_size d < 2 ^ 63" "buf_size d = unat (ck_data_size c)"
    by (auto simp: chunk_ok_def)
  from sp d obtain d' where
    mv: "act_bind (reserve_or_fail (buf_size d) SPILL_TARGET_MEMORY_TYPES)
       (\<lambda>res. with_reservation res (move_buffer stats d)) b = (Inr d', b')"
    and c': "c' = c\<lparr>ck_data := Some d'\<rparr>"
    by (auto simp: spill_chunk_def release_data_buffer_def set_data_buffer_def act_bind_def h(3)
        split: prod.splits sum.splits)
  from spill_buffer_Inr [OF h(1,2) d(2) mv] show ?thesis
    using h d by (auto simp: c' chunk_ok_def same_payload_def device_bytes_def holds_def)
qed

lemma spill_chunks_Inr:
  fixes b b' :: "'w br_scheme"
  assumes "\<forall>c\<in>set cs. chunk_ok c" and "spilled + total device_bytes cs < 2 ^ 63"
    and "spill_chunks stats amount spilled cs b = ((Inr k, cs'), b')"
  shows "list_all2 same_payload cs cs' \<and> (\<forall>c\<in>set cs'. chunk_ok c) \<and> spilled \<le> k \<and>
    k + total device_bytes cs' = spilled + total device_bytes cs \<and> spilled_by (k - spilled) b b' \<and>
    (amount \<le> k \<or> total device_bytes cs' = 0)"
  using assms
proof (induction cs arbitrary: spilled b cs')
  case Nil
  then show ?case by simp
next
  case (Cons c cs)
  have okc: "chunk_ok c" and okcs: "\<forall>c\<in>set cs. chunk_ok c" using Cons.prems(1) by simp_all
  show ?case
  proof (cases "spill_skips c")
    case True
    then have z: "device_bytes c = 0" using okc by (simp add: spill_skips_device)
    from True Cons.prems(3) obtain cs1 where 1: "spill_chunks stats amount spilled cs b = ((Inr k, cs1), b')"
      "cs' = c # cs1" by (auto split: prod.splits)
    show ?thesis using Cons.IH [OF okcs _ 1(1)] Cons.prems(2) z okc by (simp add: 1(2))
  next
    case False
    then obtain c1 b1 where sc: "spill_chunk stats c b = ((Inr (), c1), b1)"
      using Cons.prems(3) by (auto split: prod.splits sum.splits)
    note C = spill_chunk_Inr [OF okc False sc]
    have m: "(spilled + unat (ck_data_size c)) mod 2 ^ 64 = spilled + device_bytes c"
      using C Cons.prems(2) by simp
    show ?thesis
    proof (cases "spilled + device_bytes c \<ge> amount")
      case True
      then have "k = spilled + device_bytes c" "cs' = c1 # cs" "b' = b1"
        using Cons.prems(3) False sc m by (auto simp: Let_def)
      moreover have "spilled_by (spilled + device_bytes c - spilled) b b1" unfolding add_diff_cancel_left' using C by blast
      ultimately show ?thesis using C True okcs by (auto simp: list_all2_refl)
    next
      case less: False
      then obtain cs1 where 1: "spill_chunks stats amount (spilled + device_bytes c) cs b1 = ((Inr k, cs1), b')"
        "cs' = c1 # cs1" using Cons.prems(3) False sc m by (auto simp: Let_def split: prod.splits)
      have I: "list_all2 same_payload cs cs1 \<and> (\<forall>c\<in>set cs1. chunk_ok c) \<and> spilled + device_bytes c \<le> k \<and>
          k + total device_bytes cs1 = spilled + device_bytes c + total device_bytes cs \<and>
          spilled_by (k - (spilled + device_bytes c)) b1 b' \<and> (amount \<le> k \<or> total device_bytes cs1 = 0)"
        by (rule Cons.IH [OF okcs _ 1(1)]) (use Cons.prems(2) in simp)
      have "spilled_by (device_bytes c + (k - (spilled + device_bytes c))) b b'"
        using spilled_by_trans C I by blast
      moreover have "device_bytes c + (k - (spilled + device_bytes c)) = k - spilled" using I by simp
      ultimately show ?thesis using C I by (simp add: 1(2))
    qed
  qed
qed

abbreviation ph_bytes :: "pigeonhole \<Rightarrow> nat" where
  "ph_bytes ph \<equiv> total (\<lambda>(_, cs). total device_bytes cs) ph"

definition ph_ok :: "pigeonhole \<Rightarrow> bool" where
  "ph_ok ph \<longleftrightarrow> (\<forall>(_, cs)\<in>set ph. \<forall>c\<in>set cs. chunk_ok c)"

definition ph_same :: "pigeonhole \<Rightarrow> pigeonhole \<Rightarrow> bool" where
  "ph_same = list_all2 (\<lambda>(k, cs) (k', cs'). k' = k \<and> list_all2 same_payload cs cs')"

lemma ph_same_refl [simp]: "ph_same ph ph"
  by (auto simp: ph_same_def intro!: list_all2_refl)

lemma spill_pigeonhole_Inr:
  fixes b b' :: "'w br_scheme"
  assumes "ph_ok ph" and "spilled + ph_bytes ph < 2 ^ 63"
    and "spill_pigeonhole stats amount spilled ph b = ((Inr k, ph'), b')"
  shows "ph_same ph ph' \<and> ph_ok ph' \<and> spilled \<le> k \<and> k + ph_bytes ph' = spilled + ph_bytes ph \<and>
    spilled_by (k - spilled) b b' \<and> (amount \<le> k \<or> ph_bytes ph' = 0)"
  using assms
proof (induction ph arbitrary: spilled b ph')
  case Nil
  then show ?case by simp
next
  case (Cons p ph)
  obtain key cs where p: "p = (key, cs)" by force
  have okcs: "\<forall>c\<in>set cs. chunk_ok c" and okph: "ph_ok ph" using Cons.prems(1) by (auto simp: ph_ok_def p)
  from Cons.prems(3) obtain k1 cs1 b1 where sc: "spill_chunks stats amount spilled cs b = ((Inr k1, cs1), b1)"
    by (auto simp: p split: prod.splits sum.splits)
  have C: "list_all2 same_payload cs cs1 \<and> (\<forall>c\<in>set cs1. chunk_ok c) \<and> spilled \<le> k1 \<and>
      k1 + total device_bytes cs1 = spilled + total device_bytes cs \<and> spilled_by (k1 - spilled) b b1 \<and>
      (amount \<le> k1 \<or> total device_bytes cs1 = 0)"
    by (rule spill_chunks_Inr [OF okcs _ sc]) (use Cons.prems(2) in \<open>simp add: p\<close>)
  show ?case
  proof (cases "k1 \<ge> amount")
    case True
    then have "k = k1" "ph' = (key, cs1) # ph" "b' = b1" using Cons.prems(3) sc by (auto simp: p)
    then show ?thesis
      using C True okph ph_same_refl [of ph] by (auto simp: p ph_ok_def ph_same_def)
  next
    case False
    then obtain ph1 where 1: "spill_pigeonhole stats amount k1 ph b1 = ((Inr k, ph1), b')" "ph' = (key, cs1) # ph1"
      using Cons.prems(3) sc by (auto simp: p split: prod.splits)
    have I: "ph_same ph ph1 \<and> ph_ok ph1 \<and> k1 \<le> k \<and> k + ph_bytes ph1 = k1 + ph_bytes ph \<and>
        spilled_by (k - k1) b1 b' \<and> (amount \<le> k \<or> ph_bytes ph1 = 0)"
      by (rule Cons.IH [OF okph _ 1(1)]) (use C Cons.prems(2) in \<open>simp add: p\<close>)
    have "spilled_by ((k1 - spilled) + (k - k1)) b b'" using spilled_by_trans C I by blast
    moreover have "(k1 - spilled) + (k - k1) = k - spilled" using C I by simp
    ultimately have "spilled_by (k - spilled) b b'" by simp
    then show ?thesis using C I False by (auto simp: p 1(2) ph_ok_def ph_same_def)
  qed
qed

definition rc_ok :: "'w received_scheme \<Rightarrow> bool" where
  "rc_ok s \<longleftrightarrow> ph_ok (rc_chunks s) \<and> ph_bytes (rc_chunks s) < 2 ^ 63"

lemma rc_spill_Inr:
  fixes s s' :: "'w received_scheme"
  assumes "rc_ok s" and "rc_spill amount s = (Inr k, s')"
  shows "ph_same (rc_chunks s) (rc_chunks s') \<and> rc_ok s' \<and> k + ph_bytes (rc_chunks s') = ph_bytes (rc_chunks s) \<and>
    device_headroom s' = device_headroom s + int k \<and> (amount \<le> k \<or> ph_bytes (rc_chunks s') = 0)"
proof -
  from assms(2) obtain ph t where sp: "spill_pigeonhole (rc_stats s) amount 0 (rc_chunks s) s = ((Inr k, ph), t)"
    and s': "s' = t\<lparr>rc_chunks := ph\<rparr>" by (auto simp: rc_spill_def split: prod.splits)
  have I: "ph_same (rc_chunks s) ph \<and> ph_ok ph \<and> 0 \<le> k \<and> k + ph_bytes ph = 0 + ph_bytes (rc_chunks s) \<and>
      spilled_by (k - 0) s t \<and> (amount \<le> k \<or> ph_bytes ph = 0)"
    by (rule spill_pigeonhole_Inr [OF _ _ sp]) (use assms(1) in \<open>auto simp: rc_ok_def\<close>)
  then have "device_headroom t = device_headroom s + int k" using spilled_by_headroom [of k s t] by simp
  then show ?thesis using I assms(1) by (auto simp: s' rc_ok_def device_headroom_def)
qed

text \<open>The container keeps the contract of a spill function.\<close>

interpretation rc_spillable: spillable rc_spill rc_ok device_headroom
proof
  fix b b' :: "'w received_scheme" and n k
  assume "rc_ok b" and "rc_spill n b = (Inr k, b')"
  note R = rc_spill_Inr [OF this]
  show "rc_ok b'" using R by blast
  show "k < 2 ^ 63" using R \<open>rc_ok b\<close> by (auto simp: rc_ok_def)
  show "device_headroom b' = device_headroom b + int k" using R by blast
qed

section \<open>Properties\<close>

text \<open>Chunks leave the send queue in the order they entered it. What \<open>extract_ready\<close> takes is the
  longest prefix of chunks that are ready, and what stays behind is the rest, unchanged.\<close>

theorem extract_ready_prefix:
  assumes "extract_ready (map Some cs) = (Inr out, cs')"
  shows "\<exists>rest. cs = out @ rest \<and> cs' = map Some rest \<and> (\<forall>c\<in>set out. is_ready c = Inr True) \<and>
    (case rest of [] \<Rightarrow> True | c # _ \<Rightarrow> is_ready c = Inr False)"
proof -
  from assms obtain cs1 where "take_ready (map Some cs) = (Inr out, cs1)" "cs' = filter (\<lambda>x. x \<noteq> None) cs1"
    by (auto simp: extract_ready_def split: prod.splits sum.splits)
  then show ?thesis using take_ready_split [of cs out cs1] by auto
qed

theorem extract_ready_prefix_witness:
  "\<exists>cs'. extract_ready (map Some [from_finished_partition 1 2 3]) = (Inr [from_finished_partition 1 2 3], cs') \<and> cs' = []"
proof -
  have 1: "extract_ready (map Some [from_finished_partition 1 2 3]) = (Inr [from_finished_partition 1 2 3], [])"
    by (simp add: extract_ready_def is_ready_def from_finished_partition_def)
  show ?thesis using extract_ready_prefix [OF 1] 1 by simp
qed

text \<open>Property C10: spilling received chunks. Every chunk keeps its place, header, metadata and bytes; the device
  headroom grows by exactly the bytes reported; and it falls short of the amount only when no chunk has
  data in device memory any more.\<close>

theorem received_spill_exact:
  fixes s s' :: "'w received_scheme"
  assumes "rc_ok s" and "rc_spill amount s = (Inr k, s')"
  shows "ph_same (rc_chunks s) (rc_chunks s') \<and> device_headroom s' = device_headroom s + int k \<and>
    k + ph_bytes (rc_chunks s') = ph_bytes (rc_chunks s) \<and> (amount \<le> k \<or> ph_bytes (rc_chunks s') = 0)"
  using rc_spillable.frees [OF assms] rc_spill_Inr [OF assms] by simp

definition example_received :: received where
  "example_received = br.extend example_br \<lparr>rc_chunks =
     [(1, [\<lparr>ck_id = 5, ck_part = 1, ck_expected = 0, ck_metadata_size = 1, ck_data_size = 2,
            ck_metadata = Some [9], ck_data = Some (example_buffer DEVICE [1, 2])\<rparr>])], rc_stats = False\<rparr>"

theorem received_spill_exact_witness:
  "\<exists>s'. rc_spill 1 example_received = (Inr 2, s') \<and> device_headroom s' = device_headroom example_received + 2"
proof -
  have ok: "rc_ok example_received"
    by (simp add: rc_ok_def example_received_def br.extend_def ph_ok_def chunk_ok_def example_buffer_def
        holds_def device_bytes_def)
  have "\<exists>s'. rc_spill 1 example_received = (Inr 2, s')"
    by (simp add: rc_spill_def example_received_def br.extend_def spill_skips_def is_data_buffer_set_def
        data_memory_type_def example_buffer_def spill_chunk_def reserve_or_fail_def SPILL_TARGET_MEMORY_TYPES_def
        reserve_evals release_data_buffer_def set_data_buffer_def
        with_reservation_def move_buffer_def make_buffer_def
        allocate_storage_def invalid_stream_def new_host_buffer_def host_buffer_types_def release_def
        add_allocated_def buffer_copy_def check_range_def to_ptrdiff_def upt_rec write_access_def
        buffer_data_def throw_if_locked_def storage_bytes_def memcpy_def record_write_event_def clear_def)
  then obtain s' where sp: "rc_spill 1 example_received = (Inr 2, s')" by blast
  show ?thesis using received_spill_exact [OF ok sp] sp by auto
qed

end
