(* ===== verification/Metadata_Exchange.thy ===== *)
theory Metadata_Exchange
  imports Bytes Buffer_Resource "HOL-Library.AList" "HOL-Library.Sublist"
begin

text \<open>
  The tag-based exchange of messages with metadata and payload,
  \<^verbatim>\<open>communicator/metadata_payload_exchange/tag.cpp\<close> and \<^verbatim>\<open>core.cpp\<close>. Metadata messages carry a
  trailer with an identifier and the payload size; payloads follow on a second tag, each into a buffer
  the receiver allocates; each peer ends with a marker that says how many messages it sent.

  The communicator is an interface with several back ends, so what it answers is input: \<open>mx_inbox\<close> holds
  the metadata messages of each peer not yet taken by \<^verbatim>\<open>recv_from\<close>, and the \<open>comm\<close> record given to
  \<open>progress\<close> says which receives and sends \<^verbatim>\<open>test_some\<close> reports as complete, what bytes arrived, and the
  time (read once per call). Ranks are natural numbers, vectors indexed by rank are functions, and
  the hash maps are association lists in iteration order. The allocator is a parameter.
\<close>

datatype alloc_mode = May_Fail | Must_Succeed

record message =
  msg_peer :: nat
  msg_metadata :: "u8 list"
  msg_data :: "buffer option"

definition msg_set_data :: "buffer option \<Rightarrow> message \<Rightarrow> message result" where
  "msg_set_data d m = (if msg_data m \<noteq> None then Inl Logic_Error else Inr (m\<lparr>msg_data := d\<rparr>))"

record tag_message =
  tm_message :: message
  tm_id :: nat
  tm_payload :: nat
  tm_arrival :: nat
  tm_forced :: bool

definition is_awaiting_buffer :: "tag_message \<Rightarrow> bool" where
  "is_awaiting_buffer tm \<longleftrightarrow> tm_payload tm > 0 \<and> msg_data (tm_message tm) = None"

datatype wire_item = Wire_Metadata "u8 list" | Wire_Payload "buffer option"

record mpe = br +
  mx_rank :: nat
  mx_nranks :: nat
  mx_timeout :: nat
  mx_num_awaiting :: "nat \<Rightarrow> nat"
  mx_total_awaiting :: nat
  mx_stall_start :: "nat option"
  mx_next_arrival :: nat
  mx_finished :: bool
  mx_sent_to :: "nat \<Rightarrow> nat"
  mx_received_from :: "nat \<Rightarrow> nat"
  mx_expected :: "nat \<Rightarrow> nat"
  mx_terminated :: "nat \<Rightarrow> bool"
  mx_fire_and_forget :: "(nat \<times> wire_item) list"
  mx_incoming :: "(nat \<times> tag_message list) list"
  mx_in_transit :: "(nat \<times> tag_message list) list"
  mx_futures :: "(nat \<times> buffer) list"
  mx_received :: "message list"
  mx_next_id :: nat
  mx_inbox :: "nat \<Rightarrow> u8 list list"

record comm =
  cm_done :: "nat list"
  cm_sends_done :: "nat list"
  cm_payload :: "nat \<Rightarrow> u8 list"
  cm_now :: nat

text \<open>The constructor, given the ranks of the communicator.\<close>

definition new_mpe :: "nat \<Rightarrow> nat \<Rightarrow> nat \<Rightarrow> br \<Rightarrow> mpe" where
  "new_mpe rank nranks timeout b =
     br.extend b \<lparr>mx_rank = rank, mx_nranks = nranks, mx_timeout = timeout, mx_num_awaiting = (\<lambda>_. 0),
       mx_total_awaiting = 0, mx_stall_start = None, mx_next_arrival = 0, mx_finished = False, mx_sent_to = (\<lambda>_. 0),
       mx_received_from = (\<lambda>_. 0), mx_expected = (\<lambda>_. 0), mx_terminated = (\<lambda>_. False), mx_fire_and_forget = [],
       mx_incoming = [], mx_in_transit = [], mx_futures = [], mx_received = [], mx_next_id = 0, mx_inbox = (\<lambda>_. [])\<rparr>"

type_synonym 'w allocator = "nat \<Rightarrow> alloc_mode \<Rightarrow> ('w mpe_scheme, buffer option) act"

definition sendable_memory_types :: "mem_type list" where
  "sendable_memory_types = ADDRESSABLE_MEMORY_TYPES"

definition termination_sentinel :: nat where
  "termination_sentinel = 2 ^ 64 - 1"

section \<open>The trailer\<close>

definition put_trailer :: "u8 list \<times> u64 \<times> u64 \<Rightarrow> u8 list" where
  "put_trailer t = (case t of (metadata, mid, payload) \<Rightarrow> metadata @ enc64 mid @ enc64 payload)"

definition get_trailer :: "u8 list \<Rightarrow> (u8 list \<times> u64 \<times> u64) result" where
  "get_trailer msg =
     (if length msg < 16 then Inl Logic_Error
      else let n = length msg - 16 in
        res_bind (rd64 msg n) (\<lambda>mid.
        res_bind (rd64 msg (n + 8)) (\<lambda>payload. Inr (take n msg, mid, payload))))"

section \<open>Sending\<close>

definition payload_size :: "message \<Rightarrow> nat" where
  "payload_size m = (case msg_data m of None \<Rightarrow> 0 | Some b \<Rightarrow> buf_size b)"

text \<open>The message counter of the destination is bumped before the check for ourselves.\<close>

definition send_one :: "message \<Rightarrow> ('w mpe_scheme, unit) act" where
  "send_one m s =
     (let dst = msg_peer m in
      if \<not> dst < mx_nranks s then (Inl Undefined, s)
      else
        let s1 = s\<lparr>mx_sent_to := (mx_sent_to s)(dst := mx_sent_to s dst + 1), mx_next_id := mx_next_id s + 1\<rparr>;
            mid = (push_bit 32 (word_of_nat (mx_rank s)) OR word_of_nat (mx_next_id s) :: u64);
            payload = payload_size m
        in if dst = mx_rank s then (Inl Logic_Error, s1)
           else (Inr (), s1\<lparr>mx_fire_and_forget := mx_fire_and_forget s
                  @ [(dst, Wire_Metadata (put_trailer (msg_metadata m, mid, word_of_nat payload)))]
                  @ (if payload > 0 then [(dst, Wire_Payload (msg_data m))] else [])\<rparr>))"

fun send_each :: "message list \<Rightarrow> ('w mpe_scheme, unit) act" where
  "send_each [] s = (Inr (), s)"
| "send_each (m # ms) s = act_bind (send_one m) (\<lambda>_. send_each ms) s"

definition sendable :: "message \<Rightarrow> bool" where
  "sendable m \<longleftrightarrow>
     (case msg_data m of None \<Rightarrow> True | Some b \<Rightarrow> buf_mem b \<in> set sendable_memory_types)"

definition mpe_send :: "message list \<Rightarrow> ('w mpe_scheme, unit) act" where
  "mpe_send ms s =
     (if mx_finished s then (Inl Logic_Error, s)
      else if \<not> (\<forall>m\<in>set ms. sendable m) then (Inl Invalid_Argument, s)
      else send_each ms s)"

definition mpe_send_single :: "message \<Rightarrow> ('w mpe_scheme, unit) act" where
  "mpe_send_single m = mpe_send [m]"

definition mpe_finish :: "('w mpe_scheme, unit) act" where
  "mpe_finish s =
     (if mx_finished s then (Inl Logic_Error, s)
      else (Inr (), s\<lparr>mx_finished := True,
              mx_fire_and_forget := mx_fire_and_forget s
                @ map (\<lambda>peer. (peer, Wire_Metadata
                         (enc64 (word_of_nat termination_sentinel) @ enc64 (word_of_nat (mx_sent_to s peer)))))
                    (filter (\<lambda>peer. peer \<noteq> mx_rank s) [0..<mx_nranks s])\<rparr>))"

definition peer_done :: "nat \<Rightarrow> 'w mpe_scheme \<Rightarrow> bool" where
  "peer_done p s \<longleftrightarrow> mx_terminated s p \<and> mx_received_from s p \<ge> mx_expected s p"

definition mpe_is_idle :: "'w mpe_scheme \<Rightarrow> bool" where
  "mpe_is_idle s \<longleftrightarrow>
     mx_fire_and_forget s = [] \<and> mx_incoming s = [] \<and> mx_in_transit s = [] \<and> mx_futures s = [] \<and>
     (mx_finished s \<longrightarrow> (\<forall>p\<in>set [0..<mx_nranks s]. p \<noteq> mx_rank s \<longrightarrow> peer_done p s))"

section \<open>Receiving metadata\<close>

definition entry :: "nat \<Rightarrow> (nat \<times> tag_message list) list \<Rightarrow> tag_message list" where
  "entry p m = (case map_of m p of None \<Rightarrow> [] | Some tms \<Rightarrow> tms)"

definition put_entry :: "nat \<Rightarrow> tag_message list \<Rightarrow> (nat \<times> tag_message list) list \<Rightarrow> (nat \<times> tag_message list) list" where
  "put_entry p tms m = AList.update p tms m"

definition keep_entry :: "nat \<Rightarrow> tag_message list \<Rightarrow> (nat \<times> tag_message list) list" where
  "keep_entry p tms = (if tms = [] then [] else [(p, tms)])"

definition try_attach_receive_buffer ::
  "'w allocator \<Rightarrow> nat \<Rightarrow> alloc_mode \<Rightarrow> tag_message \<Rightarrow> 'w mpe_scheme
     \<Rightarrow> (bool result \<times> tag_message) \<times> 'w mpe_scheme" where
  "try_attach_receive_buffer alloc now mode tm s =
     (if \<not> is_awaiting_buffer tm then ((Inl Logic_Error, tm), s)
      else case alloc (tm_payload tm) mode s of
             (Inl e, s1) \<Rightarrow> ((Inl e, tm), s1)
           | (Inr None, s1) \<Rightarrow>
               if mode \<noteq> May_Fail then ((Inl Runtime_Error, tm), s1) else ((Inr False, tm), s1)
           | (Inr (Some buf), s1) \<Rightarrow>
               (let p = msg_peer (tm_message tm);
                    total = mx_total_awaiting s1 - 1 in
                ((Inr True, tm\<lparr>tm_message := (tm_message tm)\<lparr>msg_data := Some buf\<rparr>\<rparr>),
                 s1\<lparr>mx_num_awaiting := (mx_num_awaiting s1)(p := mx_num_awaiting s1 p - 1),
                    mx_total_awaiting := total,
                    mx_stall_start := (if total > 0 then Some now else None)\<rparr>)))"

definition replace_message :: "nat \<Rightarrow> nat \<Rightarrow> tag_message \<Rightarrow> 'w mpe_scheme \<Rightarrow> 'w mpe_scheme" where
  "replace_message p i tm s =
     s\<lparr>mx_incoming := put_entry p ((entry p (mx_incoming s))[i := tm]) (mx_incoming s)\<rparr>"

text \<open>One application message: queue it, and try for its buffer unless an earlier one of the peer waits.\<close>

definition new_message :: "nat \<Rightarrow> u8 list \<Rightarrow> nat \<Rightarrow> nat \<Rightarrow> 'w mpe_scheme \<Rightarrow> tag_message" where
  "new_message p metadata mid payload s =
     \<lparr>tm_message = \<lparr>msg_peer = p, msg_metadata = metadata, msg_data = None\<rparr>, tm_id = mid,
      tm_payload = payload, tm_arrival = mx_next_arrival s, tm_forced = False\<rparr>"

definition enqueue_message :: "nat \<Rightarrow> tag_message \<Rightarrow> 'w mpe_scheme \<Rightarrow> 'w mpe_scheme" where
  "enqueue_message p tm s =
     s\<lparr>mx_received_from := (mx_received_from s)(p := mx_received_from s p + 1),
       mx_next_arrival := mx_next_arrival s + 1,
       mx_incoming := put_entry p (entry p (mx_incoming s) @ [tm]) (mx_incoming s)\<rparr>"

definition count_awaiting :: "nat \<Rightarrow> 'w mpe_scheme \<Rightarrow> 'w mpe_scheme" where
  "count_awaiting p s =
     s\<lparr>mx_num_awaiting := (mx_num_awaiting s)(p := mx_num_awaiting s p + 1),
       mx_total_awaiting := mx_total_awaiting s + 1\<rparr>"

definition start_stall :: "nat \<Rightarrow> tag_message \<Rightarrow> 'w mpe_scheme \<Rightarrow> 'w mpe_scheme" where
  "start_stall now tm s =
     (if is_awaiting_buffer tm \<and> mx_stall_start s = None then s\<lparr>mx_stall_start := Some now\<rparr> else s)"

definition accept_message ::
  "'w allocator \<Rightarrow> nat \<Rightarrow> nat \<Rightarrow> u8 list \<Rightarrow> nat \<Rightarrow> nat \<Rightarrow> ('w mpe_scheme, unit) act" where
  "accept_message alloc now p metadata mid payload s =
     (let tm = new_message p metadata mid payload s; s1 = enqueue_message p tm s in
      if payload = 0 then (Inr (), s1)
      else
        let s2 = count_awaiting p s1 in
        if mx_num_awaiting s2 p = 1 then
          (case try_attach_receive_buffer alloc now May_Fail tm s2 of
             ((Inl e, tm'), s3) \<Rightarrow> (Inl e, replace_message p (length (entry p (mx_incoming s))) tm' s3)
           | ((Inr _, tm'), s3) \<Rightarrow>
               (Inr (), start_stall now tm' (replace_message p (length (entry p (mx_incoming s))) tm' s3)))
        else (Inr (), start_stall now tm s2))"

fun receive_from :: "'w allocator \<Rightarrow> nat \<Rightarrow> nat \<Rightarrow> u8 list list \<Rightarrow> ('w mpe_scheme, unit) act" where
  "receive_from alloc now p [] s = (Inr (), s\<lparr>mx_inbox := (mx_inbox s)(p := [])\<rparr>)"
| "receive_from alloc now p (m # ms) s =
     (let s0 = s\<lparr>mx_inbox := (mx_inbox s)(p := ms)\<rparr> in
      case get_trailer m of
        Inl e \<Rightarrow> (Inl e, s0)
      | Inr (metadata, mid, payload) \<Rightarrow>
          if unat mid = termination_sentinel then
            (Inr (), s0\<lparr>mx_expected := (mx_expected s0)(p := unat payload),
                        mx_terminated := (mx_terminated s0)(p := True)\<rparr>)
          else act_bind (accept_message alloc now p metadata (unat mid) (unat payload))
                 (\<lambda>_. receive_from alloc now p ms) s0)"

fun receive_peers :: "'w allocator \<Rightarrow> nat \<Rightarrow> nat list \<Rightarrow> ('w mpe_scheme, unit) act" where
  "receive_peers alloc now [] s = (Inr (), s)"
| "receive_peers alloc now (p # ps) s =
     (if p = mx_rank s \<or> peer_done p s then receive_peers alloc now ps s
      else act_bind (receive_from alloc now p (mx_inbox s p)) (\<lambda>_. receive_peers alloc now ps) s)"

definition receive_metadata :: "'w allocator \<Rightarrow> nat \<Rightarrow> ('w mpe_scheme, unit) act" where
  "receive_metadata alloc now s = receive_peers alloc now [0..<mx_nranks s] s"

section \<open>Forcing an allocation\<close>

fun first_awaiting :: "tag_message list \<Rightarrow> (nat \<times> tag_message) option" where
  "first_awaiting [] = None"
| "first_awaiting (tm # tms) =
     (if is_awaiting_buffer tm then Some (0, tm)
      else map_option (\<lambda>(i, x). (Suc i, x)) (first_awaiting tms))"

fun oldest_awaiting :: "(nat \<times> tag_message list) list \<Rightarrow> (nat \<times> nat \<times> tag_message) option" where
  "oldest_awaiting [] = None"
| "oldest_awaiting ((p, tms) # rest) =
     (case (first_awaiting tms, oldest_awaiting rest) of
        (None, old) \<Rightarrow> old
      | (Some (i, tm), None) \<Rightarrow> Some (p, i, tm)
      | (Some (i, tm), Some (q, j, tm')) \<Rightarrow>
          (if tm_arrival tm' < tm_arrival tm then Some (q, j, tm') else Some (p, i, tm)))"

definition force_allocation_progress_if_stalled :: "'w allocator \<Rightarrow> nat \<Rightarrow> ('w mpe_scheme, unit) act" where
  "force_allocation_progress_if_stalled alloc now s =
     (case mx_stall_start s of
        None \<Rightarrow> (Inr (), s)
      | Some t \<Rightarrow>
          if now - t < mx_timeout s then (Inr (), s)
          else case oldest_awaiting (mx_incoming s) of
                 None \<Rightarrow> (Inl Logic_Error, s)
               | Some (p, i, tm) \<Rightarrow>
                   (case try_attach_receive_buffer alloc now May_Fail tm s of
                      ((Inl e, tm1), s1) \<Rightarrow> (Inl e, replace_message p i tm1 s1)
                    | ((Inr attached, tm1), s1) \<Rightarrow>
                        if attached then (Inr (), replace_message p i tm1 s1)
                        else
                          (case try_attach_receive_buffer alloc now Must_Succeed tm1 s1 of
                             ((Inl e, tm2), s2) \<Rightarrow> (Inl e, replace_message p i tm2 s2)
                           | ((Inr _, tm2), s2) \<Rightarrow>
                               (Inr (), replace_message p i (tm2\<lparr>tm_forced := True\<rparr>) s2))))"

section \<open>Setting up the payload receives\<close>

text \<open>Post the receive of a payload: the future holds the buffer, the message waits in transit.\<close>

definition post_receive :: "nat \<Rightarrow> tag_message \<Rightarrow> ('w mpe_scheme, unit) act" where
  "post_receive p tm s =
     (case msg_data (tm_message tm) of
        None \<Rightarrow> (Inl Undefined, s)
      | Some buf \<Rightarrow>
          if tm_id tm \<in> set (map fst (mx_futures s)) then (Inl Logic_Error, s)
          else (Inr (), s\<lparr>mx_futures := mx_futures s @ [(tm_id tm, buf)],
                 mx_in_transit := put_entry p
                   (entry p (mx_in_transit s) @ [tm\<lparr>tm_message := (tm_message tm)\<lparr>msg_data := None\<rparr>\<rparr>])
                   (mx_in_transit s)\<rparr>))"

fun setup_rank ::
  "'w allocator \<Rightarrow> nat \<Rightarrow> nat \<Rightarrow> tag_message list \<Rightarrow> 'w mpe_scheme
     \<Rightarrow> (message list result \<times> tag_message list) \<times> 'w mpe_scheme" where
  "setup_rank alloc now p [] s = ((Inr [], []), s)"
| "setup_rank alloc now p (tm # tms) s =
     (if tm_payload tm > 0 then
        (case (if is_awaiting_buffer tm then try_attach_receive_buffer alloc now May_Fail tm s
               else ((Inr True, tm), s)) of
           ((Inl e, tm1), s1) \<Rightarrow> ((Inl e, tm1 # tms), s1)
         | ((Inr attached, tm1), s1) \<Rightarrow>
             if \<not> attached then ((Inr [], tm1 # tms), s1)
             else case msg_data (tm_message tm1) of
                    None \<Rightarrow> ((Inl Undefined, tm1 # tms), s1)
                  | Some buf \<Rightarrow>
                      (case is_latest_write_done buf of
                         Inl e \<Rightarrow> ((Inl e, tm1 # tms), s1)
                       | Inr ready \<Rightarrow>
                           if \<not> ready then ((Inr [], tm1 # tms), s1)
                           else case post_receive p tm1 s1 of
                                  (Inl e, s2) \<Rightarrow> ((Inl e, tms), s2)
                                | (Inr _, s2) \<Rightarrow> ((Inr [], tms), s2)))
      else if entry p (mx_in_transit s) = [] then
        (case setup_rank alloc now p tms s of
           ((Inl e, rest), s') \<Rightarrow> ((Inl e, rest), s')
         | ((Inr out, rest), s') \<Rightarrow> ((Inr (tm_message tm # out), rest), s'))
      else ((Inr [], tm # tms), s))"

fun setup_ranks ::
  "'w allocator \<Rightarrow> nat \<Rightarrow> (nat \<times> tag_message list) list \<Rightarrow> 'w mpe_scheme
     \<Rightarrow> (message list result \<times> (nat \<times> tag_message list) list) \<times> 'w mpe_scheme" where
  "setup_ranks alloc now [] s = ((Inr [], []), s)"
| "setup_ranks alloc now ((p, tms) # rest) s =
     (case setup_rank alloc now p tms s of
        ((Inl e, tms'), s1) \<Rightarrow> ((Inl e, (p, tms') # rest), s1)
      | ((Inr out, tms'), s1) \<Rightarrow>
          (case setup_ranks alloc now rest s1 of
             ((Inl e, rest'), s2) \<Rightarrow> ((Inl e, keep_entry p tms' @ rest'), s2)
           | ((Inr out', rest'), s2) \<Rightarrow> ((Inr (out @ out'), keep_entry p tms' @ rest'), s2)))"

definition setup_data_receives :: "'w allocator \<Rightarrow> nat \<Rightarrow> ('w mpe_scheme, message list) act" where
  "setup_data_receives alloc now =
     act_bind (force_allocation_progress_if_stalled alloc now) (\<lambda>_ s.
       (case setup_ranks alloc now (mx_incoming s) s of
          ((out, rest), s1) \<Rightarrow> (out, s1\<lparr>mx_incoming := rest\<rparr>)))"

section \<open>Completing the transfers\<close>

definition try_move_to_disk :: "bool \<Rightarrow> buffer \<Rightarrow> ('w mpe_scheme, buffer) act" where
  "try_move_to_disk stats buf s =
     (if \<not> br_has_disk s then (Inr buf, s)
      else case try_reserve (buf_size buf) [DISK] s of
             (Inl e, s1) \<Rightarrow> (Inl e, s1)
           | (Inr None, s1) \<Rightarrow> (Inr buf, s1)
           | (Inr (Some res), s1) \<Rightarrow> with_reservation res (move_buffer stats buf) s1)"

text \<open>A completed receive: the buffer with the bytes that arrived, on disk if it was forced.\<close>

definition finish_receive :: "bool \<Rightarrow> comm \<Rightarrow> tag_message \<Rightarrow> buffer \<Rightarrow> ('w mpe_scheme, message) act" where
  "finish_receive stats cm tm buf s =
     (let received = (unlock buf)\<lparr>buf_storage := Some (cm_payload cm (tm_id tm))\<rparr> in
      case (if tm_forced tm then try_move_to_disk stats received s else (Inr received, s)) of
        (Inl e, s1) \<Rightarrow> (Inl e, s1)
      | (Inr d, s1) \<Rightarrow>
          (case msg_set_data (Some d) (tm_message tm) of
             Inl e \<Rightarrow> (Inl e, s1)
           | Inr m \<Rightarrow> (Inr m, s1)))"

fun complete_rank ::
  "bool \<Rightarrow> comm \<Rightarrow> tag_message list \<Rightarrow> 'w mpe_scheme
     \<Rightarrow> (message list result \<times> tag_message list) \<times> 'w mpe_scheme" where
  "complete_rank stats cm [] s = ((Inr [], []), s)"
| "complete_rank stats cm (tm # tms) s =
     (if tm_id tm \<in> set (cm_done cm) then
        (case map_of (mx_futures s) (tm_id tm) of
           None \<Rightarrow> ((Inl Logic_Error, tm # tms), s)
         | Some buf \<Rightarrow>
             (case finish_receive stats cm tm buf s of
                (Inl e, s1) \<Rightarrow> ((Inl e, tm # tms), s1)
              | (Inr m, s1) \<Rightarrow>
                  (let s2 = s1\<lparr>mx_futures := AList.delete (tm_id tm) (mx_futures s1)\<rparr> in
                   case complete_rank stats cm tms s2 of
                     ((Inl e, rest), s3) \<Rightarrow> ((Inl e, rest), s3)
                   | ((Inr out, rest), s3) \<Rightarrow> ((Inr (m # out), rest), s3))))
      else ((Inr [], tm # tms), s))"

fun complete_ranks ::
  "bool \<Rightarrow> comm \<Rightarrow> (nat \<times> tag_message list) list \<Rightarrow> 'w mpe_scheme
     \<Rightarrow> (message list result \<times> (nat \<times> tag_message list) list) \<times> 'w mpe_scheme" where
  "complete_ranks stats cm [] s = ((Inr [], []), s)"
| "complete_ranks stats cm ((p, tms) # rest) s =
     (case complete_rank stats cm tms s of
        ((Inl e, tms'), s1) \<Rightarrow> ((Inl e, (p, tms') # rest), s1)
      | ((Inr out, tms'), s1) \<Rightarrow>
          (case complete_ranks stats cm rest s1 of
             ((Inl e, rest'), s2) \<Rightarrow> ((Inl e, keep_entry p tms' @ rest'), s2)
           | ((Inr out', rest'), s2) \<Rightarrow> ((Inr (out @ out'), keep_entry p tms' @ rest'), s2)))"

definition complete_data_transfers :: "bool \<Rightarrow> comm \<Rightarrow> ('w mpe_scheme, message list) act" where
  "complete_data_transfers stats cm s =
     (if mx_futures s = [] then (Inr [], s)
      else case complete_ranks stats cm (mx_in_transit s) s of
             ((out, rest), s1) \<Rightarrow> (out, s1\<lparr>mx_in_transit := rest\<rparr>))"

definition cleanup_completed_operations :: "comm \<Rightarrow> 'w mpe_scheme \<Rightarrow> 'w mpe_scheme" where
  "cleanup_completed_operations cm s =
     s\<lparr>mx_fire_and_forget := nths (mx_fire_and_forget s) (- set (cm_sends_done cm))\<rparr>"

definition mpe_progress :: "'w allocator \<Rightarrow> bool \<Rightarrow> comm \<Rightarrow> ('w mpe_scheme, unit) act" where
  "mpe_progress alloc stats cm =
     act_bind (receive_metadata alloc (cm_now cm)) (\<lambda>_.
     act_bind (setup_data_receives alloc (cm_now cm)) (\<lambda>metadata_only.
     act_bind (complete_data_transfers stats cm) (\<lambda>data s.
       (Inr (), cleanup_completed_operations cm
          (s\<lparr>mx_received := mx_received s @ metadata_only @ data\<rparr>)))))"

definition mpe_recv :: "'w mpe_scheme \<Rightarrow> message list \<times> 'w mpe_scheme" where
  "mpe_recv s = (mx_received s, s\<lparr>mx_received := []\<rparr>)"

section \<open>What the buffer resource leaves alone\<close>

definition allocator_ok :: "'w allocator \<Rightarrow> bool" where
  "allocator_ok alloc \<longleftrightarrow> (\<forall>n mode s. br.more (snd (alloc n mode s)) = br.more s)"

lemma mx_frame:
  fixes s t :: "'w mpe_scheme"
  assumes "br.more s = br.more t"
  shows "mx_incoming s = mx_incoming t" "mx_in_transit s = mx_in_transit t" "mx_received s = mx_received t"
    "mx_inbox s = mx_inbox t" "mx_futures s = mx_futures t" "mx_rank s = mx_rank t" "mx_nranks s = mx_nranks t"
    "mx_terminated s = mx_terminated t" "mx_received_from s = mx_received_from t" "mx_expected s = mx_expected t"
    "mx_finished s = mx_finished t" "mx_fire_and_forget s = mx_fire_and_forget t"
  using assms by (cases s; cases t; simp)+

text \<open>The part of the state the order of messages depends on.\<close>

definition queues :: "'w mpe_scheme \<Rightarrow> (nat \<times> tag_message list) list \<times> (nat \<times> tag_message list) list \<times> message list \<times> (nat \<Rightarrow> u8 list list)" where
  "queues s = (mx_incoming s, mx_in_transit s, mx_received s, mx_inbox s)"

definition mds :: "tag_message list \<Rightarrow> u8 list list" where
  "mds tms = map (\<lambda>tm. msg_metadata (tm_message tm)) tms"

lemma mds_simps [simp]: "mds [] = []" "mds (tm # tms) = msg_metadata (tm_message tm) # mds tms"
  "mds (xs @ ys) = mds xs @ mds ys"
  by (simp_all add: mds_def)

definition keys_ok :: "(nat \<times> tag_message list) list \<Rightarrow> bool" where
  "keys_ok m \<longleftrightarrow> distinct (map fst m) \<and> (\<forall>p. \<forall>tm\<in>set (entry p m). msg_peer (tm_message tm) = p)"

lemma entry_put_entry [simp]: "entry q (put_entry p tms m) = (if q = p then tms else entry q m)"
  by (simp add: entry_def put_entry_def update_conv')

lemma keys_ok_put_entry:
  "keys_ok m \<Longrightarrow> \<forall>tm\<in>set tms. msg_peer (tm_message tm) = p \<Longrightarrow> keys_ok (put_entry p tms m)"
  by (simp add: keys_ok_def) (simp add: put_entry_def distinct_update)

lemma keys_okD: "keys_ok m \<Longrightarrow> tm \<in> set (entry p m) \<Longrightarrow> msg_peer (tm_message tm) = p"
  by (simp add: keys_ok_def)

section \<open>Receiving metadata keeps the order\<close>

text \<open>The metadata of the application messages a peer's queue offers, up to its termination marker.\<close>

fun accepted :: "u8 list list \<Rightarrow> u8 list list" where
  "accepted [] = []"
| "accepted (m # ms) =
     (case get_trailer m of
        Inl e \<Rightarrow> []
      | Inr (metadata, mid, _) \<Rightarrow> if unat mid = termination_sentinel then [] else metadata # accepted ms)"

definition incoming_ok :: "'w mpe_scheme \<Rightarrow> bool" where
  "incoming_ok s \<longleftrightarrow> keys_ok (mx_incoming s) \<and> keys_ok (mx_in_transit s)"

text \<open>A step that may only append metadata to the queue of one peer.\<close>

definition appends :: "nat \<Rightarrow> u8 list list \<Rightarrow> 'w mpe_scheme \<Rightarrow> 'w mpe_scheme \<Rightarrow> bool" where
  "appends p new s s' \<longleftrightarrow>
     (\<forall>q. mds (entry q (mx_incoming s')) = mds (entry q (mx_incoming s)) @ (if q = p then new else [])) \<and>
     (\<forall>q. q \<noteq> p \<longrightarrow> mx_inbox s' q = mx_inbox s q \<and> peer_done q s' = peer_done q s) \<and>
     mx_in_transit s' = mx_in_transit s \<and> mx_received s' = mx_received s \<and>
     mx_rank s' = mx_rank s \<and> mx_nranks s' = mx_nranks s \<and> (incoming_ok s \<longrightarrow> incoming_ok s')"

lemma appends_trans: "appends p xs a b \<Longrightarrow> appends p ys b c \<Longrightarrow> appends p (xs @ ys) a c"
  by (auto simp: appends_def)

lemma try_attach_frame:
  fixes s s' :: "'w mpe_scheme"
  assumes "allocator_ok alloc" and "try_attach_receive_buffer alloc now mode tm s = ((out, tm'), s')"
  shows "mx_incoming s' = mx_incoming s \<and> mx_in_transit s' = mx_in_transit s \<and> mx_received s' = mx_received s \<and>
    mx_inbox s' = mx_inbox s \<and> mx_rank s' = mx_rank s \<and> mx_nranks s' = mx_nranks s \<and>
    mx_terminated s' = mx_terminated s \<and> mx_received_from s' = mx_received_from s \<and>
    mx_expected s' = mx_expected s \<and> mx_futures s' = mx_futures s \<and>
    msg_metadata (tm_message tm') = msg_metadata (tm_message tm) \<and> msg_peer (tm_message tm') = msg_peer (tm_message tm) \<and>
    tm_id tm' = tm_id tm \<and> tm_payload tm' = tm_payload tm"
proof -
  have F: "br.more t = br.more s" if "alloc n mode s = (r, t)" for n r t
    using assms(1) that unfolding allocator_ok_def by (metis snd_conv)
  show ?thesis
    using assms(2) mx_frame [OF F]
    by (auto simp: try_attach_receive_buffer_def Let_def split: prod.splits sum.splits option.splits if_splits)
qed

lemma start_stall_frame [simp]:
  "mx_incoming (start_stall now tm s) = mx_incoming s" "mx_in_transit (start_stall now tm s) = mx_in_transit s"
  "mx_received (start_stall now tm s) = mx_received s" "mx_inbox (start_stall now tm s) = mx_inbox s"
  "mx_rank (start_stall now tm s) = mx_rank s" "mx_nranks (start_stall now tm s) = mx_nranks s"
  "peer_done q (start_stall now tm s) = peer_done q s" "incoming_ok (start_stall now tm s) = incoming_ok s"
  by (simp_all add: start_stall_def peer_done_def incoming_ok_def)

lemma appends_start_stall: "appends p xs s t \<Longrightarrow> appends p xs s (start_stall now tm t)"
  by (simp add: appends_def)

lemma enqueue_appends:
  assumes "msg_peer (tm_message tm) = p"
  shows "appends p [msg_metadata (tm_message tm)] s (enqueue_message p tm s)"
  using assms
  by (auto simp: appends_def enqueue_message_def peer_done_def incoming_ok_def intro!: keys_ok_put_entry dest: keys_okD)

lemma count_awaiting_appends: "appends p [] s (count_awaiting p s)"
  by (auto simp: appends_def count_awaiting_def peer_done_def incoming_ok_def)

lemma mds_list_update:
  "i < length tms \<Longrightarrow> msg_metadata (tm_message tm) = msg_metadata (tm_message (tms ! i)) \<Longrightarrow> mds (tms[i := tm]) = mds tms"
  by (simp add: mds_def map_update) (metis length_map list_update_id nth_map)

lemma try_attach_appends:
  fixes s s' :: "'w mpe_scheme"
  assumes "allocator_ok alloc" and "try_attach_receive_buffer alloc now mode tm s = ((out, tm'), s')"
  shows "appends p [] s s'"
  using try_attach_frame [OF assms] by (auto simp: appends_def peer_done_def incoming_ok_def)

lemma replace_message_appends:
  assumes "i < length (entry p (mx_incoming s))" and "tm = entry p (mx_incoming s) ! i"
    and "msg_metadata (tm_message tm') = msg_metadata (tm_message tm)" and "msg_peer (tm_message tm') = msg_peer (tm_message tm)"
  shows "appends p [] s (replace_message p i tm' s)"
proof -
  have "mds ((entry p (mx_incoming s))[i := tm']) = mds (entry p (mx_incoming s))"
    using assms by (intro mds_list_update) simp_all
  moreover have "keys_ok (put_entry p ((entry p (mx_incoming s))[i := tm']) (mx_incoming s))" if "keys_ok (mx_incoming s)"
  proof (rule keys_ok_put_entry [OF that], intro ballI)
    fix x assume "x \<in> set ((entry p (mx_incoming s))[i := tm'])"
    then have "x \<in> set (entry p (mx_incoming s)) \<or> x = tm'" using set_update_subset_insert by fastforce
    moreover have "tm \<in> set (entry p (mx_incoming s))" using assms(1,2) by simp
    ultimately show "msg_peer (tm_message x) = p" using that assms(4) by (auto dest: keys_okD)
  qed
  ultimately show ?thesis by (simp add: appends_def replace_message_def peer_done_def incoming_ok_def)
qed

lemma accept_message_appends:
  fixes s s' :: "'w mpe_scheme"
  assumes ok: "allocator_ok alloc" and acc: "accept_message alloc now p metadata mid payload s = (Inr (), s')"
  shows "appends p [metadata] s s' \<and> mx_inbox s' = mx_inbox s"
proof -
  let ?tm = "new_message p metadata mid payload s"
  let ?s1 = "enqueue_message p ?tm s" and ?n = "length (entry p (mx_incoming s))"
  let ?s2 = "count_awaiting p ?s1"
  have tm: "msg_peer (tm_message ?tm) = p" "msg_metadata (tm_message ?tm) = metadata"
    by (simp_all add: new_message_def)
  have 1: "appends p [metadata] s ?s1" using enqueue_appends [OF tm(1), of s] by (simp add: tm)
  have 2: "appends p [metadata] s ?s2" using appends_trans [OF 1 count_awaiting_appends] by simp
  have ib: "mx_inbox ?s1 = mx_inbox s" "mx_inbox ?s2 = mx_inbox s"
    by (simp_all add: enqueue_message_def count_awaiting_def)
  show ?thesis
  proof (cases "payload = 0 \<or> mx_num_awaiting ?s2 p \<noteq> 1")
    case True
    then have "s' = ?s1 \<or> s' = start_stall now ?tm ?s2"
      using acc by (cases "payload = 0") (auto simp: accept_message_def Let_def)
    then show ?thesis using 1 appends_start_stall [OF 2] ib by auto
  next
    case False
    obtain out tm' s3 where at: "try_attach_receive_buffer alloc now May_Fail ?tm ?s2 = ((out, tm'), s3)"
      by (metis surj_pair)
    with acc False have s': "s' = start_stall now tm' (replace_message p ?n tm' s3)"
      by (auto simp: accept_message_def Let_def split: sum.splits)
    note F = try_attach_frame [OF ok at]
    have inc: "entry p (mx_incoming s3) = entry p (mx_incoming s) @ [?tm]"
      using F by (simp add: count_awaiting_def enqueue_message_def)
    have "appends p [] s3 (replace_message p ?n tm' s3)"
      by (rule replace_message_appends [where tm = ?tm]) (use F inc in simp_all)
    then have "appends p ([metadata] @ [] @ []) s (replace_message p ?n tm' s3)"
      using 2 try_attach_appends [OF ok at, of p] appends_trans by blast
    then show ?thesis
      using appends_start_stall [of p "[metadata]"] F ib by (simp add: s' replace_message_def)
  qed
qed

lemma receive_from_appends:
  fixes s s' :: "'w mpe_scheme"
  assumes ok: "allocator_ok alloc" and "receive_from alloc now p ms s = (Inr (), s')"
  shows "appends p (accepted ms) s s'"
  using assms(2)
proof (induction ms arbitrary: s)
  case Nil
  then show ?case by (auto simp: appends_def peer_done_def incoming_ok_def)
next
  case (Cons m ms)
  let ?s0 = "s\<lparr>mx_inbox := (mx_inbox s)(p := ms)\<rparr>"
  have 0: "appends p [] s ?s0" by (simp add: appends_def peer_done_def incoming_ok_def)
  from Cons.prems obtain metadata mid payload where tr: "get_trailer m = Inr (metadata, mid, payload)"
    by (auto simp: Let_def split: sum.splits)
  show ?case
  proof (cases "unat mid = termination_sentinel")
    case True
    then have "s' = ?s0\<lparr>mx_expected := (mx_expected ?s0)(p := unat payload), mx_terminated := (mx_terminated ?s0)(p := True)\<rparr>"
      using Cons.prems tr by (simp add: Let_def)
    then show ?thesis using True tr by (simp add: appends_def peer_done_def incoming_ok_def)
  next
    case False
    then obtain s1 where 1: "accept_message alloc now p metadata (unat mid) (unat payload) ?s0 = (Inr (), s1)"
      "receive_from alloc now p ms s1 = (Inr (), s')"
      using Cons.prems tr by (auto simp: Let_def act_bind_cases)
    have "appends p [metadata] ?s0 s1" using accept_message_appends [OF ok 1(1)] by blast
    then have "appends p ([] @ [metadata] @ accepted ms) s s'"
      using 0 Cons.IH [OF 1(2)] appends_trans by blast
    then show ?thesis using False tr by simp
  qed
qed

section \<open>The receive phase\<close>

lemma receive_peers_queues:
  fixes s s' :: "'w mpe_scheme"
  assumes ok: "allocator_ok alloc" and "receive_peers alloc now ps s = (Inr (), s')" and "distinct ps" and "incoming_ok s"
  shows "(\<forall>q. mds (entry q (mx_incoming s')) = mds (entry q (mx_incoming s)) @
            (if q \<in> set ps \<and> q \<noteq> mx_rank s \<and> \<not> peer_done q s then accepted (mx_inbox s q) else [])) \<and>
    mx_in_transit s' = mx_in_transit s \<and> mx_received s' = mx_received s \<and>
    mx_rank s' = mx_rank s \<and> mx_nranks s' = mx_nranks s \<and> incoming_ok s'"
  using assms(2-)
proof (induction ps arbitrary: s)
  case Nil
  then show ?case by simp
next
  case (Cons p ps)
  show ?case
  proof (cases "p = mx_rank s \<or> peer_done p s")
    case True
    then have rp: "receive_peers alloc now ps s = (Inr (), s')" using Cons.prems(1) by simp
    have d: "distinct ps" using Cons.prems(2) by simp
    show ?thesis using Cons.IH [OF rp d Cons.prems(3)] True Cons.prems(2) by auto
  next
    case False
    then obtain s1 where 1: "receive_from alloc now p (mx_inbox s p) s = (Inr (), s1)"
      "receive_peers alloc now ps s1 = (Inr (), s')"
      using Cons.prems(1) by (auto simp: act_bind_cases)
    have A: "appends p (accepted (mx_inbox s p)) s s1" by (rule receive_from_appends [OF ok 1(1)])
    then have f: "\<And>q. q \<noteq> p \<Longrightarrow> mx_inbox s1 q = mx_inbox s q" "\<And>q. q \<noteq> p \<Longrightarrow> peer_done q s1 = peer_done q s"
      "mx_rank s1 = mx_rank s" "incoming_ok s1" "mx_nranks s1 = mx_nranks s"
      "mx_in_transit s1 = mx_in_transit s" "mx_received s1 = mx_received s"
      "\<And>q. mds (entry q (mx_incoming s1)) = mds (entry q (mx_incoming s)) @ (if q = p then accepted (mx_inbox s p) else [])"
      using Cons.prems(3) by (simp_all add: appends_def)
    have d: "distinct ps" "p \<notin> set ps" using Cons.prems(2) by simp_all
    have I: "\<And>q. mds (entry q (mx_incoming s')) = mds (entry q (mx_incoming s1)) @
            (if q \<in> set ps \<and> q \<noteq> mx_rank s1 \<and> \<not> peer_done q s1 then accepted (mx_inbox s1 q) else [])"
      "mx_in_transit s' = mx_in_transit s1" "mx_received s' = mx_received s1"
      "mx_rank s' = mx_rank s1" "mx_nranks s' = mx_nranks s1" "incoming_ok s'"
      using Cons.IH [OF 1(2) d(1) f(4)] by blast+
    have "mds (entry q (mx_incoming s')) = mds (entry q (mx_incoming s)) @
        (if q \<in> set (p # ps) \<and> q \<noteq> mx_rank s \<and> \<not> peer_done q s then accepted (mx_inbox s q) else [])" for q
      using I(1) [of q] f(8) [of q] f(1,2) [of q] f(3) False d(2) by (cases "q = p") auto
    then show ?thesis using I(2-) f by simp
  qed
qed

section \<open>The setup phase\<close>

lemma first_awaiting_nth: "first_awaiting tms = Some (i, tm) \<Longrightarrow> i < length tms \<and> tms ! i = tm"
  by (induction tms arbitrary: i) (auto split: if_splits)

lemma oldest_awaiting_nth:
  "oldest_awaiting m = Some (p, i, tm) \<Longrightarrow> distinct (map fst m) \<Longrightarrow> i < length (entry p m) \<and> entry p m ! i = tm"
proof (induction m arbitrary: p i tm)
  case Nil
  then show ?case by simp
next
  case (Cons e m)
  obtain q tms where e: "e = (q, tms)" by fastforce
  have nin: "oldest_awaiting m = Some (p', i', tm') \<Longrightarrow> p' \<noteq> q" for p' i' tm'
  proof -
    assume o: "oldest_awaiting m = Some (p', i', tm')"
    then have "entry p' m \<noteq> []" using Cons.IH [OF o] Cons.prems(2) by (auto simp: e)
    then have "p' \<in> fst ` set m" by (auto simp: entry_def split: option.splits dest: map_of_SomeD simp: image_iff) (metis fst_conv map_of_SomeD)
    then show "p' \<noteq> q" using Cons.prems(2) by (auto simp: e)
  qed
  from Cons.prems(1) consider "p = q" "first_awaiting tms = Some (i, tm)" | "oldest_awaiting m = Some (p, i, tm)"
    by (auto simp: e split: option.splits if_splits)
  then show ?case
  proof cases
    case 1
    then show ?thesis using first_awaiting_nth [OF 1(2)] by (simp add: e entry_def)
  next
    case 2
    then show ?thesis using Cons.IH [OF 2] nin [OF 2] Cons.prems(2) by (simp add: e entry_def)
  qed
qed

lemma force_queues:
  fixes s s' :: "'w mpe_scheme"
  assumes ok: "allocator_ok alloc" and "force_allocation_progress_if_stalled alloc now s = (Inr (), s')"
    and inv: "incoming_ok s"
  shows "\<exists>p. appends p [] s s'"
proof (cases "s' = s")
  case True
  then show ?thesis by (simp add: appends_def)
next
  case False
  then obtain p i tm out tm1 s1 where o: "oldest_awaiting (mx_incoming s) = Some (p, i, tm)"
    and a1: "try_attach_receive_buffer alloc now May_Fail tm s = ((out, tm1), s1)"
    using assms(2) unfolding force_allocation_progress_if_stalled_def
    by (auto split: option.splits if_splits prod.splits)
  have nth: "i < length (entry p (mx_incoming s))" "entry p (mx_incoming s) ! i = tm"
    using oldest_awaiting_nth [OF o] inv by (simp_all add: incoming_ok_def keys_ok_def)
  note F1 = try_attach_frame [OF ok a1]
  consider "out = Inr True" "s' = replace_message p i tm1 s1"
    | out2 tm2 s2 where "out = Inr False" "try_attach_receive_buffer alloc now Must_Succeed tm1 s1 = ((out2, tm2), s2)"
      "s' = replace_message p i (tm2\<lparr>tm_forced := True\<rparr>) s2"
    using assms(2) False o a1 unfolding force_allocation_progress_if_stalled_def
    by (cases out; auto split: option.splits if_splits prod.splits sum.splits)
  then show ?thesis
  proof cases
    case 1
    have "appends p [] s1 (replace_message p i tm1 s1)"
      by (rule replace_message_appends [where tm = tm]) (use F1 nth in simp_all)
    then show ?thesis using 1 appends_trans [OF try_attach_appends [OF ok a1, of p]] by fastforce
  next
    case 2
    note F2 = try_attach_frame [OF ok 2(2)]
    have "appends p [] s2 (replace_message p i (tm2\<lparr>tm_forced := True\<rparr>) s2)"
      by (rule replace_message_appends [where tm = tm]) (use F1 F2 nth in simp_all)
    then have "appends p ([] @ [] @ []) s s'"
      using 2(3) appends_trans [OF try_attach_appends [OF ok a1, of p] appends_trans [OF try_attach_appends [OF ok 2(2), of p]]]
      by simp
    then show ?thesis by auto
  qed
qed

definition from_peer :: "nat \<Rightarrow> message list \<Rightarrow> u8 list list" where
  "from_peer p ms = map msg_metadata (filter (\<lambda>m. msg_peer m = p) ms)"

lemma from_peer_simps [simp]: "from_peer p [] = []" "from_peer p (xs @ ys) = from_peer p xs @ from_peer p ys"
  "from_peer p (m # ms) = (if msg_peer m = p then msg_metadata m # from_peer p ms else from_peer p ms)"
  by (simp_all add: from_peer_def)

lemma from_peer_other: "\<forall>m\<in>set ms. msg_peer m = p \<Longrightarrow> q \<noteq> p \<Longrightarrow> from_peer q ms = []"
  by (simp add: from_peer_def)

text \<open>What a step over the queue of one peer leaves of the state, apart from that peer's transfers.\<close>

definition transit_step :: "nat \<Rightarrow> 'w mpe_scheme \<Rightarrow> 'w mpe_scheme \<Rightarrow> bool" where
  "transit_step p s s' \<longleftrightarrow>
     (\<forall>q. q \<noteq> p \<longrightarrow> entry q (mx_in_transit s') = entry q (mx_in_transit s)) \<and> keys_ok (mx_in_transit s') \<and>
     mx_received s' = mx_received s \<and> mx_inbox s' = mx_inbox s"

lemma attach_or_ready_frame:
  fixes s s1 :: "'w mpe_scheme"
  assumes "allocator_ok alloc"
    and "(if is_awaiting_buffer tm then try_attach_receive_buffer alloc now May_Fail tm s else ((Inr True, tm), s)) = ((a, tm1), s1)"
  shows "mx_in_transit s1 = mx_in_transit s \<and> mx_received s1 = mx_received s \<and> mx_inbox s1 = mx_inbox s \<and>
    msg_metadata (tm_message tm1) = msg_metadata (tm_message tm) \<and> msg_peer (tm_message tm1) = msg_peer (tm_message tm)"
  using assms try_attach_frame [of alloc now May_Fail tm s a tm1 s1] by (cases "is_awaiting_buffer tm") auto

lemma post_receive_transit:
  fixes s s' :: "'w mpe_scheme"
  assumes "post_receive p tm s = (Inr (), s')" and "keys_ok (mx_in_transit s)" and "msg_peer (tm_message tm) = p"
  shows "transit_step p s s' \<and>
    mds (entry p (mx_in_transit s')) = mds (entry p (mx_in_transit s)) @ [msg_metadata (tm_message tm)]"
proof -
  have "\<forall>x\<in>set (entry p (mx_in_transit s)). msg_peer (tm_message x) = p" using keys_okD [OF assms(2)] by blast
  then show ?thesis using assms
    by (auto simp: post_receive_def transit_step_def split: option.splits if_splits intro!: keys_ok_put_entry)
qed

lemma setup_rank_queues:
  fixes s s' :: "'w mpe_scheme"
  assumes ok: "allocator_ok alloc" and "setup_rank alloc now p tms s = ((Inr out, rest), s')"
    and "\<forall>tm\<in>set tms. msg_peer (tm_message tm) = p" and "keys_ok (mx_in_transit s)"
  shows "map msg_metadata out @ mds (entry p (mx_in_transit s')) @ mds rest = mds (entry p (mx_in_transit s)) @ mds tms \<and>
    (\<forall>m\<in>set out. msg_peer m = p) \<and> (\<forall>tm\<in>set rest. msg_peer (tm_message tm) = p) \<and> transit_step p s s'"
  using assms(2-)
proof (induction tms arbitrary: out rest s')
  case Nil
  then show ?case by (simp add: transit_step_def)
next
  case (Cons tm tms)
  have pr: "msg_peer (tm_message tm) = p" "\<forall>tm\<in>set tms. msg_peer (tm_message tm) = p" using Cons.prems(2) by simp_all
  consider (pay) "tm_payload tm > 0" | (emit) "tm_payload tm = 0" "entry p (mx_in_transit s) = []"
    | (wait) "tm_payload tm = 0" "entry p (mx_in_transit s) \<noteq> []" by blast
  then show ?case
  proof cases
    case emit
    then obtain out1 where 1: "setup_rank alloc now p tms s = ((Inr out1, rest), s')" "out = tm_message tm # out1"
      using Cons.prems(1) by (auto split: prod.splits sum.splits)
    show ?thesis using Cons.IH [OF 1(1) pr(2) Cons.prems(3)] 1(2) emit pr(1) by simp
  next
    case wait
    then have "out = []" "rest = tm # tms" "s' = s" using Cons.prems(1) by auto
    then show ?thesis using Cons.prems by (simp add: transit_step_def)
  next
    case pay
    obtain a tm1 s1 where at: "(if is_awaiting_buffer tm then try_attach_receive_buffer alloc now May_Fail tm s
        else ((Inr True, tm), s)) = ((a, tm1), s1)" by (metis surj_pair)
    note F = attach_or_ready_frame [OF ok at]
    consider "out = []" "rest = tm1 # tms" "s' = s1" | "out = []" "rest = tms" "post_receive p tm1 s1 = (Inr (), s')"
      using Cons.prems(1) pay unfolding setup_rank.simps at
      by (auto split: sum.splits if_splits option.splits prod.splits)
    then show ?thesis
    proof cases
      case 1
      then show ?thesis using F pr Cons.prems(3) by (simp add: transit_step_def)
    next
      case 2
      have "keys_ok (mx_in_transit s1)" "msg_peer (tm_message tm1) = p" using F pr Cons.prems(3) by simp_all
      from post_receive_transit [OF 2(3) this] show ?thesis
        using 2 F pr by (simp add: transit_step_def)
    qed
  qed
qed

lemma entry_Cons: "entry q ((p, tms) # m) = (if q = p then tms else entry q m)"
  by (simp add: entry_def)

lemma entry_notin: "p \<notin> fst ` set m \<Longrightarrow> entry p m = []"
  by (auto simp: entry_def map_of_eq_None_iff [symmetric])

lemma entry_keep: "p \<notin> fst ` set m \<Longrightarrow> entry q (keep_entry p tms @ m) = (if q = p then tms else entry q m)"
  by (simp add: keep_entry_def entry_Cons entry_notin)

lemma keys_ok_Cons:
  "keys_ok ((p, tms) # m) \<longleftrightarrow> p \<notin> fst ` set m \<and> (\<forall>tm\<in>set tms. msg_peer (tm_message tm) = p) \<and> keys_ok m"
  by (auto simp: keys_ok_def entry_Cons) (metis empty_iff entry_notin empty_set)+

lemma keys_ok_keep:
  "p \<notin> fst ` set m \<Longrightarrow> \<forall>tm\<in>set tms. msg_peer (tm_message tm) = p \<Longrightarrow> keys_ok m \<Longrightarrow> keys_ok (keep_entry p tms @ m)"
  by (simp add: keep_entry_def keys_ok_Cons)

lemma keep_keys: "fst ` set m \<subseteq> K \<Longrightarrow> fst ` set (keep_entry p tms @ m) \<subseteq> insert p K"
  by (auto simp: keep_entry_def)

lemma setup_ranks_queues:
  fixes s s' :: "'w mpe_scheme"
  assumes ok: "allocator_ok alloc" and "setup_ranks alloc now m s = ((Inr out, rest), s')"
    and "keys_ok m" and "keys_ok (mx_in_transit s)"
  shows "(\<forall>q. from_peer q out @ mds (entry q (mx_in_transit s')) @ mds (entry q rest) = mds (entry q (mx_in_transit s)) @ mds (entry q m)) \<and>
    (\<forall>q. q \<notin> fst ` set m \<longrightarrow> entry q (mx_in_transit s') = entry q (mx_in_transit s) \<and> from_peer q out = []) \<and>
    keys_ok rest \<and> fst ` set rest \<subseteq> fst ` set m \<and> keys_ok (mx_in_transit s') \<and>
    mx_received s' = mx_received s \<and> mx_inbox s' = mx_inbox s"
  using assms(2-)
proof (induction m arbitrary: s out rest s')
  case Nil
  then show ?case by simp
next
  case (Cons e m)
  obtain p tms where e: "e = (p, tms)" by fastforce
  have k: "p \<notin> fst ` set m" "\<forall>tm\<in>set tms. msg_peer (tm_message tm) = p" "keys_ok m"
    using Cons.prems(2) by (simp_all add: e keys_ok_Cons)
  obtain out1 tms1 s1 out2 rest2 where 1: "setup_rank alloc now p tms s = ((Inr out1, tms1), s1)"
    and 2: "setup_ranks alloc now m s1 = ((Inr out2, rest2), s')"
    and r: "out = out1 @ out2" "rest = keep_entry p tms1 @ rest2"
    using Cons.prems(1) by (auto simp: e split: prod.splits sum.splits)
  note A = setup_rank_queues [OF ok 1 k(2) Cons.prems(3)]
  then have kt: "keys_ok (mx_in_transit s1)" by (simp add: transit_step_def)
  note B = Cons.IH [OF 2 k(3) kt]
  have p2: "p \<notin> fst ` set rest2" using B k(1) by blast
  have fp: "from_peer q out1 = (if q = p then map msg_metadata out1 else [])" for q
    using A by (simp add: from_peer_def)
  have "from_peer q out @ mds (entry q (mx_in_transit s')) @ mds (entry q rest) =
      mds (entry q (mx_in_transit s)) @ mds (entry q (e # m))" for q
  proof (cases "q = p")
    case True
    then show ?thesis using A B k(1) fp [of p] entry_keep [OF p2] by (simp add: r e entry_Cons)
  next
    case False
    then have "entry q (mx_in_transit s1) = entry q (mx_in_transit s)" using A by (simp add: transit_step_def)
    then show ?thesis using False B fp [of q] entry_keep [OF p2] by (simp add: r e entry_Cons)
  qed
  moreover have "entry q (mx_in_transit s') = entry q (mx_in_transit s) \<and> from_peer q out = []"
    if "q \<notin> fst ` set (e # m)" for q
    using that A B fp [of q] by (simp add: e r transit_step_def)
  moreover have "keys_ok rest" using keys_ok_keep [OF p2] A B by (simp add: r)
  moreover have "fst ` set rest \<subseteq> fst ` set (e # m)" using keep_keys [of rest2 "fst ` set m" p tms1] B by (simp add: r e)
  ultimately show ?case using A B by (simp add: transit_step_def)
qed

section \<open>The completion phase\<close>

lemma finish_receive_frame:
  fixes s s' :: "'w mpe_scheme"
  assumes "finish_receive stats cm tm buf s = (Inr m, s')"
  shows "br.more s' = br.more s \<and> msg_metadata m = msg_metadata (tm_message tm) \<and> msg_peer m = msg_peer (tm_message tm)"
proof -
  have wr: "br.more (snd (with_reservation res (move_buffer stats b) t)) = br.more t" for res b and t :: "'w mpe_scheme"
    by (rule with_reservation_more) (rule move_buffer_more)
  have d: "br.more (snd (try_move_to_disk stats b s)) = br.more s" for b
    using try_reserve_more [of "buf_size b" "[DISK]" s]
    by (auto simp: try_move_to_disk_def wr simp del: try_reserve.simps split: sum.splits prod.splits option.splits)
  let ?b = "(unlock buf)\<lparr>buf_storage := Some (cm_payload cm (tm_id tm))\<rparr>"
  show ?thesis using assms d [of ?b]
    by (auto simp: finish_receive_def Let_def msg_set_data_def split: sum.splits prod.splits if_splits)
qed

lemma complete_rank_queues:
  fixes s s' :: "'w mpe_scheme"
  assumes "complete_rank stats cm tms s = ((Inr out, rest), s')" and "\<forall>tm\<in>set tms. msg_peer (tm_message tm) = p"
  shows "map msg_metadata out @ mds rest = mds tms \<and> (\<forall>m\<in>set out. msg_peer m = p) \<and>
    (\<forall>tm\<in>set rest. msg_peer (tm_message tm) = p) \<and> mx_incoming s' = mx_incoming s \<and>
    mx_received s' = mx_received s \<and> mx_inbox s' = mx_inbox s"
  using assms
proof (induction tms arbitrary: s out rest s')
  case Nil
  then show ?case by simp
next
  case (Cons tm tms)
  show ?case
  proof (cases "tm_id tm \<in> set (cm_done cm)")
    case False
    then show ?thesis using Cons.prems by simp
  next
    case True
    then obtain buf m s1 out1 where fr: "finish_receive stats cm tm buf s = (Inr m, s1)"
      and cr: "complete_rank stats cm tms (s1\<lparr>mx_futures := AList.delete (tm_id tm) (mx_futures s1)\<rparr>) = ((Inr out1, rest), s')"
      and out: "out = m # out1"
      using Cons.prems(1) by (auto simp: Let_def split: prod.splits sum.splits option.splits)
    note F = finish_receive_frame [OF fr]
    show ?thesis using Cons.IH [OF cr] Cons.prems(2) F mx_frame [of s1 s] by (simp add: out)
  qed
qed

lemma complete_ranks_queues:
  fixes s s' :: "'w mpe_scheme"
  assumes "complete_ranks stats cm m s = ((Inr out, rest), s')" and "keys_ok m"
  shows "(\<forall>q. from_peer q out @ mds (entry q rest) = mds (entry q m)) \<and> keys_ok rest \<and> fst ` set rest \<subseteq> fst ` set m \<and>
    mx_incoming s' = mx_incoming s \<and> mx_received s' = mx_received s \<and> mx_inbox s' = mx_inbox s"
  using assms
proof (induction m arbitrary: s out rest s')
  case Nil
  then show ?case by simp
next
  case (Cons e m)
  obtain p tms where e: "e = (p, tms)" by fastforce
  have k: "p \<notin> fst ` set m" "\<forall>tm\<in>set tms. msg_peer (tm_message tm) = p" "keys_ok m"
    using Cons.prems(2) by (simp_all add: e keys_ok_Cons)
  obtain out1 tms1 s1 out2 rest2 where 1: "complete_rank stats cm tms s = ((Inr out1, tms1), s1)"
    and 2: "complete_ranks stats cm m s1 = ((Inr out2, rest2), s')"
    and r: "out = out1 @ out2" "rest = keep_entry p tms1 @ rest2"
    using Cons.prems(1) by (auto simp: e split: prod.splits sum.splits)
  note A = complete_rank_queues [OF 1 k(2)] and B = Cons.IH [OF 2 k(3)]
  have p2: "p \<notin> fst ` set rest2" using B k(1) by blast
  have fp: "from_peer q out1 = (if q = p then map msg_metadata out1 else [])" for q
    using A by (simp add: from_peer_def)
  have o2: "from_peer p out2 = []" using B entry_notin [OF k(1)] by (metis append_is_Nil_conv mds_simps(1))
  have "from_peer q out @ mds (entry q rest) = mds (entry q (e # m))" for q
    using A B fp [of q] o2 entry_keep [OF p2] by (cases "q = p") (simp_all add: r e entry_Cons)
  moreover have "keys_ok rest" using keys_ok_keep [OF p2] A B by (simp add: r)
  moreover have "fst ` set rest \<subseteq> fst ` set (e # m)" using keep_keys [of rest2 "fst ` set m" p tms1] B by (simp add: r e)
  ultimately show ?case using A B by simp
qed

section \<open>One call of progress\<close>

definition pipeline :: "nat \<Rightarrow> 'w mpe_scheme \<Rightarrow> u8 list list" where
  "pipeline p s = from_peer p (mx_received s) @ mds (entry p (mx_in_transit s)) @ mds (entry p (mx_incoming s))"

definition arriving :: "nat \<Rightarrow> 'w mpe_scheme \<Rightarrow> u8 list list" where
  "arriving p s =
     (if p < mx_nranks s \<and> p \<noteq> mx_rank s \<and> \<not> peer_done p s then accepted (mx_inbox s p) else [])"

lemma setup_data_receives_queues:
  fixes s s' :: "'w mpe_scheme"
  assumes ok: "allocator_ok alloc" and run: "setup_data_receives alloc now s = (Inr out, s')" and inv: "incoming_ok s"
  shows "(\<forall>q. from_peer q out @ mds (entry q (mx_in_transit s')) @ mds (entry q (mx_incoming s')) =
      mds (entry q (mx_in_transit s)) @ mds (entry q (mx_incoming s))) \<and>
    mx_received s' = mx_received s \<and> incoming_ok s'"
proof -
  obtain s1 where 1: "force_allocation_progress_if_stalled alloc now s = (Inr (), s1)"
    and r: "(case setup_ranks alloc now (mx_incoming s1) s1 of ((out, rest), s2) \<Rightarrow> (out, s2\<lparr>mx_incoming := rest\<rparr>)) = (Inr out, s')"
    using run by (auto simp: setup_data_receives_def act_bind_cases)
  from r obtain rest s2 where 2: "setup_ranks alloc now (mx_incoming s1) s1 = ((Inr out, rest), s2)"
    and s': "s' = s2\<lparr>mx_incoming := rest\<rparr>"
    by (auto split: prod.splits)
  obtain p where A: "appends p [] s s1" using force_queues [OF ok 1 inv] by blast
  then have k: "incoming_ok s1" using inv by (simp add: appends_def)
  then have k1: "keys_ok (mx_incoming s1)" "keys_ok (mx_in_transit s1)" by (simp_all add: incoming_ok_def)
  show ?thesis using setup_ranks_queues [OF ok 2 k1] A by (simp add: s' appends_def incoming_ok_def)
qed

lemma complete_data_transfers_queues:
  fixes s s' :: "'w mpe_scheme"
  assumes run: "complete_data_transfers stats cm s = (Inr out, s')" and inv: "incoming_ok s"
  shows "(\<forall>q. from_peer q out @ mds (entry q (mx_in_transit s')) = mds (entry q (mx_in_transit s))) \<and>
    mx_incoming s' = mx_incoming s \<and> mx_received s' = mx_received s \<and> incoming_ok s'"
proof (cases "mx_futures s = []")
  case True
  then show ?thesis using assms by (simp add: complete_data_transfers_def)
next
  case False
  then obtain rest s1 where 1: "complete_ranks stats cm (mx_in_transit s) s = ((Inr out, rest), s1)" "s' = s1\<lparr>mx_in_transit := rest\<rparr>"
    using run by (auto simp: complete_data_transfers_def split: prod.splits)
  have "keys_ok (mx_in_transit s)" using inv by (simp add: incoming_ok_def)
  from complete_ranks_queues [OF 1(1) this] show ?thesis using inv by (simp add: 1(2) incoming_ok_def)
qed

lemma progress_pipeline:
  fixes s s' :: "'w mpe_scheme"
  assumes ok: "allocator_ok alloc" and inv: "incoming_ok s" and run: "mpe_progress alloc stats cm s = (Inr (), s')"
  shows "pipeline p s' = pipeline p s @ arriving p s \<and> incoming_ok s'"
proof -
  obtain s1 mo s2 dt s3 where 1: "receive_peers alloc (cm_now cm) [0..<mx_nranks s] s = (Inr (), s1)"
    and 2: "setup_data_receives alloc (cm_now cm) s1 = (Inr mo, s2)"
    and 3: "complete_data_transfers stats cm s2 = (Inr dt, s3)"
    and s': "s' = cleanup_completed_operations cm (s3\<lparr>mx_received := mx_received s3 @ mo @ dt\<rparr>)"
    using run by (auto simp: mpe_progress_def act_bind_cases receive_metadata_def)
  note A = receive_peers_queues [OF ok 1 distinct_upt inv]
  then have i1: "incoming_ok s1" by blast
  note B = setup_data_receives_queues [OF ok 2 i1]
  then have i2: "incoming_ok s2" by blast
  note C = complete_data_transfers_queues [OF 3 i2]
  have b: "from_peer p mo @ mds (entry p (mx_in_transit s2)) @ mds (entry p (mx_incoming s2)) =
      mds (entry p (mx_in_transit s1)) @ mds (entry p (mx_incoming s1))" using B by blast
  have c: "from_peer p dt @ mds (entry p (mx_in_transit s3)) = mds (entry p (mx_in_transit s2))" using C by blast
  have R: "mx_received s3 = mx_received s" "mx_incoming s3 = mx_incoming s2" "incoming_ok s3" using A B C by simp_all
  have "pipeline p s' = from_peer p (mx_received s) @ from_peer p mo @ (from_peer p dt @ mds (entry p (mx_in_transit s3)))
      @ mds (entry p (mx_incoming s2))"
    by (simp add: pipeline_def s' cleanup_completed_operations_def R)
  also have "\<dots> = from_peer p (mx_received s) @ mds (entry p (mx_in_transit s1)) @ mds (entry p (mx_incoming s1))"
    unfolding c b ..
  also have "\<dots> = pipeline p s @ arriving p s" using A by (simp add: pipeline_def arriving_def)
  finally show ?thesis using R(3) by (simp add: s' cleanup_completed_operations_def incoming_ok_def)
qed

section \<open>Whole runs of an exchange\<close>

text \<open>The metadata of the application messages among the messages of a peer.\<close>

fun app_metadata :: "u8 list list \<Rightarrow> u8 list list" where
  "app_metadata [] = []"
| "app_metadata (m # ms) =
     (case get_trailer m of
        Inl e \<Rightarrow> app_metadata ms
      | Inr (metadata, mid, _) \<Rightarrow>
          if unat mid = termination_sentinel then app_metadata ms else metadata # app_metadata ms)"

lemma app_metadata_append [simp]: "app_metadata (xs @ ys) = app_metadata xs @ app_metadata ys"
  by (induction xs) (auto split: sum.splits prod.splits)

lemma receive_from_inbox:
  fixes s s' :: "'w mpe_scheme"
  assumes ok: "allocator_ok alloc" and "receive_from alloc now p ms s = (Inr (), s')"
  shows "accepted ms @ app_metadata (mx_inbox s' p) = app_metadata ms"
  using assms(2)
proof (induction ms arbitrary: s)
  case Nil
  then show ?case by auto
next
  case (Cons m ms)
  let ?s0 = "s\<lparr>mx_inbox := (mx_inbox s)(p := ms)\<rparr>"
  from Cons.prems obtain metadata mid payload where tr: "get_trailer m = Inr (metadata, mid, payload)"
    by (auto simp: Let_def split: sum.splits)
  show ?case
  proof (cases "unat mid = termination_sentinel")
    case True
    then have "mx_inbox s' p = ms" using Cons.prems tr by (auto simp: Let_def)
    then show ?thesis using True tr by simp
  next
    case False
    then obtain s1 where "receive_from alloc now p ms s1 = (Inr (), s')"
      using Cons.prems tr by (auto simp: Let_def act_bind_cases)
    then show ?thesis using Cons.IH False tr by simp
  qed
qed

lemma receive_peers_inbox:
  fixes s s' :: "'w mpe_scheme"
  assumes ok: "allocator_ok alloc" and "receive_peers alloc now ps s = (Inr (), s')" and "distinct ps" and "incoming_ok s"
  shows "(if p \<in> set ps \<and> p \<noteq> mx_rank s \<and> \<not> peer_done p s then accepted (mx_inbox s p) else []) @
    app_metadata (mx_inbox s' p) = app_metadata (mx_inbox s p)"
  using assms(2-)
proof (induction ps arbitrary: s)
  case Nil
  then show ?case by simp
next
  case (Cons r ps)
  show ?case
  proof (cases "r = mx_rank s \<or> peer_done r s")
    case True
    then have rp: "receive_peers alloc now ps s = (Inr (), s')" using Cons.prems(1) by simp
    have d: "distinct ps" using Cons.prems(2) by simp
    show ?thesis using Cons.IH [OF rp d Cons.prems(3)] True Cons.prems(2) by auto
  next
    case False
    then obtain s1 where 1: "receive_from alloc now r (mx_inbox s r) s = (Inr (), s1)"
      "receive_peers alloc now ps s1 = (Inr (), s')"
      using Cons.prems(1) by (auto simp: act_bind_cases)
    have A: "appends r (accepted (mx_inbox s r)) s s1" by (rule receive_from_appends [OF ok 1(1)])
    then have f: "incoming_ok s1" "mx_rank s1 = mx_rank s"
      "p \<noteq> r \<Longrightarrow> mx_inbox s1 p = mx_inbox s p \<and> peer_done p s1 = peer_done p s"
      using Cons.prems(3) by (simp_all add: appends_def)
    have d: "distinct ps" "r \<notin> set ps" using Cons.prems(2) by simp_all
    note I = Cons.IH [OF 1(2) d(1) f(1)]
    show ?thesis
    proof (cases "p = r")
      case True
      then show ?thesis using I receive_from_inbox [OF ok 1(1)] False d(2) by simp
    next
      case F: False
      then have g: "mx_inbox s1 p = mx_inbox s p" "peer_done p s1 = peer_done p s" using f(3) by simp_all
      have "p \<in> set (r # ps) \<longleftrightarrow> p \<in> set ps" using F by simp
      then show ?thesis using I unfolding g f(2) by presburger
    qed
  qed
qed

lemma appends_inbox: "appends p new s s' \<Longrightarrow> q \<noteq> p \<Longrightarrow> mx_inbox s' q = mx_inbox s q"
  by (simp add: appends_def)

lemma force_inbox:
  fixes s s' :: "'w mpe_scheme"
  assumes ok: "allocator_ok alloc" and run: "force_allocation_progress_if_stalled alloc now s = (u, s')"
  shows "mx_inbox s' = mx_inbox s"
proof -
  have a: "mx_inbox s2 = mx_inbox s1" if "try_attach_receive_buffer alloc now mode tm s1 = (out, s2)" for mode tm out s1 s2
    using that try_attach_frame [OF ok] by (metis surj_pair)
  show ?thesis using run
    by (auto simp: force_allocation_progress_if_stalled_def replace_message_def dest!: a
        split: option.splits if_splits prod.splits sum.splits)
qed

lemma progress_inbox:
  fixes s s' :: "'w mpe_scheme"
  assumes ok: "allocator_ok alloc" and inv: "incoming_ok s" and run: "mpe_progress alloc stats cm s = (Inr (), s')"
  shows "arriving p s @ app_metadata (mx_inbox s' p) = app_metadata (mx_inbox s p)"
proof -
  obtain s1 mo s2 dt s3 where 1: "receive_peers alloc (cm_now cm) [0..<mx_nranks s] s = (Inr (), s1)"
    and 2: "setup_data_receives alloc (cm_now cm) s1 = (Inr mo, s2)"
    and 3: "complete_data_transfers stats cm s2 = (Inr dt, s3)"
    and s': "s' = cleanup_completed_operations cm (s3\<lparr>mx_received := mx_received s3 @ mo @ dt\<rparr>)"
    using run by (auto simp: mpe_progress_def act_bind_cases receive_metadata_def)
  have i1: "incoming_ok s1" using receive_peers_queues [OF ok 1 distinct_upt inv] by blast
  obtain u where f: "force_allocation_progress_if_stalled alloc (cm_now cm) s1 = (Inr (), u)"
    and r: "(case setup_ranks alloc (cm_now cm) (mx_incoming u) u of ((out, rest), s2) \<Rightarrow> (out, s2\<lparr>mx_incoming := rest\<rparr>)) = (Inr mo, s2)"
    using 2 by (auto simp: setup_data_receives_def act_bind_cases)
  from r obtain rest v where sr: "setup_ranks alloc (cm_now cm) (mx_incoming u) u = ((Inr mo, rest), v)"
    and s2: "s2 = v\<lparr>mx_incoming := rest\<rparr>" by (auto split: prod.splits)
  have u: "incoming_ok u" using force_queues [OF ok f i1] i1 by (auto simp: appends_def)
  then have "keys_ok (mx_incoming u)" "keys_ok (mx_in_transit u)" by (simp_all add: incoming_ok_def)
  note R = setup_ranks_queues [OF ok sr this]
  then have i2: "mx_inbox s2 = mx_inbox s1" "keys_ok (mx_in_transit s2)" using force_inbox [OF ok f] by (simp_all add: s2)
  have "mx_inbox s3 = mx_inbox s2"
    using 3 complete_ranks_queues [of stats cm "mx_in_transit s2" s2] i2(2)
    by (auto simp: complete_data_transfers_def split: if_splits prod.splits)
  then show ?thesis using receive_peers_inbox [OF ok 1 distinct_upt inv, of p] i2(1)
    by (simp add: s' cleanup_completed_operations_def arriving_def)
qed

datatype mpe_event = Arrives nat "u8 list list" | Progresses comm | Takes | Sends "message list" | Finishes

text \<open>An event on the exchange and on the list of all messages \<open>recv\<close> has returned.\<close>

fun mpe_event_step :: "'w allocator \<Rightarrow> bool \<Rightarrow> mpe_event \<Rightarrow> ('w mpe_scheme \<times> message list, unit) act" where
  "mpe_event_step alloc stats (Arrives p ms) (s, d) =
     (Inr (), (s\<lparr>mx_inbox := (mx_inbox s)(p := mx_inbox s p @ ms)\<rparr>, d))"
| "mpe_event_step alloc stats (Progresses cm) (s, d) = (case mpe_progress alloc stats cm s of (r, s') \<Rightarrow> (r, (s', d)))"
| "mpe_event_step alloc stats Takes (s, d) = (case mpe_recv s of (out, s') \<Rightarrow> (Inr (), (s', d @ out)))"
| "mpe_event_step alloc stats (Sends ms) (s, d) = (case mpe_send ms s of (r, s') \<Rightarrow> (r, (s', d)))"
| "mpe_event_step alloc stats Finishes (s, d) = (case mpe_finish s of (r, s') \<Rightarrow> (r, (s', d)))"

fun mpe_run :: "'w allocator \<Rightarrow> bool \<Rightarrow> mpe_event list \<Rightarrow> ('w mpe_scheme \<times> message list, unit) act" where
  "mpe_run alloc stats [] sd = (Inr (), sd)"
| "mpe_run alloc stats (e # es) sd = act_bind (mpe_event_step alloc stats e) (\<lambda>_. mpe_run alloc stats es) sd"

fun arrived :: "nat \<Rightarrow> mpe_event list \<Rightarrow> u8 list list" where
  "arrived p [] = []"
| "arrived p (e # es) = (case e of Arrives q ms \<Rightarrow> if q = p then ms @ arrived p es else arrived p es | _ \<Rightarrow> arrived p es)"

definition history :: "nat \<Rightarrow> 'w mpe_scheme \<times> message list \<Rightarrow> u8 list list" where
  "history p sd = from_peer p (snd sd) @ pipeline p (fst sd) @ app_metadata (mx_inbox (fst sd) p)"

lemma send_each_queues:
  "queues (snd (send_each ms s)) = queues s"
proof (induction ms arbitrary: s)
  case Nil
  then show ?case by simp
next
  case (Cons m ms)
  have "queues (snd (send_one m s)) = queues s"
    by (simp add: send_one_def Let_def queues_def)
  then show ?case using Cons.IH by (auto simp: act_bind_def split: prod.splits sum.splits)
qed

lemma queues_history:
  "queues s' = queues s \<Longrightarrow> history p (s', d) = history p (s, d) \<and> incoming_ok s' = incoming_ok s"
  by (simp add: queues_def history_def pipeline_def incoming_ok_def)

lemma mpe_event_step_history:
  fixes s s' :: "'w mpe_scheme"
  assumes ok: "allocator_ok alloc" and inv: "incoming_ok s" and run: "mpe_event_step alloc stats e (s, d) = (Inr (), (s', d'))"
  shows "history p (s', d') = history p (s, d) @ app_metadata (arrived p [e]) \<and> incoming_ok s'"
proof (cases e)
  case (Arrives q ms)
  then show ?thesis using run inv by (auto simp: history_def pipeline_def incoming_ok_def)
next
  case (Progresses cm)
  then have 1: "mpe_progress alloc stats cm s = (Inr (), s')" "d' = d" using run by (auto split: prod.splits)
  show ?thesis using progress_pipeline [OF ok inv 1(1)] progress_inbox [OF ok inv 1(1), of p] 1(2)
    by (simp add: history_def Progresses)
next
  case Takes
  then show ?thesis using run inv by (auto simp: mpe_recv_def history_def pipeline_def incoming_ok_def)
next
  case (Sends ms)
  then have 1: "snd (mpe_send ms s) = s'" "d' = d" using run by (auto split: prod.splits)
  then have "queues s' = queues s" using send_each_queues [of ms s] by (auto simp: mpe_send_def)
  then show ?thesis using queues_history [of s' s p d] inv 1(2) by (simp add: Sends)
next
  case Finishes
  then have 1: "snd (mpe_finish s) = s'" "d' = d" using run by (auto split: prod.splits)
  then have "queues s' = queues s" by (auto simp: mpe_finish_def queues_def)
  then show ?thesis using queues_history [of s' s p d] inv 1(2) by (simp add: Finishes)
qed

lemma mpe_run_history:
  fixes s s' :: "'w mpe_scheme"
  assumes ok: "allocator_ok alloc" and "incoming_ok s" and "mpe_run alloc stats es (s, d) = (Inr (), (s', d'))"
  shows "history p (s', d') = history p (s, d) @ app_metadata (arrived p es)"
  using assms(2-)
proof (induction es arbitrary: s d)
  case Nil
  then show ?case by simp
next
  case (Cons e es)
  obtain s1 d1 where 1: "mpe_event_step alloc stats e (s, d) = (Inr (), (s1, d1))"
    and 2: "mpe_run alloc stats es (s1, d1) = (Inr (), (s', d'))"
    using Cons.prems(2) by (auto simp: act_bind_cases)
  note H = mpe_event_step_history [OF ok Cons.prems(1) 1]
  then have "incoming_ok s1" by blast
  from Cons.IH [OF this 2] H [of p] show ?case by (simp split: mpe_event.splits)
qed

section \<open>The trailer and the identifiers\<close>

lemma get_put_trailer: "get_trailer (put_trailer t) = Inr t"
proof -
  obtain a m p where t: "t = (a, m, p)" by (metis surj_pair)
  have r: "rd64 (put_trailer t) (length a) = Inr m" "rd64 (put_trailer t) (length a + 8) = Inr p"
    using rd64_enc [of a "length a" m "enc64 p"] rd64_enc [of "a @ enc64 m" "length a + 8" p "[]"]
    by (simp_all add: t put_trailer_def)
  have l: "length (put_trailer t) = length a + 16" "take (length a) (put_trailer t) = a"
    by (simp_all add: t put_trailer_def)
  show ?thesis using r l by (simp add: get_trailer_def Let_def) (simp add: t)
qed

lemma put_get_trailer: "get_trailer bs = Inr t \<Longrightarrow> put_trailer t = bs"
proof -
  assume g: "get_trailer bs = Inr t"
  define n where "n = length bs - 16"
  have len: "length bs = n + 16" using g by (simp add: get_trailer_def n_def split: if_splits)
  obtain mid payload where t: "t = (take n bs, mid, payload)"
    and r: "rd64 bs n = Inr mid" "rd64 bs (n + 8) = Inr payload"
    using g len by (auto simp: get_trailer_def Let_def res_bind_eq_Inr)
  have "take 8 (drop (n + 8) bs) = drop 8 (drop n bs)" using len by (simp add: add.commute)
  then have "take 8 (drop n bs) @ take 8 (drop (n + 8) bs) = drop n bs" by (simp only: append_take_drop_id)
  then show ?thesis
    using enc64_rd64 [OF r(1)] enc64_rd64 [OF r(2)] by (simp add: t put_trailer_def)
qed

interpretation trailer_wire: wire_format put_trailer get_trailer "\<lambda>_. True"
  by unfold_locales (simp_all add: get_put_trailer put_get_trailer)

lemma message_id_value:
  "r < 2 ^ 31 \<Longrightarrow> i < 2 ^ 32 \<Longrightarrow> unat (push_bit 32 (word_of_nat r) OR word_of_nat i :: u64) = r * 2 ^ 32 + i"
  by (rule unat_packed_id) simp_all

section \<open>Properties\<close>

text \<open>Property C4: messages of a peer arrive in order and exactly once. Over any run of an exchange that starts empty
  (metadata arriving, progress calls with whatever completions the communicator reports, receives of the
  client, its own sends and its finish), the messages handed to the client from a peer are a prefix of the
  application messages that peer's metadata announced, in the peer's order, whatever the sizes of their
  payloads and the order in which the payloads complete; and once nothing of the peer is queued, in transit or
  unread, they are all of them.\<close>

theorem exchange_in_order:
  fixes s s' :: "'w mpe_scheme"
  assumes "allocator_ok alloc" and "mx_incoming s = []" and "mx_in_transit s = []" and "mx_received s = []"
    and "mx_inbox s p = []" and "mpe_run alloc stats es (s, []) = (Inr (), (s', d))"
  shows "prefix (from_peer p d) (app_metadata (arrived p es)) \<and>
    (mx_incoming s' = [] \<and> mx_in_transit s' = [] \<and> mx_received s' = [] \<and> mx_inbox s' p = [] \<longrightarrow>
      from_peer p d = app_metadata (arrived p es))"
proof -
  have e: "entry q [] = []" for q by (simp add: entry_def)
  have "incoming_ok s" using assms(2,3) by (simp add: incoming_ok_def keys_ok_def e)
  from mpe_run_history [OF assms(1) this assms(6), of p]
  have h: "history p (s', d) = app_metadata (arrived p es)"
    using assms(2-5) by (simp add: history_def pipeline_def e)
  have "prefix (from_peer p d) (history p (s', d))" by (simp add: history_def)
  moreover have "from_peer p d = history p (s', d)"
    if "mx_incoming s' = []" "mx_in_transit s' = []" "mx_received s' = []" "mx_inbox s' p = []"
    using that by (simp add: history_def pipeline_def e)
  ultimately show ?thesis using h by auto
qed

definition example_mpe :: mpe where
  "example_mpe = new_mpe 0 2 10 example_br"

definition example_alloc :: "unit allocator" where
  "example_alloc n mode s = (Inr (Some (example_buffer HOST [0, 0])), s)"

definition reports :: "nat list \<Rightarrow> comm" where
  "reports done = \<lparr>cm_done = done, cm_sends_done = [], cm_payload = (\<lambda>_. [1, 2]), cm_now = 0\<rparr>"

definition example_run :: "mpe_event list" where
  "example_run = [Arrives 1 [put_trailer ([7], 5, 2), put_trailer ([8], 6, 0)], Progresses (reports []),
     Progresses (reports [5]), Progresses (reports []), Takes]"

theorem exchange_in_order_witness:
  "\<exists>s' d. mpe_run example_alloc False example_run (example_mpe, []) = (Inr (), (s', d)) \<and> from_peer 1 d = [[7], [8]]"
proof -
  have ok: "allocator_ok example_alloc" by (simp add: allocator_ok_def example_alloc_def)
  have "\<exists>s' d. mpe_run example_alloc False example_run (example_mpe, []) = (Inr (), (s', d)) \<and>
      mx_incoming s' = [] \<and> mx_in_transit s' = [] \<and> mx_received s' = [] \<and> mx_inbox s' 1 = []"
    by (simp add: example_run_def mpe_progress_def receive_metadata_def example_mpe_def new_mpe_def br.extend_def upt_rec peer_done_def
        get_put_trailer termination_sentinel_def accept_message_def new_message_def enqueue_message_def
        count_awaiting_def try_attach_receive_buffer_def is_awaiting_buffer_def example_alloc_def replace_message_def
        start_stall_def setup_data_receives_def force_allocation_progress_if_stalled_def entry_def put_entry_def
        post_receive_def is_latest_write_done_def throw_if_locked_def example_buffer_def keep_entry_def
        complete_data_transfers_def reports_def finish_receive_def unlock_def msg_set_data_def mpe_recv_def
        cleanup_completed_operations_def)
  then obtain s' d where r: "mpe_run example_alloc False example_run (example_mpe, []) = (Inr (), (s', d))"
    "mx_incoming s' = []" "mx_in_transit s' = []" "mx_received s' = []" "mx_inbox s' 1 = []" by blast
  have "from_peer 1 d = app_metadata (arrived 1 example_run)"
    using exchange_in_order [OF ok _ _ _ _ r(1), of 1] r(2-) by (simp add: example_mpe_def new_mpe_def br.extend_def)
  then show ?thesis using r(1) by (simp add: example_run_def get_put_trailer termination_sentinel_def)
qed

definition wire_metadata :: "nat \<Rightarrow> (nat \<times> wire_item) list \<Rightarrow> u8 list list" where
  "wire_metadata q items =
     concat (map (\<lambda>(p, w). case w of Wire_Metadata m \<Rightarrow> if p = q then [m] else [] | Wire_Payload _ \<Rightarrow> []) items)"

lemma wire_metadata_simps [simp]: "wire_metadata q (xs @ ys) = wire_metadata q xs @ wire_metadata q ys"
  "wire_metadata q [] = []"
  "wire_metadata q ((p, Wire_Metadata m) # xs) = (if p = q then m # wire_metadata q xs else wire_metadata q xs)"
  "wire_metadata q ((p, Wire_Payload b) # xs) = wire_metadata q xs"
  by (simp_all add: wire_metadata_def)

lemma send_each_wire:
  assumes "send_each ms s = (Inr (), s')" and "mx_rank s < 2 ^ 31" and "mx_next_id s + length ms \<le> 2 ^ 32"
  shows "app_metadata (wire_metadata q (mx_fire_and_forget s')) = app_metadata (wire_metadata q (mx_fire_and_forget s)) @ from_peer q ms \<and>
    mx_sent_to s' q = mx_sent_to s q + length (from_peer q ms)"
  using assms
proof (induction ms arbitrary: s)
  case Nil
  then show ?case by simp
next
  case (Cons m ms)
  obtain s1 where 1: "send_one m s = (Inr (), s1)" "send_each ms s1 = (Inr (), s')"
    using Cons.prems(1) by (auto simp: act_bind_cases)
  have f: "mx_rank s1 = mx_rank s" "mx_next_id s1 = mx_next_id s + 1"
    "mx_sent_to s1 = (mx_sent_to s)(msg_peer m := mx_sent_to s (msg_peer m) + 1)"
    using 1(1) by (auto simp: send_one_def Let_def split: if_splits)
  have "unat (push_bit 32 (word_of_nat (mx_rank s)) OR word_of_nat (mx_next_id s) :: u64) \<noteq> termination_sentinel"
    using Cons.prems(2,3) message_id_value [of "mx_rank s" "mx_next_id s"] by (simp add: termination_sentinel_def)
  then have "app_metadata (wire_metadata q (mx_fire_and_forget s1)) =
      app_metadata (wire_metadata q (mx_fire_and_forget s)) @ from_peer q [m]"
    using 1(1) by (auto simp: send_one_def Let_def get_put_trailer split: if_splits)
  then show ?case using Cons.IH [OF 1(2)] Cons.prems(2,3) by (simp add: f)
qed

text \<open>Property C23: what a send puts on the wire. An accepted batch of messages adds to the outgoing queue, for every
  destination, metadata messages that announce exactly the metadata of the batch for that destination, in order.
  Ranks are below \<open>2 ^ 31\<close>, so no identifier is the termination marker's as long as fewer than \<open>2 ^ 32\<close> messages
  are sent.\<close>

theorem send_announces:
  assumes "mx_rank s < 2 ^ 31" and "mx_next_id s + length ms \<le> 2 ^ 32" and "mpe_send ms s = (Inr (), s')"
  shows "app_metadata (wire_metadata q (mx_fire_and_forget s')) = app_metadata (wire_metadata q (mx_fire_and_forget s)) @ from_peer q ms \<and>
    mx_sent_to s' q = mx_sent_to s q + length (from_peer q ms)"
  using assms send_each_wire [of ms s s' q] by (auto simp: mpe_send_def split: if_splits)

theorem send_announces_witness:
  "\<exists>s'. mpe_send [\<lparr>msg_peer = 1, msg_metadata = [3], msg_data = None\<rparr>] example_mpe = (Inr (), s') \<and>
     app_metadata (wire_metadata 1 (mx_fire_and_forget s')) = [[3]]"
proof -
  have "\<exists>s'. mpe_send [\<lparr>msg_peer = 1, msg_metadata = [3], msg_data = None\<rparr>] example_mpe = (Inr (), s')"
    by (simp add: mpe_send_def sendable_def send_one_def Let_def example_mpe_def new_mpe_def br.extend_def)
  then obtain s' where "mpe_send [\<lparr>msg_peer = 1, msg_metadata = [3], msg_data = None\<rparr>] example_mpe = (Inr (), s')" by blast
  from send_announces [OF _ _ this, of 1] this show ?thesis
    by (auto simp: example_mpe_def new_mpe_def br.extend_def)
qed

lemma first_awaiting_spec:
  "sorted (map tm_arrival tms) \<Longrightarrow>
     (case first_awaiting tms of
        None \<Rightarrow> \<forall>x\<in>set tms. \<not> is_awaiting_buffer x
      | Some (i, tm) \<Rightarrow> i < length tms \<and> tms ! i = tm \<and> is_awaiting_buffer tm \<and>
          (\<forall>x\<in>set tms. is_awaiting_buffer x \<longrightarrow> tm_arrival tm \<le> tm_arrival x))"
  by (induction tms) (auto split: option.splits)

definition waiting :: "(nat \<times> tag_message list) list \<Rightarrow> tag_message set" where
  "waiting m = {x. is_awaiting_buffer x \<and> (\<exists>(p, tms)\<in>set m. x \<in> set tms)}"

lemma waiting_Cons: "waiting ((p, tms) # m) = {x \<in> set tms. is_awaiting_buffer x} \<union> waiting m"
  by (auto simp: waiting_def)

text \<open>The message a stalled exchange forces an allocation for is the oldest one waiting. If the queue of each
  peer is in order of arrival, the choice fails only when no message waits for a buffer, and otherwise takes a
  message that waits, at its place in its peer's queue, with no waiting message of any peer older.\<close>

theorem oldest_awaiting_minimal:
  assumes "\<forall>(p, tms)\<in>set m. sorted (map tm_arrival tms)"
  shows "case oldest_awaiting m of
      None \<Rightarrow> waiting m = {}
    | Some (p, i, tm) \<Rightarrow> (\<exists>tms. (p, tms) \<in> set m \<and> i < length tms \<and> tms ! i = tm) \<and> tm \<in> waiting m \<and>
        (\<forall>x\<in>waiting m. tm_arrival tm \<le> tm_arrival x)"
  using assms
proof (induction m)
  case Nil
  then show ?case by (simp add: waiting_def)
next
  case (Cons e m)
  obtain q tms where e: "e = (q, tms)" by fastforce
  have s: "sorted (map tm_arrival tms)" using Cons.prems by (simp add: e)
  have I: "case oldest_awaiting m of
      None \<Rightarrow> waiting m = {}
    | Some (p, i, tm) \<Rightarrow> (\<exists>tms. (p, tms) \<in> set m \<and> i < length tms \<and> tms ! i = tm) \<and> tm \<in> waiting m \<and>
        (\<forall>x\<in>waiting m. tm_arrival tm \<le> tm_arrival x)"
    using Cons.IH Cons.prems by simp
  note F = first_awaiting_spec [OF s]
  have W: "waiting (e # m) = {x \<in> set tms. is_awaiting_buffer x} \<union> waiting m" by (simp add: e waiting_Cons)
  show ?case
  proof (cases "first_awaiting tms")
    case None
    then have "waiting (e # m) = waiting m" using F W by auto
    then show ?thesis using None I by (cases "oldest_awaiting m") (auto simp: e)
  next
    case (Some r)
    obtain i tm where r: "r = (i, tm)" by fastforce
    have f: "i < length tms" "tms ! i = tm" "is_awaiting_buffer tm"
      "\<And>x. x \<in> set tms \<Longrightarrow> is_awaiting_buffer x \<Longrightarrow> tm_arrival tm \<le> tm_arrival x"
      using F Some by (auto simp: r)
    have mem: "tm \<in> waiting (e # m)" using f(1-3) by (auto simp: W)
    show ?thesis
    proof (cases "oldest_awaiting m")
      case None
      then show ?thesis using Some f mem I by (auto simp: r e waiting_Cons)
    next
      case O: (Some r2)
      obtain p j tm2 where r2: "r2 = (p, j, tm2)" by (metis surj_pair)
      have g: "\<exists>tms. (p, tms) \<in> set m \<and> j < length tms \<and> tms ! j = tm2" "tm2 \<in> waiting m"
        "\<And>x. x \<in> waiting m \<Longrightarrow> tm_arrival tm2 \<le> tm_arrival x"
        using I O by (auto simp: r2)
      show ?thesis
      proof (cases "tm_arrival tm2 < tm_arrival tm")
        case True
        then have "\<forall>x\<in>waiting (e # m). tm_arrival tm2 \<le> tm_arrival x" using f(4) g(3) by (fastforce simp: W)
        then show ?thesis using True Some O g(1,2) by (auto simp: r r2 e waiting_Cons)
      next
        case False
        then have "\<forall>x\<in>waiting (e # m). tm_arrival tm \<le> tm_arrival x" using f(4) g(3) by (fastforce simp: W)
        then show ?thesis using False Some O f(1,2) mem by (auto simp: r r2 e)
      qed
    qed
  qed
qed

theorem oldest_awaiting_minimal_witness:
  "oldest_awaiting [(4, [\<lparr>tm_message = \<lparr>msg_peer = 4, msg_metadata = [], msg_data = None\<rparr>, tm_id = 1, tm_payload = 3, tm_arrival = 9, tm_forced = False\<rparr>])] \<noteq> None"
proof
  let ?m = "[(4, [\<lparr>tm_message = \<lparr>msg_peer = 4, msg_metadata = [], msg_data = None\<rparr>, tm_id = 1, tm_payload = 3, tm_arrival = 9, tm_forced = False\<rparr>])]"
  assume "oldest_awaiting ?m = None"
  with oldest_awaiting_minimal [of ?m] have "waiting ?m = {}" by simp
  then show False by (simp add: waiting_def is_awaiting_buffer_def)
qed

end
