(* ===== verification/Shuffler.thy ===== *)
theory Shuffler
  imports Shuffle_Postbox Finish_Counter Metadata_Exchange Progress_Thread
begin

text \<open>
  The shuffler of \<^verbatim>\<open>shuffler/shuffler.cpp\<close>, on the tag-based exchange. Its state extends the buffer
  resource and the received chunks, and holds the exchange, which shares the same resource. The
  spill manager, whose functions act on that state, is carried beside it where the code calls it.
  \<open>partition_owner\<close> is a parameter fixed at construction; the two owners the code provides are defined.
  The stream the pool hands out and what the communicator reports are inputs of \<open>progress\<close>.
\<close>

section \<open>Owners of partitions\<close>

text \<open>
  Both cast the result to a signed rank. That cast cannot fail for a partition below the number of partitions, where the
  result is below the number of ranks; for others the code may throw where these definitions return a number.
\<close>

definition round_robin :: "nat \<Rightarrow> u32 \<Rightarrow> u32 \<Rightarrow> nat" where
  "round_robin nranks pid npartitions = unat (pid mod word_of_nat nranks)"

definition contiguous :: "nat \<Rightarrow> u32 \<Rightarrow> u32 \<Rightarrow> nat" where
  "contiguous nranks pid npartitions = unat ((pid * word_of_nat nranks) div npartitions)"

definition local_partitions :: "(u32 \<Rightarrow> nat) \<Rightarrow> nat \<Rightarrow> nat \<Rightarrow> u32 list" where
  "local_partitions owner npartitions rank =
     map word_of_nat (filter (\<lambda>i. owner (word_of_nat i) = rank) [0..<npartitions])"

section \<open>Receive buffers\<close>

text \<open>Host memory is overbooked as a last resort, for a forced allocation only.\<close>

definition make_and_drop :: "stream \<Rightarrow> reservation \<Rightarrow> ('w br_scheme, buffer) act" where
  "make_and_drop strm res = with_reservation res (\<lambda>st. make_buffer (res_size (snd st)) strm st)"

definition allocate_receive_buffer :: "stream \<Rightarrow> nat \<Rightarrow> alloc_mode \<Rightarrow> ('w br_scheme, buffer option) act" where
  "allocate_receive_buffer strm n mode b =
     (case try_reserve n ADDRESSABLE_MEMORY_TYPES b of
        (Inl e, b1) \<Rightarrow> (Inl e, b1)
      | (Inr (Some res), b1) \<Rightarrow> act_bind (make_and_drop strm res) (\<lambda>d. act_return (Some d)) b1
      | (Inr None, b1) \<Rightarrow>
          if mode = May_Fail then (Inr None, b1)
          else if br_default_overbooking b1 \<noteq> Overbooking_YES then (Inl Runtime_Error, b1)
          else case reserve HOST n Overbooking_YES b1 of
                 (Inl e, b2) \<Rightarrow> (Inl e, b2)
               | (Inr (res, _), b2) \<Rightarrow> act_bind (make_and_drop strm res) (\<lambda>d. act_return (Some d)) b2)"

section \<open>The state\<close>

record shuffler = received +
  sh_rank :: nat
  sh_nranks :: nat
  sh_npartitions :: nat
  sh_owner :: "u32 \<Rightarrow> nat"
  sh_active :: bool
  sh_locally_finished :: bool
  sh_can_extract :: bool
  sh_to_send :: chunks_to_send
  sh_mpe :: mpe
  sh_mpe_finish_called :: bool
  sh_spill_id :: nat
  sh_local_partitions :: "u32 list"
  sh_finish :: finish_counter
  sh_outbound :: "nat \<Rightarrow> nat"
  sh_cid :: u64
  sh_callback :: bool
  sh_callback_calls :: nat

text \<open>An operation of the exchange, on the shared buffer resource; an operation of the finish counter.\<close>

definition load_mpe :: "'w shuffler_scheme \<Rightarrow> mpe" where
  "load_mpe s = br.extend (br.truncate s) (br.more (sh_mpe s))"

definition store_mpe :: "mpe \<Rightarrow> 'w shuffler_scheme \<Rightarrow> 'w shuffler_scheme" where
  "store_mpe m s = (br.extend (br.truncate m) (br.more s))\<lparr>sh_mpe := m\<rparr>"

definition with_mpe :: "(mpe, 'a) act \<Rightarrow> ('w shuffler_scheme, 'a) act" where
  "with_mpe op s = (case op (load_mpe s) of (r, m) \<Rightarrow> (r, store_mpe m s))"

definition with_finish :: "(finish_counter, 'a) act \<Rightarrow> ('w shuffler_scheme, 'a) act" where
  "with_finish op s = (case op (sh_finish s) of (r, fc) \<Rightarrow> (r, s\<lparr>sh_finish := fc\<rparr>))"

section \<open>Inserting\<close>

definition chunk_id_counter_bits :: nat where "chunk_id_counter_bits = 38"

definition extract_rank :: "u64 \<Rightarrow> nat" where
  "extract_rank cid = unat (drop_bit chunk_id_counter_bits cid)"

definition get_new_cid :: "'w shuffler_scheme \<Rightarrow> u64 \<times> 'w shuffler_scheme" where
  "get_new_cid s =
     (let lower = sh_cid s + 1 in
      (push_bit chunk_id_counter_bits (word_of_nat (sh_rank s)) OR lower, s\<lparr>sh_cid := lower\<rparr>))"

definition create_chunk :: "u32 \<Rightarrow> u8 list \<Rightarrow> buffer \<Rightarrow> ('w shuffler_scheme, chunk) act" where
  "create_chunk pid metadata d s =
     (case get_new_cid s of (cid, s') \<Rightarrow> (from_packed_data cid pid (Some metadata) (Some d), s'))"

definition insert_into_received :: "chunk \<Rightarrow> ('w shuffler_scheme, unit) act" where
  "insert_into_received c =
     act_bind
       (\<lambda>s. if is_control_message c
            then with_finish (move_goalpost (int (extract_rank (ck_id c))) (unat (ck_expected c))) s
            else (Inr (), s\<lparr>rc_chunks := rc_insert c (rc_chunks s)\<rparr>))
       (\<lambda>_. with_finish add_finished_chunk)"

text \<open>A chunk for another rank must be sendable; it is counted before it is stored.\<close>

definition insert_chunk :: "chunk \<Rightarrow> ('w shuffler_scheme, unit) act" where
  "insert_chunk c s =
     (let dst = sh_owner s (ck_part c) in
      if \<not> (dst = sh_rank s \<or> \<not> is_data_buffer_set c \<or> data_memory_type c \<in> Inr ` set sendable_memory_types) then
        (Inl Logic_Error, s)
      else if \<not> is_control_message c \<and> \<not> dst < sh_nranks s then (Inl Undefined, s)
      else
        let s1 = (if is_control_message c then s
                  else s\<lparr>sh_outbound := (sh_outbound s)(dst := (sh_outbound s dst + 1) mod 2 ^ 64)\<rparr>) in
        if dst = sh_rank s then insert_into_received c s1
        else (Inr (), s1\<lparr>sh_to_send := cts_insert c (sh_to_send s1)\<rparr>))"

text \<open>
  One partition of \<open>insert\<close>: made sendable if it is for another rank; if device memory is
  overdrawn, a chunk in device memory is spilled on its way in.
\<close>

definition spill_and_insert :: "u32 \<Rightarrow> u8 list \<Rightarrow> buffer \<Rightarrow> ('w shuffler_scheme \<times> reservation, unit) act" where
  "spill_and_insert pid metadata d st =
     (case create_chunk pid metadata d (fst st) of
        (Inl e, s) \<Rightarrow> (Inl e, (s, snd st))
      | (Inr c, s) \<Rightarrow>
          (case release_data_buffer c of
             (None, c1) \<Rightarrow> (Inl Undefined, (s, snd st))
           | (Some buf, c1) \<Rightarrow>
               act_bind (move_buffer (rc_stats s) buf) (\<lambda>moved (s1, r1).
                 (case set_data_buffer (Some moved) c1 of
                    Inl e \<Rightarrow> (Inl e, (s1, r1))
                  | Inr c2 \<Rightarrow> (case insert_chunk c2 s1 of (out, s2) \<Rightarrow> (out, (s2, r1))))) (s, snd st)))"

definition insert_partition :: "u32 \<Rightarrow> packed_data \<Rightarrow> ('w shuffler_scheme, unit) act" where
  "insert_partition pid p s =
     (if packed_empty p then (Inr (), s)
      else act_bind
        (\<lambda>s0. if sh_owner s0 pid \<noteq> sh_rank s0
              then ensure_memory_type (rc_stats s0) (Some (pd_data p)) sendable_memory_types s0
              else (Inr (pd_data p), s0))
        (\<lambda>d s1.
           case memory_available DEVICE s1 of
             Inl e \<Rightarrow> (Inl e, s1)
           | Inr headroom \<Rightarrow>
               if headroom < 0 \<and> buf_mem d = DEVICE then
                 act_bind (reserve_or_fail (buf_size d) SPILL_TARGET_MEMORY_TYPES)
                   (\<lambda>res. with_reservation res (spill_and_insert pid (pd_metadata p) d)) s1
               else act_bind (create_chunk pid (pd_metadata p) d) insert_chunk s1) s)"

fun insert_partitions :: "(u32 \<times> packed_data) list \<Rightarrow> ('w shuffler_scheme, unit) act" where
  "insert_partitions [] s = (Inr (), s)"
| "insert_partitions ((pid, p) # rest) s = act_bind (insert_partition pid p) (\<lambda>_. insert_partitions rest) s"

definition shuffler_insert ::
  "(u32 \<times> packed_data) list \<Rightarrow> (('w shuffler_scheme) spill_manager \<times> 'w shuffler_scheme, unit) act" where
  "shuffler_insert chunks st =
     (if sh_locally_finished (snd st) then (Inl Logic_Error, st)
      else case insert_partitions chunks (snd st) of
             (Inl e, s) \<Rightarrow> (Inl e, (fst st, s))
           | (Inr _, s) \<Rightarrow>
               (case spill_to_make_headroom 0 (fst st, s) of
                  (Inl e, st') \<Rightarrow> (Inl e, st')
                | (Inr _, st') \<Rightarrow> (Inr (), st')))"

section \<open>Finishing\<close>

text \<open>The last partition each rank owns represents it; a rank that owns none gets no control message.\<close>

fun representatives :: "(u32 \<Rightarrow> nat) \<Rightarrow> nat \<Rightarrow> nat list \<Rightarrow> (nat \<Rightarrow> nat option) \<Rightarrow> (nat \<Rightarrow> nat option) result" where
  "representatives owner nranks [] f = Inr f"
| "representatives owner nranks (p # ps) f =
     (let r = owner (word_of_nat p) in
      if \<not> r < nranks then Inl Undefined else representatives owner nranks ps (f(r := Some p)))"

fun insert_controls :: "(nat \<Rightarrow> nat option) \<Rightarrow> nat list \<Rightarrow> ('w shuffler_scheme, unit) act" where
  "insert_controls f [] s = (Inr (), s)"
| "insert_controls f (r # rs) s =
     (case f r of
        None \<Rightarrow> insert_controls f rs s
      | Some pid \<Rightarrow>
          (case get_new_cid s of (cid, s1) \<Rightarrow>
             act_bind (insert_chunk (from_finished_partition cid (word_of_nat pid) (word_of_nat (sh_outbound s1 r + 1))))
               (\<lambda>_. insert_controls f rs) s1))"

definition shuffler_insert_finished :: "('w shuffler_scheme, unit) act" where
  "shuffler_insert_finished s =
     (case representatives (sh_owner s) (sh_nranks s) [0..<sh_npartitions s] (\<lambda>_. None) of
        Inl e \<Rightarrow> (Inl e, s)
      | Inr f \<Rightarrow>
          (case insert_controls f [0..<sh_nranks s] s of
             (Inl e, s') \<Rightarrow> (Inl e, s')
           | (Inr _, s') \<Rightarrow> (Inr (), s'\<lparr>sh_locally_finished := True\<rparr>)))"

section \<open>Extracting, waiting and spilling\<close>

fun release_chunks :: "chunk list \<Rightarrow> packed_data list result" where
  "release_chunks [] = Inr []"
| "release_chunks (c # cs) =
     res_bind (make_packed_data (ck_metadata c) (ck_data c)) (\<lambda>p.
     res_bind (release_chunks cs) (\<lambda>ps. Inr (p # ps)))"

definition shuffler_extract :: "u32 \<Rightarrow> ('w shuffler_scheme, packed_data list) act" where
  "shuffler_extract pid s =
     (if rc_is_empty pid (rc_chunks s) then (Inr [], s)
      else case rc_extract pid (rc_chunks s) of
             (Inl e, ph) \<Rightarrow> (Inl e, s\<lparr>rc_chunks := ph\<rparr>)
           | (Inr cs, ph) \<Rightarrow> (release_chunks cs, s\<lparr>rc_chunks := ph\<rparr>))"

definition shuffler_finished :: "'w shuffler_scheme \<Rightarrow> bool" where
  "shuffler_finished s \<longleftrightarrow> all_finished (sh_finish s) \<and> rc_empty (rc_chunks s)"

text \<open>\<open>wait\<close>: \<open>None\<close> while it blocks; \<open>timed_out\<close> is whether a given timeout has passed.\<close>

definition shuffler_wait :: "bool \<Rightarrow> 'w shuffler_scheme \<Rightarrow> unit result option" where
  "shuffler_wait timed_out s =
     (if sh_can_extract s then Some (Inr ()) else if timed_out then Some (Inl Runtime_Error) else None)"

definition shuffler_spill :: "nat option \<Rightarrow> ('w shuffler_scheme, nat) act" where
  "shuffler_spill amount s =
     (case (case amount of
              Some n \<Rightarrow> Inr n
            | None \<Rightarrow> res_bind (memory_available DEVICE s) (\<lambda>headroom.
                if headroom < 0 then res_bind (chk64 \<bar>headroom\<bar>) to_size else Inr 0)) of
        Inl e \<Rightarrow> (Inl e, s)
      | Inr need \<Rightarrow> if need > 0 then rc_spill need s else (Inr 0, s))"

section \<open>One iteration of the event loop\<close>

fun convert_chunks_to_messages :: "(u32 \<Rightarrow> nat) \<Rightarrow> nat \<Rightarrow> chunk list \<Rightarrow> message list result" where
  "convert_chunks_to_messages owner rank [] = Inr []"
| "convert_chunks_to_messages owner rank (c # cs) =
     (let dst = owner (ck_part c) in
      if dst = rank then Inl Logic_Error
      else let (metadata, c1) = serialize_chunk c; (d, c2) = release_data_buffer c1 in
        res_bind (convert_chunks_to_messages owner rank cs) (\<lambda>ms.
          Inr (\<lparr>msg_peer = dst, msg_metadata = metadata, msg_data = d\<rparr> # ms)))"

definition submit_outgoing :: "('w shuffler_scheme, unit) act" where
  "submit_outgoing s =
     (case extract_ready (sh_to_send s) of
        (Inl e, cs) \<Rightarrow> (Inl e, s\<lparr>sh_to_send := cs\<rparr>)
      | (Inr ready, cs) \<Rightarrow>
          (let s1 = s\<lparr>sh_to_send := cs\<rparr> in
           if ready = [] then (Inr (), s1)
           else case convert_chunks_to_messages (sh_owner s) (sh_rank s) ready of
                  Inl e \<Rightarrow> (Inl e, s1)
                | Inr ms \<Rightarrow> with_mpe (mpe_send ms) s1))"

definition receive_message :: "stream \<Rightarrow> message \<Rightarrow> ('w shuffler_scheme, unit) act" where
  "receive_message strm m =
     act_bind (deserialize_chunk True False strm (msg_metadata m) (msg_data m)) (\<lambda>c s.
       if sh_owner s (ck_part c) \<noteq> sh_rank s then (Inl Logic_Error, s) else insert_into_received c s)"

fun receive_messages :: "stream \<Rightarrow> message list \<Rightarrow> ('w shuffler_scheme, unit) act" where
  "receive_messages strm [] s = (Inr (), s)"
| "receive_messages strm (m # ms) s = act_bind (receive_message strm m) (\<lambda>_. receive_messages strm ms) s"

definition process_communication :: "stream \<Rightarrow> comm \<Rightarrow> ('w shuffler_scheme, unit) act" where
  "process_communication strm cm s =
     act_bind (with_mpe (mpe_progress (allocate_receive_buffer strm) (rc_stats s) cm)) (\<lambda>_.
     act_bind (with_mpe (\<lambda>m. case mpe_recv m of (out, m') \<Rightarrow> (Inr out, m'))) (receive_messages strm)) s"

definition signal_mpe_finish :: "('w shuffler_scheme, unit) act" where
  "signal_mpe_finish s =
     (if \<not> sh_mpe_finish_called s \<and> sh_locally_finished s \<and> cts_empty (sh_to_send s) then
        act_bind (with_mpe mpe_finish) (\<lambda>_ s1. (Inr (), s1\<lparr>sh_mpe_finish_called := True\<rparr>)) s
      else (Inr (), s))"

definition containers_empty :: "'w shuffler_scheme \<Rightarrow> bool" where
  "containers_empty s \<longleftrightarrow> mpe_is_idle (sh_mpe s) \<and> cts_empty (sh_to_send s)"

definition is_finished :: "'w shuffler_scheme \<Rightarrow> bool" where
  "is_finished s \<longleftrightarrow> sh_locally_finished s \<and> all_finished (sh_finish s)"

text \<open>The moved-from callback is empty, so it is called once.\<close>

definition notify_extract :: "'w shuffler_scheme \<Rightarrow> 'w shuffler_scheme" where
  "notify_extract s =
     (if \<not> sh_can_extract s \<and> is_finished s \<and> containers_empty s then
        s\<lparr>sh_can_extract := True, sh_callback := False,
          sh_callback_calls := sh_callback_calls s + (if sh_callback s then 1 else 0)\<rparr>
      else s)"

definition shuffler_progress :: "stream \<Rightarrow> comm \<Rightarrow> ('w shuffler_scheme, progress_state) act" where
  "shuffler_progress strm cm =
     act_bind submit_outgoing (\<lambda>_.
     act_bind (process_communication strm cm) (\<lambda>_.
     act_bind signal_mpe_finish (\<lambda>_ s.
       (Inr (if \<not> sh_active s \<and> is_finished s \<and> containers_empty s then Done else InProgress),
        notify_extract s))))"

section \<open>Construction and shutdown\<close>

text \<open>The constructor registers the spill function; the registration of \<open>progress\<close> is the progress thread's.\<close>

definition fresh_shuffler ::
  "nat \<Rightarrow> nat \<Rightarrow> nat \<Rightarrow> (u32 \<Rightarrow> nat) \<Rightarrow> nat \<Rightarrow> bool \<Rightarrow> bool \<Rightarrow> br \<Rightarrow> shuffler" where
  "fresh_shuffler rank nranks npartitions owner timeout callback stats b =
     (let lp = local_partitions owner npartitions rank in
      br.extend b \<lparr>rc_chunks = [], rc_stats = stats, sh_rank = rank, sh_nranks = nranks,
        sh_npartitions = npartitions, sh_owner = owner, sh_active = True, sh_locally_finished = False,
        sh_can_extract = False, sh_to_send = [], sh_mpe = new_mpe rank nranks timeout b,
        sh_mpe_finish_called = False, sh_spill_id = 0, sh_local_partitions = lp,
        sh_finish = new_finish_counter nranks (length lp), sh_outbound = (\<lambda>_. 0), sh_cid = 0,
        sh_callback = callback, sh_callback_calls = 0\<rparr>)"

definition new_shuffler ::
  "nat \<Rightarrow> nat \<Rightarrow> nat \<Rightarrow> (u32 \<Rightarrow> nat) \<Rightarrow> nat \<Rightarrow> bool \<Rightarrow> bool \<Rightarrow> br \<Rightarrow> (shuffler spill_manager, shuffler) act" where
  "new_shuffler rank nranks npartitions owner timeout callback stats b sm =
     (if \<not> npartitions > 0 then (Inl Logic_Error, sm)
      else case add_spill_function (\<lambda>amount. shuffler_spill (Some amount)) 0 sm of
             (Inl e, sm') \<Rightarrow> (Inl e, sm')
           | (Inr fid, sm') \<Rightarrow>
               (Inr ((fresh_shuffler rank nranks npartitions owner timeout callback stats b)\<lparr>sh_spill_id := fid\<rparr>), sm'))"

text \<open>\<open>shutdown\<close>, also the destructor.\<close>

definition shutdown :: "(('w shuffler_scheme) spill_manager \<times> 'w shuffler_scheme, unit) act" where
  "shutdown st =
     (if \<not> sh_locally_finished (snd st) then (Inl Fatal, st)
      else if sh_active (snd st) then
        (Inr (), (remove_spill_function (sh_spill_id (snd st)) (fst st), (snd st)\<lparr>sh_active := False\<rparr>))
      else (Inr (), st))"

end
