(* ===== verification/Shuffle_Delivery.thy ===== *)
theory Shuffle_Delivery
  imports Shuffler
begin

text \<open>
  What the shuffler guarantees. The chunks a rank sends to another are its data chunks and one control
  message with their number; and whatever order the chunks of all ranks arrive in, each is stored once under
  its partition and the shuffle is finished exactly when the last one has arrived.
\<close>

section \<open>Delivery\<close>

definition arrival_of :: "chunk \<Rightarrow> arrival" where
  "arrival_of c =
     (if is_control_message c then Goal_Arrival (int (extract_rank (ck_id c))) (unat (ck_expected c)) else Data_Arrival)"

definition chunks_of :: "u32 \<Rightarrow> pigeonhole \<Rightarrow> chunk list" where
  "chunks_of pid ph = (case map_of ph pid of None \<Rightarrow> [] | Some cs \<Rightarrow> cs)"

lemma chunks_of_insert: "chunks_of pid (rc_insert c ph) = chunks_of pid ph @ (if ck_part c = pid then [c] else [])"
  by (simp add: chunks_of_def rc_insert_def update_conv')

definition store :: "chunk \<Rightarrow> pigeonhole \<Rightarrow> pigeonhole" where
  "store c ph = (if is_control_message c then ph else rc_insert c ph)"

fun deliver :: "chunk list \<Rightarrow> ('w shuffler_scheme, unit) act" where
  "deliver [] s = (Inr (), s)"
| "deliver (c # cs) s = act_bind (insert_into_received c) (\<lambda>_. deliver cs) s"

lemma insert_into_received_arrive:
  assumes "arrive (arrival_of c) (sh_finish s) = (Inr (), fc)"
  shows "insert_into_received c s = (Inr (), s\<lparr>rc_chunks := store c (rc_chunks s), sh_finish := fc\<rparr>)"
  using assms
  by (auto simp: insert_into_received_def arrival_of_def with_finish_def store_def act_bind_def
      split: if_splits prod.splits sum.splits)

lemma insert_into_received_Inr:
  assumes "insert_into_received c s = (Inr (), s')"
  shows "\<exists>fc. arrive (arrival_of c) (sh_finish s) = (Inr (), fc) \<and>
    s' = s\<lparr>rc_chunks := store c (rc_chunks s), sh_finish := fc\<rparr>"
  using assms
  by (auto simp: insert_into_received_def arrival_of_def with_finish_def store_def act_bind_def
      split: if_splits prod.splits sum.splits)

lemma deliver_arrive:
  assumes "arrive_all (map arrival_of cs) (sh_finish s) = (Inr (), fc)"
  shows "deliver cs s = (Inr (), s\<lparr>rc_chunks := foldl (\<lambda>ph c. store c ph) (rc_chunks s) cs, sh_finish := fc\<rparr>)"
  using assms
proof (induction cs arbitrary: s)
  case Nil
  then show ?case by simp
next
  case (Cons c cs)
  obtain fc1 where 1: "arrive (arrival_of c) (sh_finish s) = (Inr (), fc1)"
    and 2: "arrive_all (map arrival_of cs) fc1 = (Inr (), fc)"
    using Cons.prems by (auto simp: act_bind_cases)
  let ?s1 = "s\<lparr>rc_chunks := store c (rc_chunks s), sh_finish := fc1\<rparr>"
  have "deliver cs ?s1 = (Inr (), ?s1\<lparr>rc_chunks := foldl (\<lambda>ph c. store c ph) (rc_chunks ?s1) cs, sh_finish := fc\<rparr>)"
    by (rule Cons.IH) (use 2 in simp)
  then show ?case using insert_into_received_arrive [OF 1] by simp
qed

lemma chunks_of_store_all:
  "chunks_of pid (foldl (\<lambda>ph c. store c ph) ph cs) =
     chunks_of pid ph @ filter (\<lambda>c. \<not> is_control_message c \<and> ck_part c = pid) cs"
  by (induction cs arbitrary: ph) (auto simp: store_def chunks_of_insert)

text \<open>What the ranks owe a destination: their data chunks and a control message that counts them.\<close>

definition control_for :: "nat \<Rightarrow> nat \<Rightarrow> chunk \<Rightarrow> bool" where
  "control_for r n c \<longleftrightarrow> extract_rank (ck_id c) = r \<and> unat (ck_expected c) = n + 1"

definition owed :: "nat \<Rightarrow> (nat \<Rightarrow> chunk list) \<Rightarrow> (nat \<Rightarrow> chunk) \<Rightarrow> chunk list \<Rightarrow> bool" where
  "owed n sent control cs \<longleftrightarrow>
     mset cs = (\<Sum>r\<in>{..<n}. mset (sent r) + {#control r#}) \<and>
     (\<forall>r<n. (\<forall>c\<in>set (sent r). \<not> is_control_message c) \<and> control_for r (length (sent r)) (control r)) \<and>
     length cs < 2 ^ 64"

lemma mset_goals:
  "mset (goals (map arrival_of cs)) =
     image_mset (\<lambda>c. (int (extract_rank (ck_id c)), unat (ck_expected c))) (filter_mset is_control_message (mset cs))"
  by (induction cs) (auto simp: arrival_of_def)

lemma control_for_control: "control_for r n c \<Longrightarrow> is_control_message c"
  by (auto simp: control_for_def is_control_message_def word_less_nat_alt)

lemma owed_complete:
  assumes "owed n sent control cs"
  shows "complete_arrivals n (\<lambda>r. length (sent r)) (map arrival_of cs)"
proof -
  have m: "mset cs = (\<Sum>r\<in>{..<n}. mset (sent r) + {#control r#})" using assms by (simp add: owed_def)
  have f: "filter_mset is_control_message (mset (sent r)) = {#}" if "r < n" for r
    using assms that by (auto simp: owed_def filter_empty_conv simp flip: mset_filter)
  have c: "control_for r (length (sent r)) (control r)" if "r < n" for r using assms that by (simp add: owed_def)
  have "mset (goals (map arrival_of cs)) = image_mset (\<lambda>c. (int (extract_rank (ck_id c)), unat (ck_expected c)))
      (\<Sum>r\<in>{..<n}. {#control r#})"
  proof -
    have "filter_mset is_control_message (\<Sum>r\<in>A. mset (sent r) + {#control r#}) = (\<Sum>r\<in>A. {#control r#})"
      if "A \<subseteq> {..<n}" "finite A" for A
      using that(2,1) by (induction A) (auto simp: f dest!: c control_for_control)
    then show ?thesis by (simp add: mset_goals m)
  qed
  also have "\<dots> = (\<Sum>r\<in>{..<n}. {#(int r, length (sent r) + 1)#})"
  proof -
    have "image_mset (\<lambda>c. (int (extract_rank (ck_id c)), unat (ck_expected c))) (\<Sum>r\<in>A. {#control r#}) =
        (\<Sum>r\<in>A. {#(int r, length (sent r) + 1)#})" if "A \<subseteq> {..<n}" "finite A" for A
      using that(2,1) by (induction A) (auto simp: control_for_def dest!: c)
    then show ?thesis by simp
  qed
  also have "\<dots> = mset (map (\<lambda>r. (int r, length (sent r) + 1)) [0..<n])"
    by (induction n) (simp_all add: lessThan_Suc)
  finally have g: "mset (goals (map arrival_of cs)) = mset (map (\<lambda>r. (int r, length (sent r) + 1)) [0..<n])" .
  have "length cs = size (mset cs)" by simp
  also have "\<dots> = (\<Sum>r<n. length (sent r) + 1)" unfolding m by (simp add: size_multiset_sum)
  finally show ?thesis using g assms by (simp add: complete_arrivals_def owed_def)
qed

text \<open>Property C6: a destination receives every chunk once and finishes with the last one. Let the ranks
  \<open>r < n\<close> owe it the data chunks \<open>sent r\<close> and a control message that announces \<open>length (sent r) + 1\<close>
  chunks, and let all of these arrive in any order. Then no arrival fails; after any prefix \<open>p\<close> of the
  arrivals each partition holds exactly its data chunks of the prefix, in order of arrival; and the finish
  counter reports completion exactly when nothing is left to arrive.\<close>

theorem shuffle_delivery:
  assumes "owed n sent control (p @ q)" and "n > 0" and "k > 0"
    and "sh_finish s = new_finish_counter n k" and "rc_chunks s = []"
  shows "\<exists>s'. deliver p s = (Inr (), s') \<and>
    (\<forall>pid. chunks_of pid (rc_chunks s') = filter (\<lambda>c. \<not> is_control_message c \<and> ck_part c = pid) p) \<and>
    (all_finished (sh_finish s') \<longleftrightarrow> q = [])"
proof -
  have ca: "complete_arrivals n (\<lambda>r. length (sent r)) (map arrival_of p @ map arrival_of q)"
    using owed_complete [OF assms(1)] by simp
  obtain fc where fc: "arrive_all (map arrival_of p) (new_finish_counter n k) = (Inr (), fc)"
      "counter_at n (map arrival_of p) fc"
    using arrive_all_counter_at [OF ca assms(2,3)] by blast
  have "deliver p s = (Inr (), s\<lparr>rc_chunks := foldl (\<lambda>ph c. store c ph) (rc_chunks s) p, sh_finish := fc\<rparr>)"
    by (rule deliver_arrive) (simp add: assms(4) fc)
  moreover have "all_finished fc \<longleftrightarrow> map arrival_of q = []"
    using counter_at_finished [OF ca fc(2)] .
  ultimately show ?thesis by (simp add: chunks_of_store_all assms(5)) (simp add: chunks_of_def)
qed


section \<open>What a rank sends\<close>

text \<open>The chunks waiting for rank \<open>q\<close>, in order.\<close>

definition waiting_for :: "(u32 \<Rightarrow> nat) \<Rightarrow> nat \<Rightarrow> chunks_to_send \<Rightarrow> chunk list" where
  "waiting_for owner q cs = [c. Some c \<leftarrow> cs, owner (ck_part c) = q]"

lemma waiting_for_simps [simp]: "waiting_for owner q [] = []"
  "waiting_for owner q (xs @ ys) = waiting_for owner q xs @ waiting_for owner q ys"
  "waiting_for owner q (Some c # xs) = (if owner (ck_part c) = q then c # waiting_for owner q xs else waiting_for owner q xs)"
  by (simp_all add: waiting_for_def)

definition bound_for :: "nat \<Rightarrow> 'w shuffler_scheme \<Rightarrow> chunk list" where
  "bound_for q s = waiting_for (sh_owner s) q (sh_to_send s)"

fun insert_chunks :: "chunk list \<Rightarrow> ('w shuffler_scheme, unit) act" where
  "insert_chunks [] s = (Inr (), s)"
| "insert_chunks (c # cs) s = act_bind (insert_chunk c) (\<lambda>_. insert_chunks cs) s"

lemma insert_chunk_remote:
  fixes s s' :: "'w shuffler_scheme"
  assumes "insert_chunk c s = (Inr (), s')"
  shows "sh_owner s' = sh_owner s \<and> sh_rank s' = sh_rank s \<and> sh_nranks s' = sh_nranks s \<and>
    sh_npartitions s' = sh_npartitions s \<and> sh_cid s' = sh_cid s \<and>
    sh_outbound s' = (if is_control_message c then sh_outbound s
      else (sh_outbound s)(sh_owner s (ck_part c) := (sh_outbound s (sh_owner s (ck_part c)) + 1) mod 2 ^ 64)) \<and>
    (\<forall>q. q \<noteq> sh_rank s \<longrightarrow> bound_for q s' = bound_for q s @ (if sh_owner s (ck_part c) = q then [c] else []))"
proof (cases "sh_owner s (ck_part c) = sh_rank s")
  case True
  then obtain s1 where s1: "insert_into_received c s1 = (Inr (), s')"
    "s1 = (if is_control_message c then s else s\<lparr>sh_outbound := (sh_outbound s)(sh_rank s := (sh_outbound s (sh_rank s) + 1) mod 2 ^ 64)\<rparr>)"
    using assms by (auto simp: insert_chunk_def Let_def split: if_splits)
  show ?thesis using insert_into_received_Inr [OF s1(1)] True by (auto simp: s1(2) bound_for_def)
next
  case False
  then show ?thesis using assms by (auto simp: insert_chunk_def Let_def cts_insert_def bound_for_def split: if_splits)
qed

lemma insert_chunks_bound:
  fixes s s' :: "'w shuffler_scheme"
  assumes "insert_chunks cs s = (Inr (), s')" and "\<forall>c\<in>set cs. \<not> is_control_message c"
    and "\<forall>q. sh_outbound s q + length cs < 2 ^ 64"
  shows "sh_owner s' = sh_owner s \<and> sh_rank s' = sh_rank s \<and> sh_nranks s' = sh_nranks s \<and>
    sh_npartitions s' = sh_npartitions s \<and> sh_cid s' = sh_cid s \<and>
    (\<forall>q. sh_outbound s' q = sh_outbound s q + length (filter (\<lambda>c. sh_owner s (ck_part c) = q) cs)) \<and>
    (\<forall>q. q \<noteq> sh_rank s \<longrightarrow> bound_for q s' = bound_for q s @ filter (\<lambda>c. sh_owner s (ck_part c) = q) cs)"
  using assms
proof (induction cs arbitrary: s)
  case Nil
  then show ?case by simp
next
  case (Cons c cs)
  obtain s1 where 1: "insert_chunk c s = (Inr (), s1)" and 2: "insert_chunks cs s1 = (Inr (), s')"
    using Cons.prems(1) by (auto simp: act_bind_cases)
  note R = insert_chunk_remote [OF 1]
  have lt: "sh_outbound s q + length cs + 1 < 2 ^ 64" for q using Cons.prems(3) by simp
  have o: "sh_outbound s1 q = sh_outbound s q + (if sh_owner s (ck_part c) = q then 1 else 0)" for q
    using R Cons.prems(2) lt [of q] by (cases "sh_owner s (ck_part c) = q") simp_all
  have I: "sh_owner s' = sh_owner s1 \<and> sh_rank s' = sh_rank s1 \<and> sh_nranks s' = sh_nranks s1 \<and>
    sh_npartitions s' = sh_npartitions s1 \<and> sh_cid s' = sh_cid s1 \<and>
    (\<forall>q. sh_outbound s' q = sh_outbound s1 q + length (filter (\<lambda>c. sh_owner s1 (ck_part c) = q) cs)) \<and>
    (\<forall>q. q \<noteq> sh_rank s1 \<longrightarrow> bound_for q s' = bound_for q s1 @ filter (\<lambda>c. sh_owner s1 (ck_part c) = q) cs)"
  proof (rule Cons.IH [OF 2])
    show "\<forall>c\<in>set cs. \<not> is_control_message c" using Cons.prems(2) by simp
    have "sh_outbound s1 q + length cs < 2 ^ 64" for q using o [of q] lt [of q] by (cases "sh_owner s (ck_part c) = q") simp_all
    then show "\<forall>q. sh_outbound s1 q + length cs < 2 ^ 64" by blast
  qed
  then show ?case using R o by simp
qed

lemma get_new_cid_value:
  assumes "sh_rank s < 2 ^ 26" and "unat (sh_cid s) + 1 < 2 ^ 38" and "get_new_cid s = (cid, s')"
  shows "extract_rank cid = sh_rank s \<and> unat cid = sh_rank s * 2 ^ 38 + unat (sh_cid s) + 1 \<and>
    s' = s\<lparr>sh_cid := sh_cid s + 1\<rparr> \<and> unat (sh_cid s + 1) = unat (sh_cid s) + 1"
proof -
  have u: "unat (sh_cid s + 1) = unat (sh_cid s) + 1"
    using assms(2) by (simp add: unat_word_ariths)
  then have l: "unat (sh_cid s + 1) < 2 ^ 38" using assms(2) by simp
  have "cid = push_bit 38 (word_of_nat (sh_rank s)) OR word_of_nat (unat (sh_cid s + 1))"
    and s': "s' = s\<lparr>sh_cid := sh_cid s + 1\<rparr>"
    using assms(3) by (simp_all add: get_new_cid_def Let_def chunk_id_counter_bits_def)
  then show ?thesis
    using unat_packed_id [of 38 "sh_rank s" "unat (sh_cid s + 1)"] drop_packed_id [of 38 "sh_rank s" "unat (sh_cid s + 1)"]
      assms(1) l u
    by (simp add: extract_rank_def chunk_id_counter_bits_def)
qed

lemma representatives_Inr:
  "representatives owner n ps f = Inr g \<Longrightarrow>
     (\<forall>r. (case g r of None \<Rightarrow> f r = None \<and> (\<forall>p\<in>set ps. owner (word_of_nat p) \<noteq> r)
          | Some p \<Rightarrow> f r = Some p \<or> p \<in> set ps \<and> owner (word_of_nat p) = r))"
proof (induction ps arbitrary: f)
  case Nil
  then show ?case by (auto split: option.splits)
next
  case (Cons p ps)
  then have "representatives owner n ps (f(owner (word_of_nat p) := Some p)) = Inr g"
    by (auto simp: Let_def split: if_splits)
  from Cons.IH [OF this] show ?case by (fastforce split: option.splits if_splits)
qed

lemma insert_controls_bound:
  fixes s s' :: "'w shuffler_scheme"
  assumes "insert_controls f rs s = (Inr (), s')" and "distinct rs" and "sh_rank s < 2 ^ 26"
    and "unat (sh_cid s) + length rs < 2 ^ 38" and "\<forall>q. sh_outbound s q + 1 < 2 ^ 64"
    and "\<forall>r p. f r = Some p \<longrightarrow> sh_owner s (word_of_nat p) = r" and "q \<noteq> sh_rank s"
  shows "(if q \<in> set rs \<and> f q \<noteq> None then
      \<exists>ctl. bound_for q s' = bound_for q s @ [ctl] \<and> control_for (sh_rank s) (sh_outbound s q) ctl
    else bound_for q s' = bound_for q s)"
  using assms
proof (induction rs arbitrary: s)
  case Nil
  then show ?case by simp
next
  case (Cons r rs)
  show ?case
  proof (cases "f r")
    case None
    have rp: "insert_controls f rs s = (Inr (), s')" using Cons.prems(1) None by simp
    have pr: "distinct rs" "unat (sh_cid s) + length rs < 2 ^ 38" using Cons.prems(2,4) by simp_all
    show ?thesis using Cons.IH [OF rp pr(1) Cons.prems(3) pr(2) Cons.prems(5-7)] None by auto
  next
    case (Some p)
    obtain cid s1 s2 where c: "get_new_cid s = (cid, s1)"
      and i: "insert_chunk (from_finished_partition cid (word_of_nat p) (word_of_nat (sh_outbound s1 r + 1))) s1 = (Inr (), s2)"
      and rest: "insert_controls f rs s2 = (Inr (), s')"
      using Cons.prems(1) Some by (auto simp: act_bind_cases split: prod.splits)
    let ?c = "from_finished_partition cid (word_of_nat p) (word_of_nat (sh_outbound s1 r + 1))"
    have cid: "unat (sh_cid s) + 1 < 2 ^ 38" using Cons.prems(4) by simp
    note C = get_new_cid_value [OF Cons.prems(3) cid c]
    then have s1: "s1 = s\<lparr>sh_cid := sh_cid s + 1\<rparr>" by blast
    have b1: "bound_for x s1 = bound_for x s" for x by (simp add: bound_for_def s1)
    have un: "unat (word_of_nat (sh_outbound s r + 1) :: u64) = sh_outbound s r + 1"
    proof -
      have "sh_outbound s r + 1 < 2 ^ 64" using Cons.prems(5) by blast
      then show ?thesis unfolding unat_of_nat by simp
    qed
    then have cf: "control_for (sh_rank s) (sh_outbound s r) ?c"
      using C unfolding control_for_def from_finished_partition_def by (simp add: s1)
    note R = insert_chunk_remote [OF i]
    have own: "sh_owner s1 (ck_part ?c) = r" using Cons.prems(6) Some by (simp add: from_finished_partition_def s1)
    have F: "sh_owner s2 = sh_owner s" "sh_rank s2 = sh_rank s" "sh_cid s2 = sh_cid s + 1" "sh_outbound s2 = sh_outbound s"
      "bound_for q s2 = bound_for q s @ (if r = q then [?c] else [])"
      using R control_for_control [OF cf] own b1 Cons.prems(7) by (simp_all add: s1)
    have I: "(if q \<in> set rs \<and> f q \<noteq> None then
        \<exists>ctl. bound_for q s' = bound_for q s2 @ [ctl] \<and> control_for (sh_rank s2) (sh_outbound s2 q) ctl
      else bound_for q s' = bound_for q s2)"
      by (rule Cons.IH [OF rest]) (use Cons.prems F C in simp_all)
    show ?thesis
    proof (cases "r = q")
      case True
      then have "q \<notin> set rs" using Cons.prems(2) by simp
      then show ?thesis using I True Some F(5) cf by auto
    next
      case False
      then have b: "bound_for q s2 = bound_for q s" using F(5) by simp
      show ?thesis using I False unfolding F(1-4) b by simp
    qed
  qed
qed

text \<open>Property C9: what a rank owes another rank. After any accepted insertions of data chunks and \<open>insert_finished\<close>, the chunks
  waiting for another rank \<open>q\<close> are the data chunks of \<open>q\<close>'s partitions, in the order of insertion, followed, if \<open>q\<close> owns
  a partition, by one control message that carries our rank and the number of these chunks plus one. Ranks
  fit the 26 bits of the identifier and the counter its 38 bits.\<close>

theorem rank_announces_what_it_sends:
  fixes s s1 s2 :: "'w shuffler_scheme"
  assumes "insert_chunks cs s = (Inr (), s1)" and "shuffler_insert_finished s1 = (Inr (), s2)"
    and "\<forall>c\<in>set cs. \<not> is_control_message c" and "sh_to_send s = []" and "sh_outbound s = (\<lambda>_. 0)" and "sh_cid s = c0"
    and "length cs + 1 < 2 ^ 64" and "sh_rank s < 2 ^ 26" and "unat c0 + sh_nranks s < 2 ^ 38"
    and "q \<noteq> sh_rank s" and "q < sh_nranks s"
  shows "let sent = filter (\<lambda>c. sh_owner s (ck_part c) = q) cs in
    if (\<exists>p < sh_npartitions s. sh_owner s (word_of_nat p) = q)
    then (\<exists>ctl. bound_for q s2 = sent @ [ctl] \<and> control_for (sh_rank s) (length sent) ctl)
    else bound_for q s2 = sent"
proof -
  let ?sent = "filter (\<lambda>c. sh_owner s (ck_part c) = q) cs"
  have b0: "bound_for q s = []" using assms(4) by (simp add: bound_for_def)
  have I: "sh_owner s1 = sh_owner s \<and> sh_rank s1 = sh_rank s \<and> sh_nranks s1 = sh_nranks s \<and>
    sh_npartitions s1 = sh_npartitions s \<and> sh_cid s1 = sh_cid s \<and>
    (\<forall>q. sh_outbound s1 q = sh_outbound s q + length (filter (\<lambda>c. sh_owner s (ck_part c) = q) cs)) \<and>
    (\<forall>q. q \<noteq> sh_rank s \<longrightarrow> bound_for q s1 = bound_for q s @ filter (\<lambda>c. sh_owner s (ck_part c) = q) cs)"
    by (rule insert_chunks_bound [OF assms(1,3)]) (use assms(5,7) in simp)
  obtain f s3 where f: "representatives (sh_owner s) (sh_nranks s) [0..<sh_npartitions s] (\<lambda>_. None) = Inr f"
    and c: "insert_controls f [0..<sh_nranks s] s1 = (Inr (), s3)" and s2: "s2 = s3\<lparr>sh_locally_finished := True\<rparr>"
    using assms(2) I by (auto simp: shuffler_insert_finished_def split: sum.splits prod.splits)
  have rep: "case f r of None \<Rightarrow> \<forall>p\<in>set [0..<sh_npartitions s]. sh_owner s (word_of_nat p) \<noteq> r
      | Some p \<Rightarrow> p \<in> set [0..<sh_npartitions s] \<and> sh_owner s (word_of_nat p) = r" for r
    using representatives_Inr [OF f] by (metis (mono_tags, lifting) option.case_eq_if option.simps(3))
  have fr: "f r = Some p \<Longrightarrow> sh_owner s1 (word_of_nat p) = r" for r p using rep [of r] I by simp
  have fq: "f q \<noteq> None \<longleftrightarrow> (\<exists>p < sh_npartitions s. sh_owner s (word_of_nat p) = q)"
    using rep [of q] by (auto split: option.splits)
  have len: "length (filter P cs) + 1 < 2 ^ 64" for P
    using length_filter_le [of P cs] assms(7) by linarith
  have "(if q \<in> set [0..<sh_nranks s] \<and> f q \<noteq> None then
      \<exists>ctl. bound_for q s3 = bound_for q s1 @ [ctl] \<and> control_for (sh_rank s1) (sh_outbound s1 q) ctl
    else bound_for q s3 = bound_for q s1)"
    by (rule insert_controls_bound [OF c]) (use I assms fr len in simp_all)
  moreover have "bound_for q s2 = bound_for q s3" by (simp add: s2 bound_for_def)
  moreover have "bound_for q s1 = ?sent" using I b0 assms(10) by simp
  moreover have "sh_rank s1 = sh_rank s" "sh_outbound s1 q = length ?sent" using I assms(5) by simp_all
  moreover have "q \<in> set [0..<sh_nranks s]" using assms(11) by simp
  ultimately show ?thesis unfolding Let_def fq [symmetric] by (simp split: if_splits)
qed


section \<open>Examples\<close>

definition example_chunk :: "u64 \<Rightarrow> u32 \<Rightarrow> chunk" where
  "example_chunk cid pid = \<lparr>ck_id = cid, ck_part = pid, ck_expected = 0, ck_metadata_size = 1, ck_data_size = 0,
     ck_metadata = Some [9], ck_data = Some (example_buffer HOST [])\<rparr>"

definition example_shuffler :: "nat \<Rightarrow> shuffler" where
  "example_shuffler nranks = fresh_shuffler 0 nranks 2 (\<lambda>pid. round_robin nranks pid 2) 10 True False example_br"

lemmas example_shuffler_defs = example_shuffler_def fresh_shuffler_def br.extend_def local_partitions_def
  round_robin_def upt_rec new_finish_counter_def new_mpe_def

theorem shuffle_delivery_witness:
  "\<exists>s'. deliver [from_finished_partition 274877906945 0 1, example_chunk 1 0, from_finished_partition 2 0 2] (example_shuffler 2) = (Inr (), s') \<and>
     chunks_of 0 (rc_chunks s') = [example_chunk 1 0] \<and> all_finished (sh_finish s')"
proof -
  let ?sent = "\<lambda>r. if r = 0 then [example_chunk 1 0] else []"
  let ?ctl = "\<lambda>r. if r = (0::nat) then from_finished_partition 2 0 2 else from_finished_partition 274877906945 0 1"
  let ?cs = "[from_finished_partition 274877906945 0 1, example_chunk 1 0, from_finished_partition 2 0 2]"
  have r: "{..<2 :: nat} = {0, 1}" by auto
  have "extract_rank 274877906945 = 1" "extract_rank 2 = 0"
    by (simp_all add: extract_rank_def chunk_id_counter_bits_def drop_bit_eq_div)
  then have ow: "owed 2 ?sent ?ctl (?cs @ [])"
    by (auto simp: owed_def r control_for_def from_finished_partition_def is_control_message_def example_chunk_def less_2_cases_iff)
  have f: "sh_finish (example_shuffler 2) = new_finish_counter 2 1" "rc_chunks (example_shuffler 2) = []"
    by (simp_all add: example_shuffler_defs)
  show ?thesis using shuffle_delivery [OF ow _ _ f]
    by (auto simp: from_finished_partition_def is_control_message_def example_chunk_def)
qed

definition example_sender :: shuffler where
  "example_sender = fresh_shuffler 0 2 2 (\<lambda>_. 1) 10 True False example_br"

theorem rank_announces_what_it_sends_witness:
  "\<exists>s2 ctl. act_bind (insert_chunks [example_chunk 7 1]) (\<lambda>_. shuffler_insert_finished) example_sender = (Inr (), s2) \<and>
     bound_for 1 s2 = [example_chunk 7 1, ctl] \<and> control_for 0 1 ctl"
proof -
  have o: "sh_owner example_sender = (\<lambda>_. 1)" "sh_rank example_sender = 0"
    "sh_nranks example_sender = 2" "sh_npartitions example_sender = 2" "sh_to_send example_sender = []"
    "sh_outbound example_sender = (\<lambda>_. 0)" "sh_cid example_sender = 0"
    by (simp_all add: example_sender_def fresh_shuffler_def Let_def br.extend_def)
  obtain s1 where s1: "insert_chunks [example_chunk 7 1] example_sender = (Inr (), s1)"
    and f: "sh_owner s1 = (\<lambda>_. 1)" "sh_rank s1 = 0" "sh_nranks s1 = 2" "sh_npartitions s1 = 2"
    by (simp add: insert_chunk_def example_chunk_def is_data_buffer_set_def data_memory_type_def example_buffer_def
        sendable_memory_types_def ADDRESSABLE_MEMORY_TYPES_def o is_control_message_def Let_def)
  have "\<exists>s2. shuffler_insert_finished s1 = (Inr (), s2)"
    by (simp add: shuffler_insert_finished_def f upt_rec get_new_cid_def insert_chunk_def from_finished_partition_def
        is_data_buffer_set_def act_bind_def Let_def)
  then obtain s2 where s2: "shuffler_insert_finished s1 = (Inr (), s2)" by blast
  have p: "\<exists>p. p < (2 :: nat)" by (rule exI [of _ 0]) simp
  show ?thesis
    using rank_announces_what_it_sends [OF s1 s2, of 0 1] s1 s2 p
    by (simp add: o Let_def example_chunk_def is_control_message_def)
qed

section \<open>Contiguous partitions\<close>

lemma contiguous_value:
  assumes "unat npartitions * nranks < 2 ^ 32" and "pid < npartitions"
  shows "contiguous nranks pid npartitions = (unat pid * nranks) div unat npartitions"
proof -
  have p: "unat pid < unat npartitions" using assms(2) by (simp add: word_less_nat_alt)
  have n: "nranks < 2 ^ 32"
  proof -
    have "1 * nranks \<le> unat npartitions * nranks" using p by (intro mult_le_mono1) linarith
    then show ?thesis using assms(1) by linarith
  qed
  have "unat pid * nranks \<le> unat npartitions * nranks" using p by (intro mult_le_mono1) linarith
  then have "unat pid * nranks < 2 ^ 32" using assms(1) by linarith
  then have "unat (pid * word_of_nat nranks :: u32) = unat pid * nranks"
    using n by (simp add: unat_word_ariths unat_of_nat)
  then show ?thesis by (simp add: contiguous_def unat_div_distrib)
qed

text \<open>Property C40: the contiguous partition owner assigns ranks below the number of ranks, in the order of the partitions, as long as the number of partitions
  times the number of ranks stays below \<open>2 ^ 32\<close>.\<close>

theorem contiguous_partitions:
  assumes "unat npartitions * nranks < 2 ^ 32" and "0 < nranks" and "pid \<le> pid'" and "pid' < npartitions"
  shows "contiguous nranks pid' npartitions < nranks \<and>
    contiguous nranks pid npartitions \<le> contiguous nranks pid' npartitions"
proof -
  have "pid < npartitions" using assms(3,4) by simp
  note v = contiguous_value [OF assms(1) this] contiguous_value [OF assms(1,4)]
  have p: "unat pid' < unat npartitions" "unat pid \<le> unat pid'"
    using assms(3,4) by (simp_all add: word_less_nat_alt word_le_nat_alt)
  have "unat pid' * nranks < nranks * unat npartitions" using p(1) assms(2) by (simp add: mult.commute)
  then have "unat pid' * nranks div unat npartitions < nranks" by (rule less_mult_imp_div_less)
  moreover have "unat pid * nranks div unat npartitions \<le> unat pid' * nranks div unat npartitions"
    using p(2) by (intro div_le_mono mult_le_mono1)
  ultimately show ?thesis by (simp add: v)
qed

theorem contiguous_partitions_witness:
  "contiguous 2 1 3 \<le> contiguous 2 2 3 \<and> contiguous 2 2 3 < 2"
  using contiguous_partitions [of 3 2 1 2] by simp

text \<open>Without the bound on the product, the 32-bit multiplication wraps and the ranges are not contiguous.\<close>

lemma contiguous_wraps: "contiguous 65536 65535 131072 = 32767 \<and> contiguous 65536 65536 131072 = 0"
  by (simp add: contiguous_def)

end
