(* ===== verification/Shuffle_Extraction.thy ===== *)
theory Shuffle_Extraction
  imports Shuffle_Delivery
begin

text \<open>
  The life of a shuffler as a whole: its progress function, the client that inserts, finishes, extracts
  and shuts down, spilling, and the rest of the program that shares the buffer resource, interleaved.
  The three parts of \<open>Progress::operator()\<close> that send, receive and close the exchange are steps of their own.
  Its last part, which reads the containers and the flags and opens the extraction, is one step: no
  insertion falls between these reads (one that does is the lemma at the end).
\<close>

section \<open>What a step leaves alone\<close>

text \<open>The reported ranks of the finish counter are counted.\<close>

definition fc_ok :: "finish_counter \<Rightarrow> bool" where
  "fc_ok fc \<longleftrightarrow> length (fc_reported fc) = fc_nranks fc \<and> fc_with_goalpost fc = length (filter id (fc_reported fc))"


lemma count_true_update:
  "i < length bs \<Longrightarrow> \<not> bs ! i \<Longrightarrow> length (filter id (bs[i := True])) = Suc (length (filter id bs))"
proof (induction bs arbitrary: i)
  case Nil
  then show ?case by simp
next
  case (Cons b bs)
  then show ?case by (cases i) auto
qed


lemma move_goalpost_ok: "fc_ok fc \<Longrightarrow> fc_ok (snd (move_goalpost r n fc))"
  using count_true_update [of "nat r" "fc_reported fc"]
  by (auto simp: move_goalpost_def fc_ok_def to_size_def split: sum.splits)

lemma add_finished_chunk_ok: "fc_ok fc \<Longrightarrow> fc_ok (snd (add_finished_chunk fc))"
  by (simp add: add_finished_chunk_def fc_ok_def Let_def)




text \<open>What only \<open>notify_extract\<close> and the client's flags change.\<close>

definition same_signals :: "'w shuffler_scheme \<Rightarrow> 'w shuffler_scheme \<Rightarrow> bool" where
  "same_signals s s' \<longleftrightarrow> sh_can_extract s' = sh_can_extract s \<and> sh_callback s' = sh_callback s \<and>
     sh_callback_calls s' = sh_callback_calls s \<and> sh_active s' = sh_active s \<and>
     sh_locally_finished s' = sh_locally_finished s \<and> (fc_ok (sh_finish s) \<longrightarrow> fc_ok (sh_finish s'))"

lemma same_signals_trans: "same_signals a b \<Longrightarrow> same_signals b c \<Longrightarrow> same_signals a c"
  by (simp add: same_signals_def)

lemma same_signals_more: "br.more s' = br.more s \<Longrightarrow> same_signals s s'"
  by (cases s; cases s') (simp add: same_signals_def)

lemma store_mpe_fields [simp]:
  "sh_mpe (store_mpe m s) = m" "sh_finish (store_mpe m s) = sh_finish s" "sh_to_send (store_mpe m s) = sh_to_send s"
  "sh_locally_finished (store_mpe m s) = sh_locally_finished s" "sh_can_extract (store_mpe m s) = sh_can_extract s"
  "sh_callback (store_mpe m s) = sh_callback s" "sh_callback_calls (store_mpe m s) = sh_callback_calls s"
  "sh_active (store_mpe m s) = sh_active s" "sh_mpe_finish_called (store_mpe m s) = sh_mpe_finish_called s"
  by (cases s; simp add: store_mpe_def br.defs)+



lemma bind_signals:
  assumes "\<And>s. same_signals s (snd (m s))" and "\<And>a s. same_signals s (snd (f a s))"
  shows "same_signals s (snd (act_bind m f s))"
proof -
  obtain r s1 where m: "m s = (r, s1)" by fastforce
  then have "same_signals s s1" using assms(1) [of s] by simp
  then show ?thesis using assms(2) [of s1] same_signals_trans by (auto simp: act_bind_def m split: sum.splits)
qed

lemma insert_into_received_signals: "same_signals s (snd (insert_into_received c s))"
  using move_goalpost_ok [of "sh_finish s" "int (extract_rank (ck_id c))" "unat (ck_expected c)"] add_finished_chunk_ok
  by (auto simp: insert_into_received_def with_finish_def same_signals_def act_bind_def split: prod.splits sum.splits)
    (metis snd_conv)+







lemma insert_chunk_signals: "same_signals s (snd (insert_chunk c s))"
proof -
  have "same_signals s (snd (insert_into_received c (s\<lparr>sh_outbound := f\<rparr>)))" for f
    using insert_into_received_signals [of "s\<lparr>sh_outbound := f\<rparr>" c] by (simp add: same_signals_def)
  then show ?thesis using insert_into_received_signals [of s c]
    by (auto simp: insert_chunk_def Let_def) (simp_all add: same_signals_def)
qed

lemma create_chunk_signals: "same_signals s (snd (create_chunk pid m d s))"
  by (simp add: create_chunk_def get_new_cid_def Let_def same_signals_def)

lemma reserve_or_fail_more: "br.more (snd (reserve_or_fail n mts b)) = br.more b"
  using try_reserve_more [of n mts b] by (auto simp: reserve_or_fail_def split: prod.splits sum.splits option.splits)

lemma ensure_memory_type_more: "br.more (snd (ensure_memory_type stats d mts b)) = br.more b"
proof -
  have mv: "br.more b3 = br.more b2" if "move_buffer stats buf (b2, res) = (out, b3, r)" for buf b2 b3 res r out
    using move_buffer_more [of stats buf "(b2, res)"] that by simp
  have cl: "br.more b3 = br.more b2" if "clear (b2, res) = (out, b3, r)" for b2 b3 :: "'a br_scheme" and res r out
    using clear_more [of "(b2, res)"] that by simp
  have tr: "br.more b3 = br.more b" if "try_reserve n mts b = (out, b3)" for n mts b3 out
    using try_reserve_more [of n mts b] that by simp
  have re: "br.more b3 = br.more b2" if "reserve mt n al b2 = (out, b3)" for n mt al b2 b3 out
    using reserve_more [of mt n al b2] that by simp
  show ?thesis
    by (auto simp: ensure_memory_type_def Let_def dest!: mv cl tr re split: option.splits sum.splits prod.splits)
qed

lemma with_reservation_signals:
  assumes "\<And>st. same_signals (fst st) (fst (snd (body st)))"
  shows "same_signals s (snd (with_reservation res body s))"
proof -
  obtain o1 s1 r1 where m: "body (s, res) = (o1, s1, r1)" by (metis surj_pair)
  obtain o2 s2 r2 where c: "clear (s1, r1) = (o2, s2, r2)" by (metis surj_pair)
  have "same_signals s s1" using assms [of "(s, res)"] m by simp
  moreover have "same_signals s1 s2" using clear_more [of "(s1, r1)"] c by (simp add: same_signals_more)
  ultimately have "same_signals s s2" by (rule same_signals_trans)
  then show ?thesis by (auto simp: with_reservation_def m c split: sum.splits)
qed

lemma spill_and_insert_signals: "same_signals (fst st) (fst (snd (spill_and_insert pid m d st)))"
proof -
  obtain r s1 where c: "create_chunk pid m d (fst st) = (r, s1)" by fastforce
  then have 1: "same_signals (fst st) s1" using create_chunk_signals [of "fst st" pid m d] by simp
  have mv: "same_signals (fst st) s2" if "move_buffer (rc_stats s1) buf (s1, snd st) = (out, s2, r2)" for buf out s2 r2
    using same_signals_trans [OF 1 same_signals_more] move_buffer_more [of "rc_stats s1" buf "(s1, snd st)"] that by simp
  have ic: "same_signals (fst st) s3"
    if "move_buffer (rc_stats s1) buf (s1, snd st) = (out, s2, r2)" "insert_chunk c s2 = (r3, s3)" for c buf out s2 r2 r3 s3
    using same_signals_trans [OF mv [OF that(1)] insert_chunk_signals [of s2 c]] that(2) by simp
  show ?thesis
    by (auto simp: spill_and_insert_def c 1 act_bind_def intro: mv ic split: sum.splits option.splits prod.splits)
qed

lemma insert_partition_signals: "same_signals s (snd (insert_partition pid p s))"
proof -
  have ce: "same_signals s (snd (act_bind (create_chunk pid m d) insert_chunk s))" for m d and s :: "'w shuffler_scheme"
    by (intro bind_signals create_chunk_signals insert_chunk_signals)
  have sp: "same_signals s (snd (act_bind (reserve_or_fail n mts) (\<lambda>res. with_reservation res (spill_and_insert pid m d)) s))"
    for n mts m d and s :: "'w shuffler_scheme"
    by (intro bind_signals with_reservation_signals spill_and_insert_signals same_signals_more reserve_or_fail_more)
  have em: "same_signals s (snd (ensure_memory_type st d mts s))" for st d mts and s :: "'w shuffler_scheme"
    by (intro same_signals_more ensure_memory_type_more)
  have r: "same_signals s s" for s :: "'w shuffler_scheme" by (simp add: same_signals_def)
  show ?thesis unfolding insert_partition_def
    by (simp only: snd_conv r if_True split: if_split)
      (intro conjI impI r bind_signals; auto simp: em r sp ce Let_def split: sum.splits)
qed


section \<open>The life of a shuffler\<close>

text \<open>
  The steps of the progress thread return; one that throws ends the program. The client's operations may
  fail. It inserts and finishes once, in this order, as the interface demands; \<open>environment\<close> is everybody
  else who uses the buffer resource.
\<close>

inductive shuffle_step :: "'w shuffler_scheme \<Rightarrow> 'w shuffler_scheme \<Rightarrow> bool" where
  inserting: "\<not> sh_locally_finished s \<Longrightarrow> insert_partition pid p s = (r, s') \<Longrightarrow> shuffle_step s s'"
| announcing: "\<not> sh_locally_finished s \<Longrightarrow> insert_controls f rs s = (r, s') \<Longrightarrow> shuffle_step s s'"
| finishing: "shuffle_step s (s\<lparr>sh_locally_finished := True\<rparr>)"
| submitting: "submit_outgoing s = (Inr (), s') \<Longrightarrow> shuffle_step s s'"
| communicating: "process_communication strm cm s = (Inr (), s') \<Longrightarrow> shuffle_step s s'"
| closing: "signal_mpe_finish s = (Inr (), s') \<Longrightarrow> shuffle_step s s'"
| notifying: "shuffle_step s (notify_extract s)"
| extracting: "shuffler_extract pid s = (r, s') \<Longrightarrow> shuffle_step s s'"
| spilling: "shuffler_spill amount s = (r, s') \<Longrightarrow> shuffle_step s s'"
| shutting_down: "shuffle_step s (s\<lparr>sh_active := False\<rparr>)"
| environment: "br.more s' = br.more s \<Longrightarrow> shuffle_step s s'"

abbreviation shuffle_run :: "'w shuffler_scheme \<Rightarrow> 'w shuffler_scheme \<Rightarrow> bool" where
  "shuffle_run \<equiv> rtranclp shuffle_step"




lemma insert_partitions_run:
  assumes "\<not> sh_locally_finished s" and "insert_partitions ps s = (r, s')"
  shows "shuffle_run s s' \<and> \<not> sh_locally_finished s'"
  using assms
proof (induction ps arbitrary: s)
  case Nil
  then show ?case by simp
next
  case (Cons q ps)
  obtain pid p where q: "q = (pid, p)" by fastforce
  obtain r1 s1 where i: "insert_partition pid p s = (r1, s1)" by fastforce
  have "shuffle_step s s1" by (rule inserting [OF Cons.prems(1) i])
  moreover have l: "\<not> sh_locally_finished s1"
    using insert_partition_signals [of s pid p] i Cons.prems(1) by (simp add: same_signals_def)
  moreover have "s' = s1 \<or> insert_partitions ps s1 = (r, s')"
    using Cons.prems(2) i by (auto simp: q act_bind_def split: sum.splits)
  ultimately show ?case using Cons.IH [OF l] by (auto intro: converse_rtranclp_into_rtranclp)
qed

section \<open>Nothing arrives after the shuffle has settled\<close>


text \<open>The chunks stored for a partition, apart from where their data is.\<close>

definition headers :: "u32 \<Rightarrow> 'w shuffler_scheme \<Rightarrow> chunk list" where
  "headers pid s = map (\<lambda>c. c\<lparr>ck_data := None\<rparr>) (chunks_of pid (rc_chunks s))"

definition frozen :: "'w shuffler_scheme \<Rightarrow> 'w shuffler_scheme \<Rightarrow> bool" where
  "frozen s s' \<longleftrightarrow> sh_locally_finished s' = sh_locally_finished s \<and> sh_to_send s' = sh_to_send s \<and>
     sh_finish s' = sh_finish s \<and> (\<forall>pid. headers pid s' = headers pid s)"

lemma frozen_refl [simp]: "frozen s s"
  by (simp add: frozen_def)















section \<open>The invariant\<close>









section \<open>A single rank\<close>



section \<open>Properties\<close>



text \<open>
  The code reads the containers before the flags. When an insertion and \<open>insert_finished\<close> fall between these
  reads, on a rank that owns no partition, the containers were found empty and the flags are set, while the chunks are still queued:
  extraction is opened, and after a shutdown the function is done, with chunks that were never sent.
\<close>

lemma stale_drain_check:
  "containers_empty example_sender \<and>
   (\<exists>s. act_bind (insert_chunks [example_chunk 7 1]) (\<lambda>_. shuffler_insert_finished) example_sender = (Inr (), s) \<and>
        is_finished s \<and> length (sh_to_send s) = 2)"
  by (simp add: example_sender_def fresh_shuffler_def Let_def br.extend_def containers_empty_def mpe_is_idle_def new_mpe_def br.defs cts_empty_def
      insert_chunk_def example_chunk_def is_data_buffer_set_def data_memory_type_def example_buffer_def
      sendable_memory_types_def ADDRESSABLE_MEMORY_TYPES_def is_control_message_def act_bind_def
      shuffler_insert_finished_def upt_rec get_new_cid_def from_finished_partition_def cts_insert_def is_finished_def all_finished_def
      local_partitions_def new_finish_counter_def)

end
