(* ===== verification/Coll_Postbox.thy ===== *)
theory Coll_Postbox
  imports Bytes Spill_Manager
begin

text \<open>
  Chunks and post boxes of the collectives, \<^verbatim>\<open>coll/utils.cpp\<close>: the chunk with its wire format and
  identifier, the container the collectives keep chunks in, with its spilling, and the completion of
  posted transfers. The mutex of a post box is held over each operation, so an operation is one step.
  A rank is a natural number; \<open>INVALID_RANK\<close> is the largest signed 32-bit integer.
\<close>

section \<open>Chunks\<close>

record coll_chunk =
  cc_id :: u64
  cc_destination :: nat
  cc_metadata :: "u8 list option"
  cc_data :: "buffer option"
  cc_data_size :: u64

definition INVALID_RANK :: nat where "INVALID_RANK = 2 ^ 31 - 1"

definition ID_BITS :: nat where "ID_BITS = 38"

definition chunk_id :: "u64 \<Rightarrow> nat \<Rightarrow> u64" where
  "chunk_id sequence origin = push_bit ID_BITS (word_of_nat origin) OR sequence"

text \<open>The two constructors: a data chunk, and a finish marker.\<close>

definition new_data_chunk :: "u64 \<Rightarrow> nat \<Rightarrow> u8 list option \<Rightarrow> buffer option \<Rightarrow> coll_chunk result" where
  "new_data_chunk cid dst metadata dat =
     (if \<not> ((metadata = None) = (dat = None)) then Inl Logic_Error
      else case (metadata, dat) of
             (Some m, Some d) \<Rightarrow>
               Inr \<lparr>cc_id = cid, cc_destination = dst, cc_metadata = Some m, cc_data = Some d,
                    cc_data_size = word_of_nat (buf_size d)\<rparr>
           | _ \<Rightarrow> Inl Invalid_Argument)"

definition new_finish_chunk :: "u64 \<Rightarrow> nat \<Rightarrow> coll_chunk" where
  "new_finish_chunk cid dst =
     \<lparr>cc_id = cid, cc_destination = dst, cc_metadata = None, cc_data = None, cc_data_size = 0\<rparr>"

definition coll_from_packed_data :: "u64 \<Rightarrow> nat \<Rightarrow> nat \<Rightarrow> packed_data \<Rightarrow> coll_chunk result" where
  "coll_from_packed_data sequence origin dst p =
     new_data_chunk (chunk_id sequence origin) dst (Some (pd_metadata p)) (Some (pd_data p))"

definition from_empty :: "u64 \<Rightarrow> nat \<Rightarrow> nat \<Rightarrow> coll_chunk" where
  "from_empty sequence origin dst = new_finish_chunk (chunk_id sequence origin) dst"

text \<open>\<open>is_ready\<close> is \<^verbatim>\<open>noexcept\<close>: asking a locked buffer terminates.\<close>

definition coll_is_ready :: "coll_chunk \<Rightarrow> bool result" where
  "coll_is_ready c =
     (if cc_data_size c = 0 then Inr True
      else case cc_data c of
             None \<Rightarrow> Inr False
           | Some b \<Rightarrow> (case is_latest_write_done b of Inl e \<Rightarrow> Inl Fatal | Inr r \<Rightarrow> Inr r))"

definition memory_type :: "coll_chunk \<Rightarrow> mem_type" where
  "memory_type c = (case cc_data c of None \<Rightarrow> HOST | Some b \<Rightarrow> buf_mem b)"

definition is_finish :: "coll_chunk \<Rightarrow> bool" where
  "is_finish c \<longleftrightarrow> cc_data c = None \<and> cc_metadata c = None"

definition sequence :: "coll_chunk \<Rightarrow> u64" where
  "sequence c = cc_id c AND (push_bit ID_BITS 1 - 1)"

definition origin :: "coll_chunk \<Rightarrow> nat" where
  "origin c = unat (drop_bit ID_BITS (cc_id c))"

definition metadata_size :: "coll_chunk \<Rightarrow> nat" where
  "metadata_size c = (case cc_metadata c of None \<Rightarrow> 0 | Some m \<Rightarrow> length m)"

definition coll_release :: "coll_chunk \<Rightarrow> packed_data result" where
  "coll_release c =
     (if cc_metadata c = None \<or> cc_data c = None then Inl Logic_Error
      else make_packed_data (cc_metadata c) (cc_data c))"

definition coll_release_data_buffer :: "coll_chunk \<Rightarrow> buffer option \<times> coll_chunk" where
  "coll_release_data_buffer c = (cc_data c, c\<lparr>cc_data := None\<rparr>)"

definition attach_data_buffer :: "buffer \<Rightarrow> coll_chunk \<Rightarrow> coll_chunk result" where
  "attach_data_buffer d c =
     (if buf_size d \<noteq> unat (cc_data_size c) then Inl Logic_Error
      else if cc_data c \<noteq> None then Inl Logic_Error
      else Inr (c\<lparr>cc_data := Some d\<rparr>))"

section \<open>The wire format\<close>

text \<open>
  A finish marker is its identifier alone; a data chunk is the identifier, the size of its data and its
  metadata. The data travels on its own. \<open>coll_message\<close> is what a message carries.
\<close>

datatype coll_message = Finish_Message u64 | Data_Message u64 u64 "u8 list"

fun write_coll_message :: "coll_message \<Rightarrow> u8 list" where
  "write_coll_message (Finish_Message cid) = enc64 cid"
| "write_coll_message (Data_Message cid n metadata) = enc64 cid @ enc64 n @ metadata"

definition coll_message_of :: "coll_chunk \<Rightarrow> coll_message" where
  "coll_message_of c =
     (if is_finish c then Finish_Message (cc_id c)
      else Data_Message (cc_id c) (cc_data_size c) (case cc_metadata c of None \<Rightarrow> [] | Some m \<Rightarrow> m))"

definition coll_serialize :: "coll_chunk \<Rightarrow> u8 list" where
  "coll_serialize c = write_coll_message (coll_message_of c)"

text \<open>Lengths between 8 and 16 are not checked for: the read is out of bounds.\<close>

definition read_coll_message :: "u8 list \<Rightarrow> coll_message result" where
  "read_coll_message msg =
     res_bind (rd64 msg 0) (\<lambda>cid.
       if length msg = 8 then Inr (Finish_Message cid)
       else res_bind (rd64 msg 8) (\<lambda>n. Inr (Data_Message cid n (drop 16 msg))))"

definition coll_deserialize :: "stream \<Rightarrow> u8 list \<Rightarrow> ('w br_scheme, coll_chunk) act" where
  "coll_deserialize strm msg b =
     (case read_coll_message msg of
        Inl e \<Rightarrow> (Inl e, b)
      | Inr (Finish_Message cid) \<Rightarrow> (Inr (new_finish_chunk cid INVALID_RANK), b)
      | Inr (Data_Message cid n metadata) \<Rightarrow>
          act_bind (reserve_or_fail (unat n) ADDRESSABLE_MEMORY_TYPES) (\<lambda>res.
          act_bind (with_reservation res (\<lambda>st. make_buffer (res_size (snd st)) strm st)) (\<lambda>d s.
            (new_data_chunk cid INVALID_RANK (Some metadata) (Some d), s))) b)"

section \<open>The post box\<close>

type_synonym post_box = "coll_chunk list"

definition pb_insert :: "coll_chunk \<Rightarrow> post_box \<Rightarrow> post_box" where
  "pb_insert c pb = pb @ [c]"

definition pb_insert_all :: "coll_chunk list \<Rightarrow> post_box \<Rightarrow> post_box" where
  "pb_insert_all cs pb = pb @ cs"

text \<open>Ready chunks are taken out wherever they stand; \<open>is_ready\<close> does not throw.\<close>

fun pb_extract_ready :: "post_box \<Rightarrow> coll_chunk list result \<times> post_box" where
  "pb_extract_ready [] = (Inr [], [])"
| "pb_extract_ready (c # cs) =
     (case coll_is_ready c of
        Inl e \<Rightarrow> (Inl e, c # cs)
      | Inr r \<Rightarrow>
          (case pb_extract_ready cs of
             (Inl e, rest) \<Rightarrow> (Inl e, c # rest)
           | (Inr out, rest) \<Rightarrow> if r then (Inr (c # out), rest) else (Inr out, c # rest)))"

definition pb_extract :: "post_box \<Rightarrow> coll_chunk list \<times> post_box" where
  "pb_extract pb = (pb, [])"

definition pb_size :: "post_box \<Rightarrow> nat" where
  "pb_size pb = length pb"

definition pb_empty :: "post_box \<Rightarrow> bool" where
  "pb_empty pb \<longleftrightarrow> pb = []"

section \<open>Spilling a post box\<close>

text \<open>Move the data of one chunk to a spill target and attach it again.\<close>

definition coll_spill_chunk :: "bool \<Rightarrow> coll_chunk \<Rightarrow> 'w br_scheme \<Rightarrow> (nat result \<times> coll_chunk) \<times> 'w br_scheme" where
  "coll_spill_chunk stats c b =
     (case reserve_or_fail (unat (cc_data_size c)) SPILL_TARGET_MEMORY_TYPES b of
        (Inl e, b1) \<Rightarrow> ((Inl e, c), b1)
      | (Inr res, b1) \<Rightarrow>
          (case coll_release_data_buffer c of
             (None, c1) \<Rightarrow> ((Inl Undefined, c1), b1)
           | (Some d, c1) \<Rightarrow>
               (case with_reservation res (move_buffer stats d) b1 of
                  (Inl e, b2) \<Rightarrow> ((Inl e, c1), b2)
                | (Inr d', b2) \<Rightarrow>
                    (case attach_data_buffer d' c1 of
                       Inl e \<Rightarrow> ((Inl e, c1), b2)
                     | Inr c2 \<Rightarrow> ((Inr (unat (cc_data_size c2)), c2), b2)))))"

text \<open>
  The spillable chunks are pointers into the box: positions. They are sorted by size; positions with
  equal sizes may come in any order, here the order of the box.
\<close>

definition spillable_positions :: "post_box \<Rightarrow> nat list" where
  "spillable_positions pb = filter (\<lambda>i. memory_type (pb ! i) = DEVICE) [0..<length pb]"

definition size_at :: "post_box \<Rightarrow> nat \<Rightarrow> nat" where
  "size_at pb i = unat (cc_data_size (pb ! i))"

text \<open>Spill the chunk at a position; the box keeps what is left of it if that fails.\<close>

definition spill_at :: "bool \<Rightarrow> nat \<Rightarrow> post_box \<Rightarrow> 'w br_scheme \<Rightarrow> (nat result \<times> post_box) \<times> 'w br_scheme" where
  "spill_at stats i pb b =
     (case coll_spill_chunk stats (pb ! i) b of ((out, c), b') \<Rightarrow> ((out, pb[i := c]), b'))"

fun spill_everything :: "bool \<Rightarrow> nat list \<Rightarrow> nat \<Rightarrow> post_box \<Rightarrow> 'w br_scheme \<Rightarrow> (nat result \<times> post_box) \<times> 'w br_scheme" where
  "spill_everything stats [] spilled pb b = ((Inr spilled, pb), b)"
| "spill_everything stats (i # is) spilled pb b =
     (case spill_at stats i pb b of
        ((Inl e, pb'), b') \<Rightarrow> ((Inl e, pb'), b')
      | ((Inr n, pb'), b') \<Rightarrow> spill_everything stats is ((spilled + n) mod 2 ^ 64) pb' b')"

text \<open>\<^verbatim>\<open>std::ranges::lower_bound\<close> on positions sorted by size, or the last position.\<close>

fun lower_bound_or_last :: "(nat \<Rightarrow> nat) \<Rightarrow> nat \<Rightarrow> nat list \<Rightarrow> nat" where
  "lower_bound_or_last sz need [] = 0"
| "lower_bound_or_last sz need [i] = i"
| "lower_bound_or_last sz need (i # j # is) =
     (if need \<le> sz i then i else lower_bound_or_last sz need (j # is))"

text \<open>The loop; \<open>ps\<close> is the vector of spillable chunks, which loses its last element per iteration.\<close>

function spill_greedy ::
  "bool \<Rightarrow> nat \<Rightarrow> nat list \<Rightarrow> nat \<Rightarrow> post_box \<Rightarrow> 'w br_scheme \<Rightarrow> (nat result \<times> post_box) \<times> 'w br_scheme" where
  "spill_greedy stats amount ps spilled pb b =
     (if ps = [] then ((Inr spilled, pb), b)
      else case spill_at stats (lower_bound_or_last (size_at pb) (amount - spilled) ps) pb b of
             ((Inl e, pb'), b') \<Rightarrow> ((Inl e, pb'), b')
           | ((Inr n, pb'), b') \<Rightarrow>
               (let spilled' = (spilled + n) mod 2 ^ 64 in
                if spilled' \<ge> amount then ((Inr spilled', pb'), b')
                else spill_greedy stats amount (butlast ps) spilled' pb' b'))"
  by pat_completeness auto
termination by (relation "measure (\<lambda>(_, _, ps, _). length ps)") simp_all

declare spill_greedy.simps [simp del]

definition pb_spill :: "bool \<Rightarrow> nat \<Rightarrow> post_box \<Rightarrow> 'w br_scheme \<Rightarrow> (nat result \<times> post_box) \<times> 'w br_scheme" where
  "pb_spill stats amount pb b =
     (let ps = spillable_positions pb in
      if total (size_at pb) ps mod 2 ^ 64 < amount then spill_everything stats ps 0 pb b
      else spill_greedy stats amount (sort_key (size_at pb) ps) 0 pb b)"

section \<open>Completing transfers\<close>

text \<open>
  \<open>test_some\<close>: \<open>indices\<close> are the positions the communicator reports as complete, \<open>fut i\<close> the buffer it
  releases for the future at position \<open>i\<close>. The vector of futures shrinks with the chunks.
\<close>

fun attach_completed :: "coll_chunk list \<Rightarrow> (nat \<Rightarrow> buffer) \<Rightarrow> nat list \<Rightarrow> coll_chunk list result" where
  "attach_completed chunks fut [] = Inr []"
| "attach_completed chunks fut (i # is) =
     (if \<not> i < length chunks then Inl Undefined
      else res_bind (attach_data_buffer (fut i) (chunks ! i)) (\<lambda>c.
           res_bind (attach_completed chunks fut is) (\<lambda>cs. Inr (c # cs))))"

definition test_some ::
  "coll_chunk list \<Rightarrow> 'f list \<Rightarrow> (nat \<Rightarrow> buffer) \<Rightarrow> nat list \<Rightarrow> (coll_chunk list \<times> coll_chunk list \<times> 'f list) result" where
  "test_some chunks futures fut indices =
     (if length chunks \<noteq> length futures then Inl Logic_Error
      else if chunks = [] then Inr ([], [], futures)
      else res_bind (attach_completed chunks fut indices) (\<lambda>done.
             Inr (done, nths chunks (- set indices), nths futures (- set indices))))"

section \<open>The wire format is exact\<close>

lemma read_write_coll_message: "read_coll_message (write_coll_message m) = Inr m"
proof (cases m)
  case (Finish_Message cid)
  then show ?thesis using rd64_enc0 [of cid "[]"] by (simp add: read_coll_message_def)
next
  case (Data_Message cid n metadata)
  have "rd64 (enc64 cid @ enc64 n @ metadata) 8 = Inr n" by (rule rd64_enc) simp
  then show ?thesis by (simp add: Data_Message read_coll_message_def)
qed

lemma write_read_coll_message: "read_coll_message bs = Inr m \<Longrightarrow> write_coll_message m = bs"
proof -
  assume r: "read_coll_message bs = Inr m"
  then obtain cid where c: "rd64 bs 0 = Inr cid" by (auto simp: read_coll_message_def res_bind_eq_Inr)
  note e = enc64_rd64 [OF c]
  show ?thesis
  proof (cases "length bs = 8")
    case True
    then show ?thesis using r c e by (auto simp: read_coll_message_def)
  next
    case False
    then obtain n where n: "rd64 bs 8 = Inr n" "m = Data_Message cid n (drop 16 bs)"
      using r c by (auto simp: read_coll_message_def res_bind_eq_Inr)
    have "take 8 bs @ take 8 (drop 8 bs) @ drop 16 bs = take 8 bs @ take 8 (drop 8 bs) @ drop 8 (drop 8 bs)" by simp
    also have "\<dots> = bs" by (simp only: append_take_drop_id)
    finally show ?thesis using e enc64_rd64 [OF n(1)] by (simp add: n(2))
  qed
qed

interpretation coll_wire: wire_format write_coll_message read_coll_message "\<lambda>_. True"
  by unfold_locales (simp_all add: read_write_coll_message write_read_coll_message)

section \<open>Identifiers\<close>

lemma low_bits:
  fixes w :: u64
  assumes "unat w = r * 2 ^ k + i" and "i < 2 ^ k" and "k < 64"
  shows "unat (w AND (push_bit k 1 - 1)) = i"
proof -
  have "push_bit k 1 - 1 = (mask k :: u64)" by (simp add: mask_eq_exp_minus_1 push_bit_eq_mult)
  then have "w AND (push_bit k 1 - 1) = take_bit k w" by (simp add: take_bit_eq_mask)
  then have "unat (w AND (push_bit k 1 - 1)) = take_bit k (unat w)" by (simp add: unsigned_take_bit_eq)
  then show ?thesis using assms by (simp add: take_bit_eq_mod)
qed

lemma chunk_id_fields:
  assumes "r < 2 ^ 26" and "unat q < 2 ^ 38" and "cc_id c = chunk_id q r"
  shows "origin c = r \<and> sequence c = q"
proof -
  have id: "chunk_id q r = push_bit 38 (word_of_nat r) OR word_of_nat (unat q)"
    by (simp add: chunk_id_def ID_BITS_def)
  have v: "unat (chunk_id q r) = r * 2 ^ 38 + unat q"
    unfolding id by (rule unat_packed_id) (use assms in simp_all)
  have "unat (drop_bit 38 (chunk_id q r)) = r"
    unfolding id by (rule drop_packed_id) (use assms in simp_all)
  moreover have "unat (chunk_id q r AND (push_bit 38 1 - 1)) = unat q"
    by (rule low_bits [OF v assms(2)]) simp
  then have "chunk_id q r AND (push_bit 38 1 - 1) = q" by (simp add: word_unat_eq_iff)
  ultimately show ?thesis by (simp add: origin_def sequence_def ID_BITS_def assms(3))
qed

lemma unat_chunk_id: "r < 2 ^ 26 \<Longrightarrow> unat q < 2 ^ 38 \<Longrightarrow> unat (chunk_id q r) = r * 2 ^ 38 + unat q"
proof -
  assume a: "r < 2 ^ 26" "unat q < 2 ^ 38"
  have id: "chunk_id q r = push_bit 38 (word_of_nat r) OR word_of_nat (unat q)" by (simp add: chunk_id_def ID_BITS_def)
  show ?thesis unfolding id by (rule unat_packed_id) (use a in simp_all)
qed

lemma coll_deserialize_Inr:
  fixes b b' :: "'w br_scheme"
  assumes "coll_deserialize strm m b = (Inr c, b')"
  shows "br.more b' = br.more b \<and>
    ((\<exists>cid. read_coll_message m = Inr (Finish_Message cid) \<and> c = new_finish_chunk cid INVALID_RANK) \<or>
     (\<exists>cid n md. read_coll_message m = Inr (Data_Message cid n md) \<and> cc_id c = cid \<and> cc_metadata c = Some md \<and> cc_data_size c = n))"
proof (cases "read_coll_message m")
  case (Inl e)
  then show ?thesis using assms by (simp add: coll_deserialize_def)
next
  case (Inr msg)
  show ?thesis
  proof (cases msg)
    case (Finish_Message cid)
    then show ?thesis using assms Inr by (simp add: coll_deserialize_def)
  next
    case (Data_Message cid n md)
    obtain d res b1 where re: "reserve_or_fail (unat n) ADDRESSABLE_MEMORY_TYPES b = (Inr res, b1)"
      and w: "with_reservation res (\<lambda>st. make_buffer (res_size (snd st)) strm st) b1 = (Inr d, b')"
      and c: "new_data_chunk cid INVALID_RANK (Some md) (Some d) = Inr c"
      using assms by (auto simp: coll_deserialize_def Inr Data_Message act_bind_cases)
    from w obtain st where mk: "make_buffer (res_size res) strm (b1, res) = (Inr d, st)"
      by (auto simp: with_reservation_def split: prod.splits sum.splits)
    have "buf_size d = unat n" using make_buffer_Inr [OF mk] reserve_or_fail_Inr [OF re] by (simp add: fresh_def)
    moreover have "br.more (snd (with_reservation res (\<lambda>st. make_buffer (res_size (snd st)) strm st) b1)) = br.more b1"
      by (rule with_reservation_more) (rule make_buffer_more)
    moreover have "br.more b1 = br.more b" using reserve_or_fail_Inr [OF re] by simp
    ultimately show ?thesis using c w by (auto simp: Inr Data_Message new_data_chunk_def)
  qed
qed

section \<open>Spilling one chunk\<close>

definition cc_ok :: "coll_chunk \<Rightarrow> bool" where
  "cc_ok c \<longleftrightarrow>
     (\<forall>d. cc_data c = Some d \<longrightarrow> buf_size d = unat (cc_data_size c) \<and> buf_size d < 2 ^ 63 \<and> (\<exists>bs. holds bs d))"

text \<open>The same chunk, its bytes in another memory type.\<close>

definition cc_same :: "coll_chunk \<Rightarrow> coll_chunk \<Rightarrow> bool" where
  "cc_same c c' \<longleftrightarrow>
     c' = c\<lparr>cc_data := cc_data c'\<rparr> \<and>
     map_option (\<lambda>d. (buf_storage d, buf_size d, buf_stream d)) (cc_data c') =
     map_option (\<lambda>d. (buf_storage d, buf_size d, buf_stream d)) (cc_data c)"

text \<open>The chunks at the positions \<open>S\<close> have moved to a memory type that is a target of spilling, the others are as they were.\<close>

definition moved_out :: "post_box \<Rightarrow> nat set \<Rightarrow> post_box \<Rightarrow> bool" where
  "moved_out pb S pb' \<longleftrightarrow> length pb' = length pb \<and>
     (\<forall>j<length pb. if j \<in> S then cc_same (pb ! j) (pb' ! j) \<and> memory_type (pb' ! j) \<in> set SPILL_TARGET_MEMORY_TYPES \<and> cc_ok (pb' ! j)
                    else pb' ! j = pb ! j)"

lemma moved_out_empty [simp]: "moved_out pb {} pb"
  by (simp add: moved_out_def)

lemma moved_out_size: "moved_out pb S pb' \<Longrightarrow> j < length pb \<Longrightarrow> size_at pb' j = size_at pb j"
  by (auto simp: moved_out_def size_at_def cc_same_def split: if_splits) (metis coll_chunk.select_convs(5) coll_chunk.update_convs(4) coll_chunk.surjective)

lemma moved_out_trans:
  assumes "moved_out pb S pb1" and "moved_out pb1 T pb2" and "S \<inter> T = {}"
  shows "moved_out pb (S \<union> T) pb2"
proof -
  have l: "length pb1 = length pb" "length pb2 = length pb" using assms by (simp_all add: moved_out_def)
  have "if j \<in> S \<union> T then cc_same (pb ! j) (pb2 ! j) \<and> memory_type (pb2 ! j) \<in> set SPILL_TARGET_MEMORY_TYPES \<and> cc_ok (pb2 ! j) else pb2 ! j = pb ! j"
    if "j < length pb" for j
  proof -
    have 1: "if j \<in> S then cc_same (pb ! j) (pb1 ! j) \<and> memory_type (pb1 ! j) \<in> set SPILL_TARGET_MEMORY_TYPES \<and> cc_ok (pb1 ! j) else pb1 ! j = pb ! j"
      using assms(1) that by (simp add: moved_out_def)
    have 2: "if j \<in> T then cc_same (pb1 ! j) (pb2 ! j) \<and> memory_type (pb2 ! j) \<in> set SPILL_TARGET_MEMORY_TYPES \<and> cc_ok (pb2 ! j) else pb2 ! j = pb1 ! j"
      using assms(2) that l by (simp add: moved_out_def)
    consider "j \<in> S" "j \<notin> T" | "j \<notin> S" "j \<in> T" | "j \<notin> S" "j \<notin> T" using assms(3) by blast
    then show ?thesis using 1 2 by cases simp_all
  qed
  then show ?thesis using l by (simp add: moved_out_def)
qed

definition spillable_at :: "post_box \<Rightarrow> nat \<Rightarrow> bool" where
  "spillable_at pb i \<longleftrightarrow> i < length pb \<and> memory_type (pb ! i) = DEVICE \<and> cc_ok (pb ! i)"

lemma moved_out_spillable: "moved_out pb S pb' \<Longrightarrow> spillable_at pb j \<Longrightarrow> j \<notin> S \<Longrightarrow> spillable_at pb' j"
  by (auto simp: moved_out_def spillable_at_def)

lemma spill_at_Inr:
  fixes b b' :: "'w br_scheme"
  assumes s: "spillable_at pb i" and sp: "spill_at stats i pb b = ((Inr n, pb'), b')"
  shows "n = size_at pb i \<and> moved_out pb {i} pb' \<and> spilled_by n b b'"
proof -
  let ?c = "pb ! i"
  have i: "i < length pb" and ok: "cc_ok ?c" and mt: "memory_type ?c = DEVICE" using s by (simp_all add: spillable_at_def)
  from mt obtain d where d: "cc_data ?c = Some d" "buf_mem d = DEVICE" by (auto simp: memory_type_def split: option.splits)
  from ok d(1) obtain bs where h: "holds bs d" "buf_size d < 2 ^ 63" "buf_size d = unat (cc_data_size ?c)"
    by (auto simp: cc_ok_def)
  from sp obtain c where sc: "coll_spill_chunk stats ?c b = ((Inr n, c), b')" "pb' = pb[i := c]"
    by (auto simp: spill_at_def split: prod.splits)
  then obtain d' where
    mv: "act_bind (reserve_or_fail (buf_size d) SPILL_TARGET_MEMORY_TYPES)
       (\<lambda>res. with_reservation res (move_buffer stats d)) b = (Inr d', b')"
    and c: "c = ?c\<lparr>cc_data := Some d'\<rparr>" and n: "n = unat (cc_data_size ?c)"
    using d(1) by (auto simp: coll_spill_chunk_def coll_release_data_buffer_def attach_data_buffer_def act_bind_def h(3)
        split: prod.splits sum.splits if_splits)
  note M = spill_buffer_Inr [OF h(1,2) d(2) mv]
  have "cc_same ?c c" "memory_type c \<in> set SPILL_TARGET_MEMORY_TYPES" "cc_ok c"
    using M h d by (auto simp: c cc_same_def memory_type_def cc_ok_def holds_def)
  then have "moved_out pb {i} pb'" using i by (auto simp: moved_out_def sc(2) nth_list_update)
  then show ?thesis using M by (simp add: n size_at_def h(3))
qed

section \<open>Spilling everything\<close>

lemma spill_everything_Inr:
  fixes b b' :: "'w br_scheme"
  assumes "spill_everything stats ps spilled pb b = ((Inr k, pb'), b')" and "distinct ps"
    and "\<forall>i\<in>set ps. spillable_at pb i" and "spilled + total (size_at pb) ps < 2 ^ 64"
  shows "k = spilled + total (size_at pb) ps \<and> moved_out pb (set ps) pb' \<and> spilled_by (k - spilled) b b'"
  using assms
proof (induction ps arbitrary: spilled pb b)
  case Nil
  then show ?case by simp
next
  case (Cons i ps)
  have si: "spillable_at pb i" using Cons.prems(3) by simp
  from Cons.prems(1) obtain n pb1 b1 where sp: "spill_at stats i pb b = ((Inr n, pb1), b1)"
    and rest: "spill_everything stats ps ((spilled + n) mod 2 ^ 64) pb1 b1 = ((Inr k, pb'), b')"
    by (auto split: prod.splits sum.splits)
  note A = spill_at_Inr [OF si sp]
  have sz: "total (size_at pb1) ps = total (size_at pb) ps"
  proof -
    have "size_at pb1 j = size_at pb j" if "j \<in> set ps" for j
      using moved_out_size A Cons.prems(3) that by (auto simp: spillable_at_def)
    then show ?thesis by (metis map_eq_conv)
  qed
  have m: "(spilled + n) mod 2 ^ 64 = spilled + n" using A Cons.prems(4) by simp
  have ps1: "\<forall>j\<in>set ps. spillable_at pb1 j"
    using moved_out_spillable A Cons.prems(2,3) by (metis distinct.simps(2) list.set_intros(2) singletonD)
  have I: "k = spilled + n + total (size_at pb1) ps \<and> moved_out pb1 (set ps) pb' \<and> spilled_by (k - (spilled + n)) b1 b'"
    by (rule Cons.IH) (use rest m ps1 Cons.prems(2,4) A sz in simp_all)
  have "moved_out pb {i} pb1" "moved_out pb1 (set ps) pb'" "{i} \<inter> set ps = {}" using A I Cons.prems(2) by simp_all
  then have "moved_out pb ({i} \<union> set ps) pb'" by (rule moved_out_trans)
  moreover have "spilled_by (n + (k - (spilled + n))) b b'" using spilled_by_trans A I by blast
  moreover have "n + (k - (spilled + n)) = k - spilled" using I by simp
  ultimately show ?case using A I sz by simp
qed

section \<open>Spilling few chunks\<close>

lemma lower_bound_or_last:
  "ps \<noteq> [] \<Longrightarrow> lower_bound_or_last sz need ps \<in> set ps \<and>
     (need \<le> sz (lower_bound_or_last sz need ps) \<or> lower_bound_or_last sz need ps = last ps)"
  by (induction sz need ps rule: lower_bound_or_last.induct) auto

lemma sorted_last_max: "sorted (map sz ps) \<Longrightarrow> x \<in> set ps \<Longrightarrow> sz x \<le> (sz (last ps) :: nat)"
  by (induction ps) auto

text \<open>Enough of the positions reach the amount only if they are at least as many as \<open>js\<close>.\<close>

definition fewest :: "(nat \<Rightarrow> nat) \<Rightarrow> nat set \<Rightarrow> nat \<Rightarrow> nat \<Rightarrow> bool" where
  "fewest sz P need m \<longleftrightarrow> (\<forall>S. S \<subseteq> P \<longrightarrow> need \<le> sum sz S \<longrightarrow> m \<le> card S)"

lemma fewest_one: "need > 0 \<Longrightarrow> finite P \<Longrightarrow> fewest sz P need 1"
  unfolding fewest_def by (metis Suc_leI card_gt_0_iff finite_subset leD One_nat_def sum.empty)

lemma fewest_step:
  assumes few: "fewest sz (P - {l}) (need - sz l) m" and l: "l \<in> P" "\<forall>x\<in>P. sz x \<le> sz l" and fin: "finite P" and pos: "need > 0"
  shows "fewest sz P need (Suc m)"
  unfolding fewest_def
proof (intro allI impI)
  fix S assume S: "S \<subseteq> P" "need \<le> sum sz S"
  have fS: "finite S" using S(1) fin by (rule finite_subset)
  obtain x where x: "x \<in> S" "l \<in> S \<longrightarrow> x = l" using S(2) pos by (cases "l \<in> S") (auto, metis all_not_in_conv leD sum.empty)
  have "sum sz S = sz x + sum sz (S - {x})" using fS x(1) by (rule sum.remove)
  then have "need - sz l \<le> sum sz (S - {x})" using S l(2) x(1) by fastforce
  moreover have "S - {x} \<subseteq> P - {l}" using S(1) x(2) by auto
  ultimately have "m \<le> card (S - {x})" using few by (simp add: fewest_def)
  then show "Suc m \<le> card S" using fS x(1) by (metis Suc_le_mono card.remove)
qed

lemma spill_greedy_Inr:
  fixes b b' :: "'w br_scheme"
  assumes "spill_greedy stats amount ps spilled pb b = ((Inr k, pb'), b')" and "distinct ps" and "sorted (map (size_at pb) ps)"
    and "\<forall>i\<in>set ps. spillable_at pb i" and "spilled + total (size_at pb) ps < 2 ^ 64" and "spilled < amount"
    and "amount \<le> spilled + total (size_at pb) ps"
  shows "\<exists>S \<subseteq> set ps. k = spilled + sum (size_at pb) S \<and> moved_out pb S pb' \<and> spilled_by (k - spilled) b b' \<and>
    amount \<le> k \<and> fewest (size_at pb) (set ps) (amount - spilled) (card S)"
  using assms
proof (induction "length ps" arbitrary: ps spilled pb b)
  case 0
  then show ?case by simp
next
  case (Suc m)
  then have ne: "ps \<noteq> []" by auto
  define i where "i = lower_bound_or_last (size_at pb) (amount - spilled) ps"
  note L = lower_bound_or_last [OF ne, of "size_at pb" "amount - spilled", folded i_def]
  then have si: "spillable_at pb i" using Suc.prems(4) by blast
  obtain n pb1 b1 where sp: "spill_at stats i pb b = ((Inr n, pb1), b1)"
    using Suc.prems(1) ne by (subst (asm) spill_greedy.simps) (auto simp: i_def split: prod.splits sum.splits)
  note A = spill_at_Inr [OF si sp]
  have "size_at pb i \<le> total (size_at pb) ps" using L by (intro total_ge_mem) blast
  then have md: "(spilled + n) mod 2 ^ 64 = spilled + n" using A Suc.prems(5) by simp
  have step: "(if amount \<le> spilled + n then ((Inr (spilled + n), pb1), b1)
      else spill_greedy stats amount (butlast ps) (spilled + n) pb1 b1) = ((Inr k, pb'), b')"
    using Suc.prems(1) ne sp md by (subst (asm) spill_greedy.simps) (simp add: i_def Let_def)
  show ?case
  proof (cases "amount \<le> spilled + n")
    case True
    have "fewest (size_at pb) (set ps) (amount - spilled) 1" by (rule fewest_one) (use Suc.prems(6) in simp_all)
    then show ?thesis using step True A L by (intro exI [of _ "{i}"]) auto
  next
    case False
    then have il: "i = last ps" using L A by auto
    let ?ps = "butlast ps"
    have ps: "ps = ?ps @ [i]" using ne il by simp
    have dps: "distinct ?ps" "i \<notin> set ?ps" using Suc.prems(2) ps by (metis distinct_append not_distinct_conv_prefix distinct.simps(2) disjoint_insert(1) list.simps(15))+
    have sz: "size_at pb1 j = size_at pb j" if "j \<in> set ?ps" for j
      using moved_out_size A Suc.prems(4) that in_set_butlastD by (metis spillable_at_def)
    then have mp: "map (size_at pb1) ?ps = map (size_at pb) ?ps" by simp
    have tot1: "total (size_at pb1) ?ps = total (size_at pb) ?ps" by (simp only: mp)
    have tot: "total (size_at pb) ps = total (size_at pb) ?ps + n" using A by (subst ps) simp
    have ps1: "\<forall>j\<in>set ?ps. spillable_at pb1 j"
      using moved_out_spillable A Suc.prems(4) dps(2) in_set_butlastD by (metis singletonD)
    have srt: "sorted (map (size_at pb) ?ps)" using Suc.prems(3) by (subst (asm) ps) (simp add: sorted_append)
    then have srt1: "sorted (map (size_at pb1) ?ps)" by (simp only: mp)
    have "\<exists>S \<subseteq> set ?ps. k = spilled + n + sum (size_at pb1) S \<and> moved_out pb1 S pb' \<and> spilled_by (k - (spilled + n)) b1 b' \<and>
        amount \<le> k \<and> fewest (size_at pb1) (set ?ps) (amount - (spilled + n)) (card S)"
      by (rule Suc.hyps(1)) (use Suc.hyps(2) step False dps ps1 srt1 tot tot1 Suc.prems(5,7) in simp_all)
    then obtain S where S: "S \<subseteq> set ?ps" "k = spilled + n + sum (size_at pb1) S" "moved_out pb1 S pb'"
      "spilled_by (k - (spilled + n)) b1 b'" "amount \<le> k" "fewest (size_at pb1) (set ?ps) (amount - (spilled + n)) (card S)" by blast
    have iS: "i \<notin> S" and fS: "finite S" using S(1) dps(2) finite_subset [OF S(1)] by auto
    have sumS: "sum (size_at pb1) T = sum (size_at pb) T" if "T \<subseteq> set ?ps" for T using sz that by (intro sum.cong) auto
    have P: "set ps - {i} = set ?ps" using ps dps(2) by (metis Diff_insert_absorb insert_is_Un list.set(1) list.simps(15) set_append sup_commute)
    have "fewest (size_at pb) (set ps - {i}) (amount - spilled - size_at pb i) (card S)"
      using S(6) A sumS unfolding P fewest_def by simp
    then have "fewest (size_at pb) (set ps) (amount - spilled) (Suc (card S))"
      by (rule fewest_step) (use L sorted_last_max [OF Suc.prems(3)] il Suc.prems(6) in auto)
    moreover have "moved_out pb ({i} \<union> S) pb'"
      by (rule moved_out_trans [where ?pb1.0 = pb1]) (use A S(3) iS in auto)
    moreover have "spilled_by (n + (k - (spilled + n))) b b'" using spilled_by_trans A S(4) by blast
    moreover have "n + (k - (spilled + n)) = k - spilled" using S(2) by simp
    moreover have "insert i S \<subseteq> set ps" using S(1) L in_set_butlastD by fastforce
    ultimately show ?thesis using S(2,5) A iS fS sumS [OF S(1)] by (intro exI [of _ "insert i S"]) simp
  qed
qed


section \<open>Properties\<close>

text \<open>Property C12: spilling a post box. The bytes reported are those of the chunks that left device memory for a memory type that is a
  target of spilling (pinned or pageable host memory); they keep their place, identifier, metadata and bytes, and the device headroom grows by exactly what is reported. If the spillable chunks
  do not reach the amount, all of them leave; otherwise the amount is reached, with as few chunks as any
  selection that reaches it.\<close>

theorem post_box_spill:
  fixes b b' :: "'w br_scheme"
  assumes "pb_spill stats amount pb b = ((Inr k, pb'), b')" and "\<forall>c\<in>set pb. cc_ok c"
    and "total (size_at pb) (spillable_positions pb) < 2 ^ 63" and "amount > 0"
  shows "\<exists>S \<subseteq> set (spillable_positions pb). k = sum (size_at pb) S \<and> moved_out pb S pb' \<and>
    device_headroom b' = device_headroom b + int k \<and>
    (if total (size_at pb) (spillable_positions pb) < amount then S = set (spillable_positions pb)
     else amount \<le> k \<and> fewest (size_at pb) (set (spillable_positions pb)) amount (card S))"
proof -
  let ?ps = "spillable_positions pb" and ?sz = "size_at pb"
  have sp: "\<forall>i\<in>set ?ps. spillable_at pb i" and d: "distinct ?ps"
    using assms(2) by (auto simp: spillable_positions_def spillable_at_def)
  have m: "total ?sz ?ps mod 2 ^ 64 = total ?sz ?ps" using assms(3) by simp
  have dsum: "total ?sz ?ps = sum ?sz (set ?ps)" using d by (simp add: sum_list_distinct_conv_sum_set)
  show ?thesis
  proof (cases "total ?sz ?ps < amount")
    case True
    then have e: "spill_everything stats ?ps 0 pb b = ((Inr k, pb'), b')"
      using assms(1) m unfolding pb_spill_def Let_def by simp
    have S: "k = 0 + total ?sz ?ps \<and> moved_out pb (set ?ps) pb' \<and> spilled_by (k - 0) b b'"
      by (rule spill_everything_Inr [OF e d sp]) (use assms(3) in simp)
    then have "spilled_by k b b'" by (metis diff_zero)
    then have "device_headroom b' = device_headroom b + int k" by (rule spilled_by_headroom)
    then show ?thesis using S True dsum by (intro exI [of _ "set ?ps"]) simp
  next
    case False
    let ?qs = "sort_key ?sz ?ps"
    have ms: "mset ?qs = mset ?ps" by simp
    have tq: "total ?sz ?qs = total ?sz ?ps" by (rule total_mset [OF ms])
    have e: "spill_greedy stats amount ?qs 0 pb b = ((Inr k, pb'), b')"
      using assms(1) m False unfolding pb_spill_def Let_def by simp
    have "\<exists>S \<subseteq> set ?qs. k = 0 + sum ?sz S \<and> moved_out pb S pb' \<and> spilled_by (k - 0) b b' \<and>
        amount \<le> k \<and> fewest ?sz (set ?qs) (amount - 0) (card S)"
      by (rule spill_greedy_Inr [OF e]) (use d sp False assms(3,4) tq in simp_all)
    then show ?thesis using False spilled_by_headroom [of k b b'] by auto
  qed
qed

definition example_coll_chunk :: "nat \<Rightarrow> coll_chunk" where
  "example_coll_chunk n = \<lparr>cc_id = word_of_nat n, cc_destination = 0, cc_metadata = Some [1],
     cc_data = Some (example_buffer DEVICE (replicate n 7)), cc_data_size = word_of_nat n\<rparr>"

definition example_box :: post_box where
  "example_box = [example_coll_chunk 1, example_coll_chunk 3]"

theorem post_box_spill_witness:
  "\<exists>pb' b'. pb_spill False 2 example_box example_br = ((Inr 3, pb'), b') \<and>
     device_headroom b' = device_headroom example_br + 3"
proof -
  have ok: "\<forall>c\<in>set example_box. cc_ok c"
    by (simp add: example_box_def cc_ok_def example_coll_chunk_def example_buffer_def holds_def)
  have ps: "spillable_positions example_box = [0, 1]"
    by (simp add: example_box_def spillable_positions_def memory_type_def example_coll_chunk_def example_buffer_def upt_rec)
  have sz: "size_at example_box 0 = 1" "size_at example_box (Suc 0) = 3"
    by (simp_all add: example_box_def size_at_def example_coll_chunk_def)
  have nth: "example_box ! Suc 0 = example_coll_chunk 3" by (simp add: example_box_def)
  have "\<exists>c b'. coll_spill_chunk False (example_coll_chunk 3) example_br = ((Inr 3, c), b')"
    by (simp add: coll_spill_chunk_def example_coll_chunk_def coll_release_data_buffer_def attach_data_buffer_def
        example_buffer_def reserve_or_fail_def SPILL_TARGET_MEMORY_TYPES_def reserve_evals
        with_reservation_def move_buffer_def make_buffer_def example_br_def
        allocate_storage_def invalid_stream_def new_host_buffer_def host_buffer_types_def release_def
        add_allocated_def buffer_copy_def check_range_def to_ptrdiff_def upt_rec write_access_def
        buffer_data_def throw_if_locked_def storage_bytes_def memcpy_def record_write_event_def clear_def)
  then obtain c b' where "coll_spill_chunk False (example_coll_chunk 3) example_br = ((Inr 3, c), b')" by blast
  then have "\<exists>pb' b'. pb_spill False 2 example_box example_br = ((Inr 3, pb'), b')"
    by (simp add: pb_spill_def ps sz Let_def spill_greedy.simps spill_at_def nth)
  then obtain pb' b' where r: "pb_spill False 2 example_box example_br = ((Inr 3, pb'), b')" by blast
  have "total (size_at example_box) (spillable_positions example_box) < 2 ^ 63" by (simp add: ps sz)
  from post_box_spill [OF r ok this] r show ?thesis by auto
qed

text \<open>The receiver of a chunk recovers the rank that made it, its sequence number, metadata and data size, for ranks
  within 26 and sequence numbers within 38 bits, and never takes it for a finish marker; a finish marker
  arrives as one, with the number it carries.\<close>

theorem coll_chunk_roundtrip:
  fixes b b' :: "'w br_scheme"
  assumes "r < 2 ^ 26" and "unat q < 2 ^ 38" and "buf_size (pd_data p) < 2 ^ 64"
    and "coll_from_packed_data q r dst p = Inr c" and "coll_deserialize strm (coll_serialize c) b = (Inr c', b')"
  shows "origin c' = r \<and> sequence c' = q \<and> cc_metadata c' = Some (pd_metadata p) \<and>
    unat (cc_data_size c') = buf_size (pd_data p) \<and> \<not> is_finish c' \<and>
    coll_deserialize strm (coll_serialize (from_empty q r dst)) b = (Inr (from_empty q r INVALID_RANK), b)"
proof -
  from assms(4) have c: "cc_id c = chunk_id q r" "cc_metadata c = Some (pd_metadata p)" "\<not> is_finish c"
    "unat (cc_data_size c) = buf_size (pd_data p)"
    using assms(3) by (auto simp: coll_from_packed_data_def new_data_chunk_def is_finish_def unat_of_nat)
  then have m: "coll_message_of c = Data_Message (chunk_id q r) (cc_data_size c) (pd_metadata p)"
    by (simp add: coll_message_of_def)
  have "read_coll_message (coll_serialize c) = Inr (Data_Message (chunk_id q r) (cc_data_size c) (pd_metadata p))"
    by (simp add: coll_serialize_def m read_write_coll_message del: write_coll_message.simps)
  then have "unat (cc_data_size c') = buf_size (pd_data p)" "cc_id c' = chunk_id q r" "cc_metadata c' = Some (pd_metadata p)" "\<not> is_finish c'"
    using coll_deserialize_Inr [OF assms(5)] c(4) by (auto simp: is_finish_def)
  moreover have "coll_deserialize strm (coll_serialize (from_empty q r dst)) b = (Inr (from_empty q r INVALID_RANK), b)"
    by (simp add: coll_deserialize_def coll_serialize_def from_empty_def new_finish_chunk_def coll_message_of_def is_finish_def
        read_write_coll_message del: write_coll_message.simps)
  ultimately show ?thesis using chunk_id_fields [OF assms(1,2)] by blast
qed

definition example_packed :: packed_data where
  "example_packed = \<lparr>pd_metadata = [4, 5], pd_data = example_buffer HOST [1, 2, 3]\<rparr>"

theorem coll_chunk_roundtrip_witness:
  "\<exists>c c' b'. coll_from_packed_data 9 2 0 example_packed = Inr c \<and> coll_deserialize 1 (coll_serialize c) example_br = (Inr c', b') \<and>
     origin c' = 2 \<and> sequence c' = 9"
proof -
  obtain c where c: "coll_from_packed_data 9 2 0 example_packed = Inr c"
    by (simp add: coll_from_packed_data_def new_data_chunk_def)
  have "coll_message_of c = Data_Message (chunk_id 9 2) 3 [4, 5]"
    using c by (auto simp: coll_from_packed_data_def new_data_chunk_def coll_message_of_def is_finish_def example_packed_def example_buffer_def)
  then have "\<exists>c' b'. coll_deserialize 1 (coll_serialize c) example_br = (Inr c', b')"
    by (simp add: coll_deserialize_def coll_serialize_def read_write_coll_message reserve_or_fail_def ADDRESSABLE_MEMORY_TYPES_def
        reserve_evals with_reservation_def make_buffer_def allocate_storage_def invalid_stream_def
        new_host_buffer_def new_device_buffer_def host_buffer_types_def device_buffer_types_def release_def add_allocated_def clear_def new_data_chunk_def
        example_br_def del: write_coll_message.simps)
  then obtain c' b' where d: "coll_deserialize 1 (coll_serialize c) example_br = (Inr c', b')" by blast
  show ?thesis
    using coll_chunk_roundtrip [OF _ _ _ c d] c d by (auto simp: example_packed_def example_buffer_def)
qed

end
