(* ===== verification/All_Gather.thy ===== *)
theory All_Gather
  imports Coll_Postbox Progress_Thread
begin

text \<open>
  The ring allgather of \<^verbatim>\<open>coll/allgather.cpp\<close>. Every rank sends what it inserts, and what it receives from its
  predecessor, to its successor, except what the successor made itself; finish markers travel the same
  way and carry the number of chunks each rank inserted. The communicator's answers are inputs of an
  iteration: \<open>ag_inbox\<close> holds the metadata messages not yet taken from the predecessor, \<open>ring_comm\<close> says which
  posted receives and sends \<^verbatim>\<open>test_some\<close> reports and the buffers they release. \<open>ag_outbox\<close> logs the messages sent.
  The atomics are read and written inside one iteration or one call, which is one step here.
\<close>

record allgather = br +
  ag_rank :: nat
  ag_nranks :: nat
  ag_stats :: bool
  ag_inserted :: post_box
  ag_for_extraction :: post_box
  ag_locally_finished :: bool
  ag_nlocal :: u32
  ag_finish_counter :: int
  ag_goalpost :: u64
  ag_remote_finish :: int
  ag_num_received :: u64
  ag_num_expected :: u64
  ag_to_receive :: "coll_chunk list"
  ag_sent_posted :: "coll_chunk list"
  ag_sent_futures :: "buffer option list"
  ag_receive_posted :: "coll_chunk list"
  ag_receive_futures :: "buffer option list"
  ag_fire_and_forget :: "u8 list list"
  ag_can_extract :: bool
  ag_callback :: bool
  ag_callback_calls :: nat
  ag_inbox :: "u8 list list"
  ag_outbox :: "u8 list list"

record ring_comm =
  rg_received :: "nat list"
  rg_sent :: "nat list"
  rg_buffer_received :: "nat \<Rightarrow> buffer"
  rg_buffer_sent :: "nat \<Rightarrow> buffer"
  rg_done :: "nat list"

definition new_allgather :: "nat \<Rightarrow> nat \<Rightarrow> bool \<Rightarrow> bool \<Rightarrow> br \<Rightarrow> allgather" where
  "new_allgather rank nranks stats callback b =
     br.extend b \<lparr>ag_rank = rank, ag_nranks = nranks, ag_stats = stats, ag_inserted = [], ag_for_extraction = [],
       ag_locally_finished = False, ag_nlocal = 0, ag_finish_counter = int nranks, ag_goalpost = 0,
       ag_remote_finish = int nranks - 1, ag_num_received = 0, ag_num_expected = 0, ag_to_receive = [],
       ag_sent_posted = [], ag_sent_futures = [], ag_receive_posted = [], ag_receive_futures = [],
       ag_fire_and_forget = [], ag_can_extract = False, ag_callback = callback, ag_callback_calls = 0,
       ag_inbox = [], ag_outbox = []\<rparr>"

definition ring_dst :: "'w allgather_scheme \<Rightarrow> nat" where
  "ring_dst s = (ag_rank s + 1) mod ag_nranks s"

definition ring_src :: "'w allgather_scheme \<Rightarrow> nat" where
  "ring_src s = (ag_rank s + ag_nranks s - 1) mod ag_nranks s"

section \<open>The client's calls\<close>

definition insert_ag_chunk :: "coll_chunk \<Rightarrow> ('w allgather_scheme, unit) act" where
  "insert_ag_chunk c s =
     (if ag_locally_finished s then (Inl Logic_Error, s)
      else if \<not> (ag_nranks s = 1 \<or> memory_type c \<in> set ADDRESSABLE_MEMORY_TYPES) then (Inl Logic_Error, s)
      else (Inr (), s\<lparr>ag_inserted := pb_insert c (ag_inserted s)\<rparr>))"

text \<open>The insertion is counted before the checks of the chunk.\<close>

definition allgather_insert :: "u64 \<Rightarrow> packed_data \<Rightarrow> ('w allgather_scheme, unit) act" where
  "allgather_insert q p =
     act_bind (\<lambda>s. if ag_nranks s > 1
                   then ensure_memory_type (ag_stats s) (Some (pd_data p)) ADDRESSABLE_MEMORY_TYPES s
                   else (Inr (pd_data p), s))
       (\<lambda>d s.
          let s1 = s\<lparr>ag_nlocal := ag_nlocal s + 1\<rparr> in
          case coll_from_packed_data q (ag_rank s) INVALID_RANK (p\<lparr>pd_data := d\<rparr>) of
            Inl e \<Rightarrow> (Inl e, s1)
          | Inr c \<Rightarrow> insert_ag_chunk c s1)"

definition allgather_insert_finished :: "'w allgather_scheme \<Rightarrow> 'w allgather_scheme" where
  "allgather_insert_finished s =
     s\<lparr>ag_inserted := pb_insert (from_empty (ucast (ag_nlocal s)) (ag_rank s) INVALID_RANK) (ag_inserted s),
       ag_locally_finished := True\<rparr>"

definition mark_finish :: "u64 \<Rightarrow> 'w allgather_scheme \<Rightarrow> 'w allgather_scheme" where
  "mark_finish expected s =
     s\<lparr>ag_goalpost := ag_goalpost s + expected, ag_finish_counter := ag_finish_counter s - 1\<rparr>"

text \<open>\<open>wait\<close>: \<open>None\<close> while it blocks.\<close>

definition allgather_wait :: "bool \<Rightarrow> 'w allgather_scheme \<Rightarrow> unit result option" where
  "allgather_wait timed_out s =
     (if ag_can_extract s then Some (Inr ()) else if timed_out then Some (Inl Runtime_Error) else None)"

fun release_all :: "coll_chunk list \<Rightarrow> packed_data list result" where
  "release_all [] = Inr []"
| "release_all (c # cs) = res_bind (coll_release c) (\<lambda>p. res_bind (release_all cs) (\<lambda>ps. Inr (p # ps)))"

definition wait_and_extract :: "bool \<Rightarrow> bool \<Rightarrow> 'w allgather_scheme \<Rightarrow> (packed_data list result \<times> 'w allgather_scheme) option" where
  "wait_and_extract ordered timed_out s =
     (case allgather_wait timed_out s of
        None \<Rightarrow> None
      | Some (Inl e) \<Rightarrow> Some (Inl e, s)
      | Some (Inr _) \<Rightarrow>
          (case pb_extract (ag_for_extraction s) of (cs, pb) \<Rightarrow>
             Some (release_all (if ordered then sort_key (\<lambda>c. unat (cc_id c)) cs else cs),
                   s\<lparr>ag_for_extraction := pb, ag_goalpost := ag_goalpost s - word_of_nat (length cs)\<rparr>)))"

definition allgather_spill :: "nat option \<Rightarrow> ('w allgather_scheme, nat) act" where
  "allgather_spill amount s =
     (case (case amount of
              Some n \<Rightarrow> Inr n
            | None \<Rightarrow> res_bind (memory_available DEVICE s) (\<lambda>headroom.
                if headroom < 0 then res_bind (chk64 \<bar>headroom\<bar>) to_size else Inr 0)) of
        Inl e \<Rightarrow> (Inl e, s)
      | Inr need \<Rightarrow>
          if need = 0 then (Inr 0, s)
          else case pb_spill (ag_stats s) need (ag_for_extraction s) s of
                 ((Inl e, pb), s1) \<Rightarrow> (Inl e, s1\<lparr>ag_for_extraction := pb\<rparr>)
               | ((Inr spilled, pb), s1) \<Rightarrow>
                   (let s2 = s1\<lparr>ag_for_extraction := pb\<rparr> in
                    if spilled \<ge> need then (Inr spilled, s2)
                    else case pb_spill (ag_stats s2) (need - spilled) (ag_inserted s2) s2 of
                           ((Inl e, pb'), s3) \<Rightarrow> (Inl e, s3\<lparr>ag_inserted := pb'\<rparr>)
                         | ((Inr extra, pb'), s3) \<Rightarrow> (Inr ((spilled + extra) mod 2 ^ 64), s3\<lparr>ag_inserted := pb'\<rparr>)))"

section \<open>One iteration\<close>

text \<open>A single rank moves its chunks straight to the extraction box.\<close>

fun take_local :: "coll_chunk list \<Rightarrow> 'w allgather_scheme \<Rightarrow> 'w allgather_scheme" where
  "take_local [] s = s"
| "take_local (c # cs) s =
     take_local cs (if is_finish c then mark_finish (sequence c) s
                    else s\<lparr>ag_for_extraction := pb_insert c (ag_for_extraction s)\<rparr>)"

definition send_message :: "u8 list \<Rightarrow> 'w allgather_scheme \<Rightarrow> 'w allgather_scheme" where
  "send_message m s = s\<lparr>ag_fire_and_forget := ag_fire_and_forget s @ [m], ag_outbox := ag_outbox s @ [m]\<rparr>"

definition send_ready :: "coll_chunk \<Rightarrow> 'w allgather_scheme \<Rightarrow> 'w allgather_scheme" where
  "send_ready c s =
     (let s1 = send_message (coll_serialize c) s in
      if is_finish c then mark_finish (sequence c) s1
      else case coll_release_data_buffer c of (d, c') \<Rightarrow>
        s1\<lparr>ag_sent_posted := ag_sent_posted s1 @ [c'], ag_sent_futures := ag_sent_futures s1 @ [d]\<rparr>)"

definition expects_messages :: "'w allgather_scheme \<Rightarrow> bool" where
  "expects_messages s \<longleftrightarrow> ag_remote_finish s > 0 \<or> ag_num_received s < ag_num_expected s"

text \<open>One metadata message from the predecessor; a finish marker is passed on unless its maker is next.\<close>

definition accept_metadata :: "stream \<Rightarrow> u8 list \<Rightarrow> ('w allgather_scheme, unit) act" where
  "accept_metadata strm m =
     act_bind (coll_deserialize strm m) (\<lambda>c s. (Inr (),
       if is_finish c then
         (let s1 = s\<lparr>ag_remote_finish := ag_remote_finish s - 1, ag_num_expected := ag_num_expected s + sequence c\<rparr>;
              s2 = (if origin c \<noteq> ring_dst s1 then send_message (coll_serialize c) s1 else s1)
          in mark_finish (sequence c) s2)
       else s\<lparr>ag_num_received := ag_num_received s + 1, ag_to_receive := ag_to_receive s @ [c]\<rparr>))"

fun receive_metadata :: "stream \<Rightarrow> u8 list list \<Rightarrow> ('w allgather_scheme, unit) act" where
  "receive_metadata strm [] s = (Inr (), s)"
| "receive_metadata strm (m # ms) s =
     (if \<not> expects_messages s then (Inr (), s)
      else act_bind (accept_metadata strm m) (\<lambda>_. receive_metadata strm ms) (s\<lparr>ag_inbox := ms\<rparr>))"

text \<open>Post the receives of the chunks whose buffers are ready, in order, up to the first that is not.\<close>

fun post_receives :: "coll_chunk list \<Rightarrow> ('w allgather_scheme, unit) act" where
  "post_receives [] s = (Inr (), s\<lparr>ag_to_receive := []\<rparr>)"
| "post_receives (c # cs) s =
     (case coll_is_ready c of
        Inl e \<Rightarrow> (Inl e, s\<lparr>ag_to_receive := c # cs\<rparr>)
      | Inr r \<Rightarrow>
          if \<not> r then (Inr (), s\<lparr>ag_to_receive := c # cs\<rparr>)
          else case coll_release_data_buffer c of (d, c') \<Rightarrow>
            post_receives cs (s\<lparr>ag_receive_posted := ag_receive_posted s @ [c'],
                                ag_receive_futures := ag_receive_futures s @ [d]\<rparr>))"

text \<open>A received chunk is kept if its maker is next in the ring, otherwise it is to be sent on.\<close>

fun place_received :: "coll_chunk list \<Rightarrow> 'w allgather_scheme \<Rightarrow> 'w allgather_scheme" where
  "place_received [] s = s"
| "place_received (c # cs) s =
     place_received cs
       (if origin c = ring_dst s then s\<lparr>ag_for_extraction := pb_insert c (ag_for_extraction s)\<rparr>
        else s\<lparr>ag_inserted := pb_insert c (ag_inserted s)\<rparr>)"

definition complete_receives :: "ring_comm \<Rightarrow> ('w allgather_scheme, unit) act" where
  "complete_receives rg s =
     (case test_some (ag_receive_posted s) (ag_receive_futures s) (rg_buffer_received rg) (rg_received rg) of
        Inl e \<Rightarrow> (Inl e, s)
      | Inr (done, chunks, futures) \<Rightarrow>
          (Inr (), place_received done (s\<lparr>ag_receive_posted := chunks, ag_receive_futures := futures\<rparr>)))"

definition complete_sends :: "ring_comm \<Rightarrow> ('w allgather_scheme, unit) act" where
  "complete_sends rg s =
     (case test_some (ag_sent_posted s) (ag_sent_futures s) (rg_buffer_sent rg) (rg_sent rg) of
        Inl e \<Rightarrow> (Inl e, s)
      | Inr (done, chunks, futures) \<Rightarrow>
          (Inr (), s\<lparr>ag_sent_posted := chunks, ag_sent_futures := futures,
                     ag_for_extraction := pb_insert_all done (ag_for_extraction s)\<rparr>))"

definition ring_exchange :: "stream \<Rightarrow> ring_comm \<Rightarrow> ('w allgather_scheme, unit) act" where
  "ring_exchange strm rg s =
     (case pb_extract_ready (ag_inserted s) of
        (Inl e, pb) \<Rightarrow> (Inl e, s\<lparr>ag_inserted := pb\<rparr>)
      | (Inr ready, pb) \<Rightarrow>
          act_bind (\<lambda>s. receive_metadata strm (ag_inbox s) s) (\<lambda>_.
          act_bind (\<lambda>s. post_receives (ag_to_receive s) s) (\<lambda>_.
          act_bind (complete_receives rg) (\<lambda>_.
          act_bind (complete_sends rg) (\<lambda>_ s.
            (Inr (), s\<lparr>ag_fire_and_forget := nths (ag_fire_and_forget s) (- set (rg_done rg))\<rparr>)))))
            (foldl (\<lambda>s c. send_ready c s) (s\<lparr>ag_inserted := pb\<rparr>) ready))"

definition ag_containers_empty :: "'w allgather_scheme \<Rightarrow> bool" where
  "ag_containers_empty s \<longleftrightarrow>
     ag_fire_and_forget s = [] \<and> ag_sent_posted s = [] \<and> ag_receive_posted s = [] \<and> ag_sent_futures s = [] \<and>
     ag_receive_futures s = [] \<and> ag_to_receive s = [] \<and> pb_empty (ag_inserted s)"

definition received_all_data :: "'w allgather_scheme \<Rightarrow> bool" where
  "received_all_data s \<longleftrightarrow>
     ag_finish_counter s = 0 \<and> ag_goalpost s = word_of_nat (pb_size (ag_for_extraction s))"

definition allgather_event_loop :: "stream \<Rightarrow> ring_comm \<Rightarrow> ('w allgather_scheme, progress_state) act" where
  "allgather_event_loop strm rg =
     act_bind
       (\<lambda>s. if ag_nranks s = 1
            then (case pb_extract (ag_inserted s) of (cs, pb) \<Rightarrow> (Inr (), take_local cs (s\<lparr>ag_inserted := pb\<rparr>)))
            else ring_exchange strm rg s)
       (\<lambda>_ s.
          if received_all_data s \<and> ag_containers_empty s then
            (Inr Done, s\<lparr>ag_can_extract := True, ag_callback := False,
                         ag_callback_calls := ag_callback_calls s + (if ag_callback s then 1 else 0)\<rparr>)
          else (Inr InProgress, s))"

end
