(* ===== verification/Gather_Flow.thy ===== *)
theory Gather_Flow
  imports All_Gather
begin

text \<open>
  What one iteration of an allgather does to its chunks. \<open>flows\<close> relates the states before and after any step of a
  rank: chunks are only moved between its containers, what it sends on is what it announces to its
  successor, and finish markers are counted. Every part of \<^verbatim>\<open>event_loop\<close>, and a spill, is shown to be such a step.
\<close>

section \<open>What flows through a rank\<close>

text \<open>What identifies a data chunk on every rank, and what messages announce.\<close>

definition desc :: "coll_chunk \<Rightarrow> u64 \<times> u8 list option \<times> u64" where
  "desc c = (cc_id c, cc_metadata c, cc_data_size c)"

definition announced :: "u8 list \<Rightarrow> (u64 \<times> u8 list option \<times> u64) multiset" where
  "announced m = (case read_coll_message m of Inr (Data_Message cid n md) \<Rightarrow> {#(cid, Some md, n)#} | _ \<Rightarrow> {#})"

definition marker :: "u8 list \<Rightarrow> u64 multiset" where
  "marker m = (case read_coll_message m of Inr (Finish_Message cid) \<Rightarrow> {#cid#} | _ \<Rightarrow> {#})"

abbreviation announced_all :: "u8 list list \<Rightarrow> (u64 \<times> u8 list option \<times> u64) multiset" where
  "announced_all ms \<equiv> sum_list (map announced ms)"

abbreviation markers :: "u8 list list \<Rightarrow> u64 multiset" where
  "markers ms \<equiv> sum_list (map marker ms)"

definition id_origin :: "u64 \<Rightarrow> nat" where
  "id_origin cid = unat (drop_bit ID_BITS cid)"

definition id_sequence :: "u64 \<Rightarrow> u64" where
  "id_sequence cid = cid AND (push_bit ID_BITS 1 - 1)"

lemma origin_id: "origin c = id_origin (cc_id c)" and sequence_id: "sequence c = id_sequence (cc_id c)"
  by (simp_all add: origin_def sequence_def id_origin_def id_sequence_def)

abbreviation is_data :: "coll_chunk \<Rightarrow> bool" where
  "is_data c \<equiv> cc_metadata c \<noteq> None"

definition descs :: "coll_chunk list \<Rightarrow> (u64 \<times> u8 list option \<times> u64) multiset" where
  "descs cs = mset (map desc (filter is_data cs))"

lemma descs_simps [simp]: "descs [] = {#}" "descs (xs @ ys) = descs xs + descs ys"
  "descs (c # cs) = (if is_data c then add_mset (desc c) (descs cs) else descs cs)"
  by (simp_all add: descs_def)

definition gathered :: "'w allgather_scheme \<Rightarrow> (u64 \<times> u8 list option \<times> u64) multiset" where
  "gathered s = descs (ag_inserted s) + descs (ag_sent_posted s) + descs (ag_for_extraction s) +
     descs (ag_to_receive s) + descs (ag_receive_posted s)"

definition passed_on :: "'w allgather_scheme \<Rightarrow> (u64 \<times> u8 list option \<times> u64) multiset" where
  "passed_on s = descs (ag_sent_posted s) + descs (filter (\<lambda>c. origin c \<noteq> ring_dst s) (ag_for_extraction s))"

definition pending :: "coll_chunk list \<Rightarrow> u64 multiset" where
  "pending cs = mset (map cc_id (filter (\<lambda>c. \<not> is_data c) cs))"

lemma pending_simps [simp]: "pending [] = {#}" "pending (xs @ ys) = pending xs + pending ys"
  "pending (c # cs) = (if is_data c then pending cs else add_mset (cc_id c) (pending cs))"
  by (simp_all add: pending_def)

definition boxes_ok :: "'w allgather_scheme \<Rightarrow> bool" where
  "boxes_ok s \<longleftrightarrow>
     (\<forall>c\<in>set (ag_sent_posted s) \<union> set (ag_for_extraction s) \<union> set (ag_to_receive s) \<union> set (ag_receive_posted s). is_data c) \<and>
     (\<forall>c\<in>set (ag_inserted s). \<not> is_data c \<longrightarrow> cc_data c = None) \<and>
     (\<forall>c\<in>set (ag_inserted s) \<union> set (ag_sent_posted s). is_data c \<longrightarrow> origin c \<noteq> ring_dst s) \<and>
     (\<forall>c\<in>set (ag_for_extraction s). cc_data c \<noteq> None)"

abbreviation total_sequence :: "u64 multiset \<Rightarrow> u64" where
  "total_sequence M \<equiv> sum_mset (image_mset id_sequence M)"

text \<open>
  \<open>flows s ms out fm s'\<close>: between \<open>s\<close> and \<open>s'\<close> the rank took the messages \<open>ms\<close> and sent \<open>out\<close>; \<open>fm\<close> are the markers
  of its own it sent. Chunks are only moved, all that is sent is passed on, and markers are counted.
\<close>

definition flows :: "'w allgather_scheme \<Rightarrow> u8 list list \<Rightarrow> u8 list list \<Rightarrow> u64 multiset \<Rightarrow> 'w allgather_scheme \<Rightarrow> bool" where
  "flows s ms out fm s' \<longleftrightarrow>
     ag_rank s' = ag_rank s \<and> ag_nranks s' = ag_nranks s \<and> ag_nlocal s' = ag_nlocal s \<and>
     ag_locally_finished s' = ag_locally_finished s \<and>
     ag_inbox s = ms @ ag_inbox s' \<and> ag_outbox s' = ag_outbox s @ out \<and> boxes_ok s' \<and>
     gathered s' = gathered s + announced_all ms \<and> passed_on s' = passed_on s + announced_all out \<and>
     pending (ag_inserted s) = pending (ag_inserted s') + fm \<and>
     markers out = fm + filter_mset (\<lambda>cid. id_origin cid \<noteq> ring_dst s) (markers ms) \<and>
     ag_finish_counter s' = ag_finish_counter s - int (size (fm + markers ms)) \<and>
     ag_goalpost s' = ag_goalpost s + total_sequence (fm + markers ms)"

lemma flows_dst: "flows s ms out fm s' \<Longrightarrow> ring_dst s' = ring_dst s"
  by (simp add: flows_def ring_dst_def)

lemma flows_boxes: "flows s ms out fm s' \<Longrightarrow> boxes_ok s'"
  by (simp add: flows_def)

lemma flows_trans:
  "flows s ms out fm s1 \<Longrightarrow> flows s1 ms' out' fm' s2 \<Longrightarrow> flows s (ms @ ms') (out @ out') (fm + fm') s2"
  using flows_dst [of s ms out fm s1] by (simp add: flows_def algebra_simps)

lemma flows_refl: "boxes_ok s \<Longrightarrow> flows s [] [] {#} s"
  by (simp add: flows_def)

lemma announced_coll_serialize: "announced (coll_serialize c) = (if is_finish c then {#} else
    {#(cc_id c, Some (case cc_metadata c of None \<Rightarrow> [] | Some m \<Rightarrow> m), cc_data_size c)#})"
  by (simp add: announced_def coll_serialize_def coll_message_of_def read_write_coll_message del: write_coll_message.simps)

lemma marker_coll_serialize: "marker (coll_serialize c) = (if is_finish c then {#cc_id c#} else {#})"
  by (simp add: marker_def coll_serialize_def coll_message_of_def read_write_coll_message del: write_coll_message.simps)

section \<open>Sending\<close>

lemma send_ready_flows:
  fixes s :: "'w allgather_scheme"
  assumes "boxes_ok (s\<lparr>ag_inserted := c # cs\<rparr>)"
  shows "\<exists>out fm. flows (s\<lparr>ag_inserted := c # cs\<rparr>) [] out fm (send_ready c (s\<lparr>ag_inserted := cs\<rparr>))"
proof (cases "is_data c")
  case True
  then have "\<not> is_finish c" "origin c \<noteq> ring_dst s" using assms by (auto simp: is_finish_def boxes_ok_def ring_dst_def)
  moreover have "cc_metadata c = Some (case cc_metadata c of None \<Rightarrow> [] | Some m \<Rightarrow> m)" using True by (simp add: option.case_eq_if)
  moreover have "announced (coll_serialize c) = {#desc c#}"
    using calculation by (simp add: announced_coll_serialize desc_def)
  ultimately have "flows (s\<lparr>ag_inserted := c # cs\<rparr>) [] [coll_serialize c] {#} (send_ready c (s\<lparr>ag_inserted := cs\<rparr>))"
    using assms True
    by (auto simp: flows_def send_ready_def send_message_def coll_release_data_buffer_def marker_coll_serialize
        gathered_def passed_on_def boxes_ok_def ring_dst_def desc_def origin_def Let_def)
  then show ?thesis by blast
next
  case False
  then have f: "is_finish c" using assms by (simp add: is_finish_def boxes_ok_def)
  have "flows (s\<lparr>ag_inserted := c # cs\<rparr>) [] [coll_serialize c] {#cc_id c#} (send_ready c (s\<lparr>ag_inserted := cs\<rparr>))"
    using assms False f
    by (auto simp: flows_def send_ready_def send_message_def mark_finish_def marker_coll_serialize announced_coll_serialize
        gathered_def passed_on_def boxes_ok_def ring_dst_def sequence_id)
  then show ?thesis by blast
qed

lemma send_all_flows:
  fixes s :: "'w allgather_scheme"
  assumes "boxes_ok (s\<lparr>ag_inserted := cs @ pb\<rparr>)"
  shows "\<exists>out fm. flows (s\<lparr>ag_inserted := cs @ pb\<rparr>) [] out fm (foldl (\<lambda>s c. send_ready c s) (s\<lparr>ag_inserted := pb\<rparr>) cs)"
  using assms
proof (induction cs arbitrary: s)
  case Nil
  then show ?case using flows_refl by fastforce
next
  case (Cons c cs)
  obtain out fm where 1: "flows (s\<lparr>ag_inserted := c # cs @ pb\<rparr>) [] out fm (send_ready c (s\<lparr>ag_inserted := cs @ pb\<rparr>))"
    using send_ready_flows [of c "cs @ pb" s] Cons.prems by auto
  have r: "send_ready c (s\<lparr>ag_inserted := xs\<rparr>) = (send_ready c s)\<lparr>ag_inserted := xs\<rparr>" for xs
    by (simp add: send_ready_def send_message_def mark_finish_def coll_release_data_buffer_def Let_def)
  have "boxes_ok ((send_ready c s)\<lparr>ag_inserted := cs @ pb\<rparr>)" using flows_boxes [OF 1] by (simp add: r)
  from Cons.IH [OF this] obtain out' fm' where
    2: "flows ((send_ready c s)\<lparr>ag_inserted := cs @ pb\<rparr>) [] out' fm' (foldl (\<lambda>s c. send_ready c s) ((send_ready c s)\<lparr>ag_inserted := pb\<rparr>) cs)"
    by blast
  have "flows (s\<lparr>ag_inserted := (c # cs) @ pb\<rparr>) ([] @ []) (out @ out') (fm + fm')
      (foldl (\<lambda>s c. send_ready c s) ((send_ready c s)\<lparr>ag_inserted := pb\<rparr>) cs)"
    by (rule flows_trans [OF _ 2]) (use 1 r in simp)
  then show ?case by (auto simp: r)
qed

lemma flows_permute:
  assumes "flows (s\<lparr>ag_inserted := cs\<rparr>) ms out fm s'" and "mset cs = mset (ag_inserted s)"
  shows "flows s ms out fm s'"
proof -
  have "descs cs = descs (ag_inserted s)" "pending cs = pending (ag_inserted s)"
    unfolding descs_def pending_def by (simp_all add: assms(2))
  moreover have "ring_dst (s\<lparr>ag_inserted := cs\<rparr>) = ring_dst s" by (simp add: ring_dst_def)
  ultimately show ?thesis using assms(1) unfolding flows_def gathered_def passed_on_def by simp
qed

lemma pb_extract_ready_mset: "pb_extract_ready pb = (Inr out, rest) \<Longrightarrow> mset (out @ rest) = mset pb"
  by (induction pb arbitrary: out rest) (auto split: sum.splits prod.splits if_splits)

lemma boxes_ok_permute: "mset cs = mset (ag_inserted s) \<Longrightarrow> boxes_ok s \<Longrightarrow> boxes_ok (s\<lparr>ag_inserted := cs\<rparr>)"
  unfolding boxes_ok_def by (auto simp: ring_dst_def dest: mset_eq_setD)


section \<open>Receiving metadata\<close>

lemma ag_frame:
  fixes s t :: "'w allgather_scheme"
  assumes "br.more s = br.more t"
  shows "ag_rank s = ag_rank t" "ag_nranks s = ag_nranks t" "ag_inserted s = ag_inserted t" "ag_for_extraction s = ag_for_extraction t"
    "ag_locally_finished s = ag_locally_finished t" "ag_nlocal s = ag_nlocal t" "ag_finish_counter s = ag_finish_counter t"
    "ag_goalpost s = ag_goalpost t" "ag_to_receive s = ag_to_receive t" "ag_sent_posted s = ag_sent_posted t"
    "ag_receive_posted s = ag_receive_posted t" "ag_inbox s = ag_inbox t" "ag_outbox s = ag_outbox t"
  using assms by (cases s; cases t; simp)+

lemma flows_frame:
  fixes s s' t :: "'w allgather_scheme"
  assumes "flows s ms out fm s'" and "br.more t = br.more s"
  shows "flows t ms out fm s'"
  using assms(1) unfolding flows_def gathered_def passed_on_def ring_dst_def ag_frame [OF assms(2)] by blast

lemma accept_metadata_flows:
  fixes s s' :: "'w allgather_scheme"
  assumes "accept_metadata strm m (s\<lparr>ag_inbox := ms\<rparr>) = (Inr (), s')" and "ag_inbox s = m # ms" and "boxes_ok s"
  shows "\<exists>out. flows s [m] out {#} s'"
proof -
  obtain c s1 where d: "coll_deserialize strm m (s\<lparr>ag_inbox := ms\<rparr>) = (Inr c, s1)"
    and s': "(if is_finish c then
         (let s2 = s1\<lparr>ag_remote_finish := ag_remote_finish s1 - 1, ag_num_expected := ag_num_expected s1 + sequence c\<rparr>;
              s3 = (if origin c \<noteq> ring_dst s2 then send_message (coll_serialize c) s2 else s2)
          in mark_finish (sequence c) s3)
       else s1\<lparr>ag_num_received := ag_num_received s1 + 1, ag_to_receive := ag_to_receive s1 @ [c]\<rparr>) = s'"
    using assms(1) by (auto simp: accept_metadata_def act_bind_cases)
  note D = coll_deserialize_Inr [OF d]
  then have fr: "br.more s1 = br.more (s\<lparr>ag_inbox := ms\<rparr>)" by blast
  note fr1 = ag_frame [OF fr, simplified]
  from D consider cid where "read_coll_message m = Inr (Finish_Message cid)" "c = new_finish_chunk cid INVALID_RANK"
    | "read_coll_message m = Inr (Data_Message (cc_id c) (cc_data_size c) (the (cc_metadata c)))" "cc_metadata c \<noteq> None" by auto
  then show ?thesis
  proof cases
    case 1
    then have f: "is_finish c" "cc_id c = cid" by (simp_all add: is_finish_def new_finish_chunk_def)
    have "marker m = {#cid#}" "announced m = {#}" using 1 by (simp_all add: marker_def announced_def)
    then have "flows s [m] (if origin c \<noteq> ring_dst s then [coll_serialize c] else []) {#} s'"
      unfolding s' [symmetric] using assms(2,3) f fr1
      by (simp add: flows_def gathered_def passed_on_def boxes_ok_def ring_dst_def mark_finish_def send_message_def Let_def
          marker_coll_serialize announced_coll_serialize sequence_id origin_id)
    then show ?thesis by blast
  next
    case 2
    then have f: "\<not> is_finish c" "announced m = {#desc c#}" "marker m = {#}"
      by (auto simp: is_finish_def announced_def marker_def desc_def)
    have "flows s [m] [] {#} s'"
      unfolding s' [symmetric] using assms(2,3) f fr1 2(2)
      by (simp add: flows_def gathered_def passed_on_def boxes_ok_def ring_dst_def)
    then show ?thesis by blast
  qed
qed

lemma receive_metadata_flows:
  fixes s s' :: "'w allgather_scheme"
  assumes "receive_metadata strm (ag_inbox s) s = (Inr (), s')" and "boxes_ok s"
  shows "\<exists>ms out. flows s ms out {#} s'"
proof -
  have "\<exists>ms out. flows s ms out {#} s'" if "ag_inbox s = l" "receive_metadata strm l s = (Inr (), s')" "boxes_ok s" for l and s :: "'w allgather_scheme"
    using that
  proof (induction l arbitrary: s)
    case Nil
    then show ?case using flows_refl by auto
  next
    case (Cons m ms)
    show ?case
    proof (cases "expects_messages s")
      case False
      then show ?thesis using Cons.prems flows_refl by auto
    next
      case True
      then obtain s1 where a: "accept_metadata strm m (s\<lparr>ag_inbox := ms\<rparr>) = (Inr (), s1)" and r: "receive_metadata strm ms s1 = (Inr (), s')"
        using Cons.prems by (auto simp: act_bind_cases)
      obtain out where 1: "flows s [m] out {#} s1" using accept_metadata_flows [OF a] Cons.prems by blast
      have "ag_inbox s1 = ms" using 1 Cons.prems(1) by (simp add: flows_def)
      from Cons.IH [OF this r flows_boxes [OF 1]] obtain ms' out' where "flows s1 ms' out' {#} s'" by blast
      from flows_trans [OF 1 this] show ?thesis by auto
    qed
  qed
  then show ?thesis using assms by blast
qed


section \<open>Posting and completing transfers\<close>

lemma post_receives_flows:
  fixes s s' :: "'w allgather_scheme"
  assumes "post_receives cs s = (Inr (), s')" and "boxes_ok (s\<lparr>ag_to_receive := cs\<rparr>)"
  shows "flows (s\<lparr>ag_to_receive := cs\<rparr>) [] [] {#} s'"
  using assms
proof (induction cs arbitrary: s)
  case Nil
  then show ?case using flows_refl by auto
next
  case (Cons c cs)
  obtain r where r: "coll_is_ready c = Inr r" using Cons.prems(1) by (auto split: sum.splits)
  show ?case
  proof (cases r)
    case False
    then show ?thesis using Cons.prems r flows_refl by auto
  next
    case True
    let ?c = "c\<lparr>cc_data := None\<rparr>"
    let ?s = "s\<lparr>ag_receive_posted := ag_receive_posted s @ [?c], ag_receive_futures := ag_receive_futures s @ [cc_data c]\<rparr>"
    have p: "post_receives cs ?s = (Inr (), s')" using Cons.prems(1) r True by (simp add: coll_release_data_buffer_def)
    have f: "flows (s\<lparr>ag_to_receive := c # cs\<rparr>) [] [] {#} (?s\<lparr>ag_to_receive := cs\<rparr>)"
      using Cons.prems(2) by (simp add: flows_def gathered_def passed_on_def boxes_ok_def ring_dst_def desc_def)
    from flows_trans [OF f Cons.IH [OF p flows_boxes [OF f]]] show ?thesis by simp
  qed
qed

lemma nths_positions: "nths xs I = map ((!) xs) (filter (\<lambda>i. i \<in> I) [0..<length xs])"
proof -
  have "zip xs [0..<length xs] = map (\<lambda>i. (xs ! i, i)) [0..<length xs]"
    by (rule nth_equalityI) simp_all
  then show ?thesis by (simp add: nths_def filter_map o_def)
qed

lemma mset_nths_split:
  assumes "distinct is" and "\<forall>i\<in>set is. i < length xs"
  shows "mset (map ((!) xs) is) + mset (nths xs (- set is)) = mset xs"
proof -
  have "mset is = mset (filter (\<lambda>i. i \<in> set is) [0..<length xs])"
    using assms by (subst set_eq_iff_mset_eq_distinct [symmetric]) auto
  then have "mset (map ((!) xs) is) = mset (map ((!) xs) (filter (\<lambda>i. i \<in> set is) [0..<length xs]))" by simp
  then have "mset (map ((!) xs) is) + mset (nths xs (- set is)) =
      image_mset ((!) xs) (mset (filter (\<lambda>i. i \<in> set is) [0..<length xs]) + mset (filter (\<lambda>i. \<not> i \<in> set is) [0..<length xs]))"
    by (simp add: nths_positions)
  also have "\<dots> = image_mset ((!) xs) (mset [0..<length xs])" by (simp only: mset_filter multiset_partition [symmetric])
  also have "\<dots> = mset (map ((!) xs) [0..<length xs])" by simp
  finally show ?thesis by (simp only: map_nth)
qed

text \<open>A completed chunk gets a buffer; everything else about it stays.\<close>

definition core :: "coll_chunk \<Rightarrow> coll_chunk" where
  "core c = c\<lparr>cc_data := None\<rparr>"

lemma core_fields [simp]: "cc_id (core c) = cc_id c" "cc_metadata (core c) = cc_metadata c" "cc_data_size (core c) = cc_data_size c"
  "desc (core c) = desc c" "origin (core c) = origin c"
  by (simp_all add: core_def desc_def origin_def)

lemma attach_completed_core:
  "attach_completed chunks fut is = Inr cs \<Longrightarrow> map core cs = map core (map ((!) chunks) is) \<and> (\<forall>i\<in>set is. i < length chunks)"
  by (induction "is" arbitrary: cs) (auto simp: res_bind_eq_Inr attach_data_buffer_def core_def split: if_splits)

lemma attach_completed_data: "attach_completed chunks fut is = Inr cs \<Longrightarrow> c \<in> set cs \<Longrightarrow> cc_data c \<noteq> None"
  by (induction "is" arbitrary: cs) (auto simp: res_bind_eq_Inr attach_data_buffer_def split: if_splits)

lemma test_some_data: "test_some chunks futures fut is = Inr (dn, rest, fs) \<Longrightarrow> \<forall>c\<in>set dn. cc_data c \<noteq> None"
  using attach_completed_data by (auto simp: test_some_def res_bind_eq_Inr split: if_splits)

lemma test_some_core:
  assumes "test_some chunks futures fut is = Inr (dn, rest, fs)" and "distinct is"
  shows "image_mset core (mset dn) + image_mset core (mset rest) = image_mset core (mset chunks)"
proof (cases "chunks = []")
  case True
  then show ?thesis using assms(1) by (auto simp: test_some_def split: if_splits)
next
  case False
  then have a: "attach_completed chunks fut is = Inr dn" and r: "rest = nths chunks (- set is)"
    using assms(1) by (auto simp: test_some_def res_bind_eq_Inr split: if_splits)
  note A = attach_completed_core [OF a]
  have "image_mset core (mset dn) = image_mset core (mset (map ((!) chunks) is))"
    using A by (metis mset_map)
  then show ?thesis using mset_nths_split [OF assms(2), of chunks] A by (simp add: r flip: image_mset_union)
qed

lemma descs_core: "descs cs = image_mset desc (filter_mset is_data (image_mset core (mset cs)))"
  by (simp add: descs_def filter_mset_image_mset image_mset.compositionality o_def)

lemma test_some_descs:
  assumes "test_some chunks futures fut is = Inr (dn, rest, fs)" and "distinct is"
  shows "descs dn + descs rest = descs chunks" and "core ` set dn \<union> core ` set rest = core ` set chunks"
proof -
  note T = test_some_core [OF assms]
  show "descs dn + descs rest = descs chunks" by (simp add: descs_core flip: T)
  from arg_cong [OF T, of set_mset] show "core ` set dn \<union> core ` set rest = core ` set chunks" by simp
qed

lemma core_all:
  assumes "core ` A \<union> core ` B = core ` C" and "\<forall>c\<in>C. P (core c)"
  shows "\<forall>c\<in>A. P (core c)" and "\<forall>c\<in>B. P (core c)"
  using assms by (metis UnCI imageE imageI)+

lemma descs_filter: "descs (filter P cs) + descs (filter (\<lambda>c. \<not> P c) cs) = descs cs"
  by (induction cs) simp_all

lemma place_received_eq:
  "place_received cs s = s\<lparr>ag_for_extraction := ag_for_extraction s @ filter (\<lambda>c. origin c = ring_dst s) cs,
     ag_inserted := ag_inserted s @ filter (\<lambda>c. origin c \<noteq> ring_dst s) cs\<rparr>"
  by (induction cs arbitrary: s) (simp_all add: pb_insert_def ring_dst_def)

lemma descs_none: "(\<And>c. c \<in> set cs \<Longrightarrow> \<not> P c) \<Longrightarrow> descs (filter P cs) = {#}"
  by (induction cs) auto

lemma pending_none: "(\<And>c. c \<in> set cs \<Longrightarrow> is_data c) \<Longrightarrow> pending cs = {#}"
  by (induction cs) auto

lemma complete_receives_flows:
  fixes s s' :: "'w allgather_scheme"
  assumes "complete_receives rg s = (Inr (), s')" and "distinct (rg_received rg)" and "boxes_ok s"
  shows "flows s [] [] {#} s'"
proof -
  obtain dn chunks fs where t: "test_some (ag_receive_posted s) (ag_receive_futures s) (rg_buffer_received rg) (rg_received rg) = Inr (dn, chunks, fs)"
    and s': "s' = place_received dn (s\<lparr>ag_receive_posted := chunks, ag_receive_futures := fs\<rparr>)"
    using assms(1) by (auto simp: complete_receives_def split: sum.splits)
  note T = test_some_descs [OF t assms(2)] and B = test_some_data [OF t]
  have "\<forall>c\<in>set (ag_receive_posted s). is_data (core c)" using assms(3) by (simp add: boxes_ok_def)
  note D = core_all [OF T(2) this, simplified]
  let ?d = "ring_dst s"
  have s'': "s' = s\<lparr>ag_receive_posted := chunks, ag_receive_futures := fs,
      ag_for_extraction := ag_for_extraction s @ filter (\<lambda>c. origin c = ?d) dn,
      ag_inserted := ag_inserted s @ filter (\<lambda>c. origin c \<noteq> ?d) dn\<rparr>"
    unfolding s' place_received_eq by (simp add: ring_dst_def)
  have dst: "ring_dst s' = ?d" unfolding s'' by (simp add: ring_dst_def)
  have z: "descs (filter (\<lambda>c. origin c \<noteq> ?d) (filter (\<lambda>c. origin c = ?d) dn)) = {#}" by (rule descs_none) simp
  have "boxes_ok s'" using assms(3) D B unfolding boxes_ok_def dst unfolding s'' by auto
  moreover have "gathered s' = gathered s"
    unfolding gathered_def s'' using T(1) descs_filter [of "\<lambda>c. origin c = ?d" dn] by (simp add: ac_simps)
  moreover have "passed_on s' = passed_on s" using z unfolding passed_on_def dst unfolding s'' by simp
  moreover have "pending (ag_inserted s') = pending (ag_inserted s)"
    unfolding s'' using pending_none [of "filter (\<lambda>c. origin c \<noteq> ?d) dn"] D(1) by simp
  ultimately show ?thesis unfolding flows_def s'' by simp
qed

lemma complete_sends_flows:
  fixes s s' :: "'w allgather_scheme"
  assumes "complete_sends rg s = (Inr (), s')" and "distinct (rg_sent rg)" and "boxes_ok s"
  shows "flows s [] [] {#} s'"
proof -
  obtain dn chunks fs where t: "test_some (ag_sent_posted s) (ag_sent_futures s) (rg_buffer_sent rg) (rg_sent rg) = Inr (dn, chunks, fs)"
    and s': "s' = s\<lparr>ag_sent_posted := chunks, ag_sent_futures := fs, ag_for_extraction := ag_for_extraction s @ dn\<rparr>"
    using assms(1) by (auto simp: complete_sends_def pb_insert_all_def split: sum.splits)
  note T = test_some_descs [OF t assms(2)] and B = test_some_data [OF t]
  let ?d = "ring_dst s"
  have "\<forall>c\<in>set (ag_sent_posted s). is_data (core c) \<and> origin (core c) \<noteq> ?d" using assms(3) by (simp add: boxes_ok_def)
  note D = core_all [OF T(2) this, simplified]
  have dst: "ring_dst s' = ?d" unfolding s' by (simp add: ring_dst_def)
  have k: "filter (\<lambda>c. origin c \<noteq> ?d) dn = dn" using D(1) by simp
  have "boxes_ok s'" using assms(3) D B unfolding boxes_ok_def dst unfolding s' by auto
  moreover have "gathered s' = gathered s" unfolding gathered_def s' using T(1) by (simp add: ac_simps)
  moreover have "passed_on s' = passed_on s" using T(1) k unfolding passed_on_def dst unfolding s' by (simp add: ac_simps)
  ultimately show ?thesis unfolding flows_def s' by simp
qed

section \<open>One iteration\<close>

definition comm_ok :: "ring_comm \<Rightarrow> bool" where
  "comm_ok rg \<longleftrightarrow> distinct (rg_received rg) \<and> distinct (rg_sent rg)"

lemma ring_exchange_flows:
  fixes s s' :: "'w allgather_scheme"
  assumes "ring_exchange strm rg s = (Inr (), s')" and "comm_ok rg" and "boxes_ok s"
  shows "\<exists>ms out fm. flows s ms out fm s'"
proof -
  obtain ready pb where x: "pb_extract_ready (ag_inserted s) = (Inr ready, pb)"
    using assms(1) by (auto simp: ring_exchange_def split: prod.splits sum.splits)
  let ?s1 = "foldl (\<lambda>s c. send_ready c s) (s\<lparr>ag_inserted := pb\<rparr>) ready"
  obtain s2 s3 s4 s5 where 2: "receive_metadata strm (ag_inbox ?s1) ?s1 = (Inr (), s2)"
    and 3: "post_receives (ag_to_receive s2) s2 = (Inr (), s3)" and 4: "complete_receives rg s3 = (Inr (), s4)"
    and 5: "complete_sends rg s4 = (Inr (), s5)"
    and s': "s' = s5\<lparr>ag_fire_and_forget := nths (ag_fire_and_forget s5) (- set (rg_done rg))\<rparr>"
    using assms(1) by (auto simp: ring_exchange_def x act_bind_cases)
  note m = pb_extract_ready_mset [OF x]
  from send_all_flows [OF boxes_ok_permute [OF m assms(3)]] obtain out1 fm
    where "flows (s\<lparr>ag_inserted := ready @ pb\<rparr>) [] out1 fm ?s1" by blast
  from flows_permute [OF this m] have F1: "flows s [] out1 fm ?s1" .
  from receive_metadata_flows [OF 2 flows_boxes [OF F1]] obtain ms out2 where F2: "flows ?s1 ms out2 {#} s2" by blast
  have e: "s2\<lparr>ag_to_receive := ag_to_receive s2\<rparr> = s2" by simp
  have F3: "flows s2 [] [] {#} s3" using post_receives_flows [OF 3, unfolded e, OF flows_boxes [OF F2]] .
  have F4: "flows s3 [] [] {#} s4" using complete_receives_flows [OF 4 _ flows_boxes [OF F3]] assms(2) by (simp add: comm_ok_def)
  have F5: "flows s4 [] [] {#} s5" using complete_sends_flows [OF 5 _ flows_boxes [OF F4]] assms(2) by (simp add: comm_ok_def)
  have F6: "flows s5 [] [] {#} s'" using flows_boxes [OF F5] unfolding s'
    by (simp add: flows_def gathered_def passed_on_def boxes_ok_def ring_dst_def)
  from flows_trans [OF flows_trans [OF flows_trans [OF flows_trans [OF flows_trans [OF F1 F2] F3] F4] F5] F6]
  show ?thesis by blast
qed

text \<open>The messages are received after the sends of an iteration, so the markers forwarded follow its own.\<close>

lemma event_loop_flows:
  fixes s s' :: "'w allgather_scheme"
  assumes "allgather_event_loop strm rg s = (Inr st, s')" and "comm_ok rg" and "boxes_ok s" and "ag_nranks s \<noteq> 1"
  shows "\<exists>ms out fm. flows s ms out fm s'" and "st = Done \<Longrightarrow> received_all_data s' \<and> ag_containers_empty s' \<and> ag_can_extract s'"
proof -
  obtain u s1 where u: "ring_exchange strm rg s = (Inr u, s1)"
    and s': "(if received_all_data s1 \<and> ag_containers_empty s1 then
            (Inr Done, s1\<lparr>ag_can_extract := True, ag_callback := False,
                         ag_callback_calls := ag_callback_calls s1 + (if ag_callback s1 then 1 else 0)\<rparr>)
          else (Inr InProgress, s1)) = ((Inr st, s') :: progress_state result \<times> 'w allgather_scheme)"
    using assms(1,4) unfolding allgather_event_loop_def act_bind_cases by (simp only: if_False sum.distinct simp_thms) blast
  then have 1: "ring_exchange strm rg s = (Inr (), s1)" by simp
  from ring_exchange_flows [OF 1 assms(2,3)] obtain ms out fm where F: "flows s ms out fm s1" by blast
  have "flows s1 [] [] {#} s'" using flows_boxes [OF F] s'
    by (auto simp: flows_def gathered_def passed_on_def boxes_ok_def ring_dst_def split: if_splits)
  from flows_trans [OF F this] show "\<exists>ms out fm. flows s ms out fm s'" by blast
  show "st = Done \<Longrightarrow> received_all_data s' \<and> ag_containers_empty s' \<and> ag_can_extract s'"
    using s' by (auto simp: received_all_data_def ag_containers_empty_def split: if_splits)
qed


section \<open>Spilling\<close>

text \<open>What spilling keeps of each chunk.\<close>

definition shape :: "coll_chunk \<Rightarrow> coll_chunk \<times> bool" where
  "shape c = (core c, cc_data c = None)"

lemma coll_spill_chunk_shape:
  fixes b b' :: "'w br_scheme"
  assumes "coll_spill_chunk stats c b = ((Inr n, c'), b')"
  shows "shape c' = shape c \<and> br.more b' = br.more b"
proof -
  obtain res b1 d d' where 1: "reserve_or_fail (unat (cc_data_size c)) SPILL_TARGET_MEMORY_TYPES b = (Inr res, b1)"
    and d: "cc_data c = Some d" and m: "with_reservation res (move_buffer stats d) b1 = (Inr d', b')"
    and a: "attach_data_buffer d' (c\<lparr>cc_data := None\<rparr>) = Inr c'"
    using assms by (auto simp: coll_spill_chunk_def coll_release_data_buffer_def split: prod.splits sum.splits option.splits)
  have "br.more (snd (with_reservation res (move_buffer stats d) b1)) = br.more b1"
    by (rule with_reservation_more) (rule move_buffer_more)
  then show ?thesis using m a d reserve_or_fail_Inr [OF 1]
    by (auto simp: attach_data_buffer_def shape_def core_def split: if_splits)
qed

lemma spill_at_shape:
  fixes b b' :: "'w br_scheme"
  assumes "spill_at stats i pb b = ((Inr n, pb'), b')"
  shows "map shape pb' = map shape pb \<and> br.more b' = br.more b"
proof -
  obtain c where c: "coll_spill_chunk stats (pb ! i) b = ((Inr n, c), b')" and pb': "pb' = pb[i := c]"
    using assms by (auto simp: spill_at_def split: prod.splits)
  note S = coll_spill_chunk_shape [OF c]
  have "map shape pb' = (map shape pb)[i := shape (pb ! i)]" using S by (simp add: pb' map_update)
  also have "\<dots> = map shape pb" by (cases "i < length pb") (simp_all add: list_update_same_conv list_update_beyond)
  finally show ?thesis using S by simp
qed

lemma spill_everything_shape:
  fixes b b' :: "'w br_scheme"
  shows "spill_everything stats ps k pb b = ((Inr n, pb'), b') \<Longrightarrow> map shape pb' = map shape pb \<and> br.more b' = br.more b"
  by (induction ps arbitrary: k pb b) (fastforce split: prod.splits sum.splits dest: spill_at_shape)+

lemma spill_greedy_shape:
  fixes b b' :: "'w br_scheme"
  shows "spill_greedy stats amount ps k pb b = ((Inr n, pb'), b') \<Longrightarrow> map shape pb' = map shape pb \<and> br.more b' = br.more b"
proof (induction stats amount ps k pb b rule: spill_greedy.induct)
  case (1 stats amount ps k pb b)
  show ?case
  proof (cases "ps = []")
    case True
    then show ?thesis using "1.prems" by (subst (asm) spill_greedy.simps) simp
  next
    case False
    obtain m pb1 b1 where s: "spill_at stats (lower_bound_or_last (size_at pb) (amount - k) ps) pb b = ((Inr m, pb1), b1)"
      using "1.prems" False by (subst (asm) spill_greedy.simps) (auto split: prod.splits sum.splits)
    note S = spill_at_shape [OF s]
    show ?thesis
    proof (cases "(k + m) mod 2 ^ 64 \<ge> amount")
      case True
      then show ?thesis using "1.prems" False s S by (subst (asm) spill_greedy.simps) (simp add: Let_def)
    next
      case f: False
      then have "spill_greedy stats amount (butlast ps) ((k + m) mod 2 ^ 64) pb1 b1 = ((Inr n, pb'), b')"
        using "1.prems" False s by (subst (asm) spill_greedy.simps) (simp add: Let_def)
      from "1.IH" [OF False s [symmetric] HOL.refl HOL.refl HOL.refl f this] S show ?thesis by simp
    qed
  qed
qed

lemma pb_spill_shape:
  fixes b b' :: "'w br_scheme"
  assumes "pb_spill stats amount pb b = ((Inr n, pb'), b')"
  shows "map shape pb' = map shape pb \<and> br.more b' = br.more b"
  using assms spill_everything_shape spill_greedy_shape unfolding pb_spill_def Let_def by (metis (no_types, lifting))

end
