(* ===== verification/Gather_Ring.thy ===== *)
theory Gather_Ring
  imports Gather_Flow
begin

text \<open>
  All ranks of an allgather together. The network between a rank and its successor is the log of the messages
  sent and the number delivered: metadata arrives completely and in order, after any delay. The invariant
  bounds what every rank holds by what all ranks inserted.
\<close>

section \<open>The ring\<close>

text \<open>
  All ranks of an allgather, and how many messages of its predecessor each has been delivered: metadata
  messages arrive in the order they were sent. \<open>Iterates\<close> is one iteration of a rank's event loop.
\<close>

record ring =
  rn_nodes :: "nat \<Rightarrow> allgather"
  rn_delivered :: "nat \<Rightarrow> nat"

datatype ring_event =
    Inserts nat u64 packed_data
  | Finishes nat
  | Spills nat "nat option"
  | Delivers nat
  | Iterates nat stream ring_comm

definition at_node :: "nat \<Rightarrow> (allgather, 'a) act \<Rightarrow> (ring, unit) act" where
  "at_node r f R =
     (case f (rn_nodes R r) of
        (Inl e, s) \<Rightarrow> (Inl e, R\<lparr>rn_nodes := (rn_nodes R)(r := s)\<rparr>)
      | (Inr _, s) \<Rightarrow> (Inr (), R\<lparr>rn_nodes := (rn_nodes R)(r := s)\<rparr>))"

definition deliver :: "nat \<Rightarrow> ring \<Rightarrow> ring" where
  "deliver r R =
     (let s = rn_nodes R r; out = ag_outbox (rn_nodes R (ring_src s)); k = rn_delivered R r in
      if k < length out then
        R\<lparr>rn_nodes := (rn_nodes R)(r := s\<lparr>ag_inbox := ag_inbox s @ [out ! k]\<rparr>), rn_delivered := (rn_delivered R)(r := Suc k)\<rparr>
      else R)"

fun ring_step :: "ring_event \<Rightarrow> (ring, unit) act" where
  "ring_step (Inserts r q p) R = at_node r (allgather_insert q p) R"
| "ring_step (Finishes r) R = at_node r (\<lambda>s. (Inr (), allgather_insert_finished s)) R"
| "ring_step (Spills r amount) R = at_node r (allgather_spill amount) R"
| "ring_step (Delivers r) R = (Inr (), deliver r R)"
| "ring_step (Iterates r strm rg) R = at_node r (allgather_event_loop strm rg) R"

fun ring_run :: "ring_event list \<Rightarrow> (ring, unit) act" where
  "ring_run [] R = (Inr (), R)"
| "ring_run (e # es) R = act_bind (ring_step e) (\<lambda>_. ring_run es) R"

fun event_ok :: "nat \<Rightarrow> ring_event \<Rightarrow> bool" where
  "event_ok n (Inserts r q p) \<longleftrightarrow> r < n \<and> unat q < 2 ^ 38"
| "event_ok n (Finishes r) \<longleftrightarrow> r < n"
| "event_ok n (Spills r amount) \<longleftrightarrow> r < n"
| "event_ok n (Delivers r) \<longleftrightarrow> r < n"
| "event_ok n (Iterates r strm rg) \<longleftrightarrow> r < n \<and> comm_ok rg"

text \<open>What a rank inserts, by what identifies it.\<close>

fun inserted :: "nat \<Rightarrow> ring_event list \<Rightarrow> (u64 \<times> u8 list option \<times> u64) multiset" where
  "inserted r [] = {#}"
| "inserted r (Inserts r' q p # es) =
     (if r' = r then {#(chunk_id q r, Some (pd_metadata p), word_of_nat (buf_size (pd_data p)))#} else {#}) + inserted r es"
| "inserted r (e # es) = inserted r es"

definition finishes :: "nat \<Rightarrow> ring_event list \<Rightarrow> nat" where
  "finishes r es = length (filter (\<lambda>e. e = Finishes r) es)"

lemma finishes_simps [simp]: "finishes r [] = 0"
  "finishes r (e # es) = (if e = Finishes r then Suc (finishes r es) else finishes r es)"
  by (simp_all add: finishes_def)

section \<open>The invariant of a rank\<close>

lemma unat_widen: "unat (ucast (w :: u32) :: u64) = unat w"
proof -
  have "unat w < 2 ^ 64" using unat_u32_less [of w] by simp
  then show ?thesis by (simp add: unsigned_ucast_eq take_bit_nat_eq_self)
qed

definition marker_id :: "nat \<Rightarrow> nat \<Rightarrow> u64" where
  "marker_id r k = chunk_id (ucast (word_of_nat k :: u32)) r"

text \<open>
  \<open>ms\<close> are the messages taken so far from the predecessor, of whose messages \<open>out\<close> the first \<open>k\<close> are delivered;
  \<open>fm\<close> is the rank's own marker if it was sent, \<open>own\<close> what it inserted.
\<close>

definition rank_at ::
  "nat \<Rightarrow> nat \<Rightarrow> bool \<Rightarrow> (u64 \<times> u8 list option \<times> u64) multiset \<Rightarrow> nat \<Rightarrow> u8 list list \<Rightarrow> u8 list list \<Rightarrow> u64 multiset \<Rightarrow>
     allgather \<Rightarrow> bool" where
  "rank_at n r fin own k out ms fm s \<longleftrightarrow>
     ag_rank s = r \<and> ag_nranks s = n \<and> ag_locally_finished s = fin \<and> ag_nlocal s = word_of_nat (size own) \<and> boxes_ok s \<and>
     (\<forall>d\<in>#own. id_origin (fst d) = r) \<and> k \<le> length out \<and> take k out = ms @ ag_inbox s \<and>
     gathered s = own + announced_all ms \<and> passed_on s = announced_all (ag_outbox s) \<and>
     pending (ag_inserted s) + fm = (if fin then {#marker_id r (size own)#} else {#}) \<and>
     markers (ag_outbox s) = fm + filter_mset (\<lambda>cid. id_origin cid \<noteq> ring_dst s) (markers ms) \<and>
     ag_finish_counter s = int n - int (size (fm + markers ms)) \<and>
     ag_goalpost s = total_sequence (fm + markers ms) \<and>
     (\<forall>d\<in>#announced_all ms. id_origin (fst d) < n) \<and> (\<forall>cid\<in>#markers ms. id_origin cid < n)"

lemma rank_at_flows:
  assumes "rank_at n r fin own k out ms fm s" and "flows s ms' out' fm' s'"
    and "\<forall>d\<in>#announced_all ms'. id_origin (fst d) < n" and "\<forall>cid\<in>#markers ms'. id_origin cid < n"
  shows "rank_at n r fin own k out (ms @ ms') (fm + fm') s'"
  using assms flows_dst [OF assms(2)] unfolding rank_at_def flows_def by (auto simp: ac_simps)

lemma rank_at_more: "rank_at n r fin own k out ms fm s \<Longrightarrow> rank_at n r fin own k (out @ out') ms fm s"
  by (simp add: rank_at_def)

lemma ring_dst_frame [simp]:
  "ring_dst (s\<lparr>ag_inbox := x\<rparr>) = ring_dst s" "ring_dst (s\<lparr>ag_inserted := y\<rparr>) = ring_dst s"
  "ring_dst (s\<lparr>ag_locally_finished := b\<rparr>) = ring_dst s"
  by (simp_all add: ring_dst_def)

lemma inbox_frame [simp]:
  "boxes_ok (s\<lparr>ag_inbox := x\<rparr>) = boxes_ok s" "gathered (s\<lparr>ag_inbox := x\<rparr>) = gathered s" "passed_on (s\<lparr>ag_inbox := x\<rparr>) = passed_on s"
  by (simp_all add: boxes_ok_def gathered_def passed_on_def)

lemma rank_at_deliver:
  "rank_at n r fin own k out ms fm s \<Longrightarrow> k < length out \<Longrightarrow>
   rank_at n r fin own (Suc k) out ms fm (s\<lparr>ag_inbox := ag_inbox s @ [out ! k]\<rparr>)"
  by (simp add: rank_at_def take_Suc_conv_app_nth)

lemma marker_id_origin: "r < 2 ^ 26 \<Longrightarrow> id_origin (marker_id r k) = r"
proof -
  assume r: "r < 2 ^ 26"
  have "unat (ucast (word_of_nat k :: u32) :: u64) = unat (word_of_nat k :: u32)" by (rule unat_widen)
  also have "\<dots> < 2 ^ 32" by (rule unat_u32_less)
  finally have "unat (ucast (word_of_nat k :: u32) :: u64) < 2 ^ 38" by simp
  from chunk_id_fields [OF r this, of "new_finish_chunk (marker_id r k) 0"] show ?thesis
    by (simp add: marker_id_def new_finish_chunk_def origin_id)
qed

lemma marker_id_sequence: "r < 2 ^ 26 \<Longrightarrow> k < 2 ^ 32 \<Longrightarrow> id_sequence (marker_id r k) = word_of_nat k"
proof -
  assume r: "r < 2 ^ 26" and k: "k < 2 ^ 32"
  have u: "unat (ucast (word_of_nat k :: u32) :: u64) = k" unfolding unat_widen using k by (simp add: unat_of_nat)
  then have "unat (ucast (word_of_nat k :: u32) :: u64) < 2 ^ 38" using k by simp
  from chunk_id_fields [OF r this, of "new_finish_chunk (marker_id r k) 0"]
  have "id_sequence (marker_id r k) = ucast (word_of_nat k :: u32)" by (simp add: marker_id_def new_finish_chunk_def sequence_id)
  also have "\<dots> = word_of_nat k" using u k by (simp add: word_unat_eq_iff unat_of_nat)
  finally show ?thesis .
qed

lemma id_origin_chunk: "r < 2 ^ 26 \<Longrightarrow> unat q < 2 ^ 38 \<Longrightarrow> id_origin (chunk_id q r) = r"
  using chunk_id_fields [of r q "new_finish_chunk (chunk_id q r) 0"] by (simp add: new_finish_chunk_def origin_id)

section \<open>The steps of a rank\<close>

lemma rank_at_finish:
  assumes "rank_at n r False own k out ms fm s"
  shows "rank_at n r True own k out ms fm (allgather_insert_finished s)"
proof -
  let ?c = "from_empty (ucast (word_of_nat (size own) :: u32)) r INVALID_RANK"
  let ?s = "s\<lparr>ag_inserted := ag_inserted s @ [?c], ag_locally_finished := True\<rparr>"
  note A = assms [unfolded rank_at_def]
  then have e: "allgather_insert_finished s = ?s" by (simp add: allgather_insert_finished_def pb_insert_def)
  have c: "cc_id ?c = marker_id r (size own)" "\<not> is_data ?c" "cc_data ?c = None"
    by (simp_all add: from_empty_def new_finish_chunk_def marker_id_def)
  have dst: "ring_dst ?s = ring_dst s" by (simp add: ring_dst_def)
  have "boxes_ok ?s" using A c unfolding boxes_ok_def dst by simp
  moreover have "gathered ?s = gathered s" using c by (simp add: gathered_def)
  moreover have "passed_on ?s = passed_on s" unfolding passed_on_def dst by simp
  moreover have "pending (ag_inserted ?s) = pending (ag_inserted s) + {#marker_id r (size own)#}" using c by simp
  moreover have "pending (ag_inserted s) = {#}" "fm = {#}" using A by simp_all
  ultimately show ?thesis using A unfolding e rank_at_def dst by simp
qed

lemma rank_at_insert:
  fixes s s' :: allgather
  assumes "rank_at n r fin own k out ms fm s" and "allgather_insert q p s = (Inr (), s')" and "n > 1" and "r < 2 ^ 26" and "r < n" and "unat q < 2 ^ 38"
  shows "\<not> fin \<and> ag_outbox s' = ag_outbox s \<and>
    rank_at n r fin (own + {#(chunk_id q r, Some (pd_metadata p), word_of_nat (buf_size (pd_data p)))#}) k out ms fm s'"
proof -
  note A = assms(1) [unfolded rank_at_def]
  then have n: "ag_nranks s = n" "ag_rank s = r" by blast+
  obtain d s1 where e: "ensure_memory_type (ag_stats s) (Some (pd_data p)) ADDRESSABLE_MEMORY_TYPES s = (Inr d, s1)"
    and i': "(let s2 = s1\<lparr>ag_nlocal := ag_nlocal s1 + 1\<rparr> in
          case coll_from_packed_data q (ag_rank s1) INVALID_RANK (p\<lparr>pd_data := d\<rparr>) of
            Inl e \<Rightarrow> (Inl e, s2) | Inr c \<Rightarrow> insert_ag_chunk c s2) = (Inr (), s')"
    using assms(2,3) n unfolding allgather_insert_def act_bind_cases by auto
  obtain c where c: "coll_from_packed_data q (ag_rank s1) INVALID_RANK (p\<lparr>pd_data := d\<rparr>) = Inr c"
    using i' by (cases "coll_from_packed_data q (ag_rank s1) INVALID_RANK (p\<lparr>pd_data := d\<rparr>)") simp_all
  have i: "insert_ag_chunk c (s1\<lparr>ag_nlocal := ag_nlocal s1 + 1\<rparr>) = (Inr (), s')" using i' by (simp add: c)
  note E = ensure_memory_type_Inr [OF e]
  then have fr: "br.more s1 = br.more s" by blast
  note fr1 = ag_frame [OF fr]
  have c': "c = \<lparr>cc_id = chunk_id q r, cc_destination = INVALID_RANK, cc_metadata = Some (pd_metadata p), cc_data = Some d,
      cc_data_size = word_of_nat (buf_size (pd_data p))\<rparr>"
    using c E fr1(1) n by (auto simp: coll_from_packed_data_def new_data_chunk_def)
  have s': "\<not> fin" "s' = s1\<lparr>ag_nlocal := ag_nlocal s1 + 1, ag_inserted := ag_inserted s1 @ [c]\<rparr>"
    using i fr1(5) A by (auto simp: insert_ag_chunk_def pb_insert_def split: if_splits)
  have dst: "ring_dst s' = ring_dst s" using s'(2) fr1(1,2) by (simp add: ring_dst_def)
  have o: "id_origin (chunk_id q r) = r" by (rule id_origin_chunk [OF assms(4,6)])
  have "origin c \<noteq> ring_dst s" using o n assms(3,5) by (auto simp: c' origin_id ring_dst_def mod_Suc)
  then have b: "boxes_ok s'" using A unfolding boxes_ok_def dst unfolding s'(2) by (simp add: fr1 c')
  have g: "gathered s' = gathered s + {#(chunk_id q r, Some (pd_metadata p), word_of_nat (buf_size (pd_data p)))#}"
    unfolding s'(2) gathered_def by (simp add: fr1 c' desc_def)
  have p: "passed_on s' = passed_on s" unfolding passed_on_def dst unfolding s'(2) by (simp add: fr1)
  have "rank_at n r fin (own + {#(chunk_id q r, Some (pd_metadata p), word_of_nat (buf_size (pd_data p)))#}) k out ms fm s'"
    using A s'(1) o unfolding rank_at_def g p dst using b unfolding s'(2) by (simp add: fr1 c' add.commute)
  then show ?thesis using s' fr1 by simp
qed

lemma shape_descs:
  assumes "map shape cs = map shape ds"
  shows "descs cs = descs ds" and "pending cs = pending ds" and "descs (filter (\<lambda>c. origin c \<noteq> d) cs) = descs (filter (\<lambda>c. origin c \<noteq> d) ds)"
    and "(\<lambda>c. (cc_metadata c, origin c, cc_data c = None)) ` set cs = (\<lambda>c. (cc_metadata c, origin c, cc_data c = None)) ` set ds"
proof -
  have d: "descs xs = mset (map (desc \<circ> fst) (filter (is_data \<circ> fst) (map shape xs)))" for xs
    by (simp add: descs_def filter_map o_def shape_def)
  have p: "pending xs = mset (map (cc_id \<circ> fst) (filter (Not \<circ> is_data \<circ> fst) (map shape xs)))" for xs
    by (simp add: pending_def filter_map o_def shape_def)
  have f: "map shape (filter (\<lambda>c. origin c \<noteq> d) xs) = filter (\<lambda>p. origin (fst p) \<noteq> d) (map shape xs)" for xs
    by (simp add: filter_map o_def shape_def)
  show "descs cs = descs ds" "pending cs = pending ds" unfolding d p assms by (rule HOL.refl)+
  show "descs (filter (\<lambda>c. origin c \<noteq> d) cs) = descs (filter (\<lambda>c. origin c \<noteq> d) ds)" unfolding d f assms ..
  have g: "(\<lambda>c. (cc_metadata c, origin c, cc_data c = None)) ` set xs = (\<lambda>(c, b). (cc_metadata c, origin c, b)) ` set (map shape xs)" for xs
    by (simp add: image_comp o_def shape_def)
  show "(\<lambda>c. (cc_metadata c, origin c, cc_data c = None)) ` set cs = (\<lambda>c. (cc_metadata c, origin c, cc_data c = None)) ` set ds"
    unfolding g assms ..
qed

lemma same_shapes_flow:
  fixes s s1 :: "'w allgather_scheme"
  assumes "map shape ins = map shape (ag_inserted s)" and "map shape ext = map shape (ag_for_extraction s)"
    and "br.more s1 = br.more s" and "boxes_ok s"
  shows "flows s [] [] {#} (s1\<lparr>ag_inserted := ins, ag_for_extraction := ext\<rparr>)"
proof -
  note fr = ag_frame [OF assms(3)]
  note I = shape_descs [OF assms(1)] and X = shape_descs [OF assms(2)]
  have all: "(\<forall>c\<in>set cs. P (cc_metadata c) (origin c) (cc_data c = None)) = (\<forall>c\<in>set ds. P (cc_metadata c) (origin c) (cc_data c = None))"
    if "(\<lambda>c. (cc_metadata c, origin c, cc_data c = None)) ` set cs = (\<lambda>c. (cc_metadata c, origin c, cc_data c = None)) ` set ds" for cs ds P
    using arg_cong [OF that, of "\<lambda>A. \<forall>(m, o', b)\<in>A. P m o' b"] by simp
  have d: "ring_dst (s1\<lparr>ag_inserted := ins, ag_for_extraction := ext\<rparr>) = ring_dst s" by (simp add: ring_dst_def fr)
  let ?t = "s1\<lparr>ag_inserted := ins, ag_for_extraction := ext\<rparr>"
  have q: "ag_sent_posted ?t = ag_sent_posted s" "ag_for_extraction ?t = ext" "ag_to_receive ?t = ag_to_receive s"
    "ag_receive_posted ?t = ag_receive_posted s" "ag_inserted ?t = ins"
    by (simp_all add: fr)
  have "boxes_ok (s1\<lparr>ag_inserted := ins, ag_for_extraction := ext\<rparr>)"
    using assms(4) all [OF I(4), of "\<lambda>m _ b. \<not> m \<noteq> None \<longrightarrow> b"] all [OF I(4), of "\<lambda>m o' _. m \<noteq> None \<longrightarrow> o' \<noteq> ring_dst s"]
      all [OF X(4), of "\<lambda>m _ _. m \<noteq> None"] all [OF X(4), of "\<lambda>_ _ b. \<not> b"]
    unfolding boxes_ok_def d q by (simp only: ball_Un)
  then show ?thesis unfolding flows_def gathered_def passed_on_def d q
    by (simp add: fr I(1-3) X(1-3))
qed

lemma allgather_spill_flows:
  fixes s s' :: "'w allgather_scheme"
  assumes "allgather_spill amount s = (Inr k, s')" and "boxes_ok s"
  shows "flows s [] [] {#} s'"
proof -
  define need_of where "need_of = (case amount of Some n \<Rightarrow> Inr n
      | None \<Rightarrow> res_bind (memory_available DEVICE s) (\<lambda>headroom. if headroom < 0 then res_bind (chk64 \<bar>headroom\<bar>) to_size else Inr 0))"
  have e: "allgather_spill amount s = (case need_of of Inl e \<Rightarrow> (Inl e, s)
      | Inr need \<Rightarrow>
          if need = 0 then (Inr 0, s)
          else case pb_spill (ag_stats s) need (ag_for_extraction s) s of
                 ((Inl e, pb), s1) \<Rightarrow> (Inl e, s1\<lparr>ag_for_extraction := pb\<rparr>)
               | ((Inr spilled, pb), s1) \<Rightarrow>
                   (let s2 = s1\<lparr>ag_for_extraction := pb\<rparr> in
                    if spilled \<ge> need then (Inr spilled, s2)
                    else case pb_spill (ag_stats s2) (need - spilled) (ag_inserted s2) s2 of
                           ((Inl e, pb'), s3) \<Rightarrow> (Inl e, s3\<lparr>ag_inserted := pb'\<rparr>)
                         | ((Inr extra, pb'), s3) \<Rightarrow> (Inr ((spilled + extra) mod 2 ^ 64), s3\<lparr>ag_inserted := pb'\<rparr>)))"
    unfolding allgather_spill_def need_of_def ..
  obtain need where need: "need_of = Inr need" using assms(1) unfolding e by (cases need_of) simp_all
  show ?thesis
  proof (cases "need = 0")
    case True
    then show ?thesis using assms need flows_refl unfolding e by simp
  next
    case False
    obtain m pb s1 where 1: "pb_spill (ag_stats s) need (ag_for_extraction s) s = ((Inr m, pb), s1)"
      using assms(1) need False unfolding e by (auto split: prod.splits sum.splits)
    note S1 = pb_spill_shape [OF 1]
    then have fr: "br.more s1 = br.more s" by blast
    have same: "s1\<lparr>ag_inserted := ag_inserted s, ag_for_extraction := pb\<rparr> = s1\<lparr>ag_for_extraction := pb\<rparr>"
      unfolding ag_frame(3) [OF fr, symmetric] by simp
    have F1: "flows s [] [] {#} (s1\<lparr>ag_for_extraction := pb\<rparr>)"
      using same_shapes_flow [OF HOL.refl _ fr assms(2), of pb, unfolded same] S1 by blast
    show ?thesis
    proof (cases "m \<ge> need") 
      case True
      then show ?thesis using assms(1) need False 1 F1 unfolding e by (simp add: Let_def)
    next
      case less: False
      obtain x pb' s3 where 2: "pb_spill (ag_stats (s1\<lparr>ag_for_extraction := pb\<rparr>)) (need - m) (ag_inserted (s1\<lparr>ag_for_extraction := pb\<rparr>))
          (s1\<lparr>ag_for_extraction := pb\<rparr>) = ((Inr x, pb'), s3)" and s': "s' = s3\<lparr>ag_inserted := pb'\<rparr>"
        using assms(1) need False 1 less unfolding e by (auto simp: Let_def split: prod.splits sum.splits)
      note S2 = pb_spill_shape [OF 2]
      then have fr2: "br.more s3 = br.more (s1\<lparr>ag_for_extraction := pb\<rparr>)" by blast
      have same2: "s3\<lparr>ag_inserted := pb', ag_for_extraction := ag_for_extraction (s1\<lparr>ag_for_extraction := pb\<rparr>)\<rparr> = s'"
        using ag_frame(4) [OF fr2] unfolding s' by simp
      have "flows (s1\<lparr>ag_for_extraction := pb\<rparr>) [] [] {#} s'"
        using same_shapes_flow [OF _ HOL.refl fr2 flows_boxes [OF F1], of pb'] S2 unfolding same2 by blast
      from flows_trans [OF F1 this] show ?thesis by simp
    qed
  qed
qed


section \<open>What goes around a ring\<close>

text \<open>
  A generic fact: if every rank gets only what its predecessor made or got, and never what it made itself,
  then it holds no more than what all ranks made.
\<close>

lemma pred_next: "1 < n \<Longrightarrow> r < n \<Longrightarrow> (Suc r mod n + n - 1) mod n = (r::nat)"
  by (cases "Suc r = n") auto

lemma ring_other: "q < n \<Longrightarrow> 0 < k \<Longrightarrow> k < n \<Longrightarrow> (q + k) mod n \<noteq> (q::nat)"
  by (cases "q + k < n") (auto simp: mod_if)

lemma ring_bounded:
  fixes own got :: "nat \<Rightarrow> 'a multiset"
  assumes n: "1 < n" and o: "\<And>r d. r < n \<Longrightarrow> d \<in># own r \<Longrightarrow> org d = r"
    and g: "\<And>r. r < n \<Longrightarrow> got r \<subseteq># filter_mset (\<lambda>d. org d \<noteq> r) (own ((r + n - 1) mod n) + got ((r + n - 1) mod n))"
    and l: "\<And>r d. r < n \<Longrightarrow> d \<in># got r \<Longrightarrow> org d < n" and r: "r < n"
  shows "own r + got r \<subseteq># (\<Sum>i<n. own i)"
proof (rule mset_subset_eqI)
  fix d
  show "count (own r + got r) d \<le> count (\<Sum>i<n. own i) d"
  proof (cases "d \<in># own r + got r")
    case False
    then show ?thesis by (simp add: not_in_iff)
  next
    case True
    define q where "q = org d"
    have q: "q < n" using True o [OF r] l [OF r] r by (auto simp: q_def)
    have none: "count (own i) d = 0" if "i < n" "i \<noteq> q" for i
      using o [OF that(1), of d] that(2) by (auto simp: q_def not_in_iff [symmetric])
    have step: "count (got i) d \<le> (if i = q then 0 else count (own ((i + n - 1) mod n)) d + count (got ((i + n - 1) mod n)) d)" if "i < n" for i
      using mset_subset_eq_count [OF g [OF that], of d] by (simp add: q_def split: if_splits)
    have around: "k < n \<Longrightarrow> count (got ((q + k) mod n)) d \<le> (if k = 0 then 0 else count (own q) d)" for k
    proof (induction k)
      case 0
      then show ?case using step [OF q] q by simp
    next
      case (Suc k)
      let ?i = "(q + Suc k) mod n" and ?p = "(q + k) mod n"
      have i: "?i < n" "?p < n" using n by simp_all
      have i_less: "k < n" using Suc.prems by simp
      have p: "(?i + n - 1) mod n = ?p" using pred_next [OF n i(2)] by (simp add: mod_Suc_eq)
      have "?i \<noteq> q" using ring_other [OF q _ Suc.prems] by simp
      then have "count (got ?i) d \<le> count (own ?p) d + count (got ?p) d" using step [OF i(1)] p by simp
      also have "\<dots> \<le> count (own q) d"
      proof (cases "k = 0")
        case True
        then show ?thesis using Suc.IH Suc.prems q by simp
      next
        case False
        have "?p \<noteq> q" using ring_other [OF q _ i_less] False by simp
        then show ?thesis using none [OF i(2)] Suc.IH Suc.prems False by simp
      qed
      finally show ?case by simp
    qed
    obtain k where k: "k < n" "r = (q + k) mod n"
    proof (cases "q \<le> r")
      case True
      then show ?thesis using that [of "r - q"] r by simp
    next
      case False
      then show ?thesis using that [of "n + r - q"] q r by simp
    qed
    have "count (own r + got r) d \<le> count (own q) d"
    proof (cases "r = q")
      case True
      then have "k = 0" using ring_other [OF q _ k(1)] k(2) by auto
      then have "count (got r) d = 0" using around [OF k(1)] k(2) by simp
      then show ?thesis using True by simp
    next
      case False
      then have "count (got r) d \<le> count (own q) d" using around [OF k(1)] unfolding k(2) by (simp split: if_splits)
      then show ?thesis using none [OF r False] by simp
    qed
    also have "\<dots> \<le> (\<Sum>i<n. count (own i) d)" using q by (intro member_le_sum) simp_all
    finally show ?thesis by (simp add: count_sum)
  qed
qed

section \<open>The invariant of the ring\<close>

definition ring_ok :: "nat \<Rightarrow> (nat \<Rightarrow> bool) \<Rightarrow> (nat \<Rightarrow> (u64 \<times> u8 list option \<times> u64) multiset) \<Rightarrow> ring \<Rightarrow> bool" where
  "ring_ok n fin own R \<longleftrightarrow>
     (\<forall>r<n. \<exists>ms fm. rank_at n r (fin r) (own r) (rn_delivered R r) (ag_outbox (rn_nodes R ((r + n - 1) mod n))) ms fm (rn_nodes R r))"

lemma ring_ok_update:
  assumes ok: "ring_ok n fin own R" and n: "1 < n" and r: "r < n" and out: "ag_outbox s = ag_outbox (rn_nodes R r) @ x"
    and new: "rank_at n r b d k (ag_outbox (rn_nodes R ((r + n - 1) mod n))) ms fm s"
  shows "ring_ok n (fin(r := b)) (own(r := d)) (R\<lparr>rn_nodes := (rn_nodes R)(r := s), rn_delivered := (rn_delivered R)(r := k)\<rparr>)"
  unfolding ring_ok_def
proof (intro allI impI)
  fix i assume i: "i < n"
  let ?p = "(i + n - 1) mod n"
  have p: "?p \<noteq> i" using n i by (cases i) auto
  show "\<exists>ms fm. rank_at n i ((fin(r := b)) i) ((own(r := d)) i)
      (rn_delivered (R\<lparr>rn_nodes := (rn_nodes R)(r := s), rn_delivered := (rn_delivered R)(r := k)\<rparr>) i)
      (ag_outbox (rn_nodes (R\<lparr>rn_nodes := (rn_nodes R)(r := s), rn_delivered := (rn_delivered R)(r := k)\<rparr>) ?p)) ms fm
      (rn_nodes (R\<lparr>rn_nodes := (rn_nodes R)(r := s), rn_delivered := (rn_delivered R)(r := k)\<rparr>) i)"
  proof (cases "i = r")
    case True
    then show ?thesis using new p by auto
  next
    case False
    then obtain ms' fm' where "rank_at n i (fin i) (own i) (rn_delivered R i) (ag_outbox (rn_nodes R ?p)) ms' fm' (rn_nodes R i)"
      using ok i by (auto simp: ring_ok_def)
    then show ?thesis using False rank_at_more [of n i "fin i" "own i" "rn_delivered R i" "ag_outbox (rn_nodes R ?p)" ms' fm' "rn_nodes R i" x] out
      by (cases "?p = r") auto
  qed
qed

text \<open>Everything announced, and every marker, is of a rank of the ring.\<close>

lemma passed_on_sub: "boxes_ok s \<Longrightarrow> passed_on s \<subseteq># filter_mset (\<lambda>d. id_origin (fst d) \<noteq> ring_dst s) (gathered s)"
proof -
  assume b: "boxes_ok s"
  have f: "descs (filter (\<lambda>c. origin c \<noteq> q) cs) = filter_mset (\<lambda>d. id_origin (fst d) \<noteq> q) (descs cs)" for cs q
    by (induction cs) (simp_all add: desc_def origin_id)
  have "filter (\<lambda>c. origin c \<noteq> ring_dst s) (ag_sent_posted s) = ag_sent_posted s" using b by (auto simp: boxes_ok_def filter_id_conv)
  then have "passed_on s = filter_mset (\<lambda>d. id_origin (fst d) \<noteq> ring_dst s) (descs (ag_sent_posted s) + descs (ag_for_extraction s))"
    using f [of "ring_dst s" "ag_sent_posted s"] by (simp add: passed_on_def f)
  also have "\<dots> \<subseteq># filter_mset (\<lambda>d. id_origin (fst d) \<noteq> ring_dst s) (gathered s)"
    by (rule multiset_filter_mono) (simp add: gathered_def subseteq_mset_def ac_simps)
  finally show ?thesis .
qed

lemma rank_at_outbox:
  assumes "rank_at n r fin own k out ms fm s" and "r < n" and "r < 2 ^ 26"
  shows "announced_all (ag_outbox s) \<subseteq># filter_mset (\<lambda>d. id_origin (fst d) \<noteq> ring_dst s) (own + announced_all ms)"
    and "\<forall>d\<in>#announced_all (ag_outbox s). id_origin (fst d) < n" and "\<forall>cid\<in>#markers (ag_outbox s). id_origin cid < n"
    and "\<forall>cid\<in>#fm. cid = marker_id r (size own)" and "size fm \<le> 1"
proof -
  note A = assms(1) [unfolded rank_at_def]
  then have b: "boxes_ok s" and g: "gathered s = own + announced_all ms" and p: "passed_on s = announced_all (ag_outbox s)" by blast+
  show sub: "announced_all (ag_outbox s) \<subseteq># filter_mset (\<lambda>d. id_origin (fst d) \<noteq> ring_dst s) (own + announced_all ms)"
    using passed_on_sub [OF b] by (simp add: g p)
  show "\<forall>d\<in>#announced_all (ag_outbox s). id_origin (fst d) < n"
  proof
    fix d assume "d \<in># announced_all (ag_outbox s)"
    from mset_subset_eqD [OF sub this] have "d \<in># own \<or> d \<in># announced_all ms" by (simp only: set_mset_filter mem_Collect_eq union_iff)
    moreover have "\<forall>d\<in>#own. id_origin (fst d) = r" "\<forall>d\<in>#announced_all ms. id_origin (fst d) < n" using A by blast+
    ultimately show "id_origin (fst d) < n" using assms(2) by metis
  qed
  have e: "pending (ag_inserted s) + fm = (if fin then {#marker_id r (size own)#} else {#})" using A by blast
  have "fm \<subseteq># pending (ag_inserted s) + fm" by simp
  also have "\<dots> \<subseteq># {#marker_id r (size own)#}" unfolding e by simp
  finally have sb: "fm \<subseteq># {#marker_id r (size own)#}" .
  show m: "\<forall>cid\<in>#fm. cid = marker_id r (size own)" using mset_subset_eqD [OF sb] by auto
  show "size fm \<le> 1" using size_mset_mono [OF sb] by simp
  have "markers (ag_outbox s) = fm + filter_mset (\<lambda>cid. id_origin cid \<noteq> ring_dst s) (markers ms)" using A by blast
  then show "\<forall>cid\<in>#markers (ag_outbox s). id_origin cid < n"
    using m marker_id_origin [OF assms(3)] assms(2) A by auto
qed

lemma announced_infix: "announced_all b \<subseteq># announced_all (a @ b @ c)" "markers b \<subseteq># markers (a @ b @ c)"
  by (simp_all add: subseteq_mset_def ac_simps)

lemma ring_ok_iterate:
  assumes ok: "ring_ok n fin own R" and n: "1 < n" "n \<le> 2 ^ 26" and r: "r < n"
    and f: "flows (rn_nodes R r) ms' out' fm' s'"
    and at: "rank_at n r (fin r) (own r) (rn_delivered R r) (ag_outbox (rn_nodes R ((r + n - 1) mod n))) ms fm (rn_nodes R r)"
  shows "rank_at n r (fin r) (own r) (rn_delivered R r) (ag_outbox (rn_nodes R ((r + n - 1) mod n))) (ms @ ms') (fm + fm') s'"
proof -
  let ?p = "(r + n - 1) mod n"
  let ?out = "ag_outbox (rn_nodes R ?p)"
  have p: "?p < n" using n by simp
  then obtain mp fp where P: "rank_at n ?p (fin ?p) (own ?p) (rn_delivered R ?p) (ag_outbox (rn_nodes R ((?p + n - 1) mod n))) mp fp (rn_nodes R ?p)"
    using ok by (auto simp: ring_ok_def)
  have "?p < 2 ^ 26" using p n(2) by (rule less_le_trans)
  note O = rank_at_outbox [OF P p this]
  have "?out = ms @ ms' @ (ag_inbox s' @ drop (rn_delivered R r) ?out)"
    using at f append_take_drop_id [of "rn_delivered R r" ?out] by (simp add: rank_at_def flows_def)
  then have s: "announced_all ms' \<subseteq># announced_all ?out" "markers ms' \<subseteq># markers ?out" by (metis announced_infix)+
  have "\<forall>d\<in>#announced_all ms'. id_origin (fst d) < n" using O(2) mset_subset_eqD [OF s(1)] by blast
  moreover have "\<forall>cid\<in>#markers ms'. id_origin cid < n" using O(3) mset_subset_eqD [OF s(2)] by blast
  ultimately show ?thesis by (rule rank_at_flows [OF at f])
qed


lemma at_node_Inr:
  assumes "at_node r f R = (Inr (), R')"
  obtains a s where "f (rn_nodes R r) = (Inr a, s)"
    and "R' = R\<lparr>rn_nodes := (rn_nodes R)(r := s), rn_delivered := (rn_delivered R)(r := rn_delivered R r)\<rparr>"
  using assms by (auto simp: at_node_def split: prod.splits sum.splits)

lemma ring_step_ok:
  assumes ok: "ring_ok n fin own R" and n: "1 < n" "n \<le> 2 ^ 26" and e: "event_ok n e" "ring_step e R = (Inr (), R')"
    and once: "\<And>r. e = Finishes r \<Longrightarrow> \<not> fin r"
  shows "ring_ok n (\<lambda>r. fin r \<or> e = Finishes r) (\<lambda>r. own r + inserted r [e]) R'"
proof -
  have at: "\<exists>ms fm. rank_at n r (fin r) (own r) (rn_delivered R r) (ag_outbox (rn_nodes R ((r + n - 1) mod n))) ms fm (rn_nodes R r)"
    if "r < n" for r using ok that by (auto simp: ring_ok_def)
  have flow: "ring_ok n fin own R'" if r: "r < n" and f: "flows (rn_nodes R r) ms' out' fm' s"
    and R': "R' = R\<lparr>rn_nodes := (rn_nodes R)(r := s), rn_delivered := (rn_delivered R)(r := rn_delivered R r)\<rparr>" for r ms' out' fm' s
  proof -
    from at [OF r] obtain ms fm where
      "rank_at n r (fin r) (own r) (rn_delivered R r) (ag_outbox (rn_nodes R ((r + n - 1) mod n))) ms fm (rn_nodes R r)" by blast
    from ring_ok_update [OF ok n(1) r _ ring_ok_iterate [OF ok n r f this]] f show ?thesis by (simp add: R' flows_def)
  qed
  have bo: "boxes_ok (rn_nodes R r)" "ag_nranks (rn_nodes R r) = n" "ag_rank (rn_nodes R r) = r" if "r < n" for r
    using at [OF that] by (auto simp: rank_at_def)
  show ?thesis
  proof (cases e)
    case (Inserts r q p)
    then have r: "r < n" "unat q < 2 ^ 38" using e(1) by simp_all
    obtain a s where i: "allgather_insert q p (rn_nodes R r) = (Inr a, s)"
      and R': "R' = R\<lparr>rn_nodes := (rn_nodes R)(r := s), rn_delivered := (rn_delivered R)(r := rn_delivered R r)\<rparr>"
      using e(2) Inserts by (auto elim: at_node_Inr)
    obtain ms fm where a: "rank_at n r (fin r) (own r) (rn_delivered R r) (ag_outbox (rn_nodes R ((r + n - 1) mod n))) ms fm (rn_nodes R r)"
      using at [OF r(1)] by blast
    have i': "allgather_insert q p (rn_nodes R r) = (Inr (), s)" using i by simp
    have "r < 2 ^ 26" using r(1) n(2) by (rule less_le_trans)
    note S = rank_at_insert [OF a i' n(1) this r]
    have f: "fin(r := fin r) = (\<lambda>r. fin r \<or> e = Finishes r)" by (auto simp: Inserts)
    have o: "own(r := own r + {#(chunk_id q r, Some (pd_metadata p), word_of_nat (buf_size (pd_data p)))#}) = (\<lambda>r. own r + inserted r [e])"
      by (auto simp: Inserts)
    show ?thesis using ring_ok_update [OF ok n(1) r(1) _ conjunct2 [OF conjunct2 [OF S]], of "[]"] S unfolding R' f o by simp
  next
    case (Finishes r)
    then have r: "r < n" and nf: "\<not> fin r" using e(1) once by simp_all
    let ?s = "allgather_insert_finished (rn_nodes R r)"
    have R': "R' = R\<lparr>rn_nodes := (rn_nodes R)(r := ?s), rn_delivered := (rn_delivered R)(r := rn_delivered R r)\<rparr>"
      using e(2) Finishes by (auto simp: at_node_def)
    obtain ms fm where "rank_at n r False (own r) (rn_delivered R r) (ag_outbox (rn_nodes R ((r + n - 1) mod n))) ms fm (rn_nodes R r)"
      using at [OF r] nf by auto
    note S = rank_at_finish [OF this]
    have f: "fin(r := True) = (\<lambda>r. fin r \<or> e = Finishes r)" by (auto simp: Finishes)
    have o: "own(r := own r) = (\<lambda>r. own r + inserted r [e])" by (auto simp: Finishes)
    show ?thesis using ring_ok_update [OF ok n(1) r _ S, of "[]"] unfolding R' f o by (simp add: allgather_insert_finished_def)
  next
    case (Spills r amount)
    then have r: "r < n" using e(1) by simp
    obtain k s where i: "allgather_spill amount (rn_nodes R r) = (Inr k, s)"
      and R': "R' = R\<lparr>rn_nodes := (rn_nodes R)(r := s), rn_delivered := (rn_delivered R)(r := rn_delivered R r)\<rparr>"
      using e(2) Spills by (auto elim: at_node_Inr)
    show ?thesis using flow [OF r allgather_spill_flows [OF i bo(1) [OF r]] R'] by (simp add: Spills)
  next
    case (Delivers r)
    then have r: "r < n" using e(1) by simp
    have R': "R' = deliver r R" using e(2) Delivers by simp
    have src: "ring_src (rn_nodes R r) = (r + n - 1) mod n" using bo [OF r] by (simp add: ring_src_def)
    let ?out = "ag_outbox (rn_nodes R ((r + n - 1) mod n))"
    show ?thesis
    proof (cases "rn_delivered R r < length ?out")
      case False
      then show ?thesis using ok by (simp add: R' deliver_def src Let_def Delivers)
    next
      case True
      obtain ms fm where a: "rank_at n r (fin r) (own r) (rn_delivered R r) ?out ms fm (rn_nodes R r)" using at [OF r] by blast
      have f: "fin(r := fin r) = (\<lambda>r. fin r \<or> e = Finishes r)" by (auto simp: Delivers)
      have o: "own(r := own r) = (\<lambda>r. own r + inserted r [e])" by (auto simp: Delivers)
      show ?thesis using ring_ok_update [OF ok n(1) r _ rank_at_deliver [OF a True], of "[]"] True
        unfolding f o by (simp add: R' deliver_def src Let_def)
    qed
  next
    case (Iterates r strm rg)
    then have r: "r < n" and c: "comm_ok rg" using e(1) by simp_all
    obtain st s where i: "allgather_event_loop strm rg (rn_nodes R r) = (Inr st, s)"
      and R': "R' = R\<lparr>rn_nodes := (rn_nodes R)(r := s), rn_delivered := (rn_delivered R)(r := rn_delivered R r)\<rparr>"
      using e(2) Iterates by (auto elim: at_node_Inr)
    have "ag_nranks (rn_nodes R r) \<noteq> 1" using bo(2) [OF r] n by simp
    from event_loop_flows(1) [OF i c bo(1) [OF r] this] obtain ms out fm where "flows (rn_nodes R r) ms out fm s" by blast
    from flow [OF r this R'] show ?thesis by (simp add: Iterates)
  qed
qed

lemma inserted_Cons: "inserted r (e # es) = inserted r [e] + inserted r es"
  by (cases e) simp_all

lemma ring_run_ok:
  assumes "ring_ok n fin own R" and "1 < n" "n \<le> 2 ^ 26" and "ring_run es R = (Inr (), R')" and "\<forall>e\<in>set es. event_ok n e"
    and "\<forall>r<n. (if fin r then 1 else 0) + finishes r es \<le> 1"
  shows "ring_ok n (\<lambda>r. fin r \<or> finishes r es > 0) (\<lambda>r. own r + inserted r es) R'"
  using assms(1,4-6)
proof (induction es arbitrary: fin own R)
  case Nil
  then show ?case by simp
next
  case (Cons e es)
  then have e: "event_ok n e" by simp
  obtain R1 where 1: "ring_step e R = (Inr (), R1)" and 2: "ring_run es R1 = (Inr (), R')" using Cons.prems(2) by (auto simp: act_bind_cases)
  have "\<not> fin r" if "e = Finishes r" for r
  proof -
    have "r < n" using e that by simp
    from Cons.prems(4) [rule_format, OF this] show ?thesis using that by (simp split: if_splits)
  qed
  note ok = ring_step_ok [OF Cons.prems(1) assms(2,3) e 1 this]
  have "\<forall>r<n. (if fin r \<or> e = Finishes r then 1 else 0) + finishes r es \<le> 1"
  proof (intro allI impI)
    fix r assume "r < n"
    from Cons.prems(4) [rule_format, OF this] show "(if fin r \<or> e = Finishes r then 1 else 0) + finishes r es \<le> 1"
      by (auto split: if_splits)
  qed
  from Cons.IH [OF ok 2 _ this] Cons.prems(3)
  have "ring_ok n (\<lambda>r. (fin r \<or> e = Finishes r) \<or> finishes r es > 0) (\<lambda>r. own r + inserted r [e] + inserted r es) R'" by simp
  moreover have "(\<lambda>r. (fin r \<or> e = Finishes r) \<or> finishes r es > 0) = (\<lambda>r. fin r \<or> finishes r (e # es) > 0)" by auto
  moreover have "(\<lambda>r. own r + inserted r [e] + inserted r es) = (\<lambda>r. own r + inserted r (e # es))"
    using inserted_Cons [of _ e es] by (simp add: add.assoc)
  ultimately show ?case by simp
qed

definition new_ring :: "nat \<Rightarrow> (nat \<Rightarrow> bool) \<Rightarrow> (nat \<Rightarrow> bool) \<Rightarrow> (nat \<Rightarrow> br) \<Rightarrow> ring" where
  "new_ring n stats callback brs =
     \<lparr>rn_nodes = (\<lambda>r. new_allgather r n (stats r) (callback r) (brs r)), rn_delivered = (\<lambda>_. 0)\<rparr>"

lemma ring_ok_new: "ring_ok n (\<lambda>_. False) (\<lambda>_. {#}) (new_ring n stats callback brs)"
proof -
  have "rank_at n r False {#} 0 out [] {#} (new_allgather r n st cb b)" for r out st cb b
    by (simp add: rank_at_def new_allgather_def br.extend_def boxes_ok_def gathered_def passed_on_def)
  then show ?thesis unfolding ring_ok_def new_ring_def by (simp, blast)
qed

text \<open>At any time, no rank holds more than what all ranks inserted, nor knows more markers than were sent.\<close>

lemma ring_ok_bounded:
  assumes ok: "ring_ok n fin own R" and n: "1 < n" "n \<le> 2 ^ 26"
  shows "\<exists>ms fm. (\<forall>r<n. rank_at n r (fin r) (own r) (rn_delivered R r) (ag_outbox (rn_nodes R ((r + n - 1) mod n))) (ms r) (fm r) (rn_nodes R r)) \<and>
    (\<forall>r<n. own r + announced_all (ms r) \<subseteq># (\<Sum>i<n. own i) \<and> fm r + markers (ms r) \<subseteq># (\<Sum>i<n. fm i))"
proof -
  define at where "at r ms fm \<longleftrightarrow>
    rank_at n r (fin r) (own r) (rn_delivered R r) (ag_outbox (rn_nodes R ((r + n - 1) mod n))) ms fm (rn_nodes R r)" for r ms fm
  have "\<forall>r. \<exists>m. r < n \<longrightarrow> at r (fst m) (snd m)" using ok by (auto simp: ring_ok_def at_def)
  then obtain m where m: "at r (fst (m r)) (snd (m r))" if "r < n" for r by metis
  define ms fm where "ms r = fst (m r)" and "fm r = snd (m r)" for r
  have A: "at r (ms r) (fm r)" if "r < n" for r using m [OF that] by (simp add: ms_def fm_def)
  have small: "r < 2 ^ 26" if "r < n" for r using that n(2) by (rule less_le_trans)
  note O = rank_at_outbox [OF A [unfolded at_def] _ small]
  have prev: "p < n" "ring_dst (rn_nodes R p) = r" "p \<noteq> r" if "r < n" "p = (r + n - 1) mod n" for r p
  proof -
    show p: "p < n" using n that by simp
    have "ag_rank (rn_nodes R p) = p" "ag_nranks (rn_nodes R p) = n" using A [OF p] by (auto simp: at_def rank_at_def)
    then show "ring_dst (rn_nodes R p) = r" "p \<noteq> r" using that n by (cases r; simp add: ring_dst_def mod_Suc)+
  qed
  have taken: "announced_all (ms r) \<subseteq># announced_all out" "markers (ms r) \<subseteq># markers out"
    if "r < n" "out = ag_outbox (rn_nodes R ((r + n - 1) mod n))" for r out
  proof -
    have "out = [] @ ms r @ (ag_inbox (rn_nodes R r) @ drop (rn_delivered R r) out)"
      using A [OF that(1)] append_take_drop_id [of "rn_delivered R r" out] by (simp add: at_def rank_at_def that(2))
    then show "announced_all (ms r) \<subseteq># announced_all out" "markers (ms r) \<subseteq># markers out" by (metis announced_infix)+
  qed
  have data: "own r + announced_all (ms r) \<subseteq># (\<Sum>i<n. own i)" if r: "r < n" for r
  proof (rule ring_bounded [where org = "\<lambda>d. id_origin (fst d)", OF n(1) _ _ _ r])
    show "id_origin (fst d) = i" if "i < n" "d \<in># own i" for i d using A [OF that(1)] that(2) by (auto simp: at_def rank_at_def)
    show "id_origin (fst d) < n" if "i < n" "d \<in># announced_all (ms i)" for i d
      using A [OF that(1)] that(2) unfolding at_def rank_at_def by blast
    fix i assume i: "i < n"
    let ?p = "(i + n - 1) mod n"
    note P = prev [OF i HOL.refl]
    from subset_mset.order_trans [OF taken(1) [OF i HOL.refl] O(1) [OF P(1) P(1) P(1)]]
    show "announced_all (ms i) \<subseteq># filter_mset (\<lambda>d. id_origin (fst d) \<noteq> i) (own ?p + announced_all (ms ?p))" by (simp only: P(2))
  qed
  have marks: "fm r + markers (ms r) \<subseteq># (\<Sum>i<n. fm i)" if r: "r < n" for r
  proof (rule ring_bounded [where org = id_origin, OF n(1) _ _ _ r])
    show own: "id_origin d = i" if "i < n" "d \<in># fm i" for i d
      using O(4) [OF that(1) that(1) that(1)] that(2) marker_id_origin [OF small [OF that(1)]] by auto
    show "id_origin d < n" if "i < n" "d \<in># markers (ms i)" for i d
      using A [OF that(1)] that(2) unfolding at_def rank_at_def by blast
    fix i assume i: "i < n"
    let ?p = "(i + n - 1) mod n"
    note P = prev [OF i HOL.refl]
    have "markers (ag_outbox (rn_nodes R ?p)) = fm ?p + filter_mset (\<lambda>cid. id_origin cid \<noteq> i) (markers (ms ?p))"
      using A [OF P(1)] unfolding at_def rank_at_def P(2) by blast
    moreover have "filter_mset (\<lambda>cid. id_origin cid \<noteq> i) (fm ?p) = fm ?p"
      using own [OF P(1)] P(3) by (auto simp: filter_mset_eq_conv)
    ultimately have "markers (ag_outbox (rn_nodes R ?p)) = filter_mset (\<lambda>cid. id_origin cid \<noteq> i) (fm ?p + markers (ms ?p))"
      by (simp only: filter_union_mset)
    then show "markers (ms i) \<subseteq># filter_mset (\<lambda>cid. id_origin cid \<noteq> i) (fm ?p + markers (ms ?p))"
      using taken(2) [OF i HOL.refl] by (simp only:)
  qed
  show ?thesis using A data marks unfolding at_def by blast
qed

end
