(* ===== verification/Gather_Done.thy ===== *)
theory Gather_Done
  imports Gather_Ring
begin

text \<open>
  The result of an allgather: when the event loop of a rank reports that it is done, the rank holds exactly
  what all ranks inserted, and extracts it in the order of ranks and sequence numbers.
\<close>

section \<open>When a rank is done\<close>

lemma sum_word_of_nat: "(\<Sum>i<n. word_of_nat (f i)) = (word_of_nat (\<Sum>i<n. f i) :: u64)" for n :: nat
  by (induction n) simp_all

lemma sum_sizes: "size (\<Sum>i<n. f i) = (\<Sum>i<n. size (f i))" for n :: nat and f :: "nat \<Rightarrow> 'a multiset"
  by (induction n) simp_all

lemma sum_ones: "(\<Sum>i<n. f i) = n \<Longrightarrow> (\<And>i. i < n \<Longrightarrow> f i \<le> 1) \<Longrightarrow> i < n \<Longrightarrow> f i = (1::nat)" for n :: nat
proof (rule ccontr)
  assume s: "(\<Sum>i<n. f i) = n" and l: "\<And>i. i < n \<Longrightarrow> f i \<le> 1" and i: "i < n" "f i \<noteq> 1"
  have "f i < 1" using i l [OF i(1)] by simp
  then have "(\<Sum>i<n. f i) < (\<Sum>i<n. 1)" using i(1) l by (intro sum_strict_mono_ex1) auto
  then show False using s by simp
qed

lemma total_sequence_sum: "total_sequence (\<Sum>i<n. M i) = (\<Sum>i<n. total_sequence (M i))" for n :: nat
  by (induction n) simp_all

lemma done_gathers:
  assumes n: "1 < n" "n \<le> 2 ^ 26" and es: "\<forall>e\<in>set es. event_ok n e" and once: "\<forall>r<n. finishes r es \<le> 1 \<and> size (inserted r es) < 2 ^ 32"
    and run: "ring_run es (new_ring n stats callback brs) = (Inr (), R)"
    and r: "r < n" and rg: "comm_ok rg" and dn: "allgather_event_loop strm rg (rn_nodes R r) = (Inr Done, s)"
  shows "mset (map desc (ag_for_extraction s)) = (\<Sum>i<n. inserted i es)" and "\<forall>i<n. finishes i es = 1" and "boxes_ok s"
    and "ag_can_extract s"
proof -
  define own where "own i = inserted i es" for i
  define fin where "fin i \<longleftrightarrow> finishes i es > 0" for i
  have "\<forall>r<n. (if False then 1 else 0) + finishes r es \<le> 1" using once by simp
  from ring_run_ok [OF ring_ok_new n run es this] have ok: "ring_ok n fin own R" by (simp add: own_def [abs_def] fin_def [abs_def])
  from ok r obtain ms0 fm0
    where a0: "rank_at n r (fin r) (own r) (rn_delivered R r) (ag_outbox (rn_nodes R ((r + n - 1) mod n))) ms0 fm0 (rn_nodes R r)"
    by (auto simp: ring_ok_def)
  then have "boxes_ok (rn_nodes R r)" and "ag_nranks (rn_nodes R r) \<noteq> 1" using n by (simp_all add: rank_at_def)
  note L = event_loop_flows [OF dn rg this]
  from L(2) have all: "received_all_data s" "ag_containers_empty s" by simp_all
  from L(1) obtain ms1 out fm1 where f: "flows (rn_nodes R r) ms1 out fm1 s" by blast
  define R2 where "R2 = R\<lparr>rn_nodes := (rn_nodes R)(r := s), rn_delivered := (rn_delivered R)(r := rn_delivered R r)\<rparr>"
  have "ring_ok n fin own R2"
    using ring_ok_update [OF ok n(1) r _ ring_ok_iterate [OF ok n r f a0], of out] f by (simp add: flows_def R2_def)
  from ring_ok_bounded [OF this n] obtain ms fm
    where A: "\<And>i. i < n \<Longrightarrow> rank_at n i (fin i) (own i) (rn_delivered R2 i) (ag_outbox (rn_nodes R2 ((i + n - 1) mod n))) (ms i) (fm i) (rn_nodes R2 i)"
      and B: "\<And>i. i < n \<Longrightarrow> own i + announced_all (ms i) \<subseteq># (\<Sum>i<n. own i)" "\<And>i. i < n \<Longrightarrow> fm i + markers (ms i) \<subseteq># (\<Sum>i<n. fm i)"
    by blast
  have s: "rn_nodes R2 r = s" by (simp add: R2_def)
  note Ar = A [OF r, unfolded s rank_at_def]
  then show b: "boxes_ok s" by blast
  have small: "i < 2 ^ 26" if "i < n" for i using that n(2) by (rule less_le_trans)
  note O = rank_at_outbox [OF A _ small]
  have fc: "size (fm r + markers (ms r)) = n" using Ar all(1) unfolding received_all_data_def by linarith
  have f1: "size (fm i) \<le> 1" if "i < n" for i using O(5) [OF that that that] .
  have "(\<Sum>i<n. size (fm i)) \<le> (\<Sum>i<n. 1)" by (rule sum_mono) (use f1 in simp)
  then have le: "size (\<Sum>i<n. fm i) \<le> n" by (simp add: sum_sizes)
  then have m: "fm r + markers (ms r) = (\<Sum>i<n. fm i)" by (intro mset_sub_full B(2) r) (simp only: fc)
  then have "(\<Sum>i<n. size (fm i)) = n" using fc by (simp add: sum_sizes)
  note sm = this
  have one: "size (fm i) = 1" if "i < n" for i using sum_ones [OF sm f1 that] .
  have fmi: "fm i = {#marker_id i (size (own i))#} \<and> fin i" if i: "i < n" for i
  proof -
    obtain x where x: "fm i = {#x#}" using one [OF i] by (metis One_nat_def size_1_singleton_mset)
    then have "x = marker_id i (size (own i))" using O(4) [OF i i i] by simp
    moreover have "pending (ag_inserted (rn_nodes R2 i)) + fm i = (if fin i then {#marker_id i (size (own i))#} else {#})"
      using A [OF i] unfolding rank_at_def by blast
    ultimately show ?thesis using x by (auto split: if_splits)
  qed
  show "\<forall>i<n. finishes i es = 1"
  proof (intro allI impI)
    fix i assume i: "i < n"
    have "finishes i es > 0" using fmi [OF i] by (simp add: fin_def)
    moreover have "finishes i es \<le> 1" using once i by blast
    ultimately show "finishes i es = 1" by linarith
  qed
  have "ag_goalpost s = total_sequence (\<Sum>i<n. fm i)" using Ar m by simp
  also have "\<dots> = (\<Sum>i<n. total_sequence (fm i))" by (rule total_sequence_sum)
  also have "\<dots> = (\<Sum>i<n. word_of_nat (size (own i)))"
  proof (rule sum.cong [OF HOL.refl])
    fix i assume "i \<in> {..<n}"
    then have i: "i < n" by simp
    then show "total_sequence (fm i) = word_of_nat (size (own i))" using fmi marker_id_sequence [OF small [OF i]] once by (simp add: own_def)
  qed
  also have "\<dots> = word_of_nat (size (\<Sum>i<n. own i))" by (simp only: sum_word_of_nat sum_sizes)
  finally have goal: "ag_goalpost s = word_of_nat (size (\<Sum>i<n. own i))" .
  have ext: "gathered s = mset (map desc (ag_for_extraction s))"
    using all(2) b by (simp add: gathered_def ag_containers_empty_def pb_empty_def descs_def boxes_ok_def filter_id_conv)
  have g: "gathered s = own r + announced_all (ms r)" using Ar by blast
  have "(\<Sum>i<n. size (own i)) \<le> (\<Sum>i<n. 2 ^ 32)" by (rule sum_mono) (use once in \<open>simp add: own_def less_imp_le\<close>)
  also have "\<dots> = n * 2 ^ 32" by simp
  also have "\<dots> \<le> 2 ^ 26 * 2 ^ 32" using n(2) by (rule mult_le_mono1)
  finally have tot: "size (\<Sum>i<n. own i) < 2 ^ 64" by (simp add: sum_sizes)
  have "size (gathered s) \<le> size (\<Sum>i<n. own i)" unfolding g by (rule size_mset_mono [OF B(1) [OF r]])
  moreover from this have "length (ag_for_extraction s) < 2 ^ 64" using tot by (simp add: ext)
  moreover have "(word_of_nat (size (\<Sum>i<n. own i)) :: u64) = word_of_nat (length (ag_for_extraction s))"
    using goal all(1) by (simp add: received_all_data_def pb_size_def)
  ultimately have "size (\<Sum>i<n. own i) = length (ag_for_extraction s)"
    using tot by (intro word_of_nat_inj64) simp_all
  then have "size (\<Sum>i<n. own i) \<le> size (gathered s)" by (simp add: ext)
  from mset_sub_full [OF B(1) [OF r, folded g] this] show "mset (map desc (ag_for_extraction s)) = (\<Sum>i<n. inserted i es)"
    by (simp add: ext own_def)
  show "ag_can_extract s" using L(2) by simp
qed


section \<open>Extraction in order\<close>

text \<open>What a rank inserts, in the order it does: sequence numbers and metadata.\<close>

fun inserts :: "nat \<Rightarrow> ring_event list \<Rightarrow> (u64 \<times> u8 list) list" where
  "inserts r [] = []"
| "inserts r (Inserts r' q p # es) = (if r' = r then [(q, pd_metadata p)] else []) @ inserts r es"
| "inserts r (e # es) = inserts r es"

definition key_of :: "u64 \<times> u8 list option \<times> u64 \<Rightarrow> u64 \<times> u8 list" where
  "key_of d = (fst d, case fst (snd d) of None \<Rightarrow> [] | Some m \<Rightarrow> m)"

lemma inserted_inserts: "image_mset key_of (inserted r es) = mset (map (\<lambda>(q, m). (chunk_id q r, m)) (inserts r es))"
  by (induction r es rule: inserts.induct) (simp_all add: key_of_def)

lemma release_all_ok:
  "\<forall>c\<in>set cs. cc_data c \<noteq> None \<and> cc_metadata c \<noteq> None \<and> cc_metadata c \<noteq> Some [] \<Longrightarrow>
   \<exists>ps. release_all cs = Inr ps \<and> map pd_metadata ps = map (\<lambda>c. snd (key_of (desc c))) cs"
  by (induction cs) (auto simp: coll_release_def make_packed_data_def key_of_def desc_def)

definition in_rank_order :: "nat \<Rightarrow> ring_event list \<Rightarrow> (u64 \<times> u8 list) list" where
  "in_rank_order n es =
     concat (map (\<lambda>r. map (\<lambda>(q, m). (chunk_id q r, m)) (sort_key (unat \<circ> fst) (inserts r es))) [0..<n])"

lemma inserts_small: "\<forall>e\<in>set es. event_ok n e \<Longrightarrow> (q, m) \<in> set (inserts r es) \<Longrightarrow> unat q < 2 ^ 38"
  by (induction r es rule: inserts.induct) (auto split: if_splits)

text \<open>Blocks of keys that follow each other.\<close>

lemma sorted_blocks:
  fixes key :: "'a \<Rightarrow> nat"
  assumes "\<And>r. r < n \<Longrightarrow> sorted (map key (b r)) \<and> distinct (map key (b r))"
    and "\<And>r x. r < n \<Longrightarrow> x \<in> set (b r) \<Longrightarrow> r * w \<le> key x \<and> key x < Suc r * w"
  shows "sorted (map key (concat (map b [0..<n]))) \<and> distinct (map key (concat (map b [0..<n]))) \<and>
    (\<forall>x\<in>set (concat (map b [0..<n])). key x < n * w)"
  using assms
proof (induction n)
  case 0
  then show ?case by simp
next
  case (Suc n)
  let ?c = "concat (map b [0..<n])"
  have e: "concat (map b [0..<Suc n]) = ?c @ b n" by simp
  have "sorted (map key ?c) \<and> distinct (map key ?c) \<and> (\<forall>x\<in>set ?c. key x < n * w)"
    by (rule Suc.IH) (use Suc.prems less_SucI in blast)+
  then have I: "sorted (map key ?c)" "distinct (map key ?c)" "\<And>x. x \<in> set ?c \<Longrightarrow> key x < n * w" by blast+
  have B: "sorted (map key (b n))" "distinct (map key (b n))" "\<And>x. x \<in> set (b n) \<Longrightarrow> n * w \<le> key x \<and> key x < Suc n * w"
    using Suc.prems lessI by blast+
  have less: "key x < key y" if "x \<in> set ?c" "y \<in> set (b n)" for x y using I(3) [OF that(1)] B(3) [OF that(2)] by linarith
  then have "sorted (map key (?c @ b n))" using I(1) B(1) unfolding map_append sorted_append by (force intro: less_imp_le)
  moreover have "distinct (map key (?c @ b n))" using I(2) B(2) less unfolding map_append distinct_append by (force dest: less_not_refl3)
  moreover have "\<forall>x\<in>set (?c @ b n). key x < Suc n * w" using I(3) B(3) by fastforce
  ultimately show ?case unfolding e by blast
qed

lemma in_rank_order_sorted:
  assumes "\<forall>e\<in>set es. event_ok n' e" and "\<forall>r<n. distinct (map fst (inserts r es))" and "n \<le> 2 ^ 26"
  shows "sorted (map (unat \<circ> fst) (in_rank_order n es)) \<and> distinct (map (unat \<circ> fst) (in_rank_order n es))"
proof -
  let ?b = "\<lambda>r. map (\<lambda>(q, m). (chunk_id q r, m)) (sort_key (unat \<circ> fst) (inserts r es))"
  have key: "(unat \<circ> fst) (case x of (q, m) \<Rightarrow> (chunk_id q r, m)) = r * 2 ^ 38 + unat (fst x)" "unat (fst x) < 2 ^ 38"
    if "r < n" "x \<in> set (inserts r es)" for r x
  proof -
    show q: "unat (fst x) < 2 ^ 38" using inserts_small [OF assms(1), of "fst x" "snd x" r] that(2) by simp
    have "r < 2 ^ 26" using that(1) assms(3) by (rule less_le_trans)
    then show "(unat \<circ> fst) (case x of (q, m) \<Rightarrow> (chunk_id q r, m)) = r * 2 ^ 38 + unat (fst x)"
      using unat_chunk_id [OF _ q] by (simp add: split_beta)
  qed
  have k: "map (unat \<circ> fst) (?b r) = map (\<lambda>q. r * 2 ^ 38 + q) (map (unat \<circ> fst) (sort_key (unat \<circ> fst) (inserts r es)))" if "r < n" for r
    using key(1) [OF that] by simp
  have "sorted (map (unat \<circ> fst) (?b r)) \<and> distinct (map (unat \<circ> fst) (?b r))" if "r < n" for r
  proof -
    have "sorted (map (unat \<circ> fst) (?b r))"
      unfolding k [OF that] by (rule sorted_map_mono [OF sorted_sort_key]) (simp add: mono_on_def)
    moreover have "mset (map fst (sort_key (unat \<circ> fst) (inserts r es))) = mset (map fst (inserts r es))" by simp
    then have d: "distinct (map fst (sort_key (unat \<circ> fst) (inserts r es)))" using assms(2) that mset_eq_imp_distinct_iff by blast
    have "map (\<lambda>q. r * 2 ^ 38 + q) (map (unat \<circ> fst) xs) = map (\<lambda>q. r * 2 ^ 38 + unat q) (map fst xs)" for xs :: "(u64 \<times> u8 list) list" by simp
    moreover have "inj_on (\<lambda>q. r * 2 ^ 38 + unat q) A" for A :: "u64 set" by (simp add: inj_on_def word_unat_eq_iff)
    ultimately show ?thesis using d unfolding k [OF that] by (metis distinct_map)
  qed
  moreover have "r * 2 ^ 38 \<le> (unat \<circ> fst) y \<and> (unat \<circ> fst) y < Suc r * 2 ^ 38" if r: "r < n" and y: "y \<in> set (?b r)" for r y
  proof -
    obtain x where x: "x \<in> set (inserts r es)" "y = (case x of (q, m) \<Rightarrow> (chunk_id q r, m))" using y by auto
    then show ?thesis using key [OF r x(1)] by simp
  qed
  ultimately show ?thesis unfolding in_rank_order_def using sorted_blocks [of n "unat \<circ> fst" ?b "2 ^ 38"] by blast
qed

lemma image_mset_sums: "image_mset f (\<Sum>i<n. M i) = (\<Sum>i<n. image_mset f (M i))" for n :: nat
  by (induction n) simp_all

lemma mset_in_rank_order: "mset (in_rank_order n es) = (\<Sum>r<n. mset (map (\<lambda>(q, m). (chunk_id q r, m)) (inserts r es)))"
  by (induction n) (simp_all add: in_rank_order_def)

definition inserts_metadata :: "ring_event list \<Rightarrow> bool" where
  "inserts_metadata es \<longleftrightarrow> (\<forall>e\<in>set es. case e of Inserts r q p \<Rightarrow> pd_metadata p \<noteq> [] | _ \<Rightarrow> True)"

lemma inserted_metadata: "inserts_metadata es \<Longrightarrow> d \<in># inserted r es \<Longrightarrow> snd (key_of d) \<noteq> []"
  unfolding inserts_metadata_def by (induction r es rule: inserts.induct) (auto simp: key_of_def split: if_splits)

lemma done_in_order:
  assumes n: "1 < n" "n \<le> 2 ^ 26" and es: "\<forall>e\<in>set es. event_ok n e" and once: "\<forall>r<n. finishes r es \<le> 1 \<and> size (inserted r es) < 2 ^ 32"
    and run: "ring_run es (new_ring n stats callback brs) = (Inr (), R)"
    and r: "r < n" and rg: "comm_ok rg" and dn: "allgather_event_loop strm rg (rn_nodes R r) = (Inr Done, s)"
    and meta: "inserts_metadata es" and dist: "\<forall>r<n. distinct (map fst (inserts r es))"
  shows "\<exists>ps s'. wait_and_extract True timed_out s = Some (Inr ps, s') \<and> map pd_metadata ps = map snd (in_rank_order n es)"
proof -
  note D = done_gathers [OF n es once run r rg dn]
  let ?ext = "ag_for_extraction s" and ?key = "\<lambda>c. key_of (desc c)"
  let ?cs = "sort_key (\<lambda>c. unat (cc_id c)) ?ext"
  have ok: "\<forall>c\<in>set ?ext. cc_data c \<noteq> None \<and> cc_metadata c \<noteq> None \<and> cc_metadata c \<noteq> Some []"
  proof
    fix c assume c: "c \<in> set ?ext"
    then have "desc c \<in># (\<Sum>i<n. inserted i es)" by (metis D(1) image_eqI list.set_map set_mset_mset)
    then obtain i where "desc c \<in># inserted i es" by (auto simp: set_mset_sum)
    from inserted_metadata [OF meta this] D(3) c show "cc_data c \<noteq> None \<and> cc_metadata c \<noteq> None \<and> cc_metadata c \<noteq> Some []"
      by (auto simp: key_of_def desc_def boxes_ok_def)
  qed
  then obtain ps where ps: "release_all ?cs = Inr ps" "map pd_metadata ps = map (\<lambda>c. snd (?key c)) ?cs"
    using release_all_ok [of ?cs] by auto
  have "mset (map ?key ?cs) = image_mset key_of (mset (map desc ?ext))" by (simp add: image_mset.compositionality o_def)
  also have "\<dots> = mset (in_rank_order n es)"
    unfolding D(1) mset_in_rank_order by (simp add: image_mset_sums inserted_inserts)
  finally have m: "mset (map ?key ?cs) = mset (in_rank_order n es)" .
  have s: "sorted (map (unat \<circ> fst) (map ?key ?cs))"
    using sorted_sort_key [of "\<lambda>c. unat (cc_id c)" ?ext] by (simp add: key_of_def desc_def o_def)
  note O = in_rank_order_sorted [OF es dist n(2)]
  have "map ?key ?cs = in_rank_order n es" using sort_key_unique [OF m s] O by blast
  then have "map pd_metadata ps = map snd (in_rank_order n es)" using ps(2) by (metis (no_types, lifting) list.map_comp o_def map_eq_conv)
  then show ?thesis using ps(1) D(4) by (auto simp: wait_and_extract_def allgather_wait_def pb_extract_def)
qed


section \<open>Properties\<close>

text \<open>Property C1: an allgather is complete when it says so. Take any number of ranks above one (ranks within 26 bits),
  inserting fewer than \<open>2 ^ 32\<close> chunks each, finishing at most once, spilling, and iterating with whatever completions
  the communicator reports, in any interleaving, metadata being delivered in order after any delay. As soon as
  the event loop of some rank reports that it is done, that rank holds for extraction exactly one copy of each
  chunk inserted by every rank, its own included, and every rank has finished inserting.\<close>

theorem allgather_complete:
  assumes "1 < n" and "n \<le> 2 ^ 26" and "\<forall>e\<in>set es. event_ok n e"
    and "\<forall>i<n. finishes i es \<le> 1 \<and> size (inserted i es) < 2 ^ 32"
    and "ring_run es (new_ring n stats callback brs) = (Inr (), R)"
    and "r < n" and "comm_ok rg" and "allgather_event_loop strm rg (rn_nodes R r) = (Inr Done, s)"
  shows "mset (map desc (ag_for_extraction s)) = (\<Sum>i<n. inserted i es) \<and> (\<forall>i<n. finishes i es = 1)"
  using done_gathers(1,2) [OF assms] by blast

definition host_br :: br where
  "host_br = example_br\<lparr>br_limits := (\<lambda>mt. if mt = HOST then 100 else 0)\<rparr>"

definition ring_report :: "nat list \<Rightarrow> nat list \<Rightarrow> nat list \<Rightarrow> ring_comm" where
  "ring_report received sent dn = \<lparr>rg_received = received, rg_sent = sent,
     rg_buffer_received = (\<lambda>_. example_buffer HOST [1, 2, 3]), rg_buffer_sent = (\<lambda>_. example_buffer HOST [1, 2, 3]), rg_done = dn\<rparr>"

definition example_ring_run :: "ring_event list" where
  "example_ring_run = [Inserts 0 9 example_packed, Finishes 0, Finishes 1, Iterates 0 7 (ring_report [] [0] [0, 1]), Delivers 1, Delivers 1]"

lemmas ring_evals = ring_report_def at_node_def deliver_def new_ring_def new_allgather_def br.extend_def ring_src_def ring_dst_def

lemmas chunk_evals = coll_from_packed_data_def new_data_chunk_def insert_ag_chunk_def memory_type_def pb_insert_def
  allgather_insert_finished_def from_empty_def new_finish_chunk_def chunk_id_def ID_BITS_def INVALID_RANK_def coll_is_ready_def
  is_latest_write_done_def throw_if_locked_def is_finish_def mark_finish_def sequence_def origin_def coll_release_data_buffer_def
  coll_serialize_def coll_message_of_def send_ready_def send_message_def

lemmas loop_evals = allgather_event_loop_def ring_exchange_def expects_messages_def complete_receives_def complete_sends_def
  test_some_def attach_data_buffer_def pb_insert_all_def nths_Cons accept_metadata_def coll_deserialize_def read_write_coll_message
  reserve_or_fail_def with_reservation_def make_buffer_def allocate_storage_def invalid_stream_def new_host_buffer_def
  new_device_buffer_def host_buffer_types_def device_buffer_types_def release_def add_allocated_def clear_def
  received_all_data_def ag_containers_empty_def pb_empty_def pb_size_def

lemma example_ring_run_done:
  "\<exists>R s. ring_run example_ring_run (new_ring 2 (\<lambda>_. False) (\<lambda>_. False) (\<lambda>_. host_br)) = (Inr (), R) \<and>
     allgather_event_loop 7 (ring_report [0] [] [0]) (rn_nodes R 1) = (Inr Done, s)"
  by (simp add: example_ring_run_def act_bind_def ring_evals chunk_evals loop_evals allgather_insert_def ensure_memory_type_def
      ADDRESSABLE_MEMORY_TYPES_def example_packed_def example_buffer_def reserve_evals host_br_def del: write_coll_message.simps)

lemma example_ring_hyps:
  "\<forall>e\<in>set example_ring_run. event_ok 2 e"
  "\<forall>i<2. finishes i example_ring_run \<le> 1 \<and> size (inserted i example_ring_run) < 2 ^ 32"
  "comm_ok (ring_report [0] [] [0])" "inserts_metadata example_ring_run"
  "\<forall>i<2. distinct (map fst (inserts i example_ring_run))"
  by (auto simp: example_ring_run_def ring_report_def comm_ok_def inserts_metadata_def example_packed_def less_2_cases_iff finishes_def)

theorem allgather_complete_witness:
  "\<exists>R s. ring_run example_ring_run (new_ring 2 (\<lambda>_. False) (\<lambda>_. False) (\<lambda>_. host_br)) = (Inr (), R) \<and>
     allgather_event_loop 7 (ring_report [0] [] [0]) (rn_nodes R 1) = (Inr Done, s) \<and>
     mset (map desc (ag_for_extraction s)) = {#(9, Some [4, 5], 3)#}"
proof -
  obtain R s where e: "ring_run example_ring_run (new_ring 2 (\<lambda>_. False) (\<lambda>_. False) (\<lambda>_. host_br)) = (Inr (), R)"
    "allgather_event_loop 7 (ring_report [0] [] [0]) (rn_nodes R 1) = (Inr Done, s)"
    using example_ring_run_done by blast
  have "{..<2::nat} = {0, 1}" by auto
  then have "(\<Sum>i<2. inserted i example_ring_run) = {#(9, Some [4, 5], 3)#}"
    by (simp add: example_ring_run_def chunk_id_def example_packed_def example_buffer_def)
  then show ?thesis
    using allgather_complete [OF _ _ example_ring_hyps(1,2) e(1) _ example_ring_hyps(3) e(2)] e by auto
qed

text \<open>Property C16: ordered extraction. When the event loop of a rank has reported that it is done, an ordered
  extraction succeeds without waiting and gives the metadata of all chunks, rank by rank, and for each rank by
  ascending sequence number. This is the order of insertion, which the documentation promises, when each rank
  inserts with ascending sequence numbers; otherwise the two differ. It is assumed that no rank reuses a sequence number, that
  all metadata is non-empty, and the bounds of \<open>allgather_complete\<close>.\<close>

theorem allgather_in_order:
  assumes "1 < n" and "n \<le> 2 ^ 26" and "\<forall>e\<in>set es. event_ok n e"
    and "\<forall>i<n. finishes i es \<le> 1 \<and> size (inserted i es) < 2 ^ 32"
    and "ring_run es (new_ring n stats callback brs) = (Inr (), R)"
    and "r < n" and "comm_ok rg" and "allgather_event_loop strm rg (rn_nodes R r) = (Inr Done, s)"
    and "inserts_metadata es" and "\<forall>i<n. distinct (map fst (inserts i es))"
  shows "\<exists>ps s'. wait_and_extract True timed_out s = Some (Inr ps, s') \<and>
    map pd_metadata ps = concat (map (\<lambda>i. map snd (sort_key (unat \<circ> fst) (inserts i es))) [0..<n]) \<and>
    ((\<forall>i<n. sorted (map (unat \<circ> fst) (inserts i es))) \<longrightarrow>
      map pd_metadata ps = concat (map (\<lambda>i. map snd (inserts i es)) [0..<n]))"
proof -
  have m: "map snd (in_rank_order n es) = concat (map (\<lambda>i. map snd (sort_key (unat \<circ> fst) (inserts i es))) [0..<n])"
    by (simp add: in_rank_order_def map_concat o_def split_beta)
  obtain ps s' where ps: "wait_and_extract True timed_out s = Some (Inr ps, s')" "map pd_metadata ps = map snd (in_rank_order n es)"
    using done_in_order [OF assms] by metis
  have "map pd_metadata ps = concat (map (\<lambda>i. map snd (inserts i es)) [0..<n])" if s: "\<forall>i<n. sorted (map (unat \<circ> fst) (inserts i es))"
  proof -
    have "sort_key (unat \<circ> fst) (inserts i es) = inserts i es" if "i < n" for i using s that by (intro sort_key_id_if_sorted) blast
    then show ?thesis unfolding ps(2) m by (intro arg_cong [of _ _ concat] map_cong) auto
  qed
  then show ?thesis using ps m by metis
qed

theorem allgather_in_order_witness:
  "\<exists>R s ps s'. ring_run example_ring_run (new_ring 2 (\<lambda>_. False) (\<lambda>_. False) (\<lambda>_. host_br)) = (Inr (), R) \<and>
     allgather_event_loop 7 (ring_report [0] [] [0]) (rn_nodes R 1) = (Inr Done, s) \<and>
     wait_and_extract True False s = Some (Inr ps, s') \<and> map pd_metadata ps = [[4, 5]]"
proof -
  obtain R s where e: "ring_run example_ring_run (new_ring 2 (\<lambda>_. False) (\<lambda>_. False) (\<lambda>_. host_br)) = (Inr (), R)"
    "allgather_event_loop 7 (ring_report [0] [] [0]) (rn_nodes R 1) = (Inr Done, s)"
    using example_ring_run_done by blast
  have "[0..<2] = [0, 1]" by (simp add: upt_rec)
  then have "concat (map (\<lambda>i. map snd (sort_key (unat \<circ> fst) (inserts i example_ring_run))) [0..<2]) = [[4, 5]]"
    by (simp add: example_ring_run_def example_packed_def)
  then show ?thesis
    using allgather_in_order [OF _ _ example_ring_hyps(1,2) e(1) _ example_ring_hyps(3) e(2) example_ring_hyps(4,5), of False] e by auto
qed

end
