(* ===== verification/Reserve_Or_Wait.thy ===== *)
theory Reserve_Or_Wait
  imports Spill_Manager
begin

text \<open>
  Reservations that wait for memory: \<^verbatim>\<open>streaming/core/memory_reserve_or_wait.cpp\<close>. A request that does not fit
  joins a set ordered by size and age; a periodic task admits requests as memory becomes available, and
  when nothing was admitted for the timeout it forces the smallest one through with an empty reservation.
  A coroutine runs between two suspension points as one step, so requests, other users of the buffer
  resource and a shutdown may come in wherever the task yields. What a step reads from the clock, the spill
  manager and the availability of memory, which other threads change at any time, is the input of the step.
  Times are integers; the statistics are left out.
\<close>

section \<open>State\<close>

record request =
  rq_size :: nat
  rq_delta :: int
  rq_seq :: nat
  rq_submitted :: int

text \<open>The locals of the periodic task for one wait window.\<close>

record window =
  wn_last :: int
  wn_extended :: "int option"
  wn_recheck :: bool
  wn_stalled :: bool
  wn_generation :: nat
  wn_available :: int

definition new_window :: "int \<Rightarrow> window" where
  "new_window now = \<lparr>wn_last = now, wn_extended = None, wn_recheck = False, wn_stalled = False, wn_generation = 0, wn_available = 0\<rparr>"

text \<open>Where the periodic task is; \<open>periodic_task_running_\<close> is true unless it is \<open>Idle\<close>.\<close>

datatype check_task = Idle | New_Window | Checking window | Yielded window

text \<open>
  \<open>mw_answers\<close> logs what is pushed into the queue of each request: a reservation, or nothing when the queue is shut
  down. Sequence numbers do not wrap: that takes \<open>2 ^ 64\<close> requests.
\<close>

record reserve_or_wait = br +
  mw_mem :: mem_type
  mw_timeout :: int
  mw_next_seq :: nat
  mw_requests :: "request list"
  mw_task :: check_task
  mw_checks :: nat
  mw_answers :: "(request \<times> reservation option) list"

definition SPILL_WAIT_CAP_FACTOR :: int where "SPILL_WAIT_CAP_FACTOR = 10"

definition new_reserve_or_wait :: "mem_type \<Rightarrow> int \<Rightarrow> br \<Rightarrow> reserve_or_wait" where
  "new_reserve_or_wait mt timeout b =
     br.extend b \<lparr>mw_mem = mt, mw_timeout = timeout, mw_next_seq = 0, mw_requests = [], mw_task = Idle, mw_checks = 0,
       mw_answers = []\<rparr>"

section \<open>Requests\<close>

text \<open>The set is ordered by size, then by sequence number.\<close>

definition before :: "request \<Rightarrow> request \<Rightarrow> bool" where
  "before a b \<longleftrightarrow> rq_size a < rq_size b \<or> (rq_size a = rq_size b \<and> rq_seq a < rq_seq b)"

fun insert_request :: "request \<Rightarrow> request list \<Rightarrow> request list" where
  "insert_request r [] = [r]"
| "insert_request r (x # xs) = (if before r x then r # x # xs else x # insert_request r xs)"

text \<open>\<open>reserve_or_wait\<close> up to its suspension: the reservation, or \<open>None\<close> when the request waits.\<close>

definition submit_request :: "nat \<Rightarrow> int \<Rightarrow> int \<Rightarrow> ('w reserve_or_wait_scheme, reservation option) act" where
  "submit_request n net_memory_delta now =
     act_bind (\<lambda>s. reserve (mw_mem s) n Overbooking_NO s) (\<lambda>(res, _) s.
       if res_size res = n then (Inr (Some res), s)
       else (Inr None,
         s\<lparr>mw_requests := insert_request \<lparr>rq_size = n, rq_delta = net_memory_delta, rq_seq = mw_next_seq s, rq_submitted = now\<rparr>
             (mw_requests s),
           mw_next_seq := mw_next_seq s + 1,
           mw_task := (if mw_task s = Idle then New_Window else mw_task s)\<rparr>))"

text \<open>What the waiting coroutine returns when its queue gives it an answer.\<close>

definition resume_request :: "reservation option \<Rightarrow> reservation result" where
  "resume_request answer = (case answer of None \<Rightarrow> Inl Runtime_Error | Some res \<Rightarrow> Inr res)"

definition or_overbook :: "nat \<Rightarrow> reservation \<Rightarrow> ('w reserve_or_wait_scheme, reservation \<times> nat) act" where
  "or_overbook n ret s =
     (if res_size ret < n then reserve (mw_mem s) n Overbooking_YES s else (Inr (ret, 0), s))"

definition or_fail :: "nat \<Rightarrow> reservation \<Rightarrow> reservation result" where
  "or_fail n ret = res_bind (expects (res_size ret = n) Reservation_Error) (\<lambda>_. Inr ret)"

text \<open>\<open>reserve_memory\<close>, once the waiting part has answered; \<open>allow_default\<close> is the option \<^verbatim>\<open>allow_overbooking_by_default\<close>.\<close>

definition reserve_memory :: "allow_overbooking option \<Rightarrow> bool \<Rightarrow> nat \<Rightarrow> reservation \<Rightarrow> ('w reserve_or_wait_scheme, reservation) act" where
  "reserve_memory allow allow_default n ret =
     (if (case allow of None \<Rightarrow> allow_default | Some a \<Rightarrow> a = Overbooking_YES)
      then act_bind (or_overbook n ret) (\<lambda>(res, _). act_return res)
      else (\<lambda>s. (or_fail n ret, s)))"

definition mrw_size :: "'w reserve_or_wait_scheme \<Rightarrow> nat" where
  "mrw_size s = length (mw_requests s)"

text \<open>Shutting down the queue of a request resumes its waiter with nothing.\<close>

definition mrw_shutdown :: "'w reserve_or_wait_scheme \<Rightarrow> 'w reserve_or_wait_scheme" where
  "mrw_shutdown s =
     s\<lparr>mw_requests := [], mw_answers := mw_answers s @ map (\<lambda>r. (r, None)) (mw_requests s)\<rparr>"

section \<open>The periodic task\<close>

text \<open>
  Inputs of a step: the clock when the step begins and when an admission ends, the spill manager's generation and
  whether it is spilling, and the memory available for reservation when progress is judged and when
  requests are considered.
\<close>

record check_input =
  ci_now :: int
  ci_done :: int
  ci_generation :: nat
  ci_spilling :: bool
  ci_judged :: int
  ci_available :: int

text \<open>A spill completed: check that it freed memory.\<close>

definition judge_progress :: "check_input \<Rightarrow> window \<Rightarrow> window" where
  "judge_progress ci w =
     (if wn_extended w \<noteq> None \<and> \<not> wn_stalled w \<and> ci_generation ci \<noteq> wn_generation w
      then w\<lparr>wn_stalled := ci_judged ci \<le> wn_available w, wn_generation := ci_generation ci, wn_available := ci_judged ci\<rparr>
      else w)"

definition keep_waiting :: "mem_type \<Rightarrow> int \<Rightarrow> check_input \<Rightarrow> window \<Rightarrow> bool" where
  "keep_waiting mt timeout ci w \<longleftrightarrow>
     mt = DEVICE \<and> \<not> wn_stalled w \<and> ci_now ci - wn_last w \<le> (1 + SPILL_WAIT_CAP_FACTOR) * timeout \<and> ci_spilling ci"

text \<open>The timeout: \<open>None\<close> when the wait is over.\<close>

definition timeout_step :: "mem_type \<Rightarrow> int \<Rightarrow> check_input \<Rightarrow> window \<Rightarrow> window option" where
  "timeout_step mt timeout ci w =
     (if \<not> ci_now ci - wn_last w > timeout then Some w
      else let w1 = judge_progress ci w in
        if keep_waiting mt timeout ci w1 then
          Some ((if wn_extended w1 = None
                 then w1\<lparr>wn_extended := Some (ci_now ci), wn_generation := ci_generation ci, wn_available := ci_judged ci\<rparr>
                 else w1)\<lparr>wn_recheck := True\<rparr>)
        else if wn_recheck w1 then Some (w1\<lparr>wn_recheck := False\<rparr>)
        else None)"

text \<open>The requests up to a size are a prefix; \<^verbatim>\<open>std::ranges::min_element\<close> gives the first of the minimal ones.\<close>

definition eligible_requests :: "nat \<Rightarrow> request list \<Rightarrow> request list" where
  "eligible_requests max_size rs = takeWhile (\<lambda>r. rq_size r \<le> max_size) rs"

fun min_delta :: "request \<Rightarrow> request list \<Rightarrow> request" where
  "min_delta best [] = best"
| "min_delta best (r # rs) = min_delta (if rq_delta r < rq_delta best then r else best) rs"

definition admitted :: "check_input \<Rightarrow> window \<Rightarrow> window" where
  "admitted ci w = w\<lparr>wn_last := ci_done ci, wn_stalled := False, wn_recheck := False, wn_extended := None\<rparr>"

text \<open>The admission pass. An exception ends the task, whose guard clears the running flag.\<close>

definition try_admit :: "check_input \<Rightarrow> window \<Rightarrow> ('w reserve_or_wait_scheme, unit) act" where
  "try_admit ci w s =
     (case eligible_requests (nat (max (ci_available ci) 0)) (mw_requests s) of
        [] \<Rightarrow> (Inr (), s\<lparr>mw_task := Checking w\<rparr>)
      | r # rs \<Rightarrow>
          (let rq = min_delta r rs in
           case reserve (mw_mem s) (rq_size rq) Overbooking_NO s of
             (Inl e, s1) \<Rightarrow> (Inl e, s1\<lparr>mw_task := Idle\<rparr>)
           | (Inr (res, _), s1) \<Rightarrow>
               if res_size res = 0 then (Inr (), s1\<lparr>mw_task := Checking w\<rparr>)
               else (Inr (), s1\<lparr>mw_requests := remove1 rq (mw_requests s), mw_task := Checking (admitted ci w),
                                mw_answers := mw_answers s @ [(rq, Some res)]\<rparr>)))"

text \<open>The timeout forces a smallest request, the one with the smallest delta, the oldest among equals.\<close>

definition force_progress :: "('w reserve_or_wait_scheme, unit) act" where
  "force_progress s =
     (case mw_requests s of
        [] \<Rightarrow> (Inr (), s\<lparr>mw_task := Idle\<rparr>)
      | r # rs \<Rightarrow>
          (let rq = min_delta r (takeWhile (\<lambda>x. rq_size x \<le> rq_size r) rs);
               s1 = s\<lparr>mw_requests := remove1 rq (mw_requests s)\<rparr> in
           case reserve (mw_mem s1) (rq_size rq) Overbooking_NO s1 of
             (Inl e, s2) \<Rightarrow> (Inl e, s2\<lparr>mw_task := Idle\<rparr>)
           | (Inr (res, _), s2) \<Rightarrow>
               (Inr (), s2\<lparr>mw_task := New_Window, mw_answers := mw_answers s2 @ [(rq, Some res)]\<rparr>)))"

definition resume_check :: "check_input \<Rightarrow> window \<Rightarrow> ('w reserve_or_wait_scheme, unit) act" where
  "resume_check ci w s =
     (case timeout_step (mw_mem s) (mw_timeout s) ci w of
        None \<Rightarrow> force_progress s
      | Some w1 \<Rightarrow> try_admit ci w1 s)"

text \<open>One step of \<open>periodic_memory_check\<close>; it yields between counting a pass and doing it.\<close>

definition check_step :: "check_input \<Rightarrow> ('w reserve_or_wait_scheme, unit) act" where
  "check_step ci s =
     (case mw_task s of
        Idle \<Rightarrow> (Inr (), s)
      | New_Window \<Rightarrow> (Inr (), s\<lparr>mw_task := Checking (new_window (ci_now ci))\<rparr>)
      | Checking w \<Rightarrow>
          (if mw_requests s = [] then (Inr (), s\<lparr>mw_task := Idle\<rparr>)
           else (Inr (), s\<lparr>mw_checks := mw_checks s + 1, mw_task := Yielded w\<rparr>))
      | Yielded w \<Rightarrow> resume_check ci w s)"

section \<open>The invariant\<close>

lemma before_trans: "before a b \<Longrightarrow> before b c \<Longrightarrow> before a c"
  by (auto simp: before_def)

lemma before_total: "rq_seq a \<noteq> rq_seq b \<Longrightarrow> before a b \<or> before b a"
  by (auto simp: before_def)

text \<open>\<open>rs\<close> are pending, \<open>ans\<close> are answered: together, all requests so far.\<close>

definition requests_ok :: "request list \<Rightarrow> request list \<Rightarrow> nat \<Rightarrow> bool" where
  "requests_ok rs ans n \<longleftrightarrow>
     sorted_wrt before rs \<and> (\<forall>r\<in>set rs. rq_size r > 0) \<and> (\<forall>r\<in>set rs \<union> set ans. rq_seq r < n) \<and>
     distinct (map rq_seq rs) \<and> distinct (map rq_seq ans) \<and> rq_seq ` set rs \<inter> rq_seq ` set ans = {}"

definition mw_ok :: "'w reserve_or_wait_scheme \<Rightarrow> bool" where
  "mw_ok s \<longleftrightarrow> requests_ok (mw_requests s) (map fst (mw_answers s)) (mw_next_seq s) \<and>
     (mw_requests s \<noteq> [] \<longrightarrow> mw_task s \<noteq> Idle)"

lemma set_insert_request [simp]: "set (insert_request r rs) = insert r (set rs)"
  by (induction rs) auto

lemma mset_insert_request [simp]: "mset (insert_request r rs) = add_mset r (mset rs)"
  by (induction rs) auto

lemma sorted_insert_request:
  "sorted_wrt before rs \<Longrightarrow> rq_seq r \<notin> rq_seq ` set rs \<Longrightarrow> sorted_wrt before (insert_request r rs)"
  by (induction rs) (auto dest: before_trans before_total)

lemma requests_ok_new:
  assumes "requests_ok rs ans n" and "rq_seq r = n" and "rq_size r > 0"
  shows "requests_ok (insert_request r rs) ans (Suc n)"
proof -
  have new: "n \<notin> rq_seq ` set rs" "n \<notin> rq_seq ` set ans" using assms(1) by (auto simp: requests_ok_def)
  then have "sorted_wrt before (insert_request r rs)" using assms by (intro sorted_insert_request) (auto simp: requests_ok_def)
  moreover have "mset (map rq_seq (insert_request r rs)) = mset (map rq_seq (r # rs))" by simp
  then have "distinct (map rq_seq (insert_request r rs)) = distinct (map rq_seq (r # rs))" by (rule mset_eq_imp_distinct_iff)
  ultimately show ?thesis using assms new by (auto simp: requests_ok_def less_Suc_eq)
qed

lemma sorted_wrt_remove1: "sorted_wrt P xs \<Longrightarrow> sorted_wrt P (remove1 x xs)"
  by (induction xs) (auto dest: subsetD [OF set_remove1_subset])

lemma requests_ok_answer:
  assumes "requests_ok rs ans n" and "r \<in> set rs"
  shows "requests_ok (remove1 r rs) (ans @ [r]) n"
proof -
  have d: "distinct rs" using assms(1) by (auto simp: requests_ok_def distinct_map)
  have "inj_on rq_seq (set rs)" using assms(1) by (auto simp: requests_ok_def distinct_map)
  then have "distinct (map rq_seq (remove1 r rs))" "rq_seq r \<notin> rq_seq ` set (remove1 r rs)"
    using d assms(2) by (auto simp: distinct_map inj_on_def distinct_remove1)
  then show ?thesis using assms d by (auto simp: requests_ok_def sorted_wrt_remove1)
qed

lemma requests_ok_shutdown: "requests_ok rs ans n \<Longrightarrow> requests_ok [] (ans @ rs) n"
  by (auto simp: requests_ok_def)

lemma min_delta_first:
  "sorted_wrt before (b # rs) \<Longrightarrow> min_delta b rs \<in> set (b # rs) \<and>
     (\<forall>x\<in>set (b # rs). rq_delta (min_delta b rs) < rq_delta x \<or>
        rq_delta (min_delta b rs) = rq_delta x \<and> (x = min_delta b rs \<or> before (min_delta b rs) x))"
proof (induction rs arbitrary: b)
  case Nil
  then show ?case by simp
next
  case (Cons r rs)
  let ?b = "if rq_delta r < rq_delta b then r else b"
  have "sorted_wrt before (?b # rs)" using Cons.prems by auto
  note IH = Cons.IH [OF this]
  have br: "before b r" using Cons.prems by simp
  have m: "min_delta b (r # rs) = min_delta ?b rs" by simp
  define k where "k = min_delta ?b rs"
  have k: "k \<in> set (?b # rs)" and le: "\<And>x. x \<in> set (?b # rs) \<Longrightarrow> rq_delta k < rq_delta x \<or> rq_delta k = rq_delta x \<and> (x = k \<or> before k x)"
    using IH unfolding k_def by blast+
  have "rq_delta k < rq_delta x \<or> rq_delta k = rq_delta x \<and> (x = k \<or> before k x)" if "x \<in> set (b # r # rs)" for x
  proof (cases "x \<in> set (?b # rs)")
    case True
    then show ?thesis by (rule le)
  next
    case False
    show ?thesis
    proof (cases "rq_delta r < rq_delta b")
      case True
      then have "x = b" using that False by auto
      then show ?thesis using le [of r] True by auto
    next
      case f: False
      then have "x = r" using that False by auto
      then show ?thesis using le [of b] f br before_trans [OF _ br, of k] by auto
    qed
  qed
  moreover have "k \<in> set (b # r # rs)" using k by (auto split: if_splits)
  ultimately show ?case unfolding m k_def [symmetric] by blast
qed

lemma reserve_NO:
  fixes b b' :: "'w br_scheme"
  assumes "reserve mt n Overbooking_NO b = (Inr (res, ob), b')"
  shows "br.more b' = br.more b" and "res_size res = n \<or> res_size res = 0"
    and "b' = b\<lparr>br_reserved := (br_reserved b)(mt := br_reserved b mt + res_size res)\<rparr>"
    and "res_size res > 0 \<Longrightarrow> memory_available mt b = Inr a \<Longrightarrow> int (br_reserved b' mt) \<le> a"
  using assms reserve_more [of mt n Overbooking_NO b]
  by (auto simp: reserve_def headroom_after_def overbooking_of_def res_bind_eq_Inr to_int64_eq_Inr to_size_eq_Inr chk64_eq_Inr
      split: if_splits sum.splits)

lemma mw_frame:
  fixes s t :: "'w reserve_or_wait_scheme"
  assumes "br.more s = br.more t"
  shows "mw_mem s = mw_mem t" "mw_timeout s = mw_timeout t" "mw_next_seq s = mw_next_seq t" "mw_requests s = mw_requests t"
    "mw_task s = mw_task t" "mw_checks s = mw_checks t" "mw_answers s = mw_answers t"
  using assms by (cases s; cases t; simp)+

lemma mw_ok_frame: "br.more s = br.more t \<Longrightarrow> mw_ok s = mw_ok (t :: 'w reserve_or_wait_scheme)"
  using mw_frame [of s t] by (simp add: mw_ok_def)

section \<open>What a step of the task does\<close>

lemma prefix_takeWhile_sorted:
  assumes "sorted_wrt before rs" and "x \<in> set rs" and "rq_size x \<le> n"
  shows "x \<in> set (takeWhile (\<lambda>r. rq_size r \<le> n) rs)"
  using assms by (induction rs) (fastforce simp: before_def)+

lemma sorted_takeWhile: "sorted_wrt before rs \<Longrightarrow> sorted_wrt before (takeWhile P rs)"
  by (induction rs) (auto dest: set_takeWhileD)

text \<open>The choice of an admission, and of the timeout.\<close>

definition preferred :: "request \<Rightarrow> request list \<Rightarrow> bool" where
  "preferred rq rs \<longleftrightarrow> rq \<in> set rs \<and>
     (\<forall>x\<in>set rs. rq_delta rq < rq_delta x \<or> rq_delta rq = rq_delta x \<and> (x = rq \<or> before rq x))"

lemma eligible_preferred:
  assumes "sorted_wrt before rs" and "eligible_requests n rs = r # xs"
  shows "preferred (min_delta r xs) (filter (\<lambda>x. rq_size x \<le> n) rs)"
proof -
  have s: "sorted_wrt before (r # xs)" using sorted_takeWhile [OF assms(1)] assms(2) by (metis eligible_requests_def)
  have e: "set (r # xs) = {x \<in> set rs. rq_size x \<le> n}"
    using prefix_takeWhile_sorted [OF assms(1)] assms(2) [symmetric] by (auto simp: eligible_requests_def dest: set_takeWhileD)
  show ?thesis using min_delta_first [OF s] unfolding preferred_def e by simp
qed

lemma smallest_preferred:
  assumes "sorted_wrt before (r # rs)"
  shows "preferred (min_delta r (takeWhile (\<lambda>x. rq_size x \<le> rq_size r) rs)) (filter (\<lambda>x. rq_size x = rq_size r) (r # rs))"
    and "\<forall>x\<in>set (r # rs). rq_size r \<le> rq_size x"
proof -
  show small: "\<forall>x\<in>set (r # rs). rq_size r \<le> rq_size x" using assms by (auto simp: before_def)
  have "eligible_requests (rq_size r) (r # rs) = r # takeWhile (\<lambda>x. rq_size x \<le> rq_size r) rs" by (simp add: eligible_requests_def)
  from eligible_preferred [OF assms this] have
    "preferred (min_delta r (takeWhile (\<lambda>x. rq_size x \<le> rq_size r) rs)) (filter (\<lambda>x. rq_size x \<le> rq_size r) (r # rs))" .
  moreover have "filter (\<lambda>x. rq_size x \<le> rq_size r) (r # rs) = filter (\<lambda>x. rq_size x = rq_size r) (r # rs)"
    using small by (intro filter_cong) auto
  ultimately show "preferred (min_delta r (takeWhile (\<lambda>x. rq_size x \<le> rq_size r) rs)) (filter (\<lambda>x. rq_size x = rq_size r) (r # rs))" by simp
qed

text \<open>\<open>answers s s' rq res\<close>: a step answered this request with this reservation, and did nothing else to the requests.\<close>

definition answers_one :: "'w reserve_or_wait_scheme \<Rightarrow> 'w reserve_or_wait_scheme \<Rightarrow> request \<Rightarrow> reservation \<Rightarrow> bool" where
  "answers_one s s' rq res \<longleftrightarrow> rq \<in> set (mw_requests s) \<and> mw_requests s' = remove1 rq (mw_requests s) \<and>
     mw_answers s' = mw_answers s @ [(rq, Some res)] \<and> mw_next_seq s' = mw_next_seq s \<and>
     br_reserved s' = (br_reserved s)(mw_mem s := br_reserved s (mw_mem s) + res_size res) \<and> mw_task s' \<noteq> Idle \<and>
     (\<forall>a. res_size res > 0 \<longrightarrow> memory_available (mw_mem s) s = Inr a \<longrightarrow> int (br_reserved s' (mw_mem s)) \<le> a)"

lemma try_admit_cases:
  fixes s s' :: "'w reserve_or_wait_scheme"
  assumes "try_admit ci w s = (Inr (), s')" and "mw_ok s"
  obtains (none) "s' = s\<lparr>mw_task := Checking w\<rparr>"
  | (one) rq res where "answers_one s s' rq res" and "res_size res = rq_size rq" and "mw_task s' = Checking (admitted ci w)"
      and "preferred rq (filter (\<lambda>x. rq_size x \<le> nat (max (ci_available ci) 0)) (mw_requests s))"
proof (cases "eligible_requests (nat (max (ci_available ci) 0)) (mw_requests s)")
  case Nil
  then show thesis using assms(1) none by (simp add: try_admit_def)
next
  case (Cons r xs)
  let ?rq = "min_delta r xs"
  have p: "preferred ?rq (filter (\<lambda>x. rq_size x \<le> nat (max (ci_available ci) 0)) (mw_requests s))"
    using eligible_preferred [OF _ Cons] assms(2) by (simp add: mw_ok_def requests_ok_def)
  obtain res ob s1 where r: "reserve (mw_mem s) (rq_size ?rq) Overbooking_NO s = (Inr (res, ob), s1)"
    using assms(1) Cons by (auto simp: try_admit_def Let_def split: prod.splits sum.splits)
  note R = reserve_NO [OF r]
  show thesis
  proof (cases "res_size res = 0")
    case True
    then have "s1 = s" using R(3) by simp
    then show thesis using none assms(1) True by (simp add: try_admit_def Cons Let_def r)
  next
    case False
    then have s': "s' = s1\<lparr>mw_requests := remove1 ?rq (mw_requests s), mw_task := Checking (admitted ci w),
        mw_answers := mw_answers s @ [(?rq, Some res)]\<rparr>" using assms(1) by (simp add: try_admit_def Cons Let_def r)
    have "?rq \<in> set (mw_requests s)" using p by (simp add: preferred_def)
    moreover have "memory_available (mw_mem s) s = Inr a \<Longrightarrow> int (br_reserved s1 (mw_mem s)) \<le> a" for a using R(4) False by simp
    moreover have "mw_next_seq s1 = mw_next_seq s" using R(1) by (rule mw_frame)
    moreover have "br_reserved s1 = (br_reserved s)(mw_mem s := br_reserved s (mw_mem s) + res_size res)" by (subst R(3)) simp
    ultimately have "answers_one s s' ?rq res" unfolding answers_one_def s' by simp
    then show thesis using one [OF _ _ _ p] R(2) False s' by simp
  qed
qed

lemma force_progress_cases:
  fixes s s' :: "'w reserve_or_wait_scheme"
  assumes "force_progress s = (Inr (), s')" and "mw_ok s" and "mw_requests s \<noteq> []"
  obtains rq res where "answers_one s s' rq res" and "res_size res = rq_size rq \<or> res_size res = 0" and "mw_task s' = New_Window"
      and "preferred rq (filter (\<lambda>x. rq_size x = rq_size rq) (mw_requests s))" and "\<forall>x\<in>set (mw_requests s). rq_size rq \<le> rq_size x"
proof -
  obtain r rs where rs: "mw_requests s = r # rs" using assms(3) by (cases "mw_requests s") auto
  define rq where "rq = min_delta r (takeWhile (\<lambda>x. rq_size x \<le> rq_size r) rs)"
  have so: "sorted_wrt before (r # rs)" using assms(2) by (simp add: mw_ok_def requests_ok_def rs)
  note S = smallest_preferred [OF so, folded rq_def]
  have sz: "rq_size rq = rq_size r" "rq \<in> set (mw_requests s)" using S(1) by (auto simp: preferred_def rs)
  let ?s1 = "s\<lparr>mw_requests := remove1 rq (mw_requests s)\<rparr>"
  have e: "force_progress s = (case reserve (mw_mem ?s1) (rq_size rq) Overbooking_NO ?s1 of
      (Inl e, s2) \<Rightarrow> (Inl e, s2\<lparr>mw_task := Idle\<rparr>)
    | (Inr (res, _), s2) \<Rightarrow> (Inr (), s2\<lparr>mw_task := New_Window, mw_answers := mw_answers s2 @ [(rq, Some res)]\<rparr>))"
    unfolding force_progress_def rs list.case Let_def rq_def [symmetric] ..
  obtain res ob s2 where r: "reserve (mw_mem ?s1) (rq_size rq) Overbooking_NO ?s1 = (Inr (res, ob), s2)"
    using assms(1) unfolding e by (auto split: prod.splits sum.splits)
  note R = reserve_NO [OF r]
  have s': "s' = s2\<lparr>mw_task := New_Window, mw_answers := mw_answers s2 @ [(rq, Some res)]\<rparr>"
    using assms(1) unfolding e r by simp
  have av: "memory_available (mw_mem s) ?s1 = memory_available (mw_mem s) s" by (simp add: memory_available_def Let_def split: mem_type.splits)
  have fr: "mw_next_seq s2 = mw_next_seq s" "mw_requests s2 = remove1 rq (mw_requests s)" "mw_answers s2 = mw_answers s"
    using mw_frame [OF R(1)] by simp_all
  have "br_reserved s2 = (br_reserved s)(mw_mem s := br_reserved s (mw_mem s) + res_size res)" by (subst R(3)) simp
  moreover have "memory_available (mw_mem s) s = Inr a \<Longrightarrow> res_size res > 0 \<Longrightarrow> int (br_reserved s2 (mw_mem s)) \<le> a" for a
    using R(4) [unfolded reserve_or_wait.simps] av by simp
  ultimately have "answers_one s s' rq res" unfolding answers_one_def s' using sz(2) fr by simp
  then show thesis using that [of rq res] R(2) S sz s' unfolding rs by simp
qed


text \<open>What a step of the task can do.\<close>

lemma check_step_cases:
  fixes s s' :: "'w reserve_or_wait_scheme"
  assumes "check_step ci s = (Inr (), s')" and "mw_ok s"
  obtains (idle) "mw_task s = Idle" "s' = s"
  | (start) "mw_task s = New_Window" "s' = s\<lparr>mw_task := Checking (new_window (ci_now ci))\<rparr>"
  | (exit) w where "mw_task s = Checking w" "mw_requests s = []" "s' = s\<lparr>mw_task := Idle\<rparr>"
  | (count) w where "mw_task s = Checking w" "mw_requests s \<noteq> []" "s' = s\<lparr>mw_checks := mw_checks s + 1, mw_task := Yielded w\<rparr>"
  | (wait) w w1 where "mw_task s = Yielded w" "timeout_step (mw_mem s) (mw_timeout s) ci w = Some w1" "s' = s\<lparr>mw_task := Checking w1\<rparr>"
  | (admit) w w1 rq res where "mw_task s = Yielded w" "timeout_step (mw_mem s) (mw_timeout s) ci w = Some w1"
      "answers_one s s' rq res" "res_size res = rq_size rq" "mw_task s' = Checking (admitted ci w1)"
      "preferred rq (filter (\<lambda>x. rq_size x \<le> nat (max (ci_available ci) 0)) (mw_requests s))"
  | (force) w rq res where "mw_task s = Yielded w" "timeout_step (mw_mem s) (mw_timeout s) ci w = None"
      "answers_one s s' rq res" "res_size res = rq_size rq \<or> res_size res = 0" "mw_task s' = New_Window"
      "preferred rq (filter (\<lambda>x. rq_size x = rq_size rq) (mw_requests s))" "\<forall>x\<in>set (mw_requests s). rq_size rq \<le> rq_size x"
  | (shut) w where "mw_task s = Yielded w" "timeout_step (mw_mem s) (mw_timeout s) ci w = None" "mw_requests s = []" "s' = s\<lparr>mw_task := Idle\<rparr>"
proof (cases "mw_task s")
  case Idle
  then have "s' = s" using assms(1) by (simp add: check_step_def)
  then show thesis by (rule idle [OF Idle])
next
  case New_Window
  then have "s' = s\<lparr>mw_task := Checking (new_window (ci_now ci))\<rparr>" using assms(1) by (simp add: check_step_def)
  then show thesis by (rule start [OF New_Window])
next
  case (Checking w)
  show thesis
  proof (cases "mw_requests s = []")
    case True
    then have "s' = s\<lparr>mw_task := Idle\<rparr>" using assms(1) Checking by (simp add: check_step_def)
    then show thesis by (rule exit [OF Checking True])
  next
    case False
    then have "s' = s\<lparr>mw_checks := mw_checks s + 1, mw_task := Yielded w\<rparr>" using assms(1) Checking by (simp add: check_step_def)
    then show thesis by (rule count [OF Checking False])
  qed
next
  case (Yielded w)
  show thesis
  proof (cases "timeout_step (mw_mem s) (mw_timeout s) ci w")
    case None
    then have f: "force_progress s = (Inr (), s')" using assms(1) Yielded by (simp add: check_step_def resume_check_def)
    show thesis
    proof (cases "mw_requests s = []")
      case True
      then have "s' = s\<lparr>mw_task := Idle\<rparr>" using f by (simp add: force_progress_def)
      then show thesis by (rule shut [OF Yielded None True])
    next
      case False
      from force_progress_cases [OF f assms(2) False] show thesis using force [OF Yielded None] by metis
    qed
  next
    case (Some w1)
    then have f: "try_admit ci w1 s = (Inr (), s')" using assms(1) Yielded by (simp add: check_step_def resume_check_def)
    from try_admit_cases [OF f assms(2)] show thesis using wait [OF Yielded Some] admit [OF Yielded Some] by metis
  qed
qed

lemma answers_one_ok: "answers_one s s' rq res \<Longrightarrow> mw_ok s \<Longrightarrow> mw_ok s'"
  using requests_ok_answer by (auto simp: answers_one_def mw_ok_def)

lemma check_step_ok:
  fixes s s' :: "'w reserve_or_wait_scheme"
  assumes "check_step ci s = (Inr (), s')" and "mw_ok s"
  shows "mw_ok s'"
  using assms
proof (cases rule: check_step_cases)
  case (admit w w1 rq res)
  then show ?thesis using answers_one_ok assms(2) by blast
next
  case (force w rq res)
  then show ?thesis using answers_one_ok assms(2) by blast
qed (use assms(2) in \<open>auto simp: mw_ok_def\<close>)

section \<open>Runs\<close>

text \<open>\<open>Others\<close> is anything other users do to the buffer resource.\<close>

datatype mw_event = Checks check_input | Others "br \<Rightarrow> br" | Submits nat int int | Shuts_Down

fun mw_exec :: "mw_event \<Rightarrow> (reserve_or_wait, unit) act" where
  "mw_exec (Checks ci) s = check_step ci s"
| "mw_exec (Others f) s = (Inr (), br.extend (f (br.truncate s)) (br.more s))"
| "mw_exec (Submits n d now) s = act_bind (submit_request n d now) (\<lambda>_. act_return ()) s"
| "mw_exec Shuts_Down s = (Inr (), mrw_shutdown s)"

text \<open>The first \<open>k\<close> events of a sequence.\<close>

primrec mw_run :: "(nat \<Rightarrow> mw_event) \<Rightarrow> nat \<Rightarrow> (reserve_or_wait, unit) act" where
  "mw_run ev 0 s = (Inr (), s)"
| "mw_run ev (Suc k) s = act_bind (mw_run ev k) (\<lambda>_. mw_exec (ev k)) s"

lemma submit_request_ok:
  fixes s s' :: "'w reserve_or_wait_scheme"
  assumes "submit_request n d now s = (Inr r, s')" and "mw_ok s"
  shows "mw_ok s'"
proof -
  obtain res ob s1 where re: "reserve (mw_mem s) n Overbooking_NO s = (Inr (res, ob), s1)"
    using assms(1) by (auto simp: submit_request_def act_bind_cases)
  note R = reserve_NO [OF re]
  have ok: "mw_ok s1" using assms(2) mw_ok_frame [OF R(1)] by simp
  show ?thesis
  proof (cases "res_size res = n")
    case True
    then show ?thesis using assms(1) ok by (auto simp: submit_request_def act_bind_def re)
  next
    case False
    let ?r = "\<lparr>rq_size = n, rq_delta = d, rq_seq = mw_next_seq s1, rq_submitted = now\<rparr>"
    have s': "s' = s1\<lparr>mw_requests := insert_request ?r (mw_requests s1), mw_next_seq := mw_next_seq s1 + 1,
        mw_task := (if mw_task s1 = Idle then New_Window else mw_task s1)\<rparr>"
      using assms(1) False by (simp add: submit_request_def act_bind_def re)
    have n: "n > 0" using R(2) False by simp
    have "requests_ok (insert_request ?r (mw_requests s1)) (map fst (mw_answers s1)) (Suc (mw_next_seq s1))"
      using ok n by (intro requests_ok_new) (simp_all add: mw_ok_def)
    then show ?thesis unfolding mw_ok_def s' by simp
  qed
qed

lemma mw_exec_ok:
  assumes "mw_exec e s = (Inr (), s')" and "mw_ok s"
  shows "mw_ok s'"
proof (cases e)
  case (Checks ci)
  then show ?thesis using assms check_step_ok by simp
next
  case (Others f)
  have "br.more (br.extend b (m :: 'w)) = m" for b m by (simp add: br.extend_def)
  then have "br.more s' = br.more s" using assms(1) Others by auto
  then show ?thesis using assms(2) mw_ok_frame by blast
next
  case (Submits n d now)
  then show ?thesis using assms submit_request_ok by (auto simp: act_bind_cases)
next
  case Shuts_Down
  then have s': "s' = s\<lparr>mw_requests := [], mw_answers := mw_answers s @ map (\<lambda>r. (r, None)) (mw_requests s)\<rparr>"
    using assms(1) by (simp add: mrw_shutdown_def)
  have "map fst (mw_answers s') = map fst (mw_answers s) @ mw_requests s" by (simp add: s' o_def)
  then show ?thesis using assms(2) requests_ok_shutdown unfolding mw_ok_def by (auto simp: s')
qed


section \<open>Progress\<close>

text \<open>
  An endless sequence of events in which no step throws and the task is resumed again and again, on a clock that goes
  on. Other users do anything to the buffer resource. \<open>undisturbed\<close>: no requests are made meanwhile; \<open>settles\<close>: there
  are new requests and shutdowns, but not for ever.
\<close>

definition resumed :: "(nat \<Rightarrow> mw_event) \<Rightarrow> (nat \<Rightarrow> reserve_or_wait) \<Rightarrow> bool" where
  "resumed ev st \<longleftrightarrow>
     (\<forall>k. mw_exec (ev k) (st k) = (Inr (), st (Suc k))) \<and>
     (\<forall>t. \<exists>k. \<forall>j\<ge>k. \<forall>ci. ev j = Checks ci \<longrightarrow> ci_now ci > t) \<and>
     (\<forall>k. \<exists>j\<ge>k. \<exists>ci. ev j = Checks ci)"

definition undisturbed :: "(nat \<Rightarrow> mw_event) \<Rightarrow> (nat \<Rightarrow> reserve_or_wait) \<Rightarrow> bool" where
  "undisturbed ev st \<longleftrightarrow> resumed ev st \<and> (\<forall>k. (\<exists>ci. ev k = Checks ci) \<or> (\<exists>f. ev k = Others f))"

definition settles :: "(nat \<Rightarrow> mw_event) \<Rightarrow> (nat \<Rightarrow> reserve_or_wait) \<Rightarrow> bool" where
  "settles ev st \<longleftrightarrow> resumed ev st \<and> (\<exists>K. \<forall>k\<ge>K. (\<exists>ci. ev k = Checks ci) \<or> (\<exists>f. ev k = Others f))"

lemma undisturbed_step: "undisturbed ev st \<Longrightarrow> mw_exec (ev k) (st k) = (Inr (), st (Suc k))"
  by (simp add: undisturbed_def resumed_def)

lemma resumed_shift:
  assumes "resumed ev st"
  shows "resumed (\<lambda>j. ev (k + j)) (\<lambda>j. st (k + j))"
proof -
  have "\<exists>i. \<forall>j\<ge>i. \<forall>ci. ev (k + j) = Checks ci \<longrightarrow> ci_now ci > t" for t
  proof -
    obtain i where late: "\<forall>j\<ge>i. \<forall>ci. ev j = Checks ci \<longrightarrow> ci_now ci > t" using assms unfolding resumed_def by blast
    show ?thesis
    proof (intro exI [of _ i] allI impI)
      fix j ci assume "i \<le> j" and e: "ev (k + j) = Checks ci"
      then have "i \<le> k + j" by simp
      then show "ci_now ci > t" using late e by blast
    qed
  qed
  moreover have "\<exists>j\<ge>i. \<exists>ci. ev (k + j) = Checks ci" for i
  proof -
    obtain j ci where "j \<ge> k + i" "ev j = Checks ci" using assms unfolding resumed_def by blast
    then show ?thesis by (intro exI [of _ "j - k"]) auto
  qed
  ultimately show ?thesis using assms unfolding resumed_def by simp
qed

lemma undisturbed_shift: "undisturbed ev st \<Longrightarrow> undisturbed (\<lambda>j. ev (k + j)) (\<lambda>j. st (k + j))"
  using resumed_shift by (simp add: undisturbed_def)

lemma undisturbed_ok:
  assumes "undisturbed ev st" and "mw_ok (st 0)"
  shows "mw_ok (st k)"
proof (induction k)
  case (Suc k)
  then show ?case using mw_exec_ok [OF undisturbed_step [OF assms(1)]] by blast
qed (rule assms(2))

lemma others_more: "mw_exec (Others f) s = (Inr (), s') \<Longrightarrow> br.more s' = br.more s"
  by (auto simp: br.extend_def)

text \<open>Nothing but other users before the task is resumed next.\<close>

lemma next_check:
  assumes u: "undisturbed ev st"
  obtains j ci where "j \<ge> k" "ev j = Checks ci" "br.more (st j) = br.more (st k)"
proof -
  define d where "d = (LEAST d. \<exists>ci. ev (k + d) = Checks ci)"
  obtain j ci where "j \<ge> k" "ev j = Checks ci" using u unfolding undisturbed_def resumed_def by blast
  then have "\<exists>d ci. ev (k + d) = Checks ci" by (metis le_Suc_ex)
  from LeastI_ex [OF this] obtain ci where ci: "ev (k + d) = Checks ci" unfolding d_def by blast
  have "br.more (st (k + i)) = br.more (st k)" if "i \<le> d" for i
    using that
  proof (induction i)
    case (Suc i)
    have "\<nexists>ci. ev (k + i) = Checks ci" using not_less_Least [of i "\<lambda>d. \<exists>ci. ev (k + d) = Checks ci"] Suc.prems by (auto simp: d_def)
    then obtain f where "ev (k + i) = Others f" using u unfolding undisturbed_def resumed_def by blast
    then have "mw_exec (Others f) (st (k + i)) = (Inr (), st (Suc (k + i)))" using undisturbed_step [OF u, of "k + i"] by (simp only:)
    from others_more [OF this] show ?case using Suc by simp
  qed simp
  then show thesis using that [of "k + d" ci] ci by simp
qed

lemma timeout_step_late:
  assumes "ci_now ci > wn_last w + (1 + SPILL_WAIT_CAP_FACTOR) * timeout" and "timeout \<ge> 0"
  shows "timeout_step mt timeout ci w = Some w1 \<Longrightarrow> wn_recheck w \<and> \<not> wn_recheck w1"
    and "timeout_step mt timeout ci w = None \<Longrightarrow> \<not> wn_recheck w"
proof -
  have "(1 + SPILL_WAIT_CAP_FACTOR) * timeout \<ge> timeout" using assms(2) by (simp add: SPILL_WAIT_CAP_FACTOR_def)
  then have l: "ci_now ci - wn_last w > timeout" "ci_now ci - wn_last w > (1 + SPILL_WAIT_CAP_FACTOR) * timeout" using assms(1) by linarith+
  have j: "wn_last (judge_progress ci w) = wn_last w" "wn_recheck (judge_progress ci w) = wn_recheck w" by (simp_all add: judge_progress_def)
  have k: "\<not> keep_waiting mt timeout ci (judge_progress ci w)" using l(2) by (simp add: keep_waiting_def j(1))
  show "timeout_step mt timeout ci w = Some w1 \<Longrightarrow> wn_recheck w \<and> \<not> wn_recheck w1"
    using l(1) k j(2) by (auto simp: timeout_step_def Let_def split: if_splits)
  show "timeout_step mt timeout ci w = None \<Longrightarrow> \<not> wn_recheck w"
    using l(1) k j(2) by (auto simp: timeout_step_def Let_def split: if_splits)
qed

lemma timeout_step_last: "timeout_step mt timeout ci w = Some w1 \<Longrightarrow> wn_last w1 = wn_last w"
  by (auto simp: timeout_step_def judge_progress_def Let_def split: if_splits)

lemma answers_one_less: "answers_one s s' rq res \<Longrightarrow> length (mw_requests s') < length (mw_requests s)"
  by (auto simp: answers_one_def length_remove1 dest: length_pos_if_in_set)

text \<open>While nothing is answered, a resumed task goes around its loop.\<close>

lemma stuck_step:
  fixes s s' :: "'w reserve_or_wait_scheme"
  assumes "check_step ci s = (Inr (), s')" and "mw_ok s" and "mw_requests s \<noteq> []" and "length (mw_requests s') \<ge> length (mw_requests s)"
  shows "(mw_task s = New_Window \<and> mw_task s' = Checking (new_window (ci_now ci))) \<or>
    (\<exists>w. mw_task s = Checking w \<and> mw_task s' = Yielded w) \<or>
    (\<exists>w w1. mw_task s = Yielded w \<and> timeout_step (mw_mem s) (mw_timeout s) ci w = Some w1 \<and> mw_task s' = Checking w1)"
  using assms(1,2)
proof (cases rule: check_step_cases)
  case idle
  then show ?thesis using assms(2,3) by (simp add: mw_ok_def)
next
  case (admit w w1 rq res)
  then show ?thesis using answers_one_less [OF admit(3)] assms(4) by simp
next
  case (force w rq res)
  then show ?thesis using answers_one_less [OF force(3)] assms(4) by simp
qed (use assms(3) in auto)

lemma answers_one_frame: "answers_one s s' rq res \<Longrightarrow> mset (map fst (mw_answers s')) + mset (mw_requests s') = mset (map fst (mw_answers s)) + mset (mw_requests s)"
  by (auto simp: answers_one_def insert_DiffM)

lemma check_step_frame:
  fixes s s' :: "'w reserve_or_wait_scheme"
  assumes "check_step ci s = (Inr (), s')" and "mw_ok s"
  shows "length (mw_requests s') \<le> length (mw_requests s)"
    and "mset (map fst (mw_answers s')) + mset (mw_requests s') = mset (map fst (mw_answers s)) + mset (mw_requests s)"
proof -
  have "length (mw_requests s') \<le> length (mw_requests s) \<and>
    mset (map fst (mw_answers s')) + mset (mw_requests s') = mset (map fst (mw_answers s)) + mset (mw_requests s)"
    using assms
  proof (cases rule: check_step_cases)
    case (admit w w1 rq res)
    then show ?thesis using answers_one_frame [OF admit(3)] answers_one_less [OF admit(3)] by simp
  next
    case (force w rq res)
    then show ?thesis using answers_one_frame [OF force(3)] answers_one_less [OF force(3)] by simp
  qed simp_all
  then show "length (mw_requests s') \<le> length (mw_requests s)"
    and "mset (map fst (mw_answers s')) + mset (mw_requests s') = mset (map fst (mw_answers s)) + mset (mw_requests s)" by blast+
qed

lemma resume_check_params:
  fixes s s' :: "'w reserve_or_wait_scheme"
  assumes "check_step ci s = (Inr (), s')"
  shows "mw_timeout s' = mw_timeout s" and "mw_mem s' = mw_mem s"
proof -
  have f: "mw_timeout s1 = mw_timeout s \<and> mw_mem s1 = mw_mem s"
    if "reserve mt n Overbooking_NO (s\<lparr>mw_requests := rs\<rparr>) = (Inr r, s1)" for mt n r s1 rs
  proof -
    have "br.more s1 = br.more (s\<lparr>mw_requests := rs\<rparr>)" using reserve_more [of mt n Overbooking_NO "s\<lparr>mw_requests := rs\<rparr>"] that by simp
    from mw_frame [OF this] show ?thesis by simp
  qed
  have f0: "mw_timeout s1 = mw_timeout s \<and> mw_mem s1 = mw_mem s" if "reserve mt n Overbooking_NO s = (Inr r, s1)" for mt n r s1
    using f [of mt n "mw_requests s" r s1] that by simp
  have a: "mw_timeout s' = mw_timeout s \<and> mw_mem s' = mw_mem s" if "try_admit ci w s = (Inr (), s')" for w
    using that unfolding try_admit_def Let_def by (auto split: list.splits prod.splits sum.splits if_splits dest!: f0)
  have b: "mw_timeout s' = mw_timeout s \<and> mw_mem s' = mw_mem s" if "force_progress s = (Inr (), s')"
    using that unfolding force_progress_def Let_def by (auto split: list.splits prod.splits sum.splits if_splits dest!: f)
  have "mw_timeout s' = mw_timeout s \<and> mw_mem s' = mw_mem s"
    using assms a b unfolding check_step_def resume_check_def by (auto split: check_task.splits option.splits if_splits)
  then show "mw_timeout s' = mw_timeout s" and "mw_mem s' = mw_mem s" by blast+
qed

lemma undisturbed_frame:
  assumes u: "undisturbed ev st" and ok: "mw_ok (st 0)"
  shows "length (mw_requests (st (Suc k))) \<le> length (mw_requests (st k))"
    and "mset (map fst (mw_answers (st (Suc k)))) + mset (mw_requests (st (Suc k))) = mset (map fst (mw_answers (st k))) + mset (mw_requests (st k))"
    and "mw_timeout (st (Suc k)) = mw_timeout (st k)" and "mw_mem (st (Suc k)) = mw_mem (st k)"
proof -
  have "length (mw_requests (st (Suc k))) \<le> length (mw_requests (st k)) \<and>
    mset (map fst (mw_answers (st (Suc k)))) + mset (mw_requests (st (Suc k))) = mset (map fst (mw_answers (st k))) + mset (mw_requests (st k)) \<and>
    mw_timeout (st (Suc k)) = mw_timeout (st k) \<and> mw_mem (st (Suc k)) = mw_mem (st k)"
  proof (cases "\<exists>ci. ev k = Checks ci")
    case True
    then obtain ci where "check_step ci (st k) = (Inr (), st (Suc k))" using undisturbed_step [OF u, of k] by auto
    from check_step_frame [OF this undisturbed_ok [OF u ok]] resume_check_params [OF this] show ?thesis by blast
  next
    case False
    then obtain f where "ev k = Others f" using u unfolding undisturbed_def resumed_def by blast
    then have "mw_exec (Others f) (st k) = (Inr (), st (Suc k))" using undisturbed_step [OF u, of k] by (simp only:)
    from mw_frame [OF others_more [OF this]] show ?thesis by simp
  qed
  then show "length (mw_requests (st (Suc k))) \<le> length (mw_requests (st k))"
    and "mset (map fst (mw_answers (st (Suc k)))) + mset (mw_requests (st (Suc k))) = mset (map fst (mw_answers (st k))) + mset (mw_requests (st k))"
    and "mw_timeout (st (Suc k)) = mw_timeout (st k)" and "mw_mem (st (Suc k)) = mw_mem (st k)" by blast+
qed

lemma undisturbed_params:
  assumes u: "undisturbed ev st" and ok: "mw_ok (st 0)"
  shows "mw_timeout (st k) = mw_timeout (st 0)"
    and "mset (map fst (mw_answers (st k))) + mset (mw_requests (st k)) = mset (map fst (mw_answers (st 0))) + mset (mw_requests (st 0))"
  using undisturbed_frame [OF u ok] by (induction k) simp_all

lemma one_is_answered:
  assumes u: "undisturbed ev st" and ok: "mw_ok (st 0)" and r: "mw_requests (st 0) \<noteq> []" and t: "mw_timeout (st 0) \<ge> 0"
  shows "\<exists>k. length (mw_requests (st k)) < length (mw_requests (st 0))"
proof (rule ccontr)
  assume "\<not> ?thesis"
  then have big: "length (mw_requests (st k)) \<ge> length (mw_requests (st 0))" for k by (auto simp: not_less)
  have ne: "mw_requests (st k) \<noteq> []" for k using big [of k] r by auto
  have okk: "mw_ok (st k)" for k by (rule undisturbed_ok [OF u ok])
  have "length (mw_requests (st k)) \<le> length (mw_requests (st 0))" for k
    by (induction k) (use undisturbed_frame(1) [OF u ok] le_trans in blast)+
  then have same: "length (mw_requests (st (Suc k))) \<ge> length (mw_requests (st k))" for k using big le_trans by blast
  have advance: "\<exists>j ci. j \<ge> k \<and> ev j = Checks ci \<and> mw_task (st j) = mw_task (st k) \<and>
      ((mw_task (st k) = New_Window \<and> mw_task (st (Suc j)) = Checking (new_window (ci_now ci))) \<or>
       (\<exists>w. mw_task (st k) = Checking w \<and> mw_task (st (Suc j)) = Yielded w) \<or>
       (\<exists>w w1. mw_task (st k) = Yielded w \<and> timeout_step (mw_mem (st j)) (mw_timeout (st 0)) ci w = Some w1 \<and> mw_task (st (Suc j)) = Checking w1))" for k
  proof -
    obtain j ci where j: "j \<ge> k" "ev j = Checks ci" "br.more (st j) = br.more (st k)" using next_check [OF u] by blast
    have "mw_exec (Checks ci) (st j) = (Inr (), st (Suc j))" using undisturbed_step [OF u, of j] unfolding j(2) .
    then have c: "check_step ci (st j) = (Inr (), st (Suc j))" by (simp only: mw_exec.simps)
    have tk: "mw_task (st j) = mw_task (st k)" using j(3) by (rule mw_frame)
    note S = stuck_step [OF c okk ne same, unfolded undisturbed_params(1) [OF u ok, of j] tk]
    show ?thesis by (intro exI [of _ j] exI [of _ ci] conjI) (fact j(1,2) tk S)+
  qed
  have yields: "\<exists>j\<ge>k. mw_task (st j) = Yielded w" if c: "mw_task (st k) = Checking w" for k w
  proof -
    from advance [of k] c obtain j where "j \<ge> k" "mw_task (st (Suc j)) = Yielded w" by auto
    then show ?thesis by (intro exI [of _ "Suc j"]) simp
  qed
  have "\<exists>k w. mw_task (st k) = Yielded w"
  proof (cases "mw_task (st 0)")
    case Idle
    then show ?thesis using ok r by (simp add: mw_ok_def)
  next
    case New_Window
    then obtain j w where "mw_task (st (Suc j)) = Checking w" using advance [of 0] by auto
    then show ?thesis using yields by blast
  next
    case (Checking w)
    then show ?thesis using yields by blast
  qed blast
  then obtain k0 w0 where k0: "mw_task (st k0) = Yielded w0" by blast
  have window: "\<exists>w. wn_last w = wn_last w0 \<and> (mw_task (st j) = Checking w \<or> mw_task (st j) = Yielded w)" if "j \<ge> k0" for j
    using that
  proof (induction j rule: dec_induct)
    case base
    then show ?case using k0 by blast
  next
    case (step j)
    show ?case
    proof (cases "\<exists>ci. ev j = Checks ci")
      case True
      then obtain ci where "check_step ci (st j) = (Inr (), st (Suc j))" using undisturbed_step [OF u, of j] by auto
      from stuck_step [OF this okk ne same] step.IH show ?thesis using timeout_step_last by fastforce
    next
      case False
      then obtain f where "ev j = Others f" using u unfolding undisturbed_def resumed_def by blast
      then have "mw_exec (Others f) (st j) = (Inr (), st (Suc j))" using undisturbed_step [OF u, of j] by (simp only:)
      from mw_frame(5) [OF others_more [OF this]] step.IH show ?thesis by simp
    qed
  qed
  obtain K where late: "\<And>j ci. j \<ge> K \<Longrightarrow> ev j = Checks ci \<Longrightarrow> ci_now ci > wn_last w0 + (1 + SPILL_WAIT_CAP_FACTOR) * mw_timeout (st 0)"
    using u unfolding undisturbed_def resumed_def by blast
  obtain k1 w1 where k1: "k1 \<ge> K" "mw_task (st k1) = Yielded w1" "wn_last w1 = wn_last w0"
  proof -
    obtain w where w: "wn_last w = wn_last w0" "mw_task (st (max K k0)) = Checking w \<or> mw_task (st (max K k0)) = Yielded w"
      using window [of "max K k0"] by auto
    then obtain j where "j \<ge> max K k0" "mw_task (st j) = Yielded w" using yields by blast
    then show thesis using that [of j w] w(1) by simp
  qed
  from advance [of k1] k1(2) obtain j1 c1 w2 where j1: "j1 \<ge> k1" "ev j1 = Checks c1" "mw_task (st (Suc j1)) = Checking w2"
    "timeout_step (mw_mem (st j1)) (mw_timeout (st 0)) c1 w1 = Some w2" by auto
  have "ci_now c1 > wn_last w1 + (1 + SPILL_WAIT_CAP_FACTOR) * mw_timeout (st 0)" using late [OF _ j1(2)] j1(1) k1 by simp
  from timeout_step_late(1) [OF this t j1(4)] have nr: "\<not> wn_recheck w2" by blast
  have l2: "wn_last w2 = wn_last w0" using timeout_step_last [OF j1(4)] k1(3) by simp
  obtain k2 where k2: "k2 \<ge> Suc j1" "mw_task (st k2) = Yielded w2" using yields [OF j1(3)] by blast
  from advance [of k2] k2(2) obtain j2 c2 w3 where j2: "j2 \<ge> k2" "ev j2 = Checks c2"
    "timeout_step (mw_mem (st j2)) (mw_timeout (st 0)) c2 w2 = Some w3" by auto
  have "ci_now c2 > wn_last w2 + (1 + SPILL_WAIT_CAP_FACTOR) * mw_timeout (st 0)" using late [OF _ j2(2)] j2(1) k2(1) j1(1) k1(1) l2 by simp
  from timeout_step_late(1) [OF this t j2(3)] nr show False by blast
qed

lemma all_are_answered:
  assumes "undisturbed ev st" and "mw_ok (st 0)" and "mw_timeout (st 0) \<ge> 0"
  shows "\<exists>k. mw_requests (st k) = []"
  using assms
proof (induction "length (mw_requests (st 0))" arbitrary: ev st rule: less_induct)
  case less
  show ?case
  proof (cases "mw_requests (st 0) = []")
    case False
    obtain k where k: "length (mw_requests (st k)) < length (mw_requests (st 0))" using one_is_answered [OF less.prems(1,2) False less.prems(3)] by blast
    have "mw_timeout (st k) \<ge> 0" unfolding undisturbed_params(1) [OF less.prems(1,2), of k] by (rule less.prems(3))
    then have "\<exists>j. mw_requests (st (k + j)) = []"
      using less.hyps [of "\<lambda>j. st (k + j)" "\<lambda>j. ev (k + j)"] k undisturbed_shift [OF less.prems(1)] undisturbed_ok [OF less.prems(1,2)] by simp
    then show ?thesis by blast
  qed blast
qed


text \<open>No request is lost: what was pending is pending or answered.\<close>

definition made :: "'w reserve_or_wait_scheme \<Rightarrow> request set" where
  "made s = fst ` set (mw_answers s) \<union> set (mw_requests s)"

lemma mw_exec_keeps_requests:
  fixes s s' :: reserve_or_wait
  assumes "mw_exec e s = (Inr (), s')" and "mw_ok s"
  shows "made s \<subseteq> made s' \<and> mw_timeout s' = mw_timeout s"
proof (cases e)
  case (Checks ci)
  then have c: "check_step ci s = (Inr (), s')" using assms(1) by simp
  from check_step_frame(2) [OF c assms(2)]
  have "mset (map fst (mw_answers s') @ mw_requests s') = mset (map fst (mw_answers s) @ mw_requests s)" by simp
  from mset_eq_setD [OF this] show ?thesis using resume_check_params(1) [OF c] by (simp add: made_def)
next
  case (Others f)
  then have "mw_exec (Others f) s = (Inr (), s')" using assms(1) by (simp only:)
  from mw_frame [OF others_more [OF this]] show ?thesis by (simp add: made_def)
next
  case (Submits n d now)
  then obtain r where "submit_request n d now s = (Inr r, s')" using assms(1) by (auto simp: act_bind_cases)
  note sub = this
  then obtain res ob s1 where re: "reserve (mw_mem s) n Overbooking_NO s = (Inr (res, ob), s1)"
    by (auto simp: submit_request_def act_bind_cases)
  note F = mw_frame [OF reserve_NO(1) [OF re]]
  show ?thesis
  proof (cases "res_size res = n")
    case True
    then show ?thesis using sub F by (simp add: submit_request_def act_bind_def re made_def)
  next
    case False
    then show ?thesis using sub F by (auto simp: submit_request_def act_bind_def re made_def)
  qed
next
  case Shuts_Down
  then show ?thesis using assms(1) by (auto simp: mrw_shutdown_def made_def image_Un image_image)
qed

lemma resumed_run:
  assumes "resumed ev st" and "mw_ok (st 0)"
  shows "mw_ok (st k) \<and> mw_timeout (st k) = mw_timeout (st 0) \<and>
    (\<forall>m\<le>k. made (st m) \<subseteq> made (st k))"
proof (induction k)
  case (Suc k)
  have e: "mw_exec (ev k) (st k) = (Inr (), st (Suc k))" using assms(1) by (simp add: resumed_def)
  from mw_exec_ok [OF e] mw_exec_keeps_requests [OF e] Suc show ?case by (auto simp: le_Suc_eq)
qed (simp add: assms(2))

section \<open>Properties\<close>

text \<open>Property C15: whom a step of the periodic task answers. A request is only answered by a step resumed from a yield, and then exactly
  one. When the wait is not over, it is one that fits into the available memory and gets all it asked for: among
  all that fit, the one with the smallest net memory delta, ties going to the smaller and then the older. When
  the wait is over, it is a smallest request, again with the smallest delta and the oldest among equals, and gets
  all or an empty reservation. In neither case does the reserved memory exceed what is available.\<close>

theorem admission_choice:
  fixes s s' :: "'w reserve_or_wait_scheme"
  assumes "check_step ci s = (Inr (), s')" and "mw_ok s" and "mw_answers s' \<noteq> mw_answers s"
  shows "\<exists>w rq res. mw_task s = Yielded w \<and> mw_answers s' = mw_answers s @ [(rq, Some res)] \<and>
    mw_requests s' = remove1 rq (mw_requests s) \<and>
    br_reserved s' = (br_reserved s)(mw_mem s := br_reserved s (mw_mem s) + res_size res) \<and>
    (\<forall>a. res_size res > 0 \<longrightarrow> memory_available (mw_mem s) s = Inr a \<longrightarrow> int (br_reserved s' (mw_mem s)) \<le> a) \<and>
    (if timeout_step (mw_mem s) (mw_timeout s) ci w = None
     then (res_size res = rq_size rq \<or> res_size res = 0) \<and> (\<forall>x\<in>set (mw_requests s). rq_size rq \<le> rq_size x) \<and>
       preferred rq (filter (\<lambda>x. rq_size x = rq_size rq) (mw_requests s))
     else res_size res = rq_size rq \<and> preferred rq (filter (\<lambda>x. rq_size x \<le> nat (max (ci_available ci) 0)) (mw_requests s)))"
  using assms(1,2)
proof (cases rule: check_step_cases)
  case (admit w w1 rq res)
  note A = admit(3) [unfolded answers_one_def]
  show ?thesis
  proof (intro exI conjI)
    show "mw_task s = Yielded w" by (rule admit(1))
    show "mw_answers s' = mw_answers s @ [(rq, Some res)]" "mw_requests s' = remove1 rq (mw_requests s)"
      "br_reserved s' = (br_reserved s)(mw_mem s := br_reserved s (mw_mem s) + res_size res)"
      "\<forall>a. res_size res > 0 \<longrightarrow> memory_available (mw_mem s) s = Inr a \<longrightarrow> int (br_reserved s' (mw_mem s)) \<le> a"
      using A by blast+
    show "if timeout_step (mw_mem s) (mw_timeout s) ci w = None
     then (res_size res = rq_size rq \<or> res_size res = 0) \<and> (\<forall>x\<in>set (mw_requests s). rq_size rq \<le> rq_size x) \<and>
       preferred rq (filter (\<lambda>x. rq_size x = rq_size rq) (mw_requests s))
     else res_size res = rq_size rq \<and> preferred rq (filter (\<lambda>x. rq_size x \<le> nat (max (ci_available ci) 0)) (mw_requests s))"
      using admit by simp
  qed
next
  case (force w rq res)
  note A = force(3) [unfolded answers_one_def]
  show ?thesis
  proof (intro exI conjI)
    show "mw_task s = Yielded w" by (rule force(1))
    show "mw_answers s' = mw_answers s @ [(rq, Some res)]" "mw_requests s' = remove1 rq (mw_requests s)"
      "br_reserved s' = (br_reserved s)(mw_mem s := br_reserved s (mw_mem s) + res_size res)"
      "\<forall>a. res_size res > 0 \<longrightarrow> memory_available (mw_mem s) s = Inr a \<longrightarrow> int (br_reserved s' (mw_mem s)) \<le> a"
      using A by blast+
    show "if timeout_step (mw_mem s) (mw_timeout s) ci w = None
     then (res_size res = rq_size rq \<or> res_size res = 0) \<and> (\<forall>x\<in>set (mw_requests s). rq_size rq \<le> rq_size x) \<and>
       preferred rq (filter (\<lambda>x. rq_size x = rq_size rq) (mw_requests s))
     else res_size res = rq_size rq \<and> preferred rq (filter (\<lambda>x. rq_size x \<le> nat (max (ci_available ci) 0)) (mw_requests s))"
      using force by simp
  qed
qed (use assms(3) in simp_all)

definition example_check :: "int \<Rightarrow> check_input" where
  "example_check now = \<lparr>ci_now = now, ci_done = now, ci_generation = 0, ci_spilling = False, ci_judged = 0, ci_available = 50\<rparr>"

definition example_waiting :: reserve_or_wait where
  "example_waiting = (new_reserve_or_wait HOST 1 example_br)
     \<lparr>mw_requests := [\<lparr>rq_size = 40, rq_delta = 3, rq_seq = 0, rq_submitted = 0\<rparr>, \<lparr>rq_size = 45, rq_delta = 2, rq_seq = 1, rq_submitted = 0\<rparr>,
        \<lparr>rq_size = 60, rq_delta = 1, rq_seq = 2, rq_submitted = 0\<rparr>],
      mw_next_seq := 3, mw_task := Yielded (new_window 0)\<rparr>"

theorem admission_choice_witness:
  "\<exists>s'. check_step (example_check 1) example_waiting = (Inr (), s') \<and> map (rq_seq \<circ> fst) (mw_answers s') = [1]"
proof -
  have ok: "mw_ok example_waiting"
    by (simp add: mw_ok_def requests_ok_def example_waiting_def new_reserve_or_wait_def br.extend_def before_def)
  have "\<exists>s'. check_step (example_check 1) example_waiting = (Inr (), s') \<and> map (rq_seq \<circ> fst) (mw_answers s') = [1]"
  proof -
    have "eligible_requests 50 (mw_requests example_waiting) =
        [\<lparr>rq_size = 40, rq_delta = 3, rq_seq = 0, rq_submitted = 0\<rparr>, \<lparr>rq_size = 45, rq_delta = 2, rq_seq = 1, rq_submitted = 0\<rparr>]"
      by (simp add: eligible_requests_def example_waiting_def)
    moreover obtain s1 where "reserve HOST 45 Overbooking_NO example_waiting =
        (Inr (\<lparr>res_mem = HOST, res_br = True, res_size = 45\<rparr>, 0), s1)"
      by (simp add: example_waiting_def new_reserve_or_wait_def br.extend_def reserve_evals)
    moreover have "mw_task example_waiting = Yielded (new_window 0)" "mw_mem example_waiting = HOST" "mw_timeout example_waiting = 1"
      "mw_answers example_waiting = []"
      by (simp_all add: example_waiting_def new_reserve_or_wait_def br.extend_def)
    ultimately show ?thesis
      by (auto simp: check_step_def resume_check_def timeout_step_def new_window_def example_check_def try_admit_def Let_def)
  qed
  then obtain s' where s': "check_step (example_check 1) example_waiting = (Inr (), s')" "map (rq_seq \<circ> fst) (mw_answers s') = [1]"
    by (elim exE conjE) (rule that)
  have "mw_answers example_waiting = []" by (simp add: example_waiting_def new_reserve_or_wait_def br.extend_def)
  then have "mw_answers s' \<noteq> mw_answers example_waiting" using s'(2) by auto
  from admission_choice [OF s'(1) ok this] s' show ?thesis by (elim exE conjE) (intro exI conjI)
qed

text \<open>Property C14: waiting requests are answered. Requests and shutdowns come in any order but not for ever, the task
  is resumed again and again while its clock goes on, no step throws, and other users do anything to the buffer
  resource. Then there is a time from which no request is pending, and by then every request that was ever pending
  has been answered exactly once. (New requests without end can put a large one off for ever: each that is
  admitted starts the wait again.)\<close>

theorem waiting_requests_answered:
  assumes "settles ev st" and "mw_ok (st 0)" and "mw_timeout (st 0) \<ge> 0"
  shows "\<exists>k. (\<forall>m\<ge>k. mw_requests (st m) = []) \<and>
    (\<forall>m. \<forall>r\<in>set (mw_requests (st m)). count (mset (map fst (mw_answers (st k)))) r = 1)"
proof -
  obtain K where r: "resumed ev st" and K: "\<forall>k\<ge>K. (\<exists>ci. ev k = Checks ci) \<or> (\<exists>f. ev k = Others f)"
    using assms(1) unfolding settles_def by blast
  note R = resumed_run [OF r assms(2)]
  have u: "undisturbed (\<lambda>j. ev (K + j)) (\<lambda>j. st (K + j))" using resumed_shift [OF r] K by (simp add: undisturbed_def)
  have ok: "mw_ok (st (K + 0))" "mw_timeout (st (K + 0)) \<ge> 0" using R [of K] assms(3) by simp_all
  obtain i where i: "mw_requests (st (K + i)) = []" using all_are_answered [OF u ok] by blast
  let ?k = "K + i"
  have gone: "mw_requests (st (?k + j)) = []" for j
  proof (induction j)
    case (Suc j)
    then show ?case using undisturbed_frame(1) [OF u ok(1), of "i + j"] by (simp add: add.assoc)
  qed (simp add: i)
  have never: "mw_requests (st m) = []" if "m \<ge> ?k" for m using gone [of "m - ?k"] that by simp
  moreover have "count (mset (map fst (mw_answers (st ?k)))) x = 1" if "x \<in> set (mw_requests (st m))" for m x
  proof -
    have "m \<le> ?k" using never that by (metis empty_iff list.set(1) nat_le_linear)
    then have "made (st m) \<subseteq> made (st ?k)" using R [of ?k] by blast
    then have "x \<in> set (map fst (mw_answers (st ?k)))" using that i by (auto simp: made_def)
    moreover have "distinct (map rq_seq (map fst (mw_answers (st ?k))))" using R [of ?k] unfolding mw_ok_def requests_ok_def by blast
    then have "distinct (map fst (mw_answers (st ?k)))" unfolding distinct_map [of rq_seq "map fst (mw_answers (st ?k))"] by blast
    ultimately show ?thesis by (simp add: distinct_count_atmost_1)
  qed
  ultimately show ?thesis by blast
qed

definition example_events :: "nat \<Rightarrow> mw_event" where
  "example_events k = Checks (example_check (int k))"

text \<open>A request that never fits: the timeout answers it, and the task ends.\<close>

definition example_large :: reserve_or_wait where
  "example_large = snd (submit_request 130 0 0 (new_reserve_or_wait HOST 1 example_br))"

definition example_states :: "nat \<Rightarrow> reserve_or_wait" where
  "example_states k = (if k = 0 then example_large
     else if k = 1 then example_large\<lparr>mw_task := Checking (new_window 0)\<rparr>
     else if k = 2 then example_large\<lparr>mw_checks := 1, mw_task := Yielded (new_window 0)\<rparr>
     else (let s = example_large\<lparr>mw_checks := 1, mw_requests := [],
             mw_answers := [(\<lparr>rq_size = 130, rq_delta = 0, rq_seq = 0, rq_submitted = 0\<rparr>, Some \<lparr>res_mem = HOST, res_br = True, res_size = 0\<rparr>)]\<rparr>
           in if k = 3 then s\<lparr>mw_task := New_Window\<rparr> else if k = 4 then s\<lparr>mw_task := Checking (new_window 3)\<rparr> else s\<lparr>mw_task := Idle\<rparr>))"

lemma example_large_eq:
  "example_large = (new_reserve_or_wait HOST 1 example_br)
     \<lparr>mw_requests := [\<lparr>rq_size = 130, rq_delta = 0, rq_seq = 0, rq_submitted = 0\<rparr>], mw_next_seq := 1, mw_task := New_Window\<rparr>"
  by (simp add: example_large_def submit_request_def act_bind_def new_reserve_or_wait_def br.extend_def reserve_evals)

lemma example_undisturbed: "undisturbed example_events example_states"
proof -
  have "check_step (example_check (int k)) (example_states k) = (Inr (), example_states (Suc k))" for k
  proof (cases "k < 5")
    case True
    then consider "k = 0" | "k = 1" | "k = 2" | "k = 3" | "k = 4" by linarith
    then show ?thesis
      by cases (simp_all add: example_states_def example_large_eq check_step_def example_check_def new_reserve_or_wait_def
          br.extend_def resume_check_def timeout_step_def judge_progress_def keep_waiting_def new_window_def force_progress_def reserve_evals)
  next
    case False
    then show ?thesis by (simp add: example_states_def check_step_def Let_def)
  qed
  moreover have "\<exists>k. \<forall>j\<ge>k. \<forall>ci. example_events j = Checks ci \<longrightarrow> ci_now ci > t" for t
    by (intro exI [of _ "nat (t + 1)"]) (auto simp: example_events_def example_check_def)
  ultimately show ?thesis by (auto simp: undisturbed_def resumed_def example_events_def)
qed

theorem waiting_requests_answered_witness:
  "\<exists>k. mw_requests (example_states k) = [] \<and>
     \<lparr>rq_size = 130, rq_delta = 0, rq_seq = 0, rq_submitted = 0\<rparr> \<in> fst ` set (mw_answers (example_states k))"
proof -
  let ?r = "\<lparr>rq_size = 130, rq_delta = 0, rq_seq = 0, rq_submitted = 0\<rparr>"
  have i: "mw_ok (example_states 0)" "mw_timeout (example_states 0) \<ge> 0" "?r \<in> set (mw_requests (example_states 0))"
    by (simp_all add: example_states_def example_large_eq new_reserve_or_wait_def br.extend_def mw_ok_def requests_ok_def)
  have "settles example_events example_states" using example_undisturbed by (auto simp: settles_def undisturbed_def)
  from waiting_requests_answered [OF this i(1,2)] obtain k where
    "mw_requests (example_states k) = []" "count (mset (map fst (mw_answers (example_states k)))) ?r = 1" using i(3) by blast
  moreover from this(2) have "?r \<in># mset (map fst (mw_answers (example_states k)))" by (metis count_greater_zero_iff zero_less_one)
  ultimately show ?thesis by (intro exI [of _ k]) simp
qed

end
