(* ===== verification/Sparse_Alltoall.thy ===== *)
theory Sparse_Alltoall
  imports Gather_Flow
begin

text \<open>
  The sparse all-to-all of \<^verbatim>\<open>coll/sparse_alltoall.cpp\<close>: every rank sends chunks to some ranks and receives from
  some, and knows that a source is complete when it has as many metadata messages as the source's finish
  marker says. \<open>sa_inbox src\<close> holds the metadata of a source not yet taken, \<open>sa_outbox dst\<close> and \<open>sa_payloads dst\<close> log what
  was sent on the two tags. The future of a receive is its source, its number among the receives posted to that
  source, and the buffer it fills; which receives complete, and with which buffers, is an input of an iteration.
  The hash maps over ranks are functions together with the list of their keys.
\<close>

record source_state =
  ss_expected :: u64
  ss_received :: u64
  ss_chunks :: "coll_chunk list"
  ss_incoming :: "coll_chunk list"

definition new_source_state :: source_state where
  "new_source_state = \<lparr>ss_expected = 0, ss_received = 0, ss_chunks = [], ss_incoming = []\<rparr>"

definition source_ready :: "source_state \<Rightarrow> bool" where
  "source_ready ss \<longleftrightarrow> ss_expected ss > 0 \<and> ss_expected ss = ss_received ss"

datatype sparse_send = Sent_Metadata nat "u8 list" | Sent_Payload nat "buffer option"

record sparse = br +
  sa_rank :: nat
  sa_nranks :: nat
  sa_stats :: bool
  sa_srcs :: "nat list"
  sa_dsts :: "nat list"
  sa_next :: "nat \<Rightarrow> u64"
  sa_locally_finished :: bool
  sa_can_extract :: bool
  sa_outgoing :: post_box
  sa_receive_posted :: "coll_chunk list"
  sa_receive_futures :: "(nat \<times> nat \<times> buffer option) list"
  sa_fire_and_forget :: "sparse_send list"
  sa_source :: "nat \<Rightarrow> source_state"
  sa_callback :: bool
  sa_callback_calls :: nat
  sa_inbox :: "nat \<Rightarrow> u8 list list"
  sa_outbox :: "nat \<Rightarrow> u8 list list"
  sa_payloads :: "nat \<Rightarrow> buffer option list"
  sa_posts :: "nat \<Rightarrow> nat"

section \<open>Construction\<close>

fun check_ranks :: "int \<Rightarrow> int \<Rightarrow> int list \<Rightarrow> nat list \<Rightarrow> nat list result" where
  "check_ranks self nranks [] seen = Inr (rev seen)"
| "check_ranks self nranks (r # rs) seen =
     (if \<not> (r \<ge> 0 \<and> r < nranks \<and> r \<noteq> self) then Inl Out_Of_Range
      else if nat r \<in> set seen then Inl Invalid_Argument
      else check_ranks self nranks rs (nat r # seen))"

definition new_sparse :: "nat \<Rightarrow> nat \<Rightarrow> bool \<Rightarrow> bool \<Rightarrow> int list \<Rightarrow> int list \<Rightarrow> br \<Rightarrow> sparse result" where
  "new_sparse rank nranks stats callback srcs dsts b =
     res_bind (check_ranks (int rank) (int nranks) srcs []) (\<lambda>ss.
     res_bind (check_ranks (int rank) (int nranks) dsts []) (\<lambda>ds.
       Inr (br.extend b \<lparr>sa_rank = rank, sa_nranks = nranks, sa_stats = stats, sa_srcs = ss, sa_dsts = ds, sa_next = (\<lambda>_. 0),
         sa_locally_finished = False, sa_can_extract = False, sa_outgoing = [], sa_receive_posted = [],
         sa_receive_futures = [], sa_fire_and_forget = [], sa_source = (\<lambda>_. new_source_state), sa_callback = callback,
         sa_callback_calls = 0, sa_inbox = (\<lambda>_. []), sa_outbox = (\<lambda>_. []),
         sa_payloads = (\<lambda>_. []), sa_posts = (\<lambda>_. 0)\<rparr>)))"

section \<open>The client's calls\<close>

text \<open>The ordinal is taken before the chunk is made.\<close>

definition sparse_insert :: "nat \<Rightarrow> packed_data \<Rightarrow> ('w sparse_scheme, unit) act" where
  "sparse_insert dst p s =
     (if sa_locally_finished s then (Inl Logic_Error, s)
      else if dst \<notin> set (sa_dsts s) then (Inl Logic_Error, s)
      else act_bind (ensure_memory_type (sa_stats s) (Some (pd_data p)) ADDRESSABLE_MEMORY_TYPES)
        (\<lambda>d s.
           let ordinal = sa_next s dst; s1 = s\<lparr>sa_next := (sa_next s)(dst := ordinal + 1)\<rparr> in
           case coll_from_packed_data ordinal (sa_rank s) dst (p\<lparr>pd_data := d\<rparr>) of
             Inl e \<Rightarrow> (Inl e, s1)
           | Inr c \<Rightarrow> (Inr (), s1\<lparr>sa_outgoing := pb_insert c (sa_outgoing s1)\<rparr>)) s)"

definition sparse_insert_finished :: "('w sparse_scheme, unit) act" where
  "sparse_insert_finished s =
     (if sa_locally_finished s then (Inl Logic_Error, s)
      else (Inr (), s\<lparr>sa_outgoing := sa_outgoing s @ map (\<lambda>dst. from_empty (sa_next s dst + 1) (sa_rank s) dst) (sa_dsts s),
                     sa_locally_finished := True\<rparr>))"

text \<open>\<open>wait\<close>: \<open>None\<close> while it blocks.\<close>

definition sparse_wait :: "bool \<Rightarrow> 'w sparse_scheme \<Rightarrow> unit result option" where
  "sparse_wait timed_out s =
     (if sa_can_extract s then Some (Inr ()) else if timed_out then Some (Inl Runtime_Error) else None)"

text \<open>A chunk that is released is left without metadata and data; one that throws leaves the later chunks as they are.\<close>

definition emptied :: "coll_chunk \<Rightarrow> coll_chunk" where
  "emptied c = (if cc_metadata c = None \<or> cc_data c = None then c else c\<lparr>cc_metadata := None, cc_data := None\<rparr>)"

fun release_chunks_in_order :: "coll_chunk list \<Rightarrow> packed_data list result \<times> coll_chunk list" where
  "release_chunks_in_order [] = (Inr [], [])"
| "release_chunks_in_order (c # cs) =
     (case coll_release c of
        Inl e \<Rightarrow> (Inl e, emptied c # cs)
      | Inr p \<Rightarrow> (case release_chunks_in_order cs of (out, cs') \<Rightarrow> (res_bind out (\<lambda>ps. Inr (p # ps)), emptied c # cs')))"

definition set_source :: "nat \<Rightarrow> source_state \<Rightarrow> 'w sparse_scheme \<Rightarrow> 'w sparse_scheme" where
  "set_source src ss s = s\<lparr>sa_source := (sa_source s)(src := ss)\<rparr>"

definition sparse_extract :: "nat \<Rightarrow> ('w sparse_scheme, packed_data list) act" where
  "sparse_extract src s =
     (if src \<notin> set (sa_srcs s) then (Inl Logic_Error, s)
      else if \<not> sa_can_extract s then (Inl Logic_Error, s)
      else
        let ss = sa_source s src; chunks = sort_key (\<lambda>c. unat (sequence c)) (ss_chunks ss) in
        case release_chunks_in_order chunks of
          (Inl e, left) \<Rightarrow> (Inl e, set_source src (ss\<lparr>ss_chunks := left\<rparr>) s)
        | (Inr ps, _) \<Rightarrow> (Inr ps, set_source src (ss\<lparr>ss_chunks := []\<rparr>) s))"

section \<open>One iteration\<close>

definition sparse_send_ready :: "coll_chunk \<Rightarrow> 'w sparse_scheme \<Rightarrow> 'w sparse_scheme" where
  "sparse_send_ready c s =
     (let dst = cc_destination c; m = coll_serialize c;
          s1 = s\<lparr>sa_fire_and_forget := sa_fire_and_forget s @ [Sent_Metadata dst m],
                 sa_outbox := (sa_outbox s)(dst := sa_outbox s dst @ [m])\<rparr> in
      if cc_data_size c > 0 then
        (let d = fst (coll_release_data_buffer c) in
         s1\<lparr>sa_fire_and_forget := sa_fire_and_forget s1 @ [Sent_Payload dst d],
            sa_payloads := (sa_payloads s)(dst := sa_payloads s dst @ [d])\<rparr>)
      else s1)"

definition send_ready_messages :: "('w sparse_scheme, unit) act" where
  "send_ready_messages s =
     (case pb_extract_ready (sa_outgoing s) of
        (Inl e, pb) \<Rightarrow> (Inl e, s\<lparr>sa_outgoing := pb\<rparr>)
      | (Inr ready, pb) \<Rightarrow> (Inr (), foldl (\<lambda>s c. sparse_send_ready c s) (s\<lparr>sa_outgoing := pb\<rparr>) ready))"

definition accept_from :: "stream \<Rightarrow> nat \<Rightarrow> u8 list \<Rightarrow> ('w sparse_scheme, unit) act" where
  "accept_from strm src m =
     act_bind (coll_deserialize strm m) (\<lambda>c s.
       let ss = sa_source s src in
       if origin c \<noteq> src then (Inl Logic_Error, s)
       else if is_finish c then
         (if ss_expected ss \<noteq> 0 then (Inl Logic_Error, s)
          else (Inr (), set_source src (ss\<lparr>ss_expected := sequence c\<rparr>) s))
       else (Inr (), set_source src (ss\<lparr>ss_incoming := ss_incoming ss @ [c]\<rparr>) s))"

fun receive_from :: "stream \<Rightarrow> nat \<Rightarrow> u8 list list \<Rightarrow> ('w sparse_scheme, unit) act" where
  "receive_from strm src [] s = (Inr (), s)"
| "receive_from strm src (m # ms) s =
     (if source_ready (sa_source s src) then (Inr (), s)
      else act_bind (accept_from strm src m) (\<lambda>_. receive_from strm src ms)
        (set_source src ((sa_source s src)\<lparr>ss_received := ss_received (sa_source s src) + 1\<rparr>)
          (s\<lparr>sa_inbox := (sa_inbox s)(src := ms)\<rparr>)))"

fun receive_metadata_messages :: "stream \<Rightarrow> nat list \<Rightarrow> ('w sparse_scheme, unit) act" where
  "receive_metadata_messages strm [] s = (Inr (), s)"
| "receive_metadata_messages strm (src # srcs) s =
     act_bind (receive_from strm src (sa_inbox s src)) (\<lambda>_. receive_metadata_messages strm srcs) s"

text \<open>Chunks without data are complete; the others get a receive posted, in order, up to the first that is not ready.\<close>

fun receive_data_from :: "nat \<Rightarrow> coll_chunk list \<Rightarrow> ('w sparse_scheme, unit) act" where
  "receive_data_from src [] s = (Inr (), set_source src ((sa_source s src)\<lparr>ss_incoming := []\<rparr>) s)"
| "receive_data_from src (c # cs) s =
     (case coll_is_ready c of
        Inl e \<Rightarrow> (Inl e, set_source src ((sa_source s src)\<lparr>ss_incoming := c # cs\<rparr>) s)
      | Inr r \<Rightarrow>
          if \<not> r then (Inr (), set_source src ((sa_source s src)\<lparr>ss_incoming := c # cs\<rparr>) s)
          else if cc_data_size c = 0 then
            receive_data_from src cs (set_source src ((sa_source s src)\<lparr>ss_chunks := ss_chunks (sa_source s src) @ [c]\<rparr>) s)
          else case coll_release_data_buffer c of (d, c') \<Rightarrow>
            receive_data_from src cs
              (s\<lparr>sa_receive_posted := sa_receive_posted s @ [c'],
                 sa_receive_futures := sa_receive_futures s @ [(src, sa_posts s src, d)],
                 sa_posts := (sa_posts s)(src := Suc (sa_posts s src))\<rparr>))"

fun receive_data_messages :: "nat list \<Rightarrow> ('w sparse_scheme, unit) act" where
  "receive_data_messages [] s = (Inr (), s)"
| "receive_data_messages (src # srcs) s =
     act_bind (receive_data_from src (ss_incoming (sa_source s src))) (\<lambda>_. receive_data_messages srcs) s"

fun place_completed :: "coll_chunk list \<Rightarrow> ('w sparse_scheme, unit) act" where
  "place_completed [] s = (Inr (), s)"
| "place_completed (c # cs) s =
     (if is_finish c then (Inl Logic_Error, s)
      else let ss = sa_source s (origin c) in
        place_completed cs (set_source (origin c) (ss\<lparr>ss_chunks := ss_chunks ss @ [c]\<rparr>) s))"

text \<open>
  What the communicator reports: whether the receive number \<open>k\<close> from a source has completed, the buffer it then
  releases given the one that was posted, and the completed sends. Completions come in the order of posting.
\<close>

record sparse_comm =
  sc_received :: "nat \<Rightarrow> nat \<Rightarrow> bool"
  sc_buffer :: "nat \<Rightarrow> nat \<Rightarrow> buffer option \<Rightarrow> buffer"
  sc_done :: "nat list"

definition completed_receives :: "sparse_comm \<Rightarrow> (nat \<times> nat \<times> buffer option) list \<Rightarrow> nat list" where
  "completed_receives sc futures = filter (\<lambda>i. case futures ! i of (src, k, _) \<Rightarrow> sc_received sc src k) [0..<length futures]"

definition complete_data_messages :: "sparse_comm \<Rightarrow> ('w sparse_scheme, unit) act" where
  "complete_data_messages sc s =
     (let futures = sa_receive_futures s in
      case test_some (sa_receive_posted s) futures (\<lambda>i. case futures ! i of (src, k, b) \<Rightarrow> sc_buffer sc src k b)
             (completed_receives sc futures) of
        Inl e \<Rightarrow> (Inl e, s)
      | Inr (completed, chunks, rest) \<Rightarrow>
          place_completed completed (s\<lparr>sa_receive_posted := chunks, sa_receive_futures := rest\<rparr>))"

definition sparse_containers_empty :: "'w sparse_scheme \<Rightarrow> bool" where
  "sparse_containers_empty s \<longleftrightarrow>
     pb_empty (sa_outgoing s) \<and> sa_receive_posted s = [] \<and> sa_receive_futures s = [] \<and> sa_fire_and_forget s = [] \<and>
     (\<forall>src\<in>set (sa_srcs s). ss_incoming (sa_source s src) = [])"

definition have_all_data :: "'w sparse_scheme \<Rightarrow> bool" where
  "have_all_data s \<longleftrightarrow> (\<forall>src\<in>set (sa_srcs s). source_ready (sa_source s src))"

definition sparse_event_loop :: "stream \<Rightarrow> sparse_comm \<Rightarrow> ('w sparse_scheme, progress_state) act" where
  "sparse_event_loop strm sc =
     act_bind send_ready_messages (\<lambda>_.
     act_bind (\<lambda>s. receive_metadata_messages strm (sa_srcs s) s) (\<lambda>_.
     act_bind (\<lambda>s. receive_data_messages (sa_srcs s) s) (\<lambda>_.
     act_bind (complete_data_messages sc) (\<lambda>_ s.
       let s1 = s\<lparr>sa_fire_and_forget := nths (sa_fire_and_forget s) (- set (sc_done sc))\<rparr> in
       if sa_locally_finished s1 \<and> have_all_data s1 \<and> sparse_containers_empty s1 then
         (Inr Done, s1\<lparr>sa_can_extract := True, sa_callback := False,
                       sa_callback_calls := sa_callback_calls s1 + (if sa_callback s1 then 1 else 0)\<rparr>)
       else (Inr InProgress, s1)))))"

end
