(* ===== verification/Sparse_Flow.thy ===== *)
theory Sparse_Flow
  imports Sparse_Alltoall
begin

text \<open>
  What one iteration of a sparse all-to-all does. \<open>sflows\<close> says that a rank keeps what it takes from its sources, sends
  what it takes out of its box, and counts both. \<open>sends_ok\<close> and \<open>receives_ok\<close> are the discipline of the second tag: payloads
  go out in the order of their announcements, and receives are posted in that order. Every part of
  \<^verbatim>\<open>event_loop\<close> is shown to keep them.
\<close>

section \<open>What flows through a rank\<close>

abbreviation to_dst :: "nat \<Rightarrow> coll_chunk list \<Rightarrow> coll_chunk list" where
  "to_dst r cs \<equiv> filter (\<lambda>c. cc_destination c = r) cs"

definition held :: "nat \<Rightarrow> 'w sparse_scheme \<Rightarrow> (u64 \<times> u8 list option \<times> u64) multiset" where
  "held p s = descs (ss_chunks (sa_source s p)) + descs (ss_incoming (sa_source s p)) +
     descs (filter (\<lambda>c. origin c = p) (sa_receive_posted s))"

definition filled :: "coll_chunk \<Rightarrow> bool" where
  "filled c \<longleftrightarrow> is_data c \<and> (\<exists>d. cc_data c = Some d \<and> buf_size d = unat (cc_data_size c))"

definition source_ok :: "nat \<Rightarrow> source_state \<Rightarrow> bool" where
  "source_ok p ss \<longleftrightarrow> (\<forall>c\<in>set (ss_incoming ss). filled c \<and> origin c = p) \<and> (\<forall>c\<in>set (ss_chunks ss). filled c)"

definition sources_ok :: "'w sparse_scheme \<Rightarrow> bool" where
  "sources_ok s \<longleftrightarrow> (\<forall>p. source_ok p (sa_source s p)) \<and> (\<forall>c\<in>set (sa_receive_posted s). is_data c) \<and>
     (\<forall>c\<in>set (sa_outgoing s). \<not> is_data c \<longrightarrow> cc_data c = None)"

lemma filled_data: "filled c \<Longrightarrow> is_data c"
  by (simp add: filled_def)

text \<open>
  \<open>sflows s ms out s'\<close>: between \<open>s\<close> and \<open>s'\<close> the rank took the messages \<open>ms p\<close> of every rank \<open>p\<close> and sent \<open>out r\<close> to
  every rank \<open>r\<close>. It keeps what it takes, it sends what it takes out of its box, and it counts.
\<close>

definition sflows :: "'w sparse_scheme \<Rightarrow> (nat \<Rightarrow> u8 list list) \<Rightarrow> (nat \<Rightarrow> u8 list list) \<Rightarrow> 'w sparse_scheme \<Rightarrow> bool" where
  "sflows s ms out s' \<longleftrightarrow>
     sa_rank s' = sa_rank s \<and> sa_nranks s' = sa_nranks s \<and> sa_srcs s' = sa_srcs s \<and> sa_dsts s' = sa_dsts s \<and>
     sa_next s' = sa_next s \<and> sa_locally_finished s' = sa_locally_finished s \<and> sources_ok s' \<and>
     (\<forall>p. sa_inbox s p = ms p @ sa_inbox s' p) \<and> (\<forall>r. sa_outbox s' r = sa_outbox s r @ out r) \<and>
     (\<forall>r. descs (to_dst r (sa_outgoing s)) = descs (to_dst r (sa_outgoing s')) + announced_all (out r)) \<and>
     (\<forall>r. pending (to_dst r (sa_outgoing s)) = pending (to_dst r (sa_outgoing s')) + markers (out r)) \<and>
     (\<forall>r. length (out r) = size (announced_all (out r)) + size (markers (out r))) \<and>
     (\<forall>p. held p s' = held p s + announced_all (ms p)) \<and>
     (\<forall>p. ss_received (sa_source s' p) = ss_received (sa_source s p) + word_of_nat (length (ms p))) \<and>
     (\<forall>p. ss_expected (sa_source s' p) = ss_expected (sa_source s p) + total_sequence (markers (ms p)))"

abbreviation nothing :: "nat \<Rightarrow> u8 list list" where
  "nothing \<equiv> \<lambda>_. []"

lemma sflows_refl: "sources_ok s \<Longrightarrow> sflows s nothing nothing s"
  by (simp add: sflows_def)

lemma sflows_trans:
  "sflows s ms out s1 \<Longrightarrow> sflows s1 ms' out' s2 \<Longrightarrow> sflows s (\<lambda>p. ms p @ ms' p) (\<lambda>r. out r @ out' r) s2"
  unfolding sflows_def by (simp add: ac_simps)

lemma sflows_ok: "sflows s ms out s' \<Longrightarrow> sources_ok s'"
  by (simp add: sflows_def)

lemma sa_frame:
  fixes s t :: "'w sparse_scheme"
  assumes "br.more s = br.more t"
  shows "sa_rank s = sa_rank t" "sa_nranks s = sa_nranks t" "sa_srcs s = sa_srcs t" "sa_dsts s = sa_dsts t" "sa_next s = sa_next t"
    "sa_locally_finished s = sa_locally_finished t" "sa_can_extract s = sa_can_extract t" "sa_outgoing s = sa_outgoing t"
    "sa_receive_posted s = sa_receive_posted t" "sa_receive_futures s = sa_receive_futures t"
    "sa_fire_and_forget s = sa_fire_and_forget t" "sa_source s = sa_source t" "sa_inbox s = sa_inbox t" "sa_outbox s = sa_outbox t"
    "sa_payloads s = sa_payloads t" "sa_posts s = sa_posts t"
  using assms by (cases s; cases t; simp)+

lemma sources_ok_frame: "br.more s = br.more t \<Longrightarrow> sources_ok s = sources_ok (t :: 'w sparse_scheme)"
  using sa_frame [of s t] by (simp add: sources_ok_def)

lemma sflows_frame:
  fixes s t s' :: "'w sparse_scheme"
  assumes "sflows s ms out s'" and "br.more t = br.more s"
  shows "sflows t ms out s'"
  using assms(1) unfolding sflows_def held_def sa_frame [OF assms(2)] by blast

lemma set_source_fields [simp]:
  "sa_source (set_source p ss s) = (sa_source s)(p := ss)" "sa_rank (set_source p ss s) = sa_rank s" "sa_nranks (set_source p ss s) = sa_nranks s"
  "sa_srcs (set_source p ss s) = sa_srcs s" "sa_dsts (set_source p ss s) = sa_dsts s" "sa_next (set_source p ss s) = sa_next s"
  "sa_locally_finished (set_source p ss s) = sa_locally_finished s" "sa_outgoing (set_source p ss s) = sa_outgoing s"
  "sa_receive_posted (set_source p ss s) = sa_receive_posted s" "sa_receive_futures (set_source p ss s) = sa_receive_futures s"
  "sa_inbox (set_source p ss s) = sa_inbox s" "sa_outbox (set_source p ss s) = sa_outbox s"
  "sa_fire_and_forget (set_source p ss s) = sa_fire_and_forget s" "sa_can_extract (set_source p ss s) = sa_can_extract s"
  "sa_payloads (set_source p ss s) = sa_payloads s" "sa_posts (set_source p ss s) = sa_posts s"
  by (simp_all add: set_source_def)

lemma set_source_twice [simp]: "set_source p ss (set_source p ss' s) = set_source p ss s"
  by (simp add: set_source_def)

lemma sources_ok_set: "sources_ok s \<Longrightarrow> source_ok p ss \<Longrightarrow> sources_ok (set_source p ss s)"
  by (simp add: sources_ok_def)

lemma sources_ok_at: "sources_ok s \<Longrightarrow> source_ok p (sa_source s p)"
  by (simp add: sources_ok_def)

section \<open>Sending\<close>

lemma sparse_send_ready_flows:
  fixes s :: "'w sparse_scheme"
  assumes "sources_ok (s\<lparr>sa_outgoing := c # cs\<rparr>)"
  shows "sflows (s\<lparr>sa_outgoing := c # cs\<rparr>) nothing (\<lambda>r. if r = cc_destination c then [coll_serialize c] else [])
    (sparse_send_ready c (s\<lparr>sa_outgoing := cs\<rparr>))"
proof -
  have d: "announced (coll_serialize c) = {#desc c#}" "marker (coll_serialize c) = {#}" if "is_data c"
    using that by (auto simp: announced_coll_serialize marker_coll_serialize is_finish_def desc_def)
  have f: "announced (coll_serialize c) = {#}" "marker (coll_serialize c) = {#cc_id c#}" if "\<not> is_data c"
    using that assms by (auto simp: announced_coll_serialize marker_coll_serialize is_finish_def sources_ok_def)
  have ok: "sources_ok (sparse_send_ready c (s\<lparr>sa_outgoing := cs\<rparr>))"
    using assms by (simp add: sources_ok_def sparse_send_ready_def Let_def)
  have "sa_outgoing (sparse_send_ready c (s\<lparr>sa_outgoing := cs\<rparr>)) = cs" "sa_source (sparse_send_ready c (s\<lparr>sa_outgoing := cs\<rparr>)) = sa_source s"
    "sa_receive_posted (sparse_send_ready c (s\<lparr>sa_outgoing := cs\<rparr>)) = sa_receive_posted s"
    by (simp_all add: sparse_send_ready_def Let_def)
  note F = this
  show ?thesis
    unfolding sflows_def held_def F
    by (cases "is_data c") (use ok d f in \<open>simp_all add: sparse_send_ready_def Let_def\<close>)
qed

lemma sparse_send_all_flows:
  fixes s :: "'w sparse_scheme"
  assumes "sources_ok (s\<lparr>sa_outgoing := cs @ pb\<rparr>)"
  shows "\<exists>out. sflows (s\<lparr>sa_outgoing := cs @ pb\<rparr>) nothing out (foldl (\<lambda>s c. sparse_send_ready c s) (s\<lparr>sa_outgoing := pb\<rparr>) cs)"
  using assms
proof (induction cs arbitrary: s)
  case Nil
  then show ?case using sflows_refl by fastforce
next
  case (Cons c cs)
  have r: "sparse_send_ready c (s\<lparr>sa_outgoing := xs\<rparr>) = (sparse_send_ready c s)\<lparr>sa_outgoing := xs\<rparr>" for xs
    by (simp add: sparse_send_ready_def Let_def)
  have 1: "sflows (s\<lparr>sa_outgoing := c # cs @ pb\<rparr>) nothing (\<lambda>r. if r = cc_destination c then [coll_serialize c] else [])
      ((sparse_send_ready c s)\<lparr>sa_outgoing := cs @ pb\<rparr>)"
    using sparse_send_ready_flows [where s = s and c = c and cs = "cs @ pb"] Cons.prems by (simp add: r)
  from Cons.IH [OF sflows_ok [OF 1]] obtain out where
    2: "sflows ((sparse_send_ready c s)\<lparr>sa_outgoing := cs @ pb\<rparr>) nothing out
      (foldl (\<lambda>s c. sparse_send_ready c s) ((sparse_send_ready c s)\<lparr>sa_outgoing := pb\<rparr>) cs)" by blast
  from sflows_trans [OF 1 2] show ?case by (auto simp: r)
qed

lemma sflows_permute:
  assumes "sflows (s\<lparr>sa_outgoing := cs\<rparr>) ms out s'" and "mset cs = mset (sa_outgoing s)"
  shows "sflows s ms out s'"
proof -
  have d: "descs (to_dst r cs) = descs (to_dst r (sa_outgoing s))" "pending (to_dst r cs) = pending (to_dst r (sa_outgoing s))" for r
    unfolding descs_def pending_def by (simp_all add: assms(2))
  from assms(1) show ?thesis unfolding sflows_def held_def by (simp add: d)
qed

lemma sources_ok_permute: "mset cs = mset (sa_outgoing s) \<Longrightarrow> sources_ok s \<Longrightarrow> sources_ok (s\<lparr>sa_outgoing := cs\<rparr>)"
  unfolding sources_ok_def by (auto dest: mset_eq_setD)

lemma send_ready_messages_flows:
  fixes s s' :: "'w sparse_scheme"
  assumes "send_ready_messages s = (Inr (), s')" and "sources_ok s"
  shows "\<exists>out. sflows s nothing out s'"
proof -
  obtain ready pb where x: "pb_extract_ready (sa_outgoing s) = (Inr ready, pb)"
    and s': "s' = foldl (\<lambda>s c. sparse_send_ready c s) (s\<lparr>sa_outgoing := pb\<rparr>) ready"
    using assms(1) by (auto simp: send_ready_messages_def split: prod.splits sum.splits)
  note m = pb_extract_ready_mset [OF x]
  from sparse_send_all_flows [OF sources_ok_permute [OF m assms(2)]] sflows_permute [OF _ m] show ?thesis
    unfolding s' by blast
qed


section \<open>Receiving\<close>

abbreviation from_src :: "nat \<Rightarrow> u8 list list \<Rightarrow> nat \<Rightarrow> u8 list list" where
  "from_src src ms \<equiv> (\<lambda>p. if p = src then ms else [])"

lemma coll_deserialize_filled:
  fixes b b' :: "'w br_scheme"
  assumes "coll_deserialize strm m b = (Inr c, b')" and "cc_metadata c \<noteq> None"
  shows "filled c"
proof -
  obtain cid n md where m: "read_coll_message m = Inr (Data_Message cid n md)"
    using coll_deserialize_Inr [OF assms(1)] assms(2) by (auto simp: new_finish_chunk_def)
  obtain d res b1 where re: "reserve_or_fail (unat n) ADDRESSABLE_MEMORY_TYPES b = (Inr res, b1)"
    and w: "with_reservation res (\<lambda>st. make_buffer (res_size (snd st)) strm st) b1 = (Inr d, b')"
    and c: "new_data_chunk cid INVALID_RANK (Some md) (Some d) = Inr c"
    using assms(1) by (auto simp: coll_deserialize_def m act_bind_cases)
  from w obtain st where mk: "make_buffer (res_size res) strm (b1, res) = (Inr d, st)"
    by (auto simp: with_reservation_def split: prod.splits sum.splits)
  have "buf_size d = unat n" using make_buffer_Inr [OF mk] reserve_or_fail_Inr [OF re] by (simp add: fresh_def)
  then show ?thesis using c by (auto simp: filled_def new_data_chunk_def)
qed

lemma accept_from_flows:
  fixes s s' :: "'w sparse_scheme"
  assumes "accept_from strm src m (set_source src ((sa_source s src)\<lparr>ss_received := ss_received (sa_source s src) + 1\<rparr>)
      (s\<lparr>sa_inbox := (sa_inbox s)(src := ms)\<rparr>)) = (Inr (), s')"
    and "sa_inbox s src = m # ms" and "sources_ok s"
  shows "sflows s (from_src src [m]) nothing s'"
proof -
  let ?t = "set_source src ((sa_source s src)\<lparr>ss_received := ss_received (sa_source s src) + 1\<rparr>) (s\<lparr>sa_inbox := (sa_inbox s)(src := ms)\<rparr>)"
  obtain c s1 where d: "coll_deserialize strm m ?t = (Inr c, s1)"
    and s': "(let ss = sa_source s1 src in
       if origin c \<noteq> src then (Inl Logic_Error, s1)
       else if is_finish c then
         (if ss_expected ss \<noteq> 0 then (Inl Logic_Error, s1)
          else (Inr (), set_source src (ss\<lparr>ss_expected := sequence c\<rparr>) s1))
       else (Inr (), set_source src (ss\<lparr>ss_incoming := ss_incoming ss @ [c]\<rparr>) s1)) = ((Inr (), s') :: unit result \<times> 'w sparse_scheme)"
    using assms(1) by (auto simp: accept_from_def act_bind_cases)
  note D = coll_deserialize_Inr [OF d] and N = coll_deserialize_filled [OF d]
  then have fr: "br.more s1 = br.more ?t" by blast
  note F = sa_frame [OF fr, simplified]
  have "sources_ok (s\<lparr>sa_inbox := (sa_inbox s)(src := ms)\<rparr>)" using assms(3) by (simp add: sources_ok_def)
  from sources_ok_set [OF this, of src] sources_ok_at [OF assms(3), of src]
  have ok: "sources_ok s1" unfolding sources_ok_frame [OF fr] by (simp add: source_ok_def)
  have o: "origin c = src" using s' by (auto simp: Let_def split: if_splits)
  from D consider cid where "read_coll_message m = Inr (Finish_Message cid)" "c = new_finish_chunk cid INVALID_RANK"
    | "read_coll_message m = Inr (Data_Message (cc_id c) (cc_data_size c) (the (cc_metadata c)))" "cc_metadata c \<noteq> None" by auto
  then show ?thesis
  proof cases
    case 1
    then have f: "is_finish c" "cc_id c = cid" by (simp_all add: is_finish_def new_finish_chunk_def)
    have m: "marker m = {#cid#}" "announced m = {#}" using 1 by (simp_all add: marker_def announced_def)
    have e: "ss_expected (sa_source s1 src) = 0" and s'': "s' = set_source src ((sa_source s1 src)\<lparr>ss_expected := sequence c\<rparr>) s1"
      using s' f o by (auto simp: Let_def split: if_splits)
    have "sources_ok s'" using sources_ok_at [OF ok, of src] unfolding s'' by (intro sources_ok_set ok) (simp add: source_ok_def)
    then show ?thesis using e assms(2) m f unfolding sflows_def s'' held_def by (simp add: F sequence_id)
  next
    case 2
    then have f: "\<not> is_finish c" "announced m = {#desc c#}" "marker m = {#}"
      by (auto simp: is_finish_def announced_def marker_def desc_def)
    have s'': "s' = set_source src ((sa_source s1 src)\<lparr>ss_incoming := ss_incoming (sa_source s1 src) @ [c]\<rparr>) s1"
      using s' f o by (auto simp: Let_def)
    have "sources_ok s'" using sources_ok_at [OF ok, of src] 2(2) N o unfolding s'' by (intro sources_ok_set ok) (auto simp: source_ok_def)
    then show ?thesis using assms(2) f 2(2) unfolding sflows_def s'' held_def by (simp add: F)
  qed
qed

lemma receive_from_flows:
  fixes s s' :: "'w sparse_scheme"
  assumes "receive_from strm src (sa_inbox s src) s = (Inr (), s')" and "sources_ok s"
  shows "\<exists>ms. sflows s ms nothing s'"
proof -
  have "\<exists>ms. sflows s ms nothing s'"
    if "sa_inbox s src = l" "receive_from strm src l s = (Inr (), s')" "sources_ok s" for l and s :: "'w sparse_scheme"
    using that
  proof (induction l arbitrary: s)
    case Nil
    then show ?case using sflows_refl by auto
  next
    case (Cons m ms)
    show ?case
    proof (cases "source_ready (sa_source s src)")
      case True
      then show ?thesis using Cons.prems sflows_refl by auto
    next
      case False
      then obtain s1 where a: "accept_from strm src m (set_source src ((sa_source s src)\<lparr>ss_received := ss_received (sa_source s src) + 1\<rparr>)
          (s\<lparr>sa_inbox := (sa_inbox s)(src := ms)\<rparr>)) = (Inr (), s1)" and r: "receive_from strm src ms s1 = (Inr (), s')"
        using Cons.prems by (auto simp: act_bind_cases)
      note 1 = accept_from_flows [OF a Cons.prems(1,3)]
      have "sa_inbox s src = from_src src [m] src @ sa_inbox s1 src" using 1 unfolding sflows_def by blast
      then have "sa_inbox s1 src = ms" using Cons.prems(1) by simp
      from Cons.IH [OF this r sflows_ok [OF 1]] obtain ms' where "sflows s1 ms' nothing s'" by blast
      from sflows_trans [OF 1 this] show ?thesis by auto
    qed
  qed
  then show ?thesis using assms by blast
qed

lemma receive_metadata_messages_flows:
  fixes s s' :: "'w sparse_scheme"
  shows "receive_metadata_messages strm srcs s = (Inr (), s') \<Longrightarrow> sources_ok s \<Longrightarrow> \<exists>ms. sflows s ms nothing s'"
proof (induction srcs arbitrary: s)
  case Nil
  then show ?case using sflows_refl by auto
next
  case (Cons src srcs)
  then obtain s1 where 1: "receive_from strm src (sa_inbox s src) s = (Inr (), s1)" and 2: "receive_metadata_messages strm srcs s1 = (Inr (), s')"
    by (auto simp: act_bind_cases)
  from receive_from_flows [OF 1 Cons.prems(2)] obtain ms where F: "sflows s ms nothing s1" by blast
  from Cons.IH [OF 2 sflows_ok [OF F]] obtain ms' where "sflows s1 ms' nothing s'" by blast
  from sflows_trans [OF F this] show ?case by auto
qed

section \<open>Posting and completing receives\<close>

lemma receive_data_from_flows:
  fixes s s' :: "'w sparse_scheme"
  assumes "receive_data_from src cs s = (Inr (), s')" and "sources_ok (set_source src ((sa_source s src)\<lparr>ss_incoming := cs\<rparr>) s)"
  shows "sflows (set_source src ((sa_source s src)\<lparr>ss_incoming := cs\<rparr>) s) nothing nothing s'"
  using assms
proof (induction cs arbitrary: s)
  case Nil
  then show ?case using sflows_refl by auto
next
  case (Cons c cs)
  let ?s = "set_source src ((sa_source s src)\<lparr>ss_incoming := c # cs\<rparr>) s"
  have so: "source_ok src ((sa_source s src)\<lparr>ss_incoming := c # cs\<rparr>)" using sources_ok_at [OF Cons.prems(2), of src] by simp
  then have c: "is_data c" "origin c = src" "filled c" by (simp_all add: source_ok_def filled_data)
  obtain r where r: "coll_is_ready c = Inr r" using Cons.prems(1) by (auto split: sum.splits)
  consider "\<not> r" | "r" "cc_data_size c = 0" | "r" "cc_data_size c \<noteq> 0" by blast
  then show ?case
  proof cases
    case 1
    then show ?thesis using Cons.prems r sflows_refl by auto
  next
    case 2
    let ?t = "set_source src ((sa_source s src)\<lparr>ss_chunks := ss_chunks (sa_source s src) @ [c]\<rparr>) s"
    let ?t' = "set_source src ((sa_source ?t src)\<lparr>ss_incoming := cs\<rparr>) ?t"
    have g: "receive_data_from src cs ?t = (Inr (), s')" using Cons.prems(1) 2 r by simp
    have "source_ok src ((sa_source ?t src)\<lparr>ss_incoming := cs\<rparr>)" using so by (simp add: source_ok_def)
    from sources_ok_set [OF Cons.prems(2) this] have ok: "sources_ok ?t'" by simp
    have "sflows ?s nothing nothing ?t'" using ok c by (simp add: sflows_def held_def)
    from sflows_trans [OF this Cons.IH [OF g ok]] show ?thesis by simp
  next
    case 3
    let ?t = "s\<lparr>sa_receive_posted := sa_receive_posted s @ [c\<lparr>cc_data := None\<rparr>],
        sa_receive_futures := sa_receive_futures s @ [(src, sa_posts s src, cc_data c)],
        sa_posts := (sa_posts s)(src := Suc (sa_posts s src))\<rparr>"
    let ?t' = "set_source src ((sa_source ?t src)\<lparr>ss_incoming := cs\<rparr>) ?t"
    have g: "receive_data_from src cs ?t = (Inr (), s')" using Cons.prems(1) 3 r by (simp add: coll_release_data_buffer_def)
    have "source_ok src ((sa_source ?t src)\<lparr>ss_incoming := cs\<rparr>)" using so by (simp add: source_ok_def)
    from sources_ok_set [OF Cons.prems(2) this] have ok: "sources_ok ?t'" using Cons.prems(2) c by (simp add: sources_ok_def)
    have k: "origin (c\<lparr>cc_data := None\<rparr>) = src" "desc (c\<lparr>cc_data := None\<rparr>) = desc c" using c by (simp_all add: origin_def desc_def)
    have "sflows ?s nothing nothing ?t'" using ok c k by (simp add: sflows_def held_def)
    from sflows_trans [OF this Cons.IH [OF g ok]] show ?thesis by simp
  qed
qed

lemma set_source_same: "set_source src ((sa_source s src)\<lparr>ss_incoming := ss_incoming (sa_source s src)\<rparr>) s = s"
  by (simp add: set_source_def)

lemma receive_data_messages_flows:
  fixes s s' :: "'w sparse_scheme"
  shows "receive_data_messages srcs s = (Inr (), s') \<Longrightarrow> sources_ok s \<Longrightarrow> sflows s nothing nothing s'"
proof (induction srcs arbitrary: s)
  case Nil
  then show ?case using sflows_refl by auto
next
  case (Cons src srcs)
  then obtain s1 where 1: "receive_data_from src (ss_incoming (sa_source s src)) s = (Inr (), s1)" and 2: "receive_data_messages srcs s1 = (Inr (), s')"
    by (auto simp: act_bind_cases)
  note F = receive_data_from_flows [OF 1, unfolded set_source_same, OF Cons.prems(2)]
  from sflows_trans [OF F Cons.IH [OF 2 sflows_ok [OF F]]] show ?case by simp
qed


lemma descs_from_core: "descs (filter (\<lambda>c. origin c = p) cs) =
    image_mset desc (filter_mset is_data (filter_mset (\<lambda>c. origin c = p) (image_mset core (mset cs))))"
  by (simp add: descs_def filter_mset_image_mset image_mset.compositionality o_def filter_filter_mset conj_commute)

lemma test_some_from:
  assumes "test_some chunks futures fut is = Inr (dn, rest, fs)" and "distinct is"
  shows "descs (filter (\<lambda>c. origin c = p) dn) + descs (filter (\<lambda>c. origin c = p) rest) = descs (filter (\<lambda>c. origin c = p) chunks)"
  unfolding descs_from_core by (simp flip: test_some_core [OF assms])

lemma attach_completed_filled:
  "attach_completed chunks fut is = Inr cs \<Longrightarrow> \<forall>c\<in>set chunks. is_data c \<Longrightarrow> c \<in> set cs \<Longrightarrow> filled c"
  by (induction "is" arbitrary: cs) (auto simp: res_bind_eq_Inr attach_data_buffer_def filled_def split: if_splits)

lemma test_some_filled:
  "test_some chunks futures fut is = Inr (dn, rest, fs) \<Longrightarrow> \<forall>c\<in>set chunks. is_data c \<Longrightarrow> \<forall>c\<in>set dn. filled c"
  using attach_completed_filled by (auto simp: test_some_def res_bind_eq_Inr split: if_splits)

lemma place_completed_eq:
  "place_completed cs s = (Inr (), s') \<Longrightarrow>
   s' = s\<lparr>sa_source := \<lambda>p. (sa_source s p)\<lparr>ss_chunks := ss_chunks (sa_source s p) @ filter (\<lambda>c. origin c = p) cs\<rparr>\<rparr>"
proof (induction cs arbitrary: s)
  case Nil
  then show ?case by simp
next
  case (Cons c cs)
  let ?t = "set_source (origin c) ((sa_source s (origin c))\<lparr>ss_chunks := ss_chunks (sa_source s (origin c)) @ [c]\<rparr>) s"
  have "place_completed cs ?t = (Inr (), s')" using Cons.prems by (simp add: Let_def split: if_splits)
  note e = Cons.IH [OF this]
  have f: "(\<lambda>p. (sa_source ?t p)\<lparr>ss_chunks := ss_chunks (sa_source ?t p) @ filter (\<lambda>c. origin c = p) cs\<rparr>) =
      (\<lambda>p. (sa_source s p)\<lparr>ss_chunks := ss_chunks (sa_source s p) @ filter (\<lambda>c. origin c = p) (c # cs)\<rparr>)"
    by (rule ext) simp
  show ?case unfolding e f by (simp add: set_source_def)
qed

lemma complete_data_messages_flows:
  fixes s s' :: "'w sparse_scheme"
  assumes "complete_data_messages sc s = (Inr (), s')" and "sources_ok s"
  shows "sflows s nothing nothing s'"
proof -
  let ?fs = "sa_receive_futures s"
  obtain dn chunks fs where t: "test_some (sa_receive_posted s) ?fs (\<lambda>i. case ?fs ! i of (src, k, b) \<Rightarrow> sc_buffer sc src k b)
      (completed_receives sc ?fs) = Inr (dn, chunks, fs)"
    and p: "place_completed dn (s\<lparr>sa_receive_posted := chunks, sa_receive_futures := fs\<rparr>) = (Inr (), s')"
    using assms(1) by (auto simp: complete_data_messages_def Let_def split: sum.splits)
  have di: "distinct (completed_receives sc ?fs)" by (simp add: completed_receives_def)
  have d: "\<forall>c\<in>set (sa_receive_posted s). is_data c" using assms(2) by (simp add: sources_ok_def)
  note B = test_some_filled [OF t d]
  have "\<forall>c\<in>set (sa_receive_posted s). is_data (core c)" using d by simp
  note D = core_all [OF test_some_descs(2) [OF t di] this, simplified]
  have s': "s' = s\<lparr>sa_receive_posted := chunks, sa_receive_futures := fs,
      sa_source := \<lambda>p. (sa_source s p)\<lparr>ss_chunks := ss_chunks (sa_source s p) @ filter (\<lambda>c. origin c = p) dn\<rparr>\<rparr>"
    using place_completed_eq [OF p] by simp
  have so: "source_ok p ((sa_source s p)\<lparr>ss_chunks := ss_chunks (sa_source s p) @ filter (\<lambda>c. origin c = p) dn\<rparr>)" for p
    using sources_ok_at [OF assms(2), of p] B D(1) by (auto simp: source_ok_def)
  have "sources_ok s'" using assms(2) so D(2) unfolding s' by (simp add: sources_ok_def)
  moreover have "held p s' = held p s" for p
    unfolding held_def s' using test_some_from [OF t di, of p] by (simp add: ac_simps)
  ultimately show ?thesis unfolding sflows_def s' by simp
qed

section \<open>One iteration\<close>

lemma sparse_event_loop_flows:
  fixes s s' :: "'w sparse_scheme"
  assumes "sparse_event_loop strm sc s = (Inr st, s')" and "sources_ok s"
  shows "\<exists>ms out. sflows s ms out s'"
    and "st = Done \<Longrightarrow> sa_locally_finished s' \<and> have_all_data s' \<and> sparse_containers_empty s' \<and> sa_can_extract s'"
proof -
  obtain s1 s2 s3 s4 where 1: "send_ready_messages s = (Inr (), s1)" and 2: "receive_metadata_messages strm (sa_srcs s1) s1 = (Inr (), s2)"
    and 3: "receive_data_messages (sa_srcs s2) s2 = (Inr (), s3)" and 4: "complete_data_messages sc s3 = (Inr (), s4)"
    and e: "(let s1 = s4\<lparr>sa_fire_and_forget := nths (sa_fire_and_forget s4) (- set (sc_done sc))\<rparr> in
       if sa_locally_finished s1 \<and> have_all_data s1 \<and> sparse_containers_empty s1 then
         (Inr Done, s1\<lparr>sa_can_extract := True, sa_callback := False,
                       sa_callback_calls := sa_callback_calls s1 + (if sa_callback s1 then 1 else 0)\<rparr>)
       else (Inr InProgress, s1)) = ((Inr st, s') :: progress_state result \<times> 'w sparse_scheme)"
    using assms(1) by (auto simp: sparse_event_loop_def act_bind_cases)
  from send_ready_messages_flows [OF 1 assms(2)] obtain out where F1: "sflows s nothing out s1" by blast
  from receive_metadata_messages_flows [OF 2 sflows_ok [OF F1]] obtain ms where F2: "sflows s1 ms nothing s2" by blast
  note F3 = receive_data_messages_flows [OF 3 sflows_ok [OF F2]]
  note F4 = complete_data_messages_flows [OF 4 sflows_ok [OF F3]]
  have "sflows s4 nothing nothing s'" using sflows_ok [OF F4] e
    by (auto simp: Let_def sflows_def sources_ok_def held_def split: if_splits)
  from sflows_trans [OF sflows_trans [OF sflows_trans [OF sflows_trans [OF F1 F2] F3] F4] this]
  show "\<exists>ms out. sflows s ms out s'" by blast
  show "st = Done \<Longrightarrow> sa_locally_finished s' \<and> have_all_data s' \<and> sparse_containers_empty s' \<and> sa_can_extract s'"
    using e by (auto simp: Let_def have_all_data_def sparse_containers_empty_def split: if_splits)
qed


section \<open>Payloads\<close>

text \<open>
  A chunk with data announces a payload, which follows on the other tag. Payloads carry no identifier: the
  receiver relies on their order. \<open>payload_ids\<close> lists the chunks whose payloads a stream of metadata announces.
\<close>

definition payload_id :: "u8 list \<Rightarrow> u64 list" where
  "payload_id m = (case read_coll_message m of Inr (Data_Message cid n md) \<Rightarrow> if n = 0 then [] else [cid] | _ \<Rightarrow> [])"

definition payload_ids :: "u8 list list \<Rightarrow> u64 list" where
  "payload_ids ms = concat (map payload_id ms)"

lemma payload_ids_simps [simp]: "payload_ids [] = []" "payload_ids (xs @ ys) = payload_ids xs @ payload_ids ys"
  "payload_ids (m # ms) = payload_id m @ payload_ids ms"
  by (simp_all add: payload_ids_def)

lemma payload_id_serialize: "payload_id (coll_serialize c) = (if is_finish c \<or> cc_data_size c = 0 then [] else [cc_id c])"
  by (simp add: payload_id_def coll_serialize_def coll_message_of_def read_write_coll_message del: write_coll_message.simps)

definition heavy :: "coll_chunk list \<Rightarrow> u64 list" where
  "heavy cs = map cc_id (filter (\<lambda>c. cc_data_size c \<noteq> 0) cs)"

lemma heavy_simps [simp]: "heavy [] = []" "heavy (xs @ ys) = heavy xs @ heavy ys"
  "heavy (c # cs) = (if cc_data_size c = 0 then heavy cs else cc_id c # heavy cs)"
  by (simp_all add: heavy_def)

text \<open>The bytes a chunk carries, among those known for its identifier.\<close>

definition carries :: "(u64 \<times> u8 list option) set \<Rightarrow> u64 \<Rightarrow> buffer option \<Rightarrow> bool" where
  "carries S cid b \<longleftrightarrow> (\<exists>d. b = Some d \<and> (cid, buf_storage d) \<in> S)"

definition outgoing_ok :: "(u64 \<times> u8 list option) set \<Rightarrow> coll_chunk \<Rightarrow> bool" where
  "outgoing_ok S c \<longleftrightarrow> (if is_data c then carries S (cc_id c) (cc_data c) else cc_data c = None \<and> cc_data_size c = 0)"

text \<open>What was sent on the second tag are the payloads announced on the first, in the same order.\<close>

definition sends_ok :: "(nat \<Rightarrow> (u64 \<times> u8 list option) set) \<Rightarrow> 'w sparse_scheme \<Rightarrow> bool" where
  "sends_ok S s \<longleftrightarrow> (\<forall>c\<in>set (sa_outgoing s). outgoing_ok (S (cc_destination c)) c) \<and>
     (\<forall>r. list_all2 (carries (S r)) (payload_ids (sa_outbox s r)) (sa_payloads s r))"

lemma sparse_send_ready_sends:
  fixes s :: "'w sparse_scheme"
  assumes "sends_ok S (s\<lparr>sa_outgoing := c # cs\<rparr>)"
  shows "sends_ok S (sparse_send_ready c (s\<lparr>sa_outgoing := cs\<rparr>))"
proof -
  have c: "outgoing_ok (S (cc_destination c)) c" using assms by (simp add: sends_ok_def)
  have p: "payload_id (coll_serialize c) = (if cc_data_size c = 0 then [] else [cc_id c])"
    using c by (auto simp: payload_id_serialize outgoing_ok_def is_finish_def split: if_splits)
  have d: "carries (S (cc_destination c)) (cc_id c) (cc_data c)" if "cc_data_size c \<noteq> 0"
    using c that by (auto simp: outgoing_ok_def split: if_splits)
  show ?thesis
    using assms d by (cases "cc_data_size c = 0")
      (auto simp: sends_ok_def sparse_send_ready_def Let_def p coll_release_data_buffer_def word_gt_0 list_all2_appendI)
qed

lemma send_ready_messages_sends:
  fixes s s' :: "'w sparse_scheme"
  assumes "send_ready_messages s = (Inr (), s')" and "sends_ok S s"
  shows "sends_ok S s'"
proof -
  obtain ready pb where x: "pb_extract_ready (sa_outgoing s) = (Inr ready, pb)"
    and s': "s' = foldl (\<lambda>s c. sparse_send_ready c s) (s\<lparr>sa_outgoing := pb\<rparr>) ready"
    using assms(1) by (auto simp: send_ready_messages_def split: prod.splits sum.splits)
  have "set (sa_outgoing s) = set (ready @ pb)" using pb_extract_ready_mset [OF x] by (metis mset_eq_setD)
  then have "sends_ok S (s\<lparr>sa_outgoing := ready @ pb\<rparr>)" using assms(2) by (simp add: sends_ok_def)
  then have "sends_ok S (foldl (\<lambda>s c. sparse_send_ready c s) (s\<lparr>sa_outgoing := pb\<rparr>) ready)"
  proof (induction ready arbitrary: s)
    case Nil
    then show ?case by simp
  next
    case (Cons c cs)
    have r: "sparse_send_ready c (s\<lparr>sa_outgoing := xs\<rparr>) = (sparse_send_ready c s)\<lparr>sa_outgoing := xs\<rparr>" for xs
      by (simp add: sparse_send_ready_def Let_def)
    from sparse_send_ready_sends [where S = S and s = s and c = c and cs = "cs @ pb"] Cons.prems
    have "sends_ok S ((sparse_send_ready c s)\<lparr>sa_outgoing := cs @ pb\<rparr>)" by (simp add: r)
    from Cons.IH [OF this] show ?case by (simp add: r)
  qed
  then show ?thesis by (simp add: s')
qed

text \<open>Sending and receiving use different parts of the state.\<close>

abbreviation sender_part :: "'w sparse_scheme \<Rightarrow> coll_chunk list \<times> (nat \<Rightarrow> u8 list list) \<times> (nat \<Rightarrow> buffer option list)" where
  "sender_part s \<equiv> (sa_outgoing s, sa_outbox s, sa_payloads s)"

abbreviation receiver_part ::
  "'w sparse_scheme \<Rightarrow> (nat \<Rightarrow> source_state) \<times> (nat \<Rightarrow> u8 list list) \<times> (nat \<Rightarrow> nat) \<times> coll_chunk list \<times> (nat \<times> nat \<times> buffer option) list" where
  "receiver_part s \<equiv> (sa_source s, sa_inbox s, sa_posts s, sa_receive_posted s, sa_receive_futures s)"

lemma send_ready_messages_receiver:
  fixes s s' :: "'w sparse_scheme"
  assumes "send_ready_messages s = (Inr (), s')"
  shows "receiver_part s' = receiver_part s"
proof -
  have "receiver_part (foldl (\<lambda>s c. sparse_send_ready c s) t cs) = receiver_part t" for t :: "'w sparse_scheme" and cs
    by (induction cs arbitrary: t) (simp_all add: sparse_send_ready_def Let_def)
  then show ?thesis using assms by (auto simp: send_ready_messages_def split: prod.splits sum.splits)
qed

lemma accept_from_sender:
  fixes s s' :: "'w sparse_scheme"
  assumes "accept_from strm src m s = (Inr (), s')"
  shows "sender_part s' = sender_part s"
proof -
  obtain c s1 where d: "coll_deserialize strm m s = (Inr c, s1)" and "sender_part s' = sender_part s1"
    using assms by (auto simp: accept_from_def act_bind_cases Let_def split: if_splits)
  then show ?thesis using coll_deserialize_Inr [OF d] sa_frame [of s1 s] by simp
qed

lemma receive_from_sender: "receive_from strm src ms s = (Inr (), s') \<Longrightarrow> sender_part s' = sender_part s"
proof (induction ms arbitrary: s)
  case (Cons m ms)
  show ?case
  proof (cases "source_ready (sa_source s src)")
    case False
    then obtain s1 where a: "accept_from strm src m (set_source src ((sa_source s src)\<lparr>ss_received := ss_received (sa_source s src) + 1\<rparr>)
        (s\<lparr>sa_inbox := (sa_inbox s)(src := ms)\<rparr>)) = (Inr (), s1)" and r: "receive_from strm src ms s1 = (Inr (), s')"
      using Cons.prems by (auto simp: act_bind_cases)
    from accept_from_sender [OF a] Cons.IH [OF r] show ?thesis by simp
  qed (use Cons.prems in simp)
qed simp

lemma receive_metadata_messages_sender: "receive_metadata_messages strm srcs s = (Inr (), s') \<Longrightarrow> sender_part s' = sender_part s"
  by (induction srcs arbitrary: s) (auto simp: act_bind_cases dest!: receive_from_sender)

lemma receive_data_from_sender: "receive_data_from src cs s = (Inr (), s') \<Longrightarrow> sender_part s' = sender_part s"
  by (induction cs arbitrary: s) (auto simp: coll_release_data_buffer_def split: sum.splits if_splits)

lemma receive_data_messages_sender: "receive_data_messages srcs s = (Inr (), s') \<Longrightarrow> sender_part s' = sender_part s"
  by (induction srcs arbitrary: s) (auto simp: act_bind_cases dest!: receive_data_from_sender)

lemma complete_data_messages_sender: "complete_data_messages sc s = (Inr (), s') \<Longrightarrow> sender_part s' = sender_part s"
  by (auto simp: complete_data_messages_def Let_def split: sum.splits dest!: place_completed_eq)


text \<open>
  The receiver of the stream \<open>w\<close>: \<open>k\<close> receives are posted, in the order of the announcements; what is announced and
  not yet posted is what waits in \<open>ss_incoming\<close>; and completed chunks carry the bytes that \<open>t\<close> knows for them.
\<close>

definition from_ok :: "u8 list list \<Rightarrow> (u64 \<times> u8 list option) set \<Rightarrow> u8 list list \<Rightarrow> nat \<Rightarrow> source_state \<Rightarrow> bool" where
  "from_ok w t inbox k ss \<longleftrightarrow>
     (\<exists>ms. w = ms @ inbox \<and> k \<le> length (payload_ids ms) \<and> drop k (payload_ids ms) = heavy (ss_incoming ss)) \<and>
     (\<forall>c\<in>set (ss_chunks ss). cc_data_size c \<noteq> 0 \<longrightarrow> carries t (cc_id c) (cc_data c))"

definition posted_at :: "(nat \<Rightarrow> u8 list list) \<Rightarrow> coll_chunk \<Rightarrow> nat \<times> nat \<times> buffer option \<Rightarrow> bool" where
  "posted_at W c f \<longleftrightarrow> (case f of (src, k, b) \<Rightarrow>
     origin c = src \<and> k < length (payload_ids (W src)) \<and> payload_ids (W src) ! k = cc_id c)"

definition receives_ok ::
  "(nat \<Rightarrow> u8 list list) \<Rightarrow> (nat \<Rightarrow> (u64 \<times> u8 list option) set) \<Rightarrow> 'w sparse_scheme \<Rightarrow> bool" where
  "receives_ok W T s \<longleftrightarrow> (\<forall>p. from_ok (W p) (T p) (sa_inbox s p) (sa_posts s p) (sa_source s p)) \<and>
     list_all2 (posted_at W) (sa_receive_posted s) (sa_receive_futures s)"

lemma receives_ok_part: "receiver_part s' = receiver_part s \<Longrightarrow> receives_ok W T s' = receives_ok W T s"
  by (simp add: receives_ok_def)

lemma receives_ok_set:
  "receives_ok W T s \<Longrightarrow> from_ok (W p) (T p) (sa_inbox s p) (sa_posts s p) ss \<Longrightarrow> receives_ok W T (set_source p ss s)"
  by (simp add: receives_ok_def)

lemma receives_ok_at: "receives_ok W T s \<Longrightarrow> from_ok (W p) (T p) (sa_inbox s p) (sa_posts s p) (sa_source s p)"
  by (simp add: receives_ok_def)

lemma accept_from_receives:
  fixes s s' :: "'w sparse_scheme"
  assumes "accept_from strm src m (set_source src ((sa_source s src)\<lparr>ss_received := ss_received (sa_source s src) + 1\<rparr>)
      (s\<lparr>sa_inbox := (sa_inbox s)(src := ms)\<rparr>)) = (Inr (), s')"
    and "sa_inbox s src = m # ms" and "receives_ok W T s"
  shows "receives_ok W T s'"
proof -
  let ?t = "set_source src ((sa_source s src)\<lparr>ss_received := ss_received (sa_source s src) + 1\<rparr>) (s\<lparr>sa_inbox := (sa_inbox s)(src := ms)\<rparr>)"
  let ?ss = "sa_source s src" and ?k = "sa_posts s src"
  obtain c s1 where d: "coll_deserialize strm m ?t = (Inr c, s1)"
    and s': "(let ss = sa_source s1 src in
       if origin c \<noteq> src then (Inl Logic_Error, s1)
       else if is_finish c then
         (if ss_expected ss \<noteq> 0 then (Inl Logic_Error, s1)
          else (Inr (), set_source src (ss\<lparr>ss_expected := sequence c\<rparr>) s1))
       else (Inr (), set_source src (ss\<lparr>ss_incoming := ss_incoming ss @ [c]\<rparr>) s1)) = ((Inr (), s') :: unit result \<times> 'w sparse_scheme)"
    using assms(1) by (auto simp: accept_from_def act_bind_cases)
  note D = coll_deserialize_Inr [OF d]
  then have fr: "br.more s1 = br.more ?t" by blast
  note F = sa_frame [OF fr, simplified]
  obtain w where w: "W src = w @ m # ms" "?k \<le> length (payload_ids w)" "drop ?k (payload_ids w) = heavy (ss_incoming ?ss)"
    and ch: "\<forall>c\<in>set (ss_chunks ?ss). cc_data_size c \<noteq> 0 \<longrightarrow> carries (T src) (cc_id c) (cc_data c)"
    using receives_ok_at [OF assms(3), of src] assms(2) by (auto simp: from_ok_def)
  have new: "from_ok (W src) (T src) ms ?k ss" if "ss_chunks ss = ss_chunks ?ss" "heavy (ss_incoming ss) = heavy (ss_incoming ?ss) @ payload_id m" for ss
    unfolding from_ok_def using w ch that by (intro conjI exI [of _ "w @ [m]"]) simp_all
  have "\<exists>ss. receiver_part s' = ((sa_source s)(src := ss), (sa_inbox s)(src := ms), sa_posts s, sa_receive_posted s, sa_receive_futures s) \<and>
      ss_chunks ss = ss_chunks ?ss \<and> heavy (ss_incoming ss) = heavy (ss_incoming ?ss) @ payload_id m"
  proof (cases "is_finish c")
    case True
    then have "payload_id m = []" using D by (auto simp: payload_id_def is_finish_def)
    then show ?thesis using s' True F by (auto simp: Let_def split: if_splits)
  next
    case False
    then have "payload_id m = (if cc_data_size c = 0 then [] else [cc_id c])"
      using D by (auto simp: payload_id_def is_finish_def new_finish_chunk_def)
    then show ?thesis using s' False F by (auto simp: Let_def split: if_splits)
  qed
  then show ?thesis using assms(3) new by (auto simp: receives_ok_def)
qed

lemma receive_from_receives:
  fixes s s' :: "'w sparse_scheme"
  shows "sa_inbox s src = l \<Longrightarrow> receive_from strm src l s = (Inr (), s') \<Longrightarrow> receives_ok W T s \<Longrightarrow> sources_ok s \<Longrightarrow> receives_ok W T s'"
proof (induction l arbitrary: s)
  case Nil
  then show ?case by simp
next
  case (Cons m ms)
  show ?case
  proof (cases "source_ready (sa_source s src)")
    case True
    then show ?thesis using Cons.prems by auto
  next
    case False
    then obtain s1 where a: "accept_from strm src m (set_source src ((sa_source s src)\<lparr>ss_received := ss_received (sa_source s src) + 1\<rparr>)
        (s\<lparr>sa_inbox := (sa_inbox s)(src := ms)\<rparr>)) = (Inr (), s1)" and r: "receive_from strm src ms s1 = (Inr (), s')"
      using Cons.prems by (auto simp: act_bind_cases)
    note 1 = accept_from_flows [OF a Cons.prems(1,4)]
    have "sa_inbox s src = from_src src [m] src @ sa_inbox s1 src" using 1 unfolding sflows_def by blast
    then have "sa_inbox s1 src = ms" using Cons.prems(1) by simp
    from Cons.IH [OF this r accept_from_receives [OF a Cons.prems(1,3)] sflows_ok [OF 1]] show ?thesis .
  qed
qed

lemma receive_metadata_messages_receives:
  fixes s s' :: "'w sparse_scheme"
  shows "receive_metadata_messages strm srcs s = (Inr (), s') \<Longrightarrow> receives_ok W T s \<Longrightarrow> sources_ok s \<Longrightarrow> receives_ok W T s'"
proof (induction srcs arbitrary: s)
  case Nil
  then show ?case by simp
next
  case (Cons src srcs)
  then obtain s1 where 1: "receive_from strm src (sa_inbox s src) s = (Inr (), s1)" and 2: "receive_metadata_messages strm srcs s1 = (Inr (), s')"
    by (auto simp: act_bind_cases)
  have "sources_ok s1" using receive_from_flows [OF 1 Cons.prems(3)] sflows_ok by blast
  from Cons.IH [OF 2 receive_from_receives [OF HOL.refl 1 Cons.prems(2,3)] this] show ?case .
qed

lemma receive_data_from_receives:
  fixes s s' :: "'w sparse_scheme"
  assumes "receive_data_from src cs s = (Inr (), s')" and "receives_ok W T (set_source src ((sa_source s src)\<lparr>ss_incoming := cs\<rparr>) s)"
    and "\<forall>c\<in>set cs. origin c = src"
  shows "receives_ok W T s'"
  using assms
proof (induction cs arbitrary: s)
  case Nil
  then show ?case by simp
next
  case (Cons c cs)
  let ?s = "set_source src ((sa_source s src)\<lparr>ss_incoming := c # cs\<rparr>) s"
  obtain w where w: "W src = w @ sa_inbox s src" "sa_posts s src \<le> length (payload_ids w)" "drop (sa_posts s src) (payload_ids w) = heavy (c # cs)"
    and ch: "\<forall>c\<in>set (ss_chunks (sa_source s src)). cc_data_size c \<noteq> 0 \<longrightarrow> carries (T src) (cc_id c) (cc_data c)"
    using receives_ok_at [OF Cons.prems(2), of src] by (auto simp: from_ok_def)
  obtain r where r: "coll_is_ready c = Inr r" using Cons.prems(1) by (auto split: sum.splits)
  consider "\<not> r" | "r" "cc_data_size c = 0" | "r" "cc_data_size c \<noteq> 0" by blast
  then show ?case
  proof cases
    case 1
    then show ?thesis using Cons.prems r by auto
  next
    case 2
    let ?t = "set_source src ((sa_source s src)\<lparr>ss_chunks := ss_chunks (sa_source s src) @ [c]\<rparr>) s"
    have g: "receive_data_from src cs ?t = (Inr (), s')" using Cons.prems(1) 2 r by simp
    have "from_ok (W src) (T src) (sa_inbox s src) (sa_posts s src) ((sa_source ?t src)\<lparr>ss_incoming := cs\<rparr>)"
      unfolding from_ok_def using w ch 2 by auto
    with receives_ok_set [OF Cons.prems(2), of src] have "receives_ok W T (set_source src ((sa_source ?t src)\<lparr>ss_incoming := cs\<rparr>) ?t)" by simp
    from Cons.IH [OF g this] Cons.prems(3) show ?thesis by simp
  next
    case 3
    let ?t = "s\<lparr>sa_receive_posted := sa_receive_posted s @ [c\<lparr>cc_data := None\<rparr>],
        sa_receive_futures := sa_receive_futures s @ [(src, sa_posts s src, cc_data c)],
        sa_posts := (sa_posts s)(src := Suc (sa_posts s src))\<rparr>"
    have g: "receive_data_from src cs ?t = (Inr (), s')" using Cons.prems(1) 3 r by (simp add: coll_release_data_buffer_def)
    have h: "drop (sa_posts s src) (payload_ids w) = cc_id c # heavy cs" using w(3) 3 by simp
    then have l: "sa_posts s src < length (payload_ids w)" using w(2) by (metis drop_eq_Nil le_less linorder_not_less list.distinct(1))
    have n: "payload_ids w ! sa_posts s src = cc_id c" using h l by (metis Cons_nth_drop_Suc list.inject)
    have "drop (Suc (sa_posts s src)) (payload_ids w) = heavy cs" using h by (metis drop_Suc list.sel(3) tl_drop)
    then have f: "from_ok (W src) (T src) (sa_inbox s src) (Suc (sa_posts s src)) ((sa_source s src)\<lparr>ss_incoming := cs\<rparr>)"
      unfolding from_ok_def using w(1) l ch by auto
    have "origin (c\<lparr>cc_data := None\<rparr>) = src" using Cons.prems(3) by (simp add: origin_def)
    then have p: "posted_at W (c\<lparr>cc_data := None\<rparr>) (src, sa_posts s src, cc_data c)"
      using l n w(1) by (simp add: posted_at_def nth_append)
    have o: "from_ok (W p) (T p) (sa_inbox s p) (sa_posts s p) (sa_source s p)" if "p \<noteq> src" for p
      using receives_ok_at [OF Cons.prems(2), of p] that by simp
    have "list_all2 (posted_at W) (sa_receive_posted s) (sa_receive_futures s)" using Cons.prems(2) by (simp add: receives_ok_def)
    with o f p have "receives_ok W T (set_source src ((sa_source ?t src)\<lparr>ss_incoming := cs\<rparr>) ?t)"
      by (simp add: receives_ok_def list_all2_appendI)
    from Cons.IH [OF g this] Cons.prems(3) show ?thesis by simp
  qed
qed

lemma receive_data_messages_receives:
  fixes s s' :: "'w sparse_scheme"
  shows "receive_data_messages srcs s = (Inr (), s') \<Longrightarrow> receives_ok W T s \<Longrightarrow> sources_ok s \<Longrightarrow> receives_ok W T s'"
proof (induction srcs arbitrary: s)
  case Nil
  then show ?case by simp
next
  case (Cons src srcs)
  then obtain s1 where 1: "receive_data_from src (ss_incoming (sa_source s src)) s = (Inr (), s1)" and 2: "receive_data_messages srcs s1 = (Inr (), s')"
    by (auto simp: act_bind_cases)
  have "\<forall>c\<in>set (ss_incoming (sa_source s src)). origin c = src" using sources_ok_at [OF Cons.prems(3), of src] by (simp add: source_ok_def)
  note F = receive_data_from_receives [OF 1, unfolded set_source_same, OF Cons.prems(2) this]
  from Cons.IH [OF 2 F] receive_data_from_flows [OF 1, unfolded set_source_same, OF Cons.prems(3)] show ?case by (simp add: sflows_ok)
qed


text \<open>The communicator fills the buffer of a receive with the bytes of the payload that has its number.\<close>

definition comm_faithful :: "(nat \<Rightarrow> u8 list list) \<Rightarrow> (nat \<Rightarrow> (u64 \<times> u8 list option) set) \<Rightarrow> sparse_comm \<Rightarrow> bool" where
  "comm_faithful W T sc \<longleftrightarrow>
     (\<forall>src k b. sc_received sc src k \<longrightarrow> k < length (payload_ids (W src)) \<longrightarrow>
        (payload_ids (W src) ! k, buf_storage (sc_buffer sc src k b)) \<in> T src)"

lemma attach_completed_elem:
  "attach_completed chunks fut is = Inr cs \<Longrightarrow> c \<in> set cs \<Longrightarrow> \<exists>i\<in>set is. i < length chunks \<and> c = (chunks ! i)\<lparr>cc_data := Some (fut i)\<rparr>"
  by (induction "is" arbitrary: cs) (auto simp: res_bind_eq_Inr attach_data_buffer_def split: if_splits)

lemma list_all2_nths: "list_all2 P xs ys \<Longrightarrow> list_all2 P (nths xs A) (nths ys A)"
  by (induction xs ys arbitrary: A rule: list_all2_induct) (simp_all add: nths_Cons)

lemma complete_data_messages_receives:
  fixes s s' :: "'w sparse_scheme"
  assumes "complete_data_messages sc s = (Inr (), s')" and "receives_ok W T s" and "comm_faithful W T sc"
  shows "receives_ok W T s'"
proof -
  let ?fs = "sa_receive_futures s" and ?cs = "sa_receive_posted s"
  let ?fut = "\<lambda>i. case ?fs ! i of (src, k, b) \<Rightarrow> sc_buffer sc src k b"
  obtain dn chunks fs where t: "test_some ?cs ?fs ?fut (completed_receives sc ?fs) = Inr (dn, chunks, fs)"
    and p: "place_completed dn (s\<lparr>sa_receive_posted := chunks, sa_receive_futures := fs\<rparr>) = (Inr (), s')"
    using assms(1) by (auto simp: complete_data_messages_def Let_def split: sum.splits)
  have s': "s' = s\<lparr>sa_receive_posted := chunks, sa_receive_futures := fs,
      sa_source := \<lambda>p. (sa_source s p)\<lparr>ss_chunks := ss_chunks (sa_source s p) @ filter (\<lambda>c. origin c = p) dn\<rparr>\<rparr>"
    using place_completed_eq [OF p] by simp
  have l: "list_all2 (posted_at W) ?cs ?fs" using assms(2) by (simp add: receives_ok_def)
  have rest: "list_all2 (posted_at W) chunks fs"
    using t l by (auto simp: test_some_def res_bind_eq_Inr list_all2_nths split: if_splits)
  have new: "carries (T (origin c)) (cc_id c) (cc_data c)" if c: "c \<in> set dn" for c
  proof -
    have "dn = [] \<or> attach_completed ?cs ?fut (completed_receives sc ?fs) = Inr dn"
      using t by (auto simp: test_some_def res_bind_eq_Inr split: if_splits)
    then have "attach_completed ?cs ?fut (completed_receives sc ?fs) = Inr dn" using c by auto
    from attach_completed_elem [OF this c]
    obtain i where i: "i \<in> set (completed_receives sc ?fs)" "i < length ?cs" and ci: "c = (?cs ! i)\<lparr>cc_data := Some (?fut i)\<rparr>" by blast
    obtain src k b where f: "?fs ! i = (src, k, b)" by (cases "?fs ! i")
    have "posted_at W (?cs ! i) (src, k, b)" using list_all2_nthD [OF l i(2)] by (simp add: f)
    then have q: "origin (?cs ! i) = src" "k < length (payload_ids (W src))" "payload_ids (W src) ! k = cc_id (?cs ! i)"
      by (auto simp: posted_at_def)
    have "sc_received sc src k" using i(1) f by (simp add: completed_receives_def)
    then have "(cc_id (?cs ! i), buf_storage (sc_buffer sc src k b)) \<in> T src"
      using assms(3) q(2,3) unfolding comm_faithful_def by metis
    moreover have "origin c = src" using q(1) by (simp add: ci origin_def)
    ultimately show ?thesis by (simp add: carries_def ci f)
  qed
  have "from_ok (W p) (T p) (sa_inbox s p) (sa_posts s p) ((sa_source s p)\<lparr>ss_chunks := ss_chunks (sa_source s p) @ filter (\<lambda>c. origin c = p) dn\<rparr>)" for p
    using receives_ok_at [OF assms(2), of p] new by (auto simp: from_ok_def)
  then show ?thesis using rest by (simp add: receives_ok_def s')
qed

lemma sparse_event_loop_payloads:
  fixes s s' :: "'w sparse_scheme"
  assumes "sparse_event_loop strm sc s = (Inr st, s')" and "sources_ok s" and "sends_ok S s" and "receives_ok W T s" and "comm_faithful W T sc"
  shows "sends_ok S s' \<and> receives_ok W T s'"
proof -
  obtain s1 s2 s3 s4 where 1: "send_ready_messages s = (Inr (), s1)" and 2: "receive_metadata_messages strm (sa_srcs s1) s1 = (Inr (), s2)"
    and 3: "receive_data_messages (sa_srcs s2) s2 = (Inr (), s3)" and 4: "complete_data_messages sc s3 = (Inr (), s4)"
    and e: "sender_part s' = sender_part s4 \<and> receiver_part s' = receiver_part s4"
    using assms(1) by (auto simp: sparse_event_loop_def act_bind_cases Let_def split: if_splits)
  from send_ready_messages_flows [OF 1 assms(2)] obtain out where F1: "sflows s nothing out s1" by blast
  from receive_metadata_messages_flows [OF 2 sflows_ok [OF F1]] obtain ms where F2: "sflows s1 ms nothing s2" by blast
  note send_ready_messages_sends [OF 1 assms(3)]
  moreover have "sender_part s4 = sender_part s1"
    using receive_metadata_messages_sender [OF 2] receive_data_messages_sender [OF 3] complete_data_messages_sender [OF 4] by simp
  ultimately have "sends_ok S s'" using e by (simp add: sends_ok_def)
  have "receives_ok W T s1" using receives_ok_part [OF send_ready_messages_receiver [OF 1]] assms(4) by simp
  from complete_data_messages_receives [OF 4 receive_data_messages_receives [OF 3
      receive_metadata_messages_receives [OF 2 this sflows_ok [OF F1]] sflows_ok [OF F2]] assms(5)]
  have "receives_ok W T s'" using receives_ok_part [of s' s4] e by simp
  with \<open>sends_ok S s'\<close> show ?thesis ..
qed

end
