(* ===== verification/Sparse_Exchange.thy ===== *)
theory Sparse_Exchange
  imports Sparse_Flow Gather_Done
begin

text \<open>
  All ranks of a sparse all-to-all together. The invariant relates what each rank has inserted for another to what is
  queued, sent, delivered, taken and held; from it follows that an exchange that reports completion has
  delivered everything, each packed data with its bytes.
\<close>

section \<open>All ranks together\<close>

text \<open>
  The network: the ranks, and how many of the metadata messages of a rank each other one has been delivered. A
  message or payload arrives in the order of its tag, after any delay. Besides the client's calls, deliveries and
  iterations, an event may complete the pending write of a buffer of a chunk.
\<close>

record sparse_net =
  sn_nodes :: "nat \<Rightarrow> sparse"
  sn_taken :: "nat \<Rightarrow> nat \<Rightarrow> nat"

datatype sparse_event =
    Puts nat nat packed_data
  | Closes nat
  | Arrives nat nat
  | Settles_Out nat nat
  | Settles_In nat nat nat
  | Loops nat stream "nat \<Rightarrow> nat \<Rightarrow> bool" "nat list"

definition net_node :: "nat \<Rightarrow> (sparse, 'a) act \<Rightarrow> (sparse_net, unit) act" where
  "net_node r f N =
     (case f (sn_nodes N r) of
        (Inl e, s) \<Rightarrow> (Inl e, N\<lparr>sn_nodes := (sn_nodes N)(r := s)\<rparr>)
      | (Inr _, s) \<Rightarrow> (Inr (), N\<lparr>sn_nodes := (sn_nodes N)(r := s)\<rparr>))"

definition arrive :: "nat \<Rightarrow> nat \<Rightarrow> sparse_net \<Rightarrow> sparse_net" where
  "arrive r p N =
     (let s = sn_nodes N r; out = sa_outbox (sn_nodes N p) r; k = sn_taken N r p in
      if k < length out then
        N\<lparr>sn_nodes := (sn_nodes N)(r := s\<lparr>sa_inbox := (sa_inbox s)(p := sa_inbox s p @ [out ! k])\<rparr>),
          sn_taken := (sn_taken N)(r := (sn_taken N r)(p := Suc k))\<rparr>
      else N)"

text \<open>A receive may complete when the payload with its number has been sent; the buffer then holds its bytes.\<close>

definition network_comm :: "sparse_net \<Rightarrow> nat \<Rightarrow> (nat \<Rightarrow> nat \<Rightarrow> bool) \<Rightarrow> nat list \<Rightarrow> sparse_comm" where
  "network_comm N r received dn =
     \<lparr>sc_received = (\<lambda>src k. received src k \<and> k < length (sa_payloads (sn_nodes N src) r)),
      sc_buffer = (\<lambda>src k b. (the b)\<lparr>buf_storage := buf_storage (the (sa_payloads (sn_nodes N src) r ! k))\<rparr>),
      sc_done = dn\<rparr>"

definition settled :: "coll_chunk \<Rightarrow> coll_chunk" where
  "settled c = c\<lparr>cc_data := map_option write_completes (cc_data c)\<rparr>"

definition settle_at :: "nat \<Rightarrow> coll_chunk list \<Rightarrow> coll_chunk list" where
  "settle_at k cs = (if k < length cs then cs[k := settled (cs ! k)] else cs)"

fun sparse_step :: "sparse_event \<Rightarrow> (sparse_net, unit) act" where
  "sparse_step (Puts p dst d) N = net_node p (sparse_insert dst d) N"
| "sparse_step (Closes p) N = net_node p sparse_insert_finished N"
| "sparse_step (Arrives r p) N = (Inr (), arrive r p N)"
| "sparse_step (Settles_Out p k) N = net_node p (\<lambda>s. (Inr (), s\<lparr>sa_outgoing := settle_at k (sa_outgoing s)\<rparr>)) N"
| "sparse_step (Settles_In r p k) N =
     net_node r (\<lambda>s. (Inr (), set_source p ((sa_source s p)\<lparr>ss_incoming := settle_at k (ss_incoming (sa_source s p))\<rparr>) s)) N"
| "sparse_step (Loops r strm received dn) N = net_node r (sparse_event_loop strm (network_comm N r received dn)) N"

fun sparse_run :: "sparse_event list \<Rightarrow> (sparse_net, unit) act" where
  "sparse_run [] N = (Inr (), N)"
| "sparse_run (e # es) N = act_bind (sparse_step e) (\<lambda>_. sparse_run es) N"

text \<open>What a client may insert: packed data as its constructor leaves it, in memory.\<close>

definition sendable :: "packed_data \<Rightarrow> bool" where
  "sendable d \<longleftrightarrow> buf_mem (pd_data d) \<in> set ADDRESSABLE_MEMORY_TYPES \<and> buf_size (pd_data d) < 2 ^ 64 \<and>
     (pd_metadata d \<noteq> [] \<or> buf_size (pd_data d) = 0)"

fun sparse_event_ok :: "nat \<Rightarrow> sparse_event \<Rightarrow> bool" where
  "sparse_event_ok n (Puts p dst d) \<longleftrightarrow> p < n \<and> sendable d"
| "sparse_event_ok n (Closes p) \<longleftrightarrow> p < n"
| "sparse_event_ok n (Arrives r p) \<longleftrightarrow> r < n \<and> p < n"
| "sparse_event_ok n (Settles_Out p k) \<longleftrightarrow> p < n"
| "sparse_event_ok n (Settles_In r p k) \<longleftrightarrow> r < n"
| "sparse_event_ok n (Loops r strm received dn) \<longleftrightarrow> r < n"

fun puts :: "nat \<Rightarrow> nat \<Rightarrow> sparse_event list \<Rightarrow> packed_data list" where
  "puts p r [] = []"
| "puts p r (Puts q dst d # es) = (if q = p \<and> dst = r then [d] else []) @ puts p r es"
| "puts p r (e # es) = puts p r es"

section \<open>The invariant\<close>

definition numbered :: "nat \<Rightarrow> packed_data list \<Rightarrow> (u64 \<times> u8 list option \<times> u64) list" where
  "numbered p ds = map (\<lambda>(k, d). (chunk_id (word_of_nat k) p, Some (pd_metadata d), word_of_nat (buf_size (pd_data d)))) (enumerate 0 ds)"

definition known :: "nat \<Rightarrow> packed_data list \<Rightarrow> (u64 \<times> u8 list option) set" where
  "known p ds = set (map (\<lambda>(k, d). (chunk_id (word_of_nat k) p, buf_storage (pd_data d))) (enumerate 0 ds))"

lemma numbered_snoc: "numbered p (ds @ [d]) =
    numbered p ds @ [(chunk_id (word_of_nat (length ds)) p, Some (pd_metadata d), word_of_nat (buf_size (pd_data d)))]"
  by (simp add: numbered_def enumerate_append_eq)

lemma known_snoc: "known p (ds @ [d]) = insert (chunk_id (word_of_nat (length ds)) p, buf_storage (pd_data d)) (known p ds)"
  by (simp add: known_def enumerate_append_eq)

text \<open>\<open>I r\<close> is what \<open>p\<close> has inserted for rank \<open>r\<close>.\<close>

definition sender_ok :: "nat \<Rightarrow> (nat \<Rightarrow> packed_data list) \<Rightarrow> 'w sparse_scheme \<Rightarrow> bool" where
  "sender_ok p I s \<longleftrightarrow> sa_rank s = p \<and>
     (\<forall>r. sa_next s r = word_of_nat (length (I r))) \<and>
     (\<forall>r. descs (to_dst r (sa_outgoing s)) + announced_all (sa_outbox s r) = mset (numbered p (I r))) \<and>
     (\<forall>r. pending (to_dst r (sa_outgoing s)) + markers (sa_outbox s r) =
        (if sa_locally_finished s \<and> r \<in> set (sa_dsts s) then {#chunk_id (word_of_nat (length (I r)) + 1) p#} else {#})) \<and>
     (\<forall>r. length (sa_outbox s r) = size (announced_all (sa_outbox s r)) + size (markers (sa_outbox s r))) \<and>
     distinct (sa_dsts s) \<and> sends_ok (\<lambda>r. known p (I r)) s"

text \<open>Of the messages \<open>out p\<close> of rank \<open>p\<close> the first \<open>k p\<close> are delivered.\<close>

definition counted :: "nat \<Rightarrow> u8 list list \<Rightarrow> 'w sparse_scheme \<Rightarrow> bool" where
  "counted p w s \<longleftrightarrow> (\<exists>ms. w = ms @ sa_inbox s p \<and> held p s = announced_all ms \<and>
     ss_received (sa_source s p) = word_of_nat (length ms) \<and> ss_expected (sa_source s p) = total_sequence (markers ms))"

definition receiver_ok ::
  "nat \<Rightarrow> (nat \<Rightarrow> nat) \<Rightarrow> (nat \<Rightarrow> u8 list list) \<Rightarrow> (nat \<Rightarrow> (u64 \<times> u8 list option) set) \<Rightarrow> 'w sparse_scheme \<Rightarrow> bool" where
  "receiver_ok n k out T s \<longleftrightarrow> (\<forall>p. k p \<le> length (out p)) \<and> (\<forall>p. n \<le> p \<longrightarrow> k p = 0) \<and>
     (\<forall>p. counted p (take (k p) (out p)) s) \<and> receives_ok (\<lambda>p. take (k p) (out p)) T s"

definition node_ok :: "nat \<Rightarrow> (nat \<Rightarrow> nat \<Rightarrow> packed_data list) \<Rightarrow> (nat \<Rightarrow> nat) \<Rightarrow> (nat \<Rightarrow> u8 list list) \<Rightarrow> nat \<Rightarrow> sparse \<Rightarrow> bool" where
  "node_ok n I k out r s \<longleftrightarrow> sources_ok s \<and> sender_ok r (I r) s \<and> receiver_ok n k out (\<lambda>p. known p (I p r)) s"

definition net_ok :: "nat \<Rightarrow> (nat \<Rightarrow> nat \<Rightarrow> packed_data list) \<Rightarrow> sparse_net \<Rightarrow> bool" where
  "net_ok n I N \<longleftrightarrow>
     (\<forall>r<n. node_ok n I (sn_taken N r) (\<lambda>p. sa_outbox (sn_nodes N p) r) r (sn_nodes N r))"

lemma receives_ok_mono: "receives_ok W T s \<Longrightarrow> (\<And>p. T p \<subseteq> T' p) \<Longrightarrow> receives_ok W T' s"
  unfolding receives_ok_def from_ok_def carries_def by blast

lemma receiver_ok_mono:
  assumes "receiver_ok n k out T s" and "\<And>p. \<exists>x. out' p = out p @ x" and "\<And>p. T p \<subseteq> T' p"
  shows "receiver_ok n k out' T' s"
proof -
  have k: "k p \<le> length (out p)" for p using assms(1) by (simp add: receiver_ok_def)
  have e: "take (k p) (out' p) = take (k p) (out p)" and l: "k p \<le> length (out' p)" for p
    using assms(2) [of p] k [of p] by auto
  have "receives_ok (\<lambda>p. take (k p) (out p)) T s" using assms(1) by (simp add: receiver_ok_def)
  from receives_ok_mono [OF this assms(3)] show ?thesis using assms(1) l unfolding receiver_ok_def e by simp
qed

lemma net_ok_update:
  assumes "net_ok n I N" and "r < n" and I: "\<And>q. q \<noteq> r \<Longrightarrow> I' q = I q" "\<And>q. known r (I r q) \<subseteq> known r (I' r q)"
    and x: "\<And>q. \<exists>x. sa_outbox s q = sa_outbox (sn_nodes N r) q @ x"
    and s: "sources_ok s" "sender_ok r (I' r) s"
    and rc: "receiver_ok n (sn_taken N r) (\<lambda>p. sa_outbox (sn_nodes N p) r) (\<lambda>p. known p (I p r)) s"
  shows "net_ok n I' (N\<lparr>sn_nodes := (sn_nodes N)(r := s)\<rparr>)"
proof -
  have o: "\<exists>x. sa_outbox (((sn_nodes N)(r := s)) p) q = sa_outbox (sn_nodes N p) q @ x" for p q using x by simp
  have k: "known p (I p q) \<subseteq> known p (I' p q)" for p q using I by (cases "p = r") simp_all
  have "node_ok n I' (sn_taken N q) (\<lambda>p. sa_outbox (((sn_nodes N)(r := s)) p) q) q (((sn_nodes N)(r := s)) q)" if "q < n" for q
  proof (cases "q = r")
    case True
    then show ?thesis using receiver_ok_mono [OF rc o k] s by (simp add: node_ok_def)
  next
    case False
    have a: "node_ok n I (sn_taken N q) (\<lambda>p. sa_outbox (sn_nodes N p) q) q (sn_nodes N q)" using assms(1) \<open>q < n\<close> by (simp add: net_ok_def)
    then have "receiver_ok n (sn_taken N q) (\<lambda>p. sa_outbox (sn_nodes N p) q) (\<lambda>p. known p (I p q)) (sn_nodes N q)"
      by (simp add: node_ok_def)
    from receiver_ok_mono [OF this o k]
    have "receiver_ok n (sn_taken N q) (\<lambda>p. sa_outbox (((sn_nodes N)(r := s)) p) q) (\<lambda>p. known p (I' p q)) (sn_nodes N q)" .
    then show ?thesis using a False I(1) by (simp add: node_ok_def)
  qed
  then show ?thesis by (simp add: net_ok_def)
qed

lemma counted_flows: "counted p w s \<Longrightarrow> sflows s ms out s' \<Longrightarrow> counted p w s'"
  unfolding counted_def sflows_def
  by (elim exE conjE) (rule exI [of _ "_ @ ms p"], simp add: ac_simps)

lemma sender_ok_flows: "sender_ok p I s \<Longrightarrow> sflows s ms out s' \<Longrightarrow> sends_ok (\<lambda>r. known p (I r)) s' \<Longrightarrow> sender_ok p I s'"
  unfolding sender_ok_def sflows_def by (simp add: ac_simps)


section \<open>Every event keeps the invariant\<close>

lemma settled_same [simp]: "cc_id (settled c) = cc_id c" "cc_destination (settled c) = cc_destination c" "cc_metadata (settled c) = cc_metadata c"
  "cc_data_size (settled c) = cc_data_size c" "desc (settled c) = desc c" "origin (settled c) = origin c"
  "(cc_data (settled c) = None) = (cc_data c = None)" "filled (settled c) = filled c" "carries S cid (cc_data (settled c)) = carries S cid (cc_data c)"
  by (auto simp: settled_def desc_def origin_def filled_def carries_def write_completes_def)

lemma map_filter_settle:
  assumes "\<And>c. P (settled c) = P c" and "\<And>c. f (settled c) = f c"
  shows "map f (filter P (settle_at k cs)) = map f (filter P cs)"
proof (cases "k < length cs")
  case True
  then have s: "settle_at k cs = take k cs @ settled (cs ! k) # drop (Suc k) cs" by (simp add: settle_at_def upd_conv_take_nth_drop)
  have c: "cs = take k cs @ cs ! k # drop (Suc k) cs" using True by (rule id_take_nth_drop)
  show ?thesis by (subst (2) c, unfold s) (simp add: assms)
qed (simp add: settle_at_def)

lemma set_settle: "c \<in> set (settle_at k cs) \<Longrightarrow> \<exists>c0\<in>set cs. c = c0 \<or> c = settled c0"
  by (auto simp: settle_at_def dest!: subsetD [OF set_update_subset_insert] split: if_splits)

lemma settle_views: "descs (settle_at k cs) = descs cs" "descs (to_dst r (settle_at k cs)) = descs (to_dst r cs)"
  "pending (to_dst r (settle_at k cs)) = pending (to_dst r cs)" "heavy (settle_at k cs) = heavy cs"
  unfolding descs_def pending_def heavy_def filter_filter by (subst map_filter_settle; simp)+

lemma settle_out_ok:
  assumes "sources_ok s" and "sender_ok p I s" and "receiver_ok n k out T s"
    and s'_def: "s' = s\<lparr>sa_outgoing := settle_at j (sa_outgoing s)\<rparr>"
  shows "sources_ok s' \<and> sender_ok p I s' \<and> receiver_ok n k out T s'"
proof (intro conjI)
  show "sources_ok s'" using assms(1) unfolding s'_def sources_ok_def by (auto dest!: set_settle)
  have "sends_ok S s'" if "sends_ok S s" for S
    using that unfolding s'_def sends_ok_def by (auto simp: outgoing_ok_def dest!: set_settle)
  then show "sender_ok p I s'" using assms(2) unfolding sender_ok_def by (simp add: s'_def settle_views)
  show "receiver_ok n k out T s'" using assms(3) unfolding s'_def receiver_ok_def counted_def held_def receives_ok_def by simp
qed

lemma settle_in_ok:
  assumes "sources_ok s" and "sender_ok p I s" and "receiver_ok n k out T s"
    and s'_def: "s' = set_source q ((sa_source s q)\<lparr>ss_incoming := settle_at j (ss_incoming (sa_source s q))\<rparr>) s"
  shows "sources_ok s' \<and> sender_ok p I s' \<and> receiver_ok n k out T s'"
proof (intro conjI)
  show "sources_ok s'" unfolding s'_def
    by (rule sources_ok_set [OF assms(1)]) (use sources_ok_at [OF assms(1), of q] in \<open>auto simp: source_ok_def dest!: set_settle\<close>)
  show "sender_ok p I s'" using assms(2) unfolding s'_def sender_ok_def sends_ok_def by simp
  have "counted x w s'" if "counted x w s" for x w
    using that unfolding s'_def counted_def held_def by (cases "x = q") (simp_all add: settle_views)
  moreover have "receives_ok W T s'" if "receives_ok W T s" for W unfolding s'_def
    by (rule receives_ok_set [OF that]) (use receives_ok_at [OF that, of q] in \<open>simp add: from_ok_def settle_views\<close>)
  ultimately show "receiver_ok n k out T s'" using assms(3) unfolding receiver_ok_def by blast
qed

lemma insert_ok:
  fixes s s' :: "'w sparse_scheme"
  assumes "sparse_insert dst d s = (Inr (), s')" and "sendable d"
    and "sources_ok s" and "sender_ok p I s" and "receiver_ok n k out T s"
  shows "sources_ok s' \<and> sender_ok p (I(dst := I dst @ [d])) s' \<and> receiver_ok n k out T s' \<and> sa_outbox s' = sa_outbox s"
proof -
  have "ADDRESSABLE_MEMORY_TYPES \<noteq> []" using assms(2) by (auto simp: sendable_def)
  then have e: "ensure_memory_type st (Some (pd_data d)) ADDRESSABLE_MEMORY_TYPES s = (Inr (pd_data d), s)" for st
    using assms(2) by (simp add: ensure_memory_type_def sendable_def)
  have A: "sa_rank s = p" "sa_next s dst = word_of_nat (length (I dst))" using assms(4) by (auto simp: sender_ok_def)
  define c where "c = \<lparr>cc_id = chunk_id (word_of_nat (length (I dst))) p, cc_destination = dst, cc_metadata = Some (pd_metadata d),
      cc_data = Some (pd_data d), cc_data_size = word_of_nat (buf_size (pd_data d))\<rparr>"
  have nf: "\<not> sa_locally_finished s"
    and s': "s' = s\<lparr>sa_next := (sa_next s)(dst := word_of_nat (Suc (length (I dst)))), sa_outgoing := sa_outgoing s @ [c]\<rparr>"
    using assms(1) A by (auto simp: sparse_insert_def act_bind_cases e Let_def coll_from_packed_data_def new_data_chunk_def
        pb_insert_def c_def add.commute split: if_splits)
  have d: "desc c = (chunk_id (word_of_nat (length (I dst))) p, Some (pd_metadata d), word_of_nat (buf_size (pd_data d)))" "is_data c"
    "cc_destination c = dst" by (simp_all add: c_def desc_def)
  have S: "sends_ok (\<lambda>r. known p (I r)) s" using assms(4) by (simp add: sender_ok_def)
  have o: "outgoing_ok (known p ((I(dst := I dst @ [d])) r)) x" if "outgoing_ok (known p (I r)) x" for r x
    using that by (auto simp: outgoing_ok_def carries_def known_snoc split: if_splits)
  have "outgoing_ok (known p (I dst @ [d])) c" by (simp add: outgoing_ok_def carries_def known_snoc c_def)
  moreover have "list_all2 (carries (known p ((I(dst := I dst @ [d])) r))) xs ys" if "list_all2 (carries (known p (I r))) xs ys" for r xs ys
    using that by (rule list_all2_mono) (auto simp: carries_def known_snoc)
  ultimately have S': "sends_ok (\<lambda>r. known p ((I(dst := I dst @ [d])) r)) s'"
    using S o d(3) unfolding sends_ok_def s' by simp
  have "sender_ok p (I(dst := I dst @ [d])) s'"
    using assms(4) nf S' d unfolding sender_ok_def s' by (simp add: numbered_snoc add.commute)
  moreover have "sources_ok s'" using assms(3) d(2) unfolding s' sources_ok_def by auto
  moreover have "receiver_ok n k out T s'" using assms(5) unfolding s' receiver_ok_def counted_def held_def receives_ok_def by simp
  ultimately show ?thesis by (simp add: s')
qed

lemma pending_markers: "distinct ds \<Longrightarrow> pending (to_dst r (map (\<lambda>dst. from_empty (f dst) p dst) ds)) = (if r \<in> set ds then {#chunk_id (f r) p#} else {#})"
  by (induction ds) (auto simp: from_empty_def new_finish_chunk_def)

lemma insert_finished_ok:
  fixes s s' :: "'w sparse_scheme"
  assumes "sparse_insert_finished s = (Inr (), s')" and "sources_ok s" and "sender_ok p I s" and "receiver_ok n k out T s"
  shows "sources_ok s' \<and> sender_ok p I s' \<and> receiver_ok n k out T s' \<and> sa_outbox s' = sa_outbox s"
proof -
  let ?new = "map (\<lambda>dst. from_empty (sa_next s dst + 1) (sa_rank s) dst) (sa_dsts s)"
  have nf: "\<not> sa_locally_finished s" and s': "s' = s\<lparr>sa_outgoing := sa_outgoing s @ ?new, sa_locally_finished := True\<rparr>"
    using assms(1) by (auto simp: sparse_insert_finished_def split: if_splits)
  have new: "\<forall>c\<in>set ?new. \<not> is_data c \<and> cc_data c = None \<and> cc_data_size c = 0" by (auto simp: from_empty_def new_finish_chunk_def)
  have d: "descs (to_dst r ?new) = {#}" for r using new by (auto simp: descs_def filter_empty_conv)
  have A: "sa_rank s = p" "\<And>r. sa_next s r = word_of_nat (length (I r))" "distinct (sa_dsts s)" using assms(3) by (auto simp: sender_ok_def)
  have "sends_ok (\<lambda>r. known p (I r)) s'"
    using assms(3) new unfolding sender_ok_def sends_ok_def s' by (auto simp: outgoing_ok_def)
  then have "sender_ok p I s'"
    using assms(3) nf d pending_markers [OF A(3)] unfolding sender_ok_def s' by (simp add: A)
  moreover have "sources_ok s'" using assms(2) new unfolding s' sources_ok_def by auto
  moreover have "receiver_ok n k out T s'" using assms(4) unfolding s' receiver_ok_def counted_def held_def receives_ok_def by simp
  ultimately show ?thesis by (simp add: s')
qed


text \<open>What the network delivers are the payloads that were sent, by their number.\<close>

lemma network_comm_faithful:
  assumes "net_ok n I N" and "r < n"
  shows "comm_faithful (\<lambda>p. take (sn_taken N r p) (sa_outbox (sn_nodes N p) r)) (\<lambda>p. known p (I p r)) (network_comm N r received dn)"
  unfolding comm_faithful_def
proof (intro allI impI)
  fix src k b
  let ?w = "take (sn_taken N r src) (sa_outbox (sn_nodes N src) r)" and ?out = "sa_outbox (sn_nodes N src) r"
    and ?ps = "sa_payloads (sn_nodes N src) r"
  assume rc: "sc_received (network_comm N r received dn) src k" and k: "k < length (payload_ids ?w)"
  have "src < n"
  proof (rule ccontr)
    assume "\<not> src < n"
    then have "sn_taken N r src = 0" using assms by (auto simp: net_ok_def node_ok_def receiver_ok_def)
    then show False using k by simp
  qed
  then have "sends_ok (\<lambda>r. known src (I src r)) (sn_nodes N src)" using assms(1) by (auto simp: net_ok_def node_ok_def sender_ok_def)
  then have l: "list_all2 (carries (known src (I src r))) (payload_ids ?out) ?ps" by (simp add: sends_ok_def)
  have "payload_ids ?out = payload_ids ?w @ payload_ids (drop (sn_taken N r src) ?out)"
    unfolding payload_ids_simps(2) [symmetric] by simp
  then have o: "payload_ids ?out ! k = payload_ids ?w ! k" "k < length (payload_ids ?out)" using k by (simp_all add: nth_append)
  from list_all2_nthD [OF l o(2)] obtain d where "?ps ! k = Some d" "(payload_ids ?out ! k, buf_storage d) \<in> known src (I src r)"
    by (auto simp: carries_def)
  then show "(payload_ids ?w ! k, buf_storage (sc_buffer (network_comm N r received dn) src k b)) \<in> known src (I src r)"
    using o by (simp add: network_comm_def)
qed

lemma loop_ok:
  assumes "net_ok n I N" and r: "r < n" and l: "sparse_event_loop strm (network_comm N r received dn) (sn_nodes N r) = (Inr st, s')"
  shows "sources_ok s' \<and> sender_ok r (I r) s' \<and> (\<forall>q. \<exists>x. sa_outbox s' q = sa_outbox (sn_nodes N r) q @ x) \<and>
    receiver_ok n (sn_taken N r) (\<lambda>p. sa_outbox (sn_nodes N p) r) (\<lambda>p. known p (I p r)) s'"
proof -
  let ?W = "\<lambda>p. take (sn_taken N r p) (sa_outbox (sn_nodes N p) r)" and ?T = "\<lambda>p. known p (I p r)"
  have A: "sources_ok (sn_nodes N r)" "sender_ok r (I r) (sn_nodes N r)"
    "receiver_ok n (sn_taken N r) (\<lambda>p. sa_outbox (sn_nodes N p) r) ?T (sn_nodes N r)"
    using assms(1) r by (auto simp: net_ok_def node_ok_def)
  have so: "sends_ok (\<lambda>q. known r (I r q)) (sn_nodes N r)" and ro: "receives_ok ?W ?T (sn_nodes N r)"
    using A by (simp_all add: sender_ok_def receiver_ok_def)
  from sparse_event_loop_flows(1) [OF l A(1)] obtain ms out where F: "sflows (sn_nodes N r) ms out s'" by blast
  note P = sparse_event_loop_payloads [OF l A(1) so ro network_comm_faithful [OF assms(1) r]]
  have "receiver_ok n (sn_taken N r) (\<lambda>p. sa_outbox (sn_nodes N p) r) ?T s'"
    using A(3) P counted_flows [OF _ F] unfolding receiver_ok_def by blast
  moreover have "\<exists>x. sa_outbox s' q = sa_outbox (sn_nodes N r) q @ x" for q using F unfolding sflows_def by blast
  moreover have "sender_ok r (I r) s'" using sender_ok_flows [OF A(2) F] P by blast
  ultimately show ?thesis using sflows_ok [OF F] by blast
qed

lemma arrive_ok:
  assumes "net_ok n I N" and "r < n" and "p < n"
  shows "net_ok n I (arrive r p N)"
proof (cases "sn_taken N r p < length (sa_outbox (sn_nodes N p) r)")
  case False
  then show ?thesis using assms(1) by (simp add: arrive_def Let_def)
next
  case True
  let ?s = "sn_nodes N r" and ?out = "\<lambda>p. sa_outbox (sn_nodes N p) r" and ?k = "sn_taken N r"
  let ?m = "?out p ! ?k p"
  let ?s' = "?s\<lparr>sa_inbox := (sa_inbox ?s)(p := sa_inbox ?s p @ [?m])\<rparr>"
  have A: "sources_ok ?s" "sender_ok r (I r) ?s" "receiver_ok n ?k ?out (\<lambda>p. known p (I p r)) ?s"
    using assms(1,2) by (auto simp: net_ok_def node_ok_def)
  have t: "take (Suc (?k p)) (?out p) = take (?k p) (?out p) @ [?m]" using True by (rule take_Suc_conv_app_nth)
  have "counted q (take ((?k(p := Suc (?k p))) q) (?out q)) ?s'" for q
  proof -
    have "counted q (take (?k q) (?out q)) ?s" using A(3) by (simp add: receiver_ok_def)
    then show ?thesis using t by (cases "q = p") (auto simp: counted_def held_def)
  qed
  moreover have "from_ok (take ((?k(p := Suc (?k p))) q) (?out q)) T (sa_inbox ?s' q) j ss"
    if "from_ok (take (?k q) (?out q)) T (sa_inbox ?s q) j ss" for q T j ss
    using that t by (cases "q = p") (auto simp: from_ok_def)
  moreover have "posted_at (\<lambda>q. take ((?k(p := Suc (?k p))) q) (?out q)) c f" if "posted_at (\<lambda>q. take (?k q) (?out q)) c f" for c f
    using that t by (auto simp: posted_at_def nth_append split: prod.splits)
  ultimately have "receiver_ok n (?k(p := Suc (?k p))) ?out (\<lambda>p. known p (I p r)) ?s'"
    using A(3) True assms(3) list_all2_mono [of "posted_at (\<lambda>q. take (?k q) (?out q))" "sa_receive_posted ?s" "sa_receive_futures ?s"]
    unfolding receiver_ok_def receives_ok_def by (auto simp: less_eq_Suc_le)
  moreover have "sources_ok ?s'" "sender_ok r (I r) ?s'" using A by (simp_all add: sources_ok_def sender_ok_def sends_ok_def)
  moreover have "sa_outbox (((sn_nodes N)(r := ?s')) q) = sa_outbox (sn_nodes N q)" for q by simp
  ultimately show ?thesis using assms(1) True unfolding net_ok_def node_ok_def arrive_def Let_def by simp
qed

lemma net_node_Inr:
  assumes "net_node r f N = (Inr (), N')"
  obtains a s where "f (sn_nodes N r) = (Inr a, s)" and "N' = N\<lparr>sn_nodes := (sn_nodes N)(r := s)\<rparr>"
  using assms by (auto simp: net_node_def split: prod.splits sum.splits)

lemma puts_simps: "puts p r [e] @ puts p r es = puts p r (e # es)"
  by (cases e) simp_all

lemma sparse_step_ok:
  assumes ok: "net_ok n I N" and e: "sparse_event_ok n e" "sparse_step e N = (Inr (), N')"
  shows "net_ok n (\<lambda>p r. I p r @ puts p r [e]) N'"
proof -
  have A: "sources_ok (sn_nodes N r)" "sender_ok r (I r) (sn_nodes N r)"
    "receiver_ok n (sn_taken N r) (\<lambda>p. sa_outbox (sn_nodes N p) r) (\<lambda>p. known p (I p r)) (sn_nodes N r)" if "r < n" for r
    using ok that by (auto simp: net_ok_def node_ok_def)
  have quiet: "net_ok n I (N\<lparr>sn_nodes := (sn_nodes N)(r := s)\<rparr>)"
    if "r < n" "sources_ok s \<and> sender_ok r (I r) s \<and> receiver_ok n (sn_taken N r) (\<lambda>p. sa_outbox (sn_nodes N p) r) (\<lambda>p. known p (I p r)) s"
      "\<And>q. \<exists>x. sa_outbox s q = sa_outbox (sn_nodes N r) q @ x" for r s
    using net_ok_update [OF ok that(1) HOL.refl subset_refl that(3)] that(2) by blast
  show ?thesis
  proof (cases e)
    case (Puts p dst d)
    then have p: "p < n" "sendable d" using e(1) by simp_all
    obtain a s where i: "sparse_insert dst d (sn_nodes N p) = (Inr a, s)" and N': "N' = N\<lparr>sn_nodes := (sn_nodes N)(p := s)\<rparr>"
      using e(2) Puts by (auto elim: net_node_Inr)
    have i': "sparse_insert dst d (sn_nodes N p) = (Inr (), s)" using i by simp
    let ?I = "I(p := (I p)(dst := I p dst @ [d]))"
    note S = insert_ok [OF i' p(2) A [OF p(1)]]
    have I: "?I = (\<lambda>q r. I q r @ puts q r [e])" by (auto simp: Puts fun_eq_iff)
    have "net_ok n ?I N'" unfolding N'
      by (rule net_ok_update [OF ok p(1)]) (use S in \<open>auto simp: known_snoc\<close>)
    then show ?thesis unfolding I .
  next
    case (Closes p)
    then have p: "p < n" using e(1) by simp
    obtain a s where i: "sparse_insert_finished (sn_nodes N p) = (Inr a, s)" and N': "N' = N\<lparr>sn_nodes := (sn_nodes N)(p := s)\<rparr>"
      using e(2) Closes by (auto elim: net_node_Inr)
    have i': "sparse_insert_finished (sn_nodes N p) = (Inr (), s)" using i by simp
    show ?thesis using quiet [OF p, of s] insert_finished_ok [OF i' A [OF p]] by (simp add: N' Closes)
  next
    case (Arrives r p)
    then have "N' = arrive r p N" "r < n" "p < n" using e by auto
    with arrive_ok [OF ok] show ?thesis by (simp add: Arrives)
  next
    case (Settles_Out p k)
    then have p: "p < n" using e(1) by simp
    show ?thesis using e(2) quiet [OF p settle_out_ok [OF A [OF p] HOL.refl], of k] by (simp add: Settles_Out net_node_def)
  next
    case (Settles_In r p k)
    then have r: "r < n" using e(1) by simp
    show ?thesis using e(2) quiet [OF r settle_in_ok [OF A [OF r] HOL.refl], of p k] by (simp add: Settles_In net_node_def)
  next
    case (Loops r strm received dn)
    then have r: "r < n" using e(1) by simp
    obtain a s where i: "sparse_event_loop strm (network_comm N r received dn) (sn_nodes N r) = (Inr a, s)"
      and N': "N' = N\<lparr>sn_nodes := (sn_nodes N)(r := s)\<rparr>"
      using e(2) Loops by (auto elim: net_node_Inr)
    show ?thesis using quiet [OF r, of s] loop_ok [OF ok r i] by (simp add: N' Loops)
  qed
qed

lemma sparse_run_ok:
  "net_ok n I N \<Longrightarrow> \<forall>e\<in>set es. sparse_event_ok n e \<Longrightarrow> sparse_run es N = (Inr (), N') \<Longrightarrow>
   net_ok n (\<lambda>p r. I p r @ puts p r es) N'"
proof (induction es arbitrary: I N)
  case Nil
  then show ?case by simp
next
  case (Cons e es)
  obtain N1 where 1: "sparse_step e N = (Inr (), N1)" and 2: "sparse_run es N1 = (Inr (), N')" using Cons.prems(3) by (auto simp: act_bind_cases)
  have "net_ok n (\<lambda>p r. I p r @ puts p r [e]) N1" using sparse_step_ok [OF Cons.prems(1) _ 1] Cons.prems(2) by simp
  from Cons.IH [OF this _ 2] Cons.prems(2) show ?case by (simp add: puts_simps)
qed

text \<open>The network at its start: every rank constructed, nothing delivered.\<close>

definition started :: "nat \<Rightarrow> sparse_net \<Rightarrow> bool" where
  "started n N \<longleftrightarrow> sn_taken N = (\<lambda>_ _. 0) \<and>
     (\<forall>r<n. \<exists>stats callback srcs dsts b. new_sparse r n stats callback srcs dsts b = Inr (sn_nodes N r))"

lemma check_ranks_Inr: "check_ranks self n rs seen = Inr xs \<Longrightarrow> distinct seen \<Longrightarrow> distinct xs \<and> (\<forall>x\<in>set xs. x \<in> set seen \<or> int x < n \<and> int x \<noteq> self)"
  by (induction self n rs seen rule: check_ranks.induct) (auto split: if_splits)

lemma new_sparse_Inr:
  assumes "new_sparse r n stats callback srcs dsts b = Inr s"
  shows "distinct (sa_dsts s) \<and> (\<forall>p\<in>set (sa_srcs s). p < n \<and> p \<noteq> r)"
  using assms by (auto simp: new_sparse_def res_bind_eq_Inr br.extend_def dest!: check_ranks_Inr)

lemma started_ok: "started n N \<Longrightarrow> net_ok n (\<lambda>_ _. []) N"
proof -
  assume st: "started n N"
  have "node_ok n (\<lambda>_ _. []) (\<lambda>_. 0) out r s" if "new_sparse r n stats callback srcs dsts b = Inr s" for r s stats callback srcs dsts b out
    using that new_sparse_Inr [OF that]
    by (auto simp: node_ok_def sources_ok_def source_ok_def new_source_state_def sender_ok_def sends_ok_def numbered_def known_def receiver_ok_def
        counted_def held_def receives_ok_def from_ok_def new_sparse_def res_bind_eq_Inr br.extend_def)
  then show ?thesis using st unfolding net_ok_def started_def by metis
qed


section \<open>Completion\<close>

text \<open>What arrives of a packed data: its metadata, its size, and its bytes when it has any.\<close>

definition same_packed :: "packed_data \<Rightarrow> packed_data \<Rightarrow> bool" where
  "same_packed a b \<longleftrightarrow> pd_metadata a = pd_metadata b \<and> buf_size (pd_data a) = buf_size (pd_data b) \<and>
     (buf_size (pd_data a) \<noteq> 0 \<longrightarrow> buf_storage (pd_data a) = buf_storage (pd_data b))"

definition unpacked :: "coll_chunk \<Rightarrow> packed_data" where
  "unpacked c = \<lparr>pd_metadata = the (cc_metadata c), pd_data = the (cc_data c)\<rparr>"

lemma release_chunks_ok:
  "\<forall>c\<in>set cs. filled c \<and> (cc_metadata c = Some [] \<longrightarrow> cc_data_size c = 0) \<Longrightarrow> fst (release_chunks_in_order cs) = Inr (map unpacked cs)"
proof (induction cs)
  case (Cons c cs)
  then have "coll_release c = Inr (unpacked c)"
    by (auto simp: coll_release_def make_packed_data_def filled_def unpacked_def)
  then show ?case using Cons by (simp add: split_beta)
qed simp

lemma numbered_nth: "k < length ds \<Longrightarrow> numbered p ds ! k =
    (chunk_id (word_of_nat k) p, Some (pd_metadata (ds ! k)), word_of_nat (buf_size (pd_data (ds ! k))))"
  by (simp add: numbered_def nth_enumerate_eq)

lemma length_numbered [simp]: "length (numbered p ds) = length ds"
  by (simp add: numbered_def)

lemma id_sequence_chunk: "p < 2 ^ 26 \<Longrightarrow> k < 2 ^ 38 \<Longrightarrow> id_sequence (chunk_id (word_of_nat k) p) = word_of_nat k"
proof -
  assume a: "p < 2 ^ 26" "k < 2 ^ 38"
  then have "unat (word_of_nat k :: u64) < 2 ^ 38" by (simp add: unat_of_nat)
  from chunk_id_fields [OF a(1) this, of "new_finish_chunk (chunk_id (word_of_nat k) p) 0"] show ?thesis
    by (simp add: new_finish_chunk_def sequence_id)
qed

lemma numbered_sequences:
  assumes "p < 2 ^ 26" and "length ds < 2 ^ 38"
  shows "map (\<lambda>d. unat (id_sequence (fst d))) (numbered p ds) = [0..<length ds]"
proof (rule nth_equalityI)
  fix k assume "k < length (map (\<lambda>d. unat (id_sequence (fst d))) (numbered p ds))"
  then have k: "k < length ds" by simp
  then have "k < 2 ^ 38" using assms(2) by simp
  then show "map (\<lambda>d. unat (id_sequence (fst d))) (numbered p ds) ! k = [0..<length ds] ! k"
    using k id_sequence_chunk [OF assms(1), of k] by (simp add: numbered_nth unat_of_nat)
qed simp

lemma known_unique:
  assumes "p < 2 ^ 26" and "length ds < 2 ^ 38" and "k < length ds" and "(chunk_id (word_of_nat k) p, st) \<in> known p ds"
  shows "st = buf_storage (pd_data (ds ! k))"
proof -
  obtain j where j: "j < length ds" "chunk_id (word_of_nat k) p = chunk_id (word_of_nat j) p" "st = buf_storage (pd_data (ds ! j))"
    using assms(4) by (auto simp: known_def in_set_enumerate_eq)
  have b: "k < 2 ^ 38" "j < 2 ^ 38" using j(1) assms(2,3) by linarith+
  have "(word_of_nat k :: u64) = word_of_nat j"
    using arg_cong [OF j(2), of id_sequence] unfolding id_sequence_chunk [OF assms(1) b(1)] id_sequence_chunk [OF assms(1) b(2)] .
  moreover have "k < 2 ^ 64" "j < 2 ^ 64" using b by simp_all
  ultimately have "k = j" by (rule word_of_nat_inj64)
  then show ?thesis using j by simp
qed

text \<open>A source that is ready has sent everything, and everything has been taken.\<close>

lemma ready_source:
  assumes snd: "sender_ok p I sp" and cnt: "counted p (take k (sa_outbox sp r)) s" and small: "p < 2 ^ 26" "length (I r) + 1 < 2 ^ 38"
    and ready: "source_ready (sa_source s p)"
  shows "held p s = mset (numbered p (I r))"
proof -
  let ?out = "sa_outbox sp r" and ?n = "length (I r)"
  obtain ms where ms: "take k ?out = ms @ sa_inbox s p" "held p s = announced_all ms" "ss_received (sa_source s p) = word_of_nat (length ms)"
    "ss_expected (sa_source s p) = total_sequence (markers ms)" using cnt by (auto simp: counted_def)
  have e: "total_sequence (markers ms) > 0" "total_sequence (markers ms) = word_of_nat (length ms)"
    using ready ms by (auto simp: source_ready_def)
  define later where "later = sa_inbox s p @ drop k ?out"
  have out: "?out = ms @ later" using ms(1) unfolding later_def by (metis append_assoc append_take_drop_id)
  have S: "descs (to_dst r (sa_outgoing sp)) + announced_all ?out = mset (numbered p (I r))"
    "pending (to_dst r (sa_outgoing sp)) + markers ?out = (if sa_locally_finished sp \<and> r \<in> set (sa_dsts sp) then {#chunk_id (word_of_nat ?n + 1) p#} else {#})"
    "length ?out = size (announced_all ?out) + size (markers ?out)" using snd by (auto simp: sender_ok_def)
  have ne: "markers ms \<noteq> {#}" using e(1) by auto
  have "markers ms \<subseteq># markers ?out" unfolding out by simp
  also have "\<dots> \<subseteq># pending (to_dst r (sa_outgoing sp)) + markers ?out" by simp
  also have "\<dots> \<subseteq># {#chunk_id (word_of_nat ?n + 1) p#}" unfolding S(2) by simp
  finally have "markers ms \<subseteq># {#chunk_id (word_of_nat ?n + 1) p#}" .
  moreover have "size {#chunk_id (word_of_nat ?n + 1) p#} \<le> size (markers ms)"
    using ne by (simp add: Suc_le_eq nonempty_has_size [symmetric])
  ultimately have m: "markers ms = {#chunk_id (word_of_nat ?n + 1) p#}" by (rule mset_sub_full)
  have "word_of_nat ?n + 1 = (word_of_nat (?n + 1) :: u64)" by simp
  then have "total_sequence (markers ms) = word_of_nat (?n + 1)" unfolding m using id_sequence_chunk [OF small] by (simp add: add.commute)
  then have w: "(word_of_nat (length ms) :: u64) = word_of_nat (?n + 1)" using e(2) by simp
  have "markers ?out \<subseteq># pending (to_dst r (sa_outgoing sp)) + markers ?out" by simp
  also have "\<dots> \<subseteq># {#chunk_id (word_of_nat ?n + 1) p#}" unfolding S(2) by simp
  finally have "size (markers ?out) \<le> 1" by (metis size_mset_mono size_single)
  moreover have "size (announced_all ?out) \<le> ?n" using arg_cong [OF S(1), of size] by simp
  ultimately have lo: "length ?out \<le> ?n + 1" using S(3) by linarith
  have "length ms \<le> length ?out" unfolding out by simp
  then have lm: "length ms = ?n + 1" using word_of_nat_inj64 [OF w] lo small(2) by simp
  then have "later = []" using lo arg_cong [OF out, of length] by (metis add_le_same_cancel1 length_0_conv length_append le_zero_eq)
  then have o: "?out = ms" using out by simp
  have "size (announced_all ?out) = ?n" using S(3) lm \<open>size (markers ?out) \<le> 1\<close> \<open>size (announced_all ?out) \<le> ?n\<close> unfolding o by linarith
  moreover have "size (descs (to_dst r (sa_outgoing sp))) + size (announced_all ?out) = ?n" using arg_cong [OF S(1), of size] by simp
  ultimately have "descs (to_dst r (sa_outgoing sp)) = {#}" by (metis add_cancel_right_left size_eq_0_iff_empty)
  then show ?thesis using S(1) ms(2) o by simp
qed

lemma sparse_done:
  assumes st: "started n N0" and n: "n \<le> 2 ^ 26" and es: "\<forall>e\<in>set es. sparse_event_ok n e"
    and run: "sparse_run es N0 = (Inr (), N)" and r: "r < n" and few: "\<forall>p<n. length (puts p r es) + 1 < 2 ^ 38"
    and dn: "sparse_event_loop strm (network_comm N r received sends) (sn_nodes N r) = (Inr Done, s)"
    and p: "p \<in> set (sa_srcs s)" "p < n"
  shows "\<exists>ps s'. sparse_extract p s = (Inr ps, s') \<and> list_all2 same_packed ps (puts p r es)"
proof -
  let ?I = "\<lambda>p r. puts p r es" and ?ds = "puts p r es"
  have ok: "net_ok n ?I N" using sparse_run_ok [OF started_ok [OF st] es run] by simp
  note L = loop_ok [OF ok r dn]
  have fin: "have_all_data s" "sparse_containers_empty s" "sa_can_extract s" and src: "sources_ok s"
    using sparse_event_loop_flows(2) [OF dn] L ok r by (auto simp: net_ok_def node_ok_def)
  have snd: "sender_ok p (\<lambda>r. puts p r es) (sn_nodes N p)" using ok p(2) by (auto simp: net_ok_def node_ok_def)
  have cnt: "counted p (take (sn_taken N r p) (sa_outbox (sn_nodes N p) r)) s"
    and rcv: "from_ok (take (sn_taken N r p) (sa_outbox (sn_nodes N p) r)) (known p ?ds) (sa_inbox s p) (sa_posts s p) (sa_source s p)"
    using L by (auto simp: receiver_ok_def receives_ok_def)
  have small: "p < 2 ^ 26" "length ?ds + 1 < 2 ^ 38" using p(2) n few by auto
  have ready: "source_ready (sa_source s p)" using fin(1) p(1) by (simp add: have_all_data_def)
  let ?chunks = "ss_chunks (sa_source s p)"
  have emp: "ss_incoming (sa_source s p) = []" "sa_receive_posted s = []" using fin(2) p(1) by (simp_all add: sparse_containers_empty_def)
  have fl: "\<forall>c\<in>set ?chunks. filled c" using sources_ok_at [OF src, of p] by (simp add: source_ok_def)
  then have dat: "filter is_data ?chunks = ?chunks" by (auto simp: filled_def filter_id_conv)
  have h: "mset (map desc ?chunks) = mset (numbered p ?ds)"
  proof -
    have "descs ?chunks = mset (map desc ?chunks)" unfolding descs_def dat ..
    then show ?thesis using ready_source [OF snd cnt small ready] emp by (simp add: held_def)
  qed
  let ?cs = "sort_key (\<lambda>c. unat (sequence c)) ?chunks" and ?key = "\<lambda>d. unat (id_sequence (fst d))"
  have m: "mset (map desc ?cs) = mset (numbered p ?ds)" using h by simp
  have k: "map ?key (map desc ?cs) = map (\<lambda>c. unat (sequence c)) ?cs" by (simp add: desc_def sequence_id o_def)
  have "sorted (map ?key (map desc ?cs))" unfolding k by simp
  moreover have "sorted (map ?key (numbered p ?ds))" "distinct (map ?key (numbered p ?ds))"
    using numbered_sequences [OF small(1), of ?ds] small(2) by simp_all
  ultimately have eq: "map desc ?cs = numbered p ?ds" by (rule sort_key_unique [OF m])
  have each: "desc (?cs ! i) = numbered p ?ds ! i" "filled (?cs ! i)"
    "cc_data_size (?cs ! i) \<noteq> 0 \<Longrightarrow> carries (known p ?ds) (cc_id (?cs ! i)) (cc_data (?cs ! i))" if "i < length ?cs" for i
  proof -
    show "desc (?cs ! i) = numbered p ?ds ! i" using that eq by (metis nth_map)
    have "?cs ! i \<in> set ?cs" using that by (rule nth_mem)
    then have c: "?cs ! i \<in> set ?chunks" by (simp only: set_sort)
    then show "filled (?cs ! i)" using fl by blast
    have "\<forall>c\<in>set ?chunks. cc_data_size c \<noteq> 0 \<longrightarrow> carries (known p ?ds) (cc_id c) (cc_data c)" using rcv unfolding from_ok_def by blast
    then show "cc_data_size (?cs ! i) \<noteq> 0 \<Longrightarrow> carries (known p ?ds) (cc_id (?cs ! i)) (cc_data (?cs ! i))" using c by blast
  qed
  have len: "length ?cs = length ?ds" using arg_cong [OF eq, of length] by simp
  have send: "sendable (?ds ! i)" if "i < length ?ds" for i
  proof -
    have "\<forall>d\<in>set (puts p r es). sendable d" using es by (induction p r es rule: puts.induct) auto
    then show ?thesis using that by simp
  qed
  have same: "same_packed (unpacked (?cs ! i)) (?ds ! i) \<and> (cc_metadata (?cs ! i) = Some [] \<longrightarrow> cc_data_size (?cs ! i) = 0)" if i: "i < length ?cs" for i
  proof -
    have i': "i < length ?ds" using i len by simp
    have D: "cc_id (?cs ! i) = chunk_id (word_of_nat i) p" "cc_metadata (?cs ! i) = Some (pd_metadata (?ds ! i))"
      "cc_data_size (?cs ! i) = word_of_nat (buf_size (pd_data (?ds ! i)))"
      using each(1) [OF i] numbered_nth [OF i'] by (simp_all add: desc_def)
    obtain d where d: "cc_data (?cs ! i) = Some d" "buf_size d = unat (cc_data_size (?cs ! i))" using each(2) [OF i] by (auto simp: filled_def)
    have sz: "buf_size d = buf_size (pd_data (?ds ! i))" using d(2) D(3) send [OF i'] by (simp add: sendable_def unat_of_nat)
    have "buf_storage d = buf_storage (pd_data (?ds ! i))" if "buf_size d \<noteq> 0"
    proof -
      have "cc_data_size (?cs ! i) \<noteq> 0" using that d(2) by auto
      from each(3) [OF i this] have "(chunk_id (word_of_nat i) p, buf_storage d) \<in> known p ?ds" using d(1) D(1) by (simp add: carries_def)
      then show ?thesis using known_unique [OF small(1) _ i'] small(2) by simp
    qed
    then show ?thesis using D d sz send [OF i'] by (auto simp: same_packed_def unpacked_def sendable_def)
  qed
  have "fst (release_chunks_in_order ?cs) = Inr (map unpacked ?cs)"
  proof (rule release_chunks_ok, rule ballI)
    fix c assume "c \<in> set ?cs"
    then obtain i where "i < length ?cs" "c = ?cs ! i" by (metis in_set_conv_nth)
    then show "filled c \<and> (cc_metadata c = Some [] \<longrightarrow> cc_data_size c = 0)" using each(2) same by blast
  qed
  moreover have "list_all2 same_packed (map unpacked ?cs) ?ds" using same len by (simp add: list_all2_conv_all_nth)
  ultimately show ?thesis using p(1) fin(3) by (cases "release_chunks_in_order ?cs") (simp add: sparse_extract_def Let_def)
qed


section \<open>Properties\<close>

text \<open>Property C2: a sparse all-to-all delivers exactly what was inserted, in order. Take any number of ranks, with any lists of
  sources and destinations, inserting packed data in memory (fewer than \<open>2 ^ 38 - 1\<close> for one destination),
  finishing, and iterating in any interleaving, with metadata and payloads arriving on their tags in order after any
  delay and device writes completing at any time. When the event loop of rank \<open>r\<close> reports that it is done, extracting
  from a source succeeds and gives one packed data for each that the source inserted for \<open>r\<close>, in the order of
  insertion, each with its metadata, size and bytes.\<close>

theorem sparse_exchange_exact:
  assumes "started n N0" and "n \<le> 2 ^ 26" and "\<forall>e\<in>set es. sparse_event_ok n e" and "sparse_run es N0 = (Inr (), N)"
    and "r < n" and "\<forall>p<n. length (puts p r es) + 1 < 2 ^ 38"
    and "sparse_event_loop strm (network_comm N r received sends) (sn_nodes N r) = (Inr Done, s)"
    and "p \<in> set (sa_srcs s)" and "p < n"
  shows "\<exists>ps s'. sparse_extract p s = (Inr ps, s') \<and> list_all2 same_packed ps (puts p r es)"
  using assms by (rule sparse_done)

definition example_sparse :: "nat \<Rightarrow> int list \<Rightarrow> int list \<Rightarrow> sparse" where
  "example_sparse r srcs dsts = (case new_sparse r 2 False False srcs dsts host_br of Inr s \<Rightarrow> s)"

definition example_net :: sparse_net where
  "example_net = \<lparr>sn_nodes = (\<lambda>r. if r = 0 then example_sparse 0 [] [1] else example_sparse 1 [0] []), sn_taken = (\<lambda>_ _. 0)\<rparr>"

definition example_sparse_run :: "sparse_event list" where
  "example_sparse_run = [Puts 0 1 example_packed, Closes 0, Closes 1, Loops 0 7 (\<lambda>_ _. True) [], Arrives 1 0, Arrives 1 0]"

lemmas sparse_evals = net_node_def arrive_def example_net_def example_sparse_def new_sparse_def network_comm_def sparse_insert_def sparse_insert_finished_def
  sparse_event_loop_def send_ready_messages_def sparse_send_ready_def accept_from_def source_ready_def complete_data_messages_def
  completed_receives_def have_all_data_def sparse_containers_empty_def new_source_state_def set_source_def

lemma example_sparse_done:
  "\<exists>N s. sparse_run example_sparse_run example_net = (Inr (), N) \<and>
     sparse_event_loop 7 (network_comm N 1 (\<lambda>_ _. True) []) (sn_nodes N 1) = (Inr Done, s) \<and> 0 \<in> set (sa_srcs s)"
  by (simp add: example_sparse_run_def act_bind_def sparse_evals ring_evals chunk_evals loop_evals ensure_memory_type_def
      ADDRESSABLE_MEMORY_TYPES_def example_packed_def example_buffer_def reserve_evals host_br_def del: write_coll_message.simps)

theorem sparse_exchange_exact_witness:
  "\<exists>N s ps s'. sparse_run example_sparse_run example_net = (Inr (), N) \<and>
     sparse_event_loop 7 (network_comm N 1 (\<lambda>_ _. True) []) (sn_nodes N 1) = (Inr Done, s) \<and>
     sparse_extract 0 s = (Inr ps, s') \<and> list_all2 same_packed ps [example_packed]"
proof -
  obtain N s where e: "sparse_run example_sparse_run example_net = (Inr (), N)"
    "sparse_event_loop 7 (network_comm N 1 (\<lambda>_ _. True) []) (sn_nodes N 1) = (Inr Done, s)" "0 \<in> set (sa_srcs s)"
    using example_sparse_done by blast
  have i: "new_sparse 0 2 False False [] [1] host_br = Inr (sn_nodes example_net 0)" "new_sparse 1 2 False False [0] [] host_br = Inr (sn_nodes example_net 1)"
    by (simp_all add: example_net_def example_sparse_def new_sparse_def)
  have "\<exists>stats callback srcs dsts b. new_sparse r 2 stats callback srcs dsts b = Inr (sn_nodes example_net r)" if "r < 2" for r
  proof (cases "r = 0")
    case True
    show ?thesis unfolding True by (intro exI) (rule i(1))
  next
    case False
    then have "r = 1" using that by simp
    show ?thesis unfolding \<open>r = 1\<close> by (intro exI) (rule i(2))
  qed
  then have "started 2 example_net" by (simp add: started_def example_net_def)
  moreover have "\<forall>e\<in>set example_sparse_run. sparse_event_ok 2 e"
    by (simp add: example_sparse_run_def sendable_def example_packed_def example_buffer_def ADDRESSABLE_MEMORY_TYPES_def)
  moreover have "puts p 1 example_sparse_run = (if p = 0 then [example_packed] else [])" for p
    by (simp add: example_sparse_run_def)
  ultimately show ?thesis using sparse_exchange_exact [of 2 example_net example_sparse_run N 1 7 "\<lambda>_ _. True" "[]" s 0] e by auto
qed

end
