(* ===== verification/All_Reduce.thy ===== *)
theory All_Reduce
  imports Buffers Bytes Progress_Thread
begin

text \<open>
  The allreduce of \<^verbatim>\<open>coll/allreduce.cpp\<close>: the state machine each rank runs from its event loop, and the
  host-side operator of \<^verbatim>\<open>coll/allreduce.hpp\<close>. The reduction operator is a parameter, called with the left and
  the right buffer, which it updates. The communicator's answers are inputs of an iteration. The logs of what was
  sent to each rank, and how many receives were posted to each, identify the messages, since all use one tag.
\<close>

section \<open>The host-side operator\<close>

text \<open>Elements are blocks of \<open>w\<close> bytes; bytes of the right operand beyond the last common element stay.\<close>

function elementwise :: "nat \<Rightarrow> (u8 list \<Rightarrow> u8 list \<Rightarrow> u8 list) \<Rightarrow> u8 list \<Rightarrow> u8 list \<Rightarrow> u8 list" where
  "elementwise w f a b =
     (if w = 0 \<or> length a < w \<or> length b < w then b
      else f (take w a) (take w b) @ elementwise w f (drop w a) (drop w b))"
  by pat_completeness auto
termination by (relation "measure (\<lambda>(_, _, a, _). length a)") auto

declare elementwise.simps [simp del]

type_synonym reduce_operator_fn = "buffer \<Rightarrow> (buffer, unit) act"

definition host_op :: "nat \<Rightarrow> (u8 list \<Rightarrow> u8 list \<Rightarrow> u8 list) \<Rightarrow> reduce_operator_fn" where
  "host_op w f left right =
     (if buf_size left mod w \<noteq> 0 then (Inl Logic_Error, right)
      else if buf_size left div w = 0 then (Inr (), right)
      else if \<not> (buf_mem left = HOST \<and> buf_mem right = HOST) then (Inl Logic_Error, right)
      else case buffer_data left of
             Inl e \<Rightarrow> (Inl e, right)
           | Inr bs \<Rightarrow>
               (case exclusive_data_access right of
                  (Inl e, right1) \<Rightarrow> (Inl e, right1)
                | (Inr rs, right1) \<Rightarrow>
                    if length rs < buf_size left then (Inl Undefined, right1)
                    else (Inr (), unlock (right1\<lparr>buf_storage := Some (elementwise w f bs rs)\<rparr>))))"

section \<open>State\<close>

datatype reduce_phase =
    StartPreRemainder
  | CompletePreRemainder
  | StartButterfly
  | CompleteButterfly
  | StartPostRemainder
  | CompletePostRemainder
  | Reduce_Done
  | ResultAvailable

record all_reduce =
  rd_rank :: nat
  rd_nranks :: nat
  rd_in :: "buffer option"
  rd_out :: "buffer option"
  rd_phase :: reduce_phase
  rd_active :: bool
  rd_callback :: bool
  rd_callback_calls :: nat
  rd_logical :: int
  rd_pow2 :: nat
  rd_remainder :: nat
  rd_mask :: nat
  rd_partner :: int
  rd_send :: "(nat \<times> buffer) option"
  rd_recv :: "(nat \<times> nat \<times> buffer) option"
  rd_sent :: "nat \<Rightarrow> buffer list"
  rd_posts :: "nat \<Rightarrow> nat"

text \<open>\<^verbatim>\<open>std::bit_floor\<close>: the largest power of two that is not larger.\<close>

fun bit_floor :: "nat \<Rightarrow> nat" where
  "bit_floor n = (if n \<le> 1 then n else 2 * bit_floor (n div 2))"

declare bit_floor.simps [simp del]

definition new_all_reduce :: "nat \<Rightarrow> nat \<Rightarrow> bool \<Rightarrow> buffer option \<Rightarrow> buffer option \<Rightarrow> bool \<Rightarrow> nat \<Rightarrow> all_reduce result" where
  "new_all_reduce rank nranks stats input output callback transferred =
     (case (input, output) of
        (None, _) \<Rightarrow> Inl Invalid_Argument
      | (_, None) \<Rightarrow> Inl Invalid_Argument
      | (Some i, Some o0) \<Rightarrow>
          if buf_size i \<noteq> buf_size o0 then Inl Invalid_Argument
          else if buf_mem i \<noteq> buf_mem o0 then Inl Invalid_Argument
          else case rebind_stream (buf_stream i) o0 of
                 (Inl e, _) \<Rightarrow> Inl e
               | (Inr _, o1) \<Rightarrow>
                   (case buffer_copy stats i (buf_size i) 0 0 transferred o1 of
                      (Inl e, _) \<Rightarrow> Inl e
                    | (Inr _, o2) \<Rightarrow>
                        let pow2 = bit_floor nranks; remainder = nranks - pow2 in
                        Inr \<lparr>rd_rank = rank, rd_nranks = nranks, rd_in = Some i, rd_out = Some o2,
                          rd_phase = (if rank < 2 * remainder then StartPreRemainder else StartButterfly),
                          rd_active = True, rd_callback = callback, rd_callback_calls = 0,
                          rd_logical = (if rank < 2 * remainder then (if even rank then -1 else int (rank div 2)) else int rank - int remainder),
                          rd_pow2 = pow2, rd_remainder = remainder, rd_mask = 1, rd_partner = -1, rd_send = None, rd_recv = None,
                          rd_sent = (\<lambda>_. []), rd_posts = (\<lambda>_. 0)\<rparr>))"

section \<open>The client's calls\<close>

definition reduce_finished :: "all_reduce \<Rightarrow> bool" where
  "reduce_finished s \<longleftrightarrow> rd_phase s = ResultAvailable"

definition reduce_is_ready :: "all_reduce \<Rightarrow> bool" where
  "reduce_is_ready s \<longleftrightarrow> rd_phase s = ResultAvailable"

text \<open>\<open>None\<close> while the call blocks.\<close>

definition reduce_wait_and_extract :: "bool \<Rightarrow> all_reduce \<Rightarrow> ((buffer \<times> buffer) result \<times> all_reduce) option" where
  "reduce_wait_and_extract timed_out s =
     (if rd_phase s \<noteq> ResultAvailable then (if timed_out then Some (Inl Runtime_Error, s) else None)
      else case (rd_in s, rd_out s) of
             (Some i, Some out) \<Rightarrow> Some (Inr (i, out), s\<lparr>rd_in := None, rd_out := None\<rparr>)
           | _ \<Rightarrow> Some (Inl Runtime_Error, s))"

text \<open>The destructor's check, and that it deactivates the event loop.\<close>

definition destroy_all_reduce :: "(all_reduce, unit) act" where
  "destroy_all_reduce s =
     (if rd_phase s = ResultAvailable \<or> rd_phase s = Reduce_Done then (Inr (), s\<lparr>rd_active := False\<rparr>) else (Inl Fatal, s))"

section \<open>One iteration\<close>

text \<open>
  What the communicator answers: whether the receive number \<open>k\<close> from a rank has completed, the buffer it gives
  back for the one posted, and whether the send has completed.
\<close>

record reduce_comm =
  rc_arrived :: "nat \<Rightarrow> nat \<Rightarrow> bool"
  rc_fill :: "nat \<Rightarrow> nat \<Rightarrow> buffer \<Rightarrow> buffer"
  rc_sent :: bool

definition write_done :: "buffer option \<Rightarrow> bool result" where
  "write_done b = (case b of None \<Rightarrow> Inl Undefined | Some x \<Rightarrow> is_latest_write_done x)"

definition both_written :: "all_reduce \<Rightarrow> bool result" where
  "both_written s = res_bind (write_done (rd_out s)) (\<lambda>d. if \<not> d then Inr False else write_done (rd_in s))"

text \<open>Break out of the phase unless the check holds.\<close>

definition when_holds :: "(all_reduce \<Rightarrow> bool result) \<Rightarrow> (all_reduce, unit) act \<Rightarrow> (all_reduce, unit) act" where
  "when_holds chk f s = (case chk s of Inl e \<Rightarrow> (Inl e, s) | Inr b \<Rightarrow> if b then f s else (Inr (), s))"

definition send_out :: "nat \<Rightarrow> all_reduce \<Rightarrow> all_reduce" where
  "send_out dst s =
     (case rd_out s of
        None \<Rightarrow> s
      | Some b \<Rightarrow> s\<lparr>rd_out := None, rd_send := Some (dst, b), rd_sent := (rd_sent s)(dst := rd_sent s dst @ [b])\<rparr>)"

definition post_receive :: "nat \<Rightarrow> buffer \<Rightarrow> all_reduce \<Rightarrow> all_reduce" where
  "post_receive src b s = s\<lparr>rd_recv := Some (src, rd_posts s src, b), rd_posts := (rd_posts s)(src := Suc (rd_posts s src))\<rparr>"

definition receive_in :: "nat \<Rightarrow> all_reduce \<Rightarrow> all_reduce" where
  "receive_in src s = (case rd_in s of None \<Rightarrow> s | Some b \<Rightarrow> post_receive src b (s\<lparr>rd_in := None\<rparr>))"

definition receive_out :: "nat \<Rightarrow> all_reduce \<Rightarrow> all_reduce" where
  "receive_out src s = (case rd_out s of None \<Rightarrow> s | Some b \<Rightarrow> post_receive src b (s\<lparr>rd_out := None\<rparr>))"

definition recv_tested :: "reduce_comm \<Rightarrow> all_reduce \<Rightarrow> bool result" where
  "recv_tested rc s = (case rd_recv s of None \<Rightarrow> Inl Undefined | Some (src, k, _) \<Rightarrow> Inr (rc_arrived rc src k))"

definition send_tested :: "reduce_comm \<Rightarrow> all_reduce \<Rightarrow> bool result" where
  "send_tested rc s = (case rd_send s of None \<Rightarrow> Inl Undefined | Some _ \<Rightarrow> Inr (rc_sent rc))"

definition received_buffer :: "reduce_comm \<Rightarrow> all_reduce \<Rightarrow> buffer option" where
  "received_buffer rc s = map_option (\<lambda>(src, k, b). rc_fill rc src k b) (rd_recv s)"

definition take_in :: "reduce_comm \<Rightarrow> all_reduce \<Rightarrow> all_reduce" where
  "take_in rc s = s\<lparr>rd_in := received_buffer rc s, rd_recv := None\<rparr>"

definition take_out :: "reduce_comm \<Rightarrow> all_reduce \<Rightarrow> all_reduce" where
  "take_out rc s = s\<lparr>rd_out := received_buffer rc s, rd_recv := None\<rparr>"

definition return_out :: "all_reduce \<Rightarrow> all_reduce" where
  "return_out s = s\<lparr>rd_out := map_option snd (rd_send s), rd_send := None\<rparr>"

definition to_phase :: "reduce_phase \<Rightarrow> all_reduce \<Rightarrow> all_reduce" where
  "to_phase ph s = s\<lparr>rd_phase := ph\<rparr>"

text \<open>The two orders of the operands: into the output buffer, or into the input buffer and then swapped.\<close>

definition reduce_into_out :: "reduce_operator_fn \<Rightarrow> (all_reduce, unit) act" where
  "reduce_into_out reduce s =
     (case (rd_in s, rd_out s) of
        (Some i, Some out) \<Rightarrow> (case reduce i out of (r, out') \<Rightarrow> (r, s\<lparr>rd_out := Some out'\<rparr>))
      | _ \<Rightarrow> (Inl Undefined, s))"

definition reduce_into_in :: "reduce_operator_fn \<Rightarrow> (all_reduce, unit) act" where
  "reduce_into_in reduce s =
     (case (rd_in s, rd_out s) of
        (Some i, Some out) \<Rightarrow>
          (case reduce out i of
             (Inl e, i') \<Rightarrow> (Inl e, s\<lparr>rd_in := Some i'\<rparr>)
           | (Inr _, i') \<Rightarrow> (Inr (), s\<lparr>rd_in := Some out, rd_out := Some i'\<rparr>))
      | _ \<Rightarrow> (Inl Undefined, s))"

definition start_pre_remainder :: "(all_reduce, unit) act" where
  "start_pre_remainder s =
     (if even (rd_rank s) then
        when_holds (\<lambda>s. write_done (rd_out s)) (\<lambda>s. (Inr (), to_phase CompletePreRemainder (send_out (rd_rank s + 1) s))) s
      else when_holds both_written (\<lambda>s. (Inr (), to_phase CompletePreRemainder (receive_in (rd_rank s - 1) s))) s)"

definition complete_pre_remainder :: "reduce_operator_fn \<Rightarrow> reduce_comm \<Rightarrow> (all_reduce, unit) act" where
  "complete_pre_remainder reduce rc s =
     (if even (rd_rank s) then when_holds (send_tested rc) (\<lambda>s. (Inr (), to_phase StartPostRemainder (return_out s))) s
      else when_holds (recv_tested rc)
        (\<lambda>s. act_bind (reduce_into_out reduce) (\<lambda>_ s. (Inr (), to_phase StartButterfly s)) (take_in rc s)) s)"

text \<open>The partner of a stage, as the rank of a logical rank.\<close>

definition physical :: "nat \<Rightarrow> nat \<Rightarrow> nat" where
  "physical remainder l = (if l < remainder then l * 2 + 1 else l + remainder)"

definition start_butterfly :: "(all_reduce, unit) act" where
  "start_butterfly s =
     (if rd_mask s \<ge> rd_pow2 s then
        (Inr (), to_phase (if rd_rank s < 2 * rd_remainder s then StartPostRemainder else Reduce_Done) s)
      else
        let p = physical (rd_remainder s) (nat (rd_logical s) XOR rd_mask s) in
        when_holds both_written
          (\<lambda>s. (Inr (), to_phase CompleteButterfly (send_out p (receive_in p s)))) (s\<lparr>rd_partner := int p\<rparr>))"

definition complete_butterfly :: "reduce_operator_fn \<Rightarrow> reduce_comm \<Rightarrow> (all_reduce, unit) act" where
  "complete_butterfly reduce rc =
     when_holds (\<lambda>s. res_bind (recv_tested rc s) (\<lambda>r. if \<not> r then Inr False else send_tested rc s))
       (\<lambda>s. act_bind (if rd_partner s < int (rd_rank s) then reduce_into_out reduce else reduce_into_in reduce)
          (\<lambda>_ s. (Inr (), to_phase StartButterfly (s\<lparr>rd_mask := 2 * rd_mask s\<rparr>))) (return_out (take_in rc s)))"

definition start_post_remainder :: "(all_reduce, unit) act" where
  "start_post_remainder =
     when_holds (\<lambda>s. write_done (rd_out s))
       (\<lambda>s. (Inr (), to_phase CompletePostRemainder
          (if even (rd_rank s) then receive_out (rd_rank s + 1) s else send_out (rd_rank s - 1) s)))"

definition complete_post_remainder :: "reduce_comm \<Rightarrow> (all_reduce, unit) act" where
  "complete_post_remainder rc s =
     (if even (rd_rank s) then when_holds (recv_tested rc) (\<lambda>s. (Inr (), to_phase Reduce_Done (take_out rc s))) s
      else when_holds (send_tested rc) (\<lambda>s. (Inr (), to_phase Reduce_Done (return_out s))) s)"

definition reduce_switch :: "reduce_operator_fn \<Rightarrow> reduce_comm \<Rightarrow> (all_reduce, unit) act" where
  "reduce_switch reduce rc s =
     (case rd_phase s of
        StartPreRemainder \<Rightarrow> start_pre_remainder s
      | CompletePreRemainder \<Rightarrow> complete_pre_remainder reduce rc s
      | StartButterfly \<Rightarrow> start_butterfly s
      | CompleteButterfly \<Rightarrow> complete_butterfly reduce rc s
      | StartPostRemainder \<Rightarrow> start_post_remainder s
      | CompletePostRemainder \<Rightarrow> complete_post_remainder rc s
      | ResultAvailable \<Rightarrow> (Inl Logic_Error, s)
      | Reduce_Done \<Rightarrow> (Inr (), s))"

definition reduce_event_loop :: "reduce_operator_fn \<Rightarrow> reduce_comm \<Rightarrow> (all_reduce, progress_state) act" where
  "reduce_event_loop reduce rc s =
     (if \<not> rd_active s then (Inr Done, s)
      else act_bind (reduce_switch reduce rc) (\<lambda>_ s.
        if rd_phase s = Reduce_Done then
          (Inr Done, s\<lparr>rd_phase := ResultAvailable, rd_callback := False,
                       rd_callback_calls := rd_callback_calls s + (if rd_callback s then 1 else 0)\<rparr>)
        else (Inr InProgress, s)) s)"

end
