(* ===== verification/Reduce_Tree.thy ===== *)
theory Reduce_Tree
  imports All_Reduce
begin

text \<open>
  What the exchanges of the allreduce compute. The first part says who sends to whom: ranks have logical numbers
  (\<open>logical\<close>, \<open>physical\<close>), \<open>spare n\<close> of them absorb a neighbour first, and the exchanges of a rank are numbered;
  \<open>sends\<close> is the pattern, with at most one message between any two ranks in one direction. The second part is the
  specification: \<open>tree\<close> combines the contributions of a block of \<open>2 ^ j\<close> logical ranks, \<open>partial\<close> is what a rank
  has after \<open>j\<close> stages and \<open>reduction\<close> the result. The locale \<open>reducer\<close> is the contract of a reduction operator,
  interpreted on the host operator of \<^verbatim>\<open>coll/allreduce.hpp\<close> with any function on 64-bit words.
\<close>

section \<open>Powers of two\<close>

fun stages :: "nat \<Rightarrow> nat" where
  "stages n = (if n \<le> 1 then 0 else Suc (stages (n div 2)))"

declare stages.simps [simp del]

lemma bit_floor_stages: "n > 0 \<Longrightarrow> bit_floor n = 2 ^ stages n"
proof (induction n rule: bit_floor.induct)
  case (1 n)
  show ?case
  proof (cases "n \<le> 1")
    case True
    then show ?thesis using 1 by (simp add: bit_floor.simps stages.simps)
  next
    case False
    then show ?thesis using 1 by (subst bit_floor.simps, subst stages.simps) (simp add: div_greater_zero_iff)
  qed
qed

lemma bit_floor_bounds: "n > 0 \<Longrightarrow> bit_floor n \<le> n \<and> n < 2 * bit_floor n"
proof (induction n rule: bit_floor.induct)
  case (1 n)
  show ?case
  proof (cases "n \<le> 1")
    case True
    then show ?thesis using 1 by (simp add: bit_floor.simps)
  next
    case False
    then have "bit_floor (n div 2) \<le> n div 2 \<and> n div 2 < 2 * bit_floor (n div 2)" using 1 by (simp add: div_greater_zero_iff)
    moreover have "bit_floor n = 2 * bit_floor (n div 2)" using False by (subst bit_floor.simps) simp
    ultimately show ?thesis by linarith
  qed
qed

definition spare :: "nat \<Rightarrow> nat" where
  "spare n = n - bit_floor n"

lemma split_ranks: "n > 0 \<Longrightarrow> n = 2 ^ stages n + spare n \<and> spare n < 2 ^ stages n"
  using bit_floor_bounds [of n] bit_floor_stages [of n] by (auto simp: spare_def)

section \<open>Flipping a bit\<close>

lemma xor_div: "(l XOR 2 ^ j) div 2 ^ j = (l div 2 ^ j) XOR (1::nat)"
proof -
  have "drop_bit j (l XOR 2 ^ j) = drop_bit j l XOR drop_bit j (2 ^ j)" by (rule drop_bit_xor)
  also have "drop_bit j (2 ^ j) = (1::nat)" by (simp add: drop_bit_eq_div)
  finally show ?thesis by (simp add: drop_bit_eq_div)
qed

lemma xor_back: "(l XOR k) XOR k = (l::nat)"
  by (simp add: xor.assoc)

lemma xor_set: "even (l div 2 ^ j) \<Longrightarrow> l XOR 2 ^ j = l + 2 ^ j" for l :: nat
proof -
  assume e: "even (l div 2 ^ j)"
  have "l XOR 2 ^ j = flip_bit j l" by (simp add: flip_bit_eq_xor push_bit_eq_mult)
  then show ?thesis using e by (simp add: flip_bit_eq_if set_bit_eq bit_iff_odd)
qed

lemma xor_value: "l XOR 2 ^ j = (if odd (l div 2 ^ j) then l - 2 ^ j else l + 2 ^ j)" for l :: nat
proof (cases "odd (l div 2 ^ j)")
  case True
  then have "even ((l XOR 2 ^ j) div 2 ^ j)" by (simp add: xor_div even_xor_iff)
  from xor_set [OF this] have "l = (l XOR 2 ^ j) + 2 ^ j" by (simp add: xor_back)
  then show ?thesis using True by simp
qed (simp add: xor_set)

lemma odd_div_le: "odd (l div 2 ^ j) \<Longrightarrow> 2 ^ j \<le> (l::nat)"
  by (metis div_less even_zero linorder_not_less)

lemma xor_less: "(l XOR 2 ^ j < l) = odd (l div 2 ^ j)" for l :: nat
proof (cases "odd (l div 2 ^ j)")
  case True
  have "0 < (2::nat) ^ j" by simp
  then have "l - 2 ^ j < l" using odd_div_le [OF True] by linarith
  then show ?thesis using True by (simp add: xor_value)
qed (simp add: xor_value)

lemma xor_differs: "l XOR 2 ^ j \<noteq> l" for l :: nat
  by (metis xor_self_eq xor.left_commute xor.right_neutral power_not_zero zero_neq_numeral)

lemma xor_bound:
  fixes l :: nat
  assumes "l < 2 ^ m" and "j < m"
  shows "l XOR 2 ^ j < 2 ^ m"
proof -
  have "take_bit m (l XOR 2 ^ j) = take_bit m l XOR take_bit m (2 ^ j)" by (rule take_bit_xor)
  also have "\<dots> = l XOR 2 ^ j" using assms by (simp add: take_bit_nat_eq_self)
  finally show ?thesis by (metis take_bit_nat_less_exp)
qed

lemma xor_stage_unique: "l XOR 2 ^ i = l XOR 2 ^ j \<Longrightarrow> i = j" for l :: nat
proof -
  assume "l XOR 2 ^ i = l XOR 2 ^ j"
  then have "(2::nat) ^ i = 2 ^ j" by (metis xor.left_commute xor_self_eq xor.right_neutral)
  then show "i = j" by simp
qed

section \<open>Who exchanges with whom\<close>

definition logical :: "nat \<Rightarrow> nat \<Rightarrow> nat" where
  "logical n r = (if r < 2 * spare n then r div 2 else r - spare n)"

definition takes_part :: "nat \<Rightarrow> nat \<Rightarrow> bool" where
  "takes_part n r \<longleftrightarrow> r < n \<and> (r < 2 * spare n \<longrightarrow> odd r)"

lemma physical_facts:
  assumes "n > 0" and "l < 2 ^ stages n"
  shows "physical (spare n) l < n" and "takes_part n (physical (spare n) l)" and "logical n (physical (spare n) l) = l"
  using split_ranks [OF assms(1)] assms(2) by (auto simp: physical_def takes_part_def logical_def)

lemma logical_facts:
  assumes "takes_part n r"
  shows "logical n r < 2 ^ stages n" and "physical (spare n) (logical n r) = r"
proof -
  have n: "n = 2 ^ stages n + spare n" "spare n < 2 ^ stages n" using assms split_ranks [of n] by (auto simp: takes_part_def)
  show "logical n r < 2 ^ stages n" using assms n by (auto simp: takes_part_def logical_def)
  show "physical (spare n) (logical n r) = r"
    using assms odd_two_times_div_two_succ [of r] by (auto simp: takes_part_def logical_def physical_def mult.commute)
qed

lemma physical_mono: "l < l' \<Longrightarrow> physical k l < physical k l'"
  by (auto simp: physical_def)

lemma physical_less: "(physical k l < physical k l') = (l < l')"
  using physical_mono [of l l' k] physical_mono [of l' l k] by (metis linorder_neqE_nat not_less_iff_gr_or_eq)

text \<open>
  The exchanges of a rank are numbered: \<open>0\<close> before the butterfly, \<open>j + 1\<close> in stage \<open>j\<close> of it, and one after it. The
  first goes from the even rank of a pair to the odd one, the last back.
\<close>

definition peer :: "nat \<Rightarrow> nat \<Rightarrow> nat \<Rightarrow> nat option" where
  "peer n r i =
     (if i = 0 \<or> i = Suc (stages n) then (if r < 2 * spare n then Some (if even r then r + 1 else r - 1) else None)
      else if i \<le> stages n \<and> takes_part n r then Some (physical (spare n) (logical n r XOR 2 ^ (i - 1)))
      else None)"

definition sends :: "nat \<Rightarrow> nat \<Rightarrow> nat \<Rightarrow> nat \<Rightarrow> bool" where
  "sends n r q i \<longleftrightarrow> peer n r i = Some q \<and> (i = 0 \<longrightarrow> even r) \<and> (i = Suc (stages n) \<longrightarrow> odd r)"

lemma stage_peer: "0 < i \<Longrightarrow> i \<le> stages n \<Longrightarrow> peer n r i = (if takes_part n r then Some (physical (spare n) (logical n r XOR 2 ^ (i - 1))) else None)"
  by (simp add: peer_def)

lemma sends_stage:
  assumes "0 < i" and "i \<le> stages n"
  shows "sends n r q i \<longleftrightarrow> takes_part n r \<and> q = physical (spare n) (logical n r XOR 2 ^ (i - 1))"
  using assms by (auto simp: sends_def stage_peer)

lemma sends_stage_sym:
  assumes "0 < i" and "i \<le> stages n" and "sends n r q i"
  shows "sends n q r i"
proof -
  have r: "takes_part n r" "q = physical (spare n) (logical n r XOR 2 ^ (i - 1))" using assms by (simp_all add: sends_stage)
  then have n: "n > 0" by (auto simp: takes_part_def)
  have "logical n r XOR 2 ^ (i - 1) < 2 ^ stages n" using logical_facts(1) [OF r(1)] assms(1,2) by (intro xor_bound) auto
  from physical_facts [OF n this] show ?thesis
    using assms(1,2) r logical_facts(2) [OF r(1)] by (simp add: sends_stage xor_back)
qed

lemma sends_pre: "sends n r q 0 \<longleftrightarrow> even r \<and> r < 2 * spare n \<and> q = r + 1"
  by (auto simp: sends_def peer_def)

lemma sends_post: "sends n r q (Suc (stages n)) \<longleftrightarrow> odd r \<and> r < 2 * spare n \<and> q = r - 1"
  by (auto simp: sends_def peer_def)

lemma sends_cases:
  assumes "sends n r q i"
  obtains "i = 0" | "0 < i" "i \<le> stages n" | "i = Suc (stages n)"
  using assms by (auto simp: sends_def peer_def split: if_splits)

lemma spare_pairs: "r < 2 * spare n \<Longrightarrow> r < n \<and> (even r \<longrightarrow> r + 1 < 2 * spare n)"
proof -
  assume r: "r < 2 * spare n"
  then have "n > 0" by (cases n) (simp_all add: spare_def)
  then have "2 * spare n \<le> n" using split_ranks [of n] by linarith
  moreover have "even r \<Longrightarrow> r + 1 < 2 * spare n" using r by presburger
  ultimately show ?thesis using r by auto
qed

lemma sends_ranks:
  assumes "sends n r q i"
  shows "r < n \<and> q < n \<and> r \<noteq> q"
  using assms
proof (cases rule: sends_cases)
  case 1
  then show ?thesis using assms spare_pairs [of r n] spare_pairs [of "r + 1" n] by (auto simp: sends_pre)
next
  case 2
  then have r: "takes_part n r" "q = physical (spare n) (logical n r XOR 2 ^ (i - 1))" using assms by (simp_all add: sends_stage)
  then have n: "n > 0" by (auto simp: takes_part_def)
  have "logical n r XOR 2 ^ (i - 1) < 2 ^ stages n" using logical_facts(1) [OF r(1)] 2 by (intro xor_bound) auto
  note P = physical_facts [OF n this]
  then show ?thesis using r xor_differs [of "logical n r" "i - 1"] by (auto simp: takes_part_def)
next
  case 3
  then show ?thesis using assms spare_pairs [of r n] by (auto simp: sends_post dest: odd_pos)
qed

lemma sends_time_unique:
  assumes "sends n r q i" and "sends n r q i'"
  shows "i = i'"
proof -
  have part: "takes_part n r \<and> takes_part n q" if "0 < k" "k \<le> stages n" "sends n r q k" for k
    using that sends_stage_sym [OF that] by (simp add: sends_stage)
  have n: "\<not> takes_part n r" if "even r" "r < 2 * spare n" for r using that by (simp add: takes_part_def)
  have q: "even (r - 1) \<and> r - 1 < 2 * spare n" if "odd r" "r < 2 * spare n" using that by auto
  show ?thesis
  proof (rule sends_cases [OF assms(1)]; rule sends_cases [OF assms(2)])
    assume i: "0 < i" "i \<le> stages n" "0 < i'" "i' \<le> stages n"
    then have e: "physical (spare n) (logical n r XOR 2 ^ (i - 1)) = physical (spare n) (logical n r XOR 2 ^ (i' - 1))"
      using assms by (simp add: sends_stage)
    then have "logical n r XOR 2 ^ (i - 1) = logical n r XOR 2 ^ (i' - 1)" using physical_less by (metis less_irrefl linorder_neqE_nat)
    from xor_stage_unique [OF this] i show ?thesis by simp
  qed (use assms part n q in \<open>auto simp: sends_pre sends_post\<close>)
qed

lemma sends_to_unique: "sends n r q i \<Longrightarrow> sends n r q' i \<Longrightarrow> q = q'"
  by (simp add: sends_def)

lemma sends_from_unique:
  assumes "sends n q r i" and "sends n q' r i"
  shows "q = q'"
  using assms(1)
proof (cases rule: sends_cases)
  case 1
  then show ?thesis using assms by (simp add: sends_pre)
next
  case 2
  then show ?thesis using sends_to_unique [OF sends_stage_sym [OF 2 assms(1)] sends_stage_sym [OF 2 assms(2)]] by simp
next
  case 3
  then have "odd q" "odd q'" "q - 1 = q' - 1" using assms by (auto simp: sends_post)
  moreover have "0 < q" "0 < q'" using \<open>odd q\<close> \<open>odd q'\<close> odd_pos by blast+
  ultimately show ?thesis by linarith
qed


section \<open>The tree of combinations\<close>

fun tree :: "('b \<Rightarrow> 'b \<Rightarrow> 'b) \<Rightarrow> (nat \<Rightarrow> 'b) \<Rightarrow> nat \<Rightarrow> nat \<Rightarrow> 'b" where
  "tree c leaf 0 g = leaf g"
| "tree c leaf (Suc j) g = c (tree c leaf j (2 * g)) (tree c leaf j (2 * g + 1))"

definition pair_leaf :: "('b \<Rightarrow> 'b \<Rightarrow> 'b) \<Rightarrow> (nat \<Rightarrow> 'b) \<Rightarrow> nat \<Rightarrow> nat \<Rightarrow> 'b" where
  "pair_leaf c x n l = (if l < spare n then c (x (2 * l)) (x (2 * l + 1)) else x (l + spare n))"

abbreviation partial :: "('b \<Rightarrow> 'b \<Rightarrow> 'b) \<Rightarrow> (nat \<Rightarrow> 'b) \<Rightarrow> nat \<Rightarrow> nat \<Rightarrow> nat \<Rightarrow> 'b" where
  "partial c x n j r \<equiv> tree c (pair_leaf c x n) j (logical n r div 2 ^ j)"

definition reduction :: "('b \<Rightarrow> 'b \<Rightarrow> 'b) \<Rightarrow> (nat \<Rightarrow> 'b) \<Rightarrow> nat \<Rightarrow> 'b" where
  "reduction c x n = tree c (pair_leaf c x n) (stages n) 0"

text \<open>What a rank sends in exchange \<open>i\<close>.\<close>

definition round_message :: "('b \<Rightarrow> 'b \<Rightarrow> 'b) \<Rightarrow> (nat \<Rightarrow> 'b) \<Rightarrow> nat \<Rightarrow> nat \<Rightarrow> nat \<Rightarrow> 'b" where
  "round_message c x n r i =
     (if i = 0 then x r else if i \<le> stages n then partial c x n (i - 1) r else reduction c x n)"

lemma partial_start: "takes_part n r \<Longrightarrow> partial c x n 0 r = (if r < 2 * spare n then c (x (r - 1)) (x r) else x r)"
proof -
  assume t: "takes_part n r"
  show ?thesis
  proof (cases "r < 2 * spare n")
    case True
    then have "odd r" using t by (simp add: takes_part_def)
    then obtain k where "r = 2 * k + 1" by (elim oddE)
    then show ?thesis using True by (auto simp: pair_leaf_def logical_def)
  next
    case False
    then show ?thesis by (auto simp: pair_leaf_def logical_def)
  qed
qed

lemma partial_end: "takes_part n r \<Longrightarrow> partial c x n (stages n) r = reduction c x n"
  using logical_facts(1) [of n r] by (simp add: reduction_def)

text \<open>A stage combines two halves, the one of the smaller rank on the left.\<close>

lemma partial_step:
  assumes "takes_part n r" and "j < stages n" and "sends n r q (Suc j)"
  shows "partial c x n (Suc j) r = (if q < r then c (partial c x n j q) (partial c x n j r) else c (partial c x n j r) (partial c x n j q))"
proof -
  define g where "g = logical n r div 2 ^ j"
  have q: "q = physical (spare n) (logical n r XOR 2 ^ j)" using assms(2,3) by (simp add: sends_stage)
  have n: "n > 0" using assms(1) by (auto simp: takes_part_def)
  have "logical n r XOR 2 ^ j < 2 ^ stages n" using logical_facts(1) [OF assms(1)] assms(2) by (rule xor_bound)
  from physical_facts [OF n this] have lq: "logical n q = logical n r XOR 2 ^ j" by (simp add: q)
  have gq: "logical n q div 2 ^ j = (if odd g then g - 1 else g + 1)"
    unfolding lq xor_div g_def [symmetric] using xor_value [of g 0] by simp
  have "(q < r) = (logical n q < logical n r)"
    using physical_less [of "spare n" "logical n q" "logical n r"] logical_facts(2) [OF assms(1)] q lq by simp
  then have less: "(q < r) = odd g" by (simp add: lq xor_less g_def)
  have d: "logical n r div 2 ^ Suc j = g div 2" by (simp add: g_def flip: div_mult2_eq) (simp add: mult.commute)
  show ?thesis
  proof (cases "odd g")
    case True
    then obtain k where "g = 2 * k + 1" by (elim oddE)
    then show ?thesis unfolding d gq g_def [symmetric] less by simp
  next
    case False
    then have "even g" by simp
    then obtain k where "g = 2 * k" by (elim evenE)
    then show ?thesis unfolding d gq g_def [symmetric] less by simp
  qed
qed

section \<open>The operator's contract\<close>

definition shaped :: "mem_type \<Rightarrow> nat \<Rightarrow> u8 list \<Rightarrow> buffer \<Rightarrow> bool" where
  "shaped mt sz bs b \<longleftrightarrow> buf_mem b = mt \<and> buf_size b = sz \<and> \<not> buf_locked b \<and> buf_storage b = Some bs \<and> length bs = sz"

definition calm :: "buffer \<Rightarrow> bool" where
  "calm b \<longleftrightarrow> buf_size b = 0 \<or> buf_ready b"

text \<open>What an operator owes: on two quiet buffers it puts the combination of their bytes into the right one.\<close>

locale reducer =
  fixes reduce :: reduce_operator_fn
    and combine :: "u8 list \<Rightarrow> u8 list \<Rightarrow> u8 list"
    and mt :: mem_type
    and sz :: nat
  assumes reduces: "shaped mt sz a l \<Longrightarrow> calm l \<Longrightarrow> shaped mt sz b r \<Longrightarrow> calm r \<Longrightarrow>
      \<exists>r'. reduce l r = (Inr (), r') \<and> shaped mt sz (combine a b) r'"
    and not_on_disk: "mt \<noteq> DISK"
begin

lemma combine_length:
  assumes "length a = sz" and "length b = sz"
  shows "length (combine a b) = sz"
proof -
  define buf where "buf bs = \<lparr>buf_size = sz, buf_mem = mt, buf_storage = Some bs, buf_stream = 1, buf_ready = True, buf_locked = False, buf_token = False\<rparr>" for bs :: "u8 list"
  have "shaped mt sz a (buf a)" "calm (buf a)" "shaped mt sz b (buf b)" "calm (buf b)" using assms by (simp_all add: shaped_def calm_def buf_def)
  from reduces [OF this] show ?thesis by (auto simp: shaped_def)
qed

end

text \<open>The host operator on buffers of whole elements.\<close>

lemma elementwise_length: "(\<And>a b. length (f a b) = w) \<Longrightarrow> length (elementwise w f a b) = length b"
proof (induction w f a b rule: elementwise.induct)
  case (1 w f a b)
  then show ?case by (subst elementwise.simps) (simp add: min_def)
qed

lemma elementwise_none: "length a div w = 0 \<Longrightarrow> elementwise w f a b = b"
  by (subst elementwise.simps) (auto simp: div_eq_0_iff)

lemma host_op_reducer:
  assumes "\<And>a b. length (f a b) = w" and "sz mod w = 0"
  shows "reducer (host_op w f) (elementwise w f) HOST sz"
proof
  fix a b l r
  assume "shaped HOST sz a l" "calm l" "shaped HOST sz b r" "calm r"
  moreover from this have "is_latest_write_done r = Inr True" by (auto simp: is_latest_write_done_def throw_if_locked_def shaped_def calm_def)
  ultimately show "\<exists>r'. host_op w f l r = (Inr (), r') \<and> shaped HOST sz (elementwise w f a b) r'"
    using assms by (auto simp: host_op_def shaped_def buffer_data_def throw_if_locked_def storage_bytes_def exclusive_data_access_def
        unlock_def elementwise_length elementwise_none)
qed simp

text \<open>Operators on 64-bit words, lifted to buffers of \<open>k\<close> of them.\<close>

definition word_op :: "(u64 \<Rightarrow> u64 \<Rightarrow> u64) \<Rightarrow> u8 list \<Rightarrow> u8 list \<Rightarrow> u8 list" where
  "word_op g a b = enc64 (g (word_of_nat (le_to_nat a)) (word_of_nat (le_to_nat b)))"

interpretation host_words: reducer "host_op 8 (word_op g)" "elementwise 8 (word_op g)" HOST "8 * k" for g k
  by (rule host_op_reducer) (simp_all add: word_op_def)

end
