(* ===== verification/Reduce_Network.thy ===== *)
theory Reduce_Network
  imports Reduce_Tree
begin

text \<open>
  All ranks of an allreduce together: iterations of their event loops and completions of device writes in any order,
  with messages that arrive late, and with sends that complete late. \<open>rank_ok\<close> ties the state of a rank to the number
  of its next exchange: what its buffers hold, what it has sent and which receives it has posted. Each phase keeps it
  (one lemma per phase, joined in \<open>switch_moves\<close>), and brings the rank on when it need not wait (\<open>may_move\<close>).
\<close>

section \<open>All ranks together\<close>

text \<open>
  \<open>Turn r arrive sent\<close> is an iteration of the event loop of rank \<open>r\<close>, if it is still registered; a receive may
  complete when the message with its number has been sent. \<open>Writes_Finish r\<close> completes the device writes to its buffers.
\<close>

datatype reduce_event = Turn nat bool bool | Writes_Finish nat

definition network_answers :: "(nat \<Rightarrow> all_reduce) \<Rightarrow> nat \<Rightarrow> bool \<Rightarrow> bool \<Rightarrow> reduce_comm" where
  "network_answers N r arrive sent =
     \<lparr>rc_arrived = (\<lambda>src k. arrive \<and> k < length (rd_sent (N src) r)),
      rc_fill = (\<lambda>src k b. b\<lparr>buf_storage := buf_storage (rd_sent (N src) r ! k)\<rparr>),
      rc_sent = sent\<rparr>"

definition finish_writes :: "all_reduce \<Rightarrow> all_reduce" where
  "finish_writes s = s\<lparr>rd_in := map_option write_completes (rd_in s), rd_out := map_option write_completes (rd_out s)\<rparr>"

fun reduce_step :: "reduce_operator_fn \<Rightarrow> reduce_event \<Rightarrow> (nat \<Rightarrow> all_reduce, unit) act" where
  "reduce_step reduce (Turn r arrive sent) N =
     (if rd_phase (N r) = ResultAvailable then (Inr (), N)
      else case reduce_event_loop reduce (network_answers N r arrive sent) (N r) of
             (Inl e, s) \<Rightarrow> (Inl e, N(r := s))
           | (Inr _, s) \<Rightarrow> (Inr (), N(r := s)))"
| "reduce_step reduce (Writes_Finish r) N = (Inr (), N(r := finish_writes (N r)))"

fun reduce_run :: "reduce_operator_fn \<Rightarrow> reduce_event list \<Rightarrow> (nat \<Rightarrow> all_reduce, unit) act" where
  "reduce_run reduce [] N = (Inr (), N)"
| "reduce_run reduce (e # es) N = act_bind (reduce_step reduce e) (\<lambda>_. reduce_run reduce es) N"

fun reduce_event_ok :: "nat \<Rightarrow> reduce_event \<Rightarrow> bool" where
  "reduce_event_ok n (Turn r arrive sent) \<longleftrightarrow> r < n"
| "reduce_event_ok n (Writes_Finish r) \<longleftrightarrow> r < n"

section \<open>The invariant of a rank\<close>

definition has :: "mem_type \<Rightarrow> nat \<Rightarrow> u8 list \<Rightarrow> buffer option \<Rightarrow> bool" where
  "has mt sz v b \<longleftrightarrow> (\<exists>y. b = Some y \<and> shaped mt sz v y)"

definition exchanging :: "(u8 list \<Rightarrow> u8 list \<Rightarrow> u8 list) \<Rightarrow> (nat \<Rightarrow> u8 list) \<Rightarrow> nat \<Rightarrow> mem_type \<Rightarrow> nat \<Rightarrow> nat \<Rightarrow> all_reduce \<Rightarrow> nat \<Rightarrow> bool" where
  "exchanging c x n mt sz r s t \<longleftrightarrow>
     (\<exists>q y v z. sends n r q (t - 1) \<and> rd_partner s = int q \<and> rd_recv s = Some (q, 0, y) \<and> shaped mt sz v y \<and> calm y \<and>
        rd_send s = Some (q, z) \<and> shaped mt sz (partial c x n (t - 2) r) z \<and> calm z)"

text \<open>\<open>t\<close> is the number of the next exchange of rank \<open>r\<close>.\<close>

definition phase_ok :: "(u8 list \<Rightarrow> u8 list \<Rightarrow> u8 list) \<Rightarrow> (nat \<Rightarrow> u8 list) \<Rightarrow> nat \<Rightarrow> mem_type \<Rightarrow> nat \<Rightarrow> nat \<Rightarrow> all_reduce \<Rightarrow> nat \<Rightarrow> bool" where
  "phase_ok c x n mt sz r s t \<longleftrightarrow>
     (case rd_phase s of
        StartPreRemainder \<Rightarrow> r < 2 * spare n \<and> t = 0 \<and> rd_mask s = 1 \<and> (\<exists>v. has mt sz v (rd_in s)) \<and> has mt sz (x r) (rd_out s)
      | CompletePreRemainder \<Rightarrow> r < 2 * spare n \<and> t = 1 \<and> rd_mask s = 1 \<and>
          (if even r then (\<exists>v. has mt sz v (rd_in s)) \<and> (\<exists>y. rd_send s = Some (r + 1, y) \<and> shaped mt sz (x r) y)
           else (\<exists>z. rd_out s = Some z \<and> shaped mt sz (x r) z \<and> calm z) \<and>
             (\<exists>y v. rd_recv s = Some (r - 1, 0, y) \<and> shaped mt sz v y \<and> calm y))
      | StartButterfly \<Rightarrow> takes_part n r \<and> 1 \<le> t \<and> t \<le> Suc (stages n) \<and> rd_mask s = 2 ^ (t - 1) \<and>
          (\<exists>v. has mt sz v (rd_in s)) \<and> has mt sz (partial c x n (t - 1) r) (rd_out s)
      | CompleteButterfly \<Rightarrow> takes_part n r \<and> 2 \<le> t \<and> t \<le> Suc (stages n) \<and> rd_mask s = 2 ^ (t - 2) \<and> exchanging c x n mt sz r s t
      | StartPostRemainder \<Rightarrow> r < 2 * spare n \<and> t = Suc (stages n) \<and> (\<exists>v. has mt sz v (rd_in s)) \<and>
          (\<exists>v. has mt sz v (rd_out s) \<and> (odd r \<longrightarrow> v = reduction c x n))
      | CompletePostRemainder \<Rightarrow> r < 2 * spare n \<and> t = Suc (Suc (stages n)) \<and> (\<exists>v. has mt sz v (rd_in s)) \<and>
          (if even r then \<exists>y v. rd_recv s = Some (r + 1, 0, y) \<and> shaped mt sz v y
           else \<exists>y. rd_send s = Some (r - 1, y) \<and> shaped mt sz (reduction c x n) y)
      | _ \<Rightarrow> t = Suc (Suc (stages n)) \<and> (\<exists>v. has mt sz v (rd_in s)) \<and> has mt sz (reduction c x n) (rd_out s))"

definition consts_ok :: "nat \<Rightarrow> nat \<Rightarrow> all_reduce \<Rightarrow> bool" where
  "consts_ok n r s \<longleftrightarrow> rd_rank s = r \<and> rd_active s \<and> rd_pow2 s = 2 ^ stages n \<and> rd_remainder s = spare n \<and>
     (takes_part n r \<longrightarrow> rd_logical s = int (logical n r))"

definition logs_ok :: "(u8 list \<Rightarrow> u8 list \<Rightarrow> u8 list) \<Rightarrow> (nat \<Rightarrow> u8 list) \<Rightarrow> nat \<Rightarrow> mem_type \<Rightarrow> nat \<Rightarrow> nat \<Rightarrow> all_reduce \<Rightarrow> nat \<Rightarrow> bool" where
  "logs_ok c x n mt sz r s t \<longleftrightarrow>
     (\<forall>q i. sends n r q i \<longrightarrow> (if i < t then \<exists>b. rd_sent s q = [b] \<and> shaped mt sz (round_message c x n r i) b else rd_sent s q = [])) \<and>
     (\<forall>q i. sends n q r i \<longrightarrow> rd_posts s q = (if i < t then 1 else 0))"

definition rank_ok :: "(u8 list \<Rightarrow> u8 list \<Rightarrow> u8 list) \<Rightarrow> (nat \<Rightarrow> u8 list) \<Rightarrow> nat \<Rightarrow> mem_type \<Rightarrow> nat \<Rightarrow> nat \<Rightarrow> all_reduce \<Rightarrow> nat \<Rightarrow> bool" where
  "rank_ok c x n mt sz r s t \<longleftrightarrow> consts_ok n r s \<and> logs_ok c x n mt sz r s t \<and> phase_ok c x n mt sz r s t"

text \<open>How far a rank has come.\<close>

definition place :: "nat \<Rightarrow> all_reduce \<Rightarrow> nat \<Rightarrow> nat" where
  "place n s t =
     (case rd_phase s of
        StartPreRemainder \<Rightarrow> 0 | CompletePreRemainder \<Rightarrow> 1 | StartButterfly \<Rightarrow> 2 * t | CompleteButterfly \<Rightarrow> 2 * t - 1
      | StartPostRemainder \<Rightarrow> 2 * stages n + 3 | CompletePostRemainder \<Rightarrow> 2 * stages n + 4 | _ \<Rightarrow> 2 * stages n + 5)"

lemma logs_advance:
  assumes "logs_ok c x n mt sz r s t" and "t \<le> t'"
    and "\<And>q i. sends n r q i \<Longrightarrow> t \<le> i \<Longrightarrow> i < t' \<Longrightarrow> \<exists>b. rd_sent s' q = rd_sent s q @ [b] \<and> shaped mt sz (round_message c x n r i) b"
    and "\<And>q. \<forall>i. sends n r q i \<longrightarrow> \<not> (t \<le> i \<and> i < t') \<Longrightarrow> rd_sent s' q = rd_sent s q"
    and "\<And>q i. sends n q r i \<Longrightarrow> t \<le> i \<Longrightarrow> i < t' \<Longrightarrow> rd_posts s' q = Suc (rd_posts s q)"
    and "\<And>q. \<forall>i. sends n q r i \<longrightarrow> \<not> (t \<le> i \<and> i < t') \<Longrightarrow> rd_posts s' q = rd_posts s q"
  shows "logs_ok c x n mt sz r s' t'"
  unfolding logs_ok_def
proof (intro conjI allI impI)
  fix q i
  assume s: "sends n r q i"
  have old: "if i < t then \<exists>b. rd_sent s q = [b] \<and> shaped mt sz (round_message c x n r i) b else rd_sent s q = []" using assms(1) s by (simp add: logs_ok_def)
  show "if i < t' then \<exists>b. rd_sent s' q = [b] \<and> shaped mt sz (round_message c x n r i) b else rd_sent s' q = []"
  proof (cases "t \<le> i \<and> i < t'")
    case True
    then show ?thesis using assms(3) [OF s] old by auto
  next
    case False
    then have "rd_sent s' q = rd_sent s q" using assms(4) [of q] sends_time_unique [OF s] by blast
    then show ?thesis using old False assms(2) by (auto split: if_splits)
  qed
next
  fix q i
  assume s: "sends n q r i"
  have old: "rd_posts s q = (if i < t then 1 else 0)" using assms(1) s by (simp add: logs_ok_def)
  show "rd_posts s' q = (if i < t' then 1 else 0)"
  proof (cases "t \<le> i \<and> i < t'")
    case True
    then show ?thesis using assms(5) [OF s] old by auto
  next
    case False
    then have "rd_posts s' q = rd_posts s q" using assms(6) [of q] sends_time_unique [OF s] by blast
    then show ?thesis using old False assms(2) by auto
  qed
qed

lemma logs_same:
  assumes "logs_ok c x n mt sz r s t" and "rd_sent s' = rd_sent s" and "rd_posts s' = rd_posts s"
  shows "logs_ok c x n mt sz r s' t"
  using assms by (simp add: logs_ok_def)

lemma logs_quiet:
  assumes "logs_ok c x n mt sz r s t" and "t \<le> t'" and "rd_sent s' = rd_sent s" and "rd_posts s' = rd_posts s"
    and "\<And>q i. t \<le> i \<Longrightarrow> i < t' \<Longrightarrow> \<not> sends n r q i \<and> \<not> sends n q r i"
  shows "logs_ok c x n mt sz r s' t'"
  by (rule logs_advance [OF assms(1,2)]) (use assms(3-5) in auto)

lemma consts_same:
  "consts_ok n r s \<Longrightarrow> rd_rank s' = rd_rank s \<Longrightarrow> rd_active s' = rd_active s \<Longrightarrow> rd_pow2 s' = rd_pow2 s \<Longrightarrow>
   rd_remainder s' = rd_remainder s \<Longrightarrow> rd_logical s' = rd_logical s \<Longrightarrow> consts_ok n r s'"
  by (simp add: consts_ok_def)

lemma write_done_shaped: "shaped mt sz v y \<Longrightarrow> write_done (Some y) = Inr (calm y)"
  by (simp add: write_done_def is_latest_write_done_def throw_if_locked_def shaped_def calm_def)

text \<open>What the other ranks have sent to \<open>r\<close>.\<close>

definition net_sent :: "(u8 list \<Rightarrow> u8 list \<Rightarrow> u8 list) \<Rightarrow> (nat \<Rightarrow> u8 list) \<Rightarrow> nat \<Rightarrow> mem_type \<Rightarrow> nat \<Rightarrow> nat \<Rightarrow> (nat \<Rightarrow> all_reduce) \<Rightarrow> bool" where
  "net_sent c x n mt sz r N \<longleftrightarrow>
     (\<forall>q i. sends n q r i \<longrightarrow> rd_sent (N q) r = [] \<or> (\<exists>b. rd_sent (N q) r = [b] \<and> shaped mt sz (round_message c x n q i) b))"

lemma filled_shaped:
  assumes "net_sent c x n mt sz r N" and "sends n q r i" and "rc_arrived (network_answers N r a d) q 0" and "shaped mt sz v y"
  shows "shaped mt sz (round_message c x n q i) (rc_fill (network_answers N r a d) q 0 y)"
    and "calm (rc_fill (network_answers N r a d) q 0 y) = calm y"
proof -
  obtain b where "rd_sent (N q) r = [b]" "shaped mt sz (round_message c x n q i) b" using assms(1-3) by (auto simp: net_sent_def network_answers_def)
  then show "shaped mt sz (round_message c x n q i) (rc_fill (network_answers N r a d) q 0 y)"
    "calm (rc_fill (network_answers N r a d) q 0 y) = calm y"
    using assms(4) by (auto simp: network_answers_def shaped_def calm_def)
qed


text \<open>Whether a rank waits for a message.\<close>

definition waits :: "all_reduce \<Rightarrow> bool" where
  "waits s \<longleftrightarrow> (case rd_phase s of CompletePreRemainder \<Rightarrow> odd (rd_rank s) | CompleteButterfly \<Rightarrow> True | CompletePostRemainder \<Rightarrow> even (rd_rank s) | _ \<Rightarrow> False)"

definition may_move :: "(nat \<Rightarrow> all_reduce) \<Rightarrow> nat \<Rightarrow> bool \<Rightarrow> bool \<Rightarrow> all_reduce \<Rightarrow> bool" where
  "may_move N r arrive sent s \<longleftrightarrow>
     (\<forall>y. rd_in s = Some y \<longrightarrow> calm y) \<and> (\<forall>y. rd_out s = Some y \<longrightarrow> calm y) \<and> arrive \<and> sent \<and>
     (waits s \<longrightarrow> (\<forall>q k y. rd_recv s = Some (q, k, y) \<longrightarrow> rd_sent (N q) r \<noteq> []))"

text \<open>One pass through the switch succeeds, keeps the rank in order, and moves it on when nothing holds it up.\<close>

definition moves ::
  "reduce_operator_fn \<Rightarrow> (u8 list \<Rightarrow> u8 list \<Rightarrow> u8 list) \<Rightarrow> (nat \<Rightarrow> u8 list) \<Rightarrow> nat \<Rightarrow> mem_type \<Rightarrow> nat \<Rightarrow> reduce_comm \<Rightarrow> nat \<Rightarrow> all_reduce \<Rightarrow>
     nat \<Rightarrow> bool \<Rightarrow> bool" where
  "moves reduce c x n mt sz rc r s t adv \<longleftrightarrow>
     (\<exists>s' t'. reduce_switch reduce rc s = (Inr (), s') \<and> rank_ok c x n mt sz r s' t' \<and> t \<le> t' \<and> place n s t \<le> place n s' t' \<and>
        (adv \<longrightarrow> place n s t < place n s' t'))"

lemma movesI:
  "reduce_switch reduce rc s = (Inr (), s') \<Longrightarrow> rank_ok c x n mt sz r s' t' \<Longrightarrow> t \<le> t' \<Longrightarrow> place n s t < place n s' t' \<Longrightarrow>
   moves reduce c x n mt sz rc r s t adv"
  unfolding moves_def by (intro exI conjI impI) simp_all

lemma moves_stay:
  "reduce_switch reduce rc s = (Inr (), s) \<Longrightarrow> rank_ok c x n mt sz r s t \<Longrightarrow> \<not> adv \<Longrightarrow> moves reduce c x n mt sz rc r s t adv"
  unfolding moves_def by (rule exI [of _ s], rule exI [of _ t]) simp

lemmas switch_simps = reduce_switch_def when_holds_def to_phase_def send_out_def receive_in_def receive_out_def post_receive_def
  both_written_def recv_tested_def send_tested_def take_in_def take_out_def return_out_def received_buffer_def

lemma start_pre_even:
  assumes ok: "rank_ok c x n mt sz r s t" and ph: "rd_phase s = StartPreRemainder" and e: "even r"
  shows "moves reduce c x n mt sz (network_answers N r a d) r s t (may_move N r a d s)"
proof -
  have R: "r < 2 * spare n" "t = 0" and K: "consts_ok n r s" and L: "logs_ok c x n mt sz r s t"
    and i: "\<exists>v. has mt sz v (rd_in s)" using ok ph by (auto simp: rank_ok_def phase_ok_def)
  obtain y where y: "rd_out s = Some y" "shaped mt sz (x r) y" using ok ph by (auto simp: rank_ok_def phase_ok_def has_def)
  have rk: "rd_rank s = r" using K by (simp add: consts_ok_def)
  show ?thesis
  proof (cases "calm y")
    case False
    have "reduce_switch reduce (network_answers N r a d) s = (Inr (), s)"
      using False e rk y by (simp add: reduce_switch_def ph start_pre_remainder_def when_holds_def write_done_shaped)
    then show ?thesis using ok False y by (intro moves_stay) (auto simp: may_move_def)
  next
    case True
    let ?s = "s\<lparr>rd_out := None, rd_send := Some (r + 1, y), rd_sent := (rd_sent s)(r + 1 := rd_sent s (r + 1) @ [y]), rd_phase := CompletePreRemainder\<rparr>"
    have step: "reduce_switch reduce (network_answers N r a d) s = (Inr (), ?s)"
      using True e rk y by (simp add: switch_simps ph start_pre_remainder_def write_done_shaped)
    have to: "sends n r q 0 \<longleftrightarrow> q = Suc r" and fr: "\<not> sends n q r 0" for q using R e by (auto simp: sends_pre)
    have "logs_ok c x n mt sz r ?s 1"
      by (rule logs_advance [OF L]) (use R y to fr in \<open>auto simp: round_message_def\<close>)
    moreover have "consts_ok n r ?s" by (rule consts_same [OF K]) simp_all
    ultimately have "rank_ok c x n mt sz r ?s 1" using R e y i ok ph by (auto simp: rank_ok_def phase_ok_def)
    from movesI [OF step this] show ?thesis using R by (simp add: place_def ph)
  qed
qed

lemma start_pre_odd:
  assumes ok: "rank_ok c x n mt sz r s t" and ph: "rd_phase s = StartPreRemainder" and e: "odd r"
  shows "moves reduce c x n mt sz (network_answers N r a d) r s t (may_move N r a d s)"
proof -
  have R: "r < 2 * spare n" "t = 0" and K: "consts_ok n r s" and L: "logs_ok c x n mt sz r s t"
    using ok ph by (auto simp: rank_ok_def phase_ok_def)
  obtain y z v where y: "rd_out s = Some z" "shaped mt sz (x r) z" "rd_in s = Some y" "shaped mt sz v y"
    using ok ph by (auto simp: rank_ok_def phase_ok_def has_def)
  have rk: "rd_rank s = r" using K by (simp add: consts_ok_def)
  have "even (r - 1)" "r - 1 + 1 = r" "r - 1 < 2 * spare n" using e R by (auto dest: odd_pos)
  then have fr: "sends n q r 0 \<longleftrightarrow> q = r - 1" for q by (auto simp: sends_pre)
  have p0: "rd_posts s (r - 1) = 0" using L R fr [of "r - 1"] by (auto simp: logs_ok_def)
  show ?thesis
  proof (cases "calm z \<and> calm y")
    case False
    have "reduce_switch reduce (network_answers N r a d) s = (Inr (), s)"
      using False e rk y by (auto simp: reduce_switch_def ph start_pre_remainder_def when_holds_def write_done_shaped both_written_def res_bind_def)
    then show ?thesis using ok False y by (intro moves_stay) (auto simp: may_move_def)
  next
    case True
    let ?s = "s\<lparr>rd_in := None, rd_recv := Some (r - 1, 0, y), rd_posts := (rd_posts s)(r - 1 := Suc 0), rd_phase := CompletePreRemainder\<rparr>"
    have step: "reduce_switch reduce (network_answers N r a d) s = (Inr (), ?s)"
      using True e rk y p0 by (simp add: switch_simps ph start_pre_remainder_def write_done_shaped res_bind_def)
    have "logs_ok c x n mt sz r ?s 1"
      by (rule logs_advance [OF L]) (use R e fr p0 in \<open>auto simp: sends_pre [of n r]\<close>)
    moreover have "consts_ok n r ?s" by (rule consts_same [OF K]) simp_all
    ultimately have "rank_ok c x n mt sz r ?s 1" using R e y True ok ph by (auto simp: rank_ok_def phase_ok_def)
    from movesI [OF step this] show ?thesis using R by (simp add: place_def ph)
  qed
qed

lemma no_stage:
  assumes "even r" and "r < 2 * spare n" and "0 < i" and "i \<le> stages n"
  shows "\<not> sends n r q i \<and> \<not> sends n q r i"
  using assms sends_stage_sym [OF assms(3,4)] by (auto simp: sends_stage takes_part_def)

lemma complete_pre_even:
  assumes ok: "rank_ok c x n mt sz r s t" and ph: "rd_phase s = CompletePreRemainder" and e: "even r"
  shows "moves reduce c x n mt sz (network_answers N r a d) r s t (may_move N r a d s)"
proof -
  have R: "r < 2 * spare n" "t = 1" and K: "consts_ok n r s" and L: "logs_ok c x n mt sz r s t"
    and i: "\<exists>v. has mt sz v (rd_in s)" using ok ph e by (auto simp: rank_ok_def phase_ok_def)
  obtain y where y: "rd_send s = Some (r + 1, y)" "shaped mt sz (x r) y" using ok ph e by (auto simp: rank_ok_def phase_ok_def)
  have rk: "rd_rank s = r" using K by (simp add: consts_ok_def)
  show ?thesis
  proof (cases d)
    case False
    have "reduce_switch reduce (network_answers N r a d) s = (Inr (), s)"
      using False e rk y by (simp add: switch_simps ph complete_pre_remainder_def network_answers_def)
    then show ?thesis using ok False by (intro moves_stay) (auto simp: may_move_def)
  next
    case True
    let ?s = "s\<lparr>rd_out := Some y, rd_send := None, rd_phase := StartPostRemainder\<rparr>"
    have step: "reduce_switch reduce (network_answers N r a d) s = (Inr (), ?s)"
      using True e rk y by (simp add: switch_simps ph complete_pre_remainder_def network_answers_def)
    have "logs_ok c x n mt sz r ?s (Suc (stages n))"
      by (rule logs_quiet [OF L]) (use R no_stage [OF e R(1)] in auto)
    moreover have "consts_ok n r ?s" by (rule consts_same [OF K]) simp_all
    ultimately have "rank_ok c x n mt sz r ?s (Suc (stages n))" using R e y i by (auto simp: rank_ok_def phase_ok_def has_def)
    from movesI [OF step this] show ?thesis using R by (simp add: place_def ph)
  qed
qed

context reducer
begin

lemma complete_pre_odd:
  assumes ok: "rank_ok combine x n mt sz r s t" and ph: "rd_phase s = CompletePreRemainder" and e: "odd r" and net: "net_sent combine x n mt sz r N"
  shows "moves reduce combine x n mt sz (network_answers N r a d) r s t (may_move N r a d s)"
proof -
  let ?rc = "network_answers N r a d"
  have R: "r < 2 * spare n" "t = 1" and K: "consts_ok n r s" and L: "logs_ok combine x n mt sz r s t"
    using ok ph by (auto simp: rank_ok_def phase_ok_def)
  obtain y z v where y: "rd_out s = Some z" "shaped mt sz (x r) z" "calm z" "rd_recv s = Some (r - 1, 0, y)" "shaped mt sz v y" "calm y"
    using ok ph e by (auto simp: rank_ok_def phase_ok_def)
  have rk: "rd_rank s = r" using K by (simp add: consts_ok_def)
  have "even (r - 1)" "r - 1 + 1 = r" "r - 1 < 2 * spare n" using e R by (auto dest: odd_pos)
  then have s0: "sends n (r - 1) r 0" by (simp add: sends_pre)
  have part: "takes_part n r" using e spare_pairs [OF R(1)] by (simp add: takes_part_def)
  show ?thesis
  proof (cases "rc_arrived ?rc (r - 1) 0")
    case False
    have "reduce_switch reduce ?rc s = (Inr (), s)" using False e rk y by (simp add: switch_simps ph complete_pre_remainder_def)
    moreover have "\<not> may_move N r a d s" using False y e ph rk by (auto simp: may_move_def network_answers_def waits_def)
    ultimately show ?thesis using ok by (intro moves_stay)
  next
    case True
    define i where "i = rc_fill ?rc (r - 1) 0 y"
    have i: "shaped mt sz (x (r - 1)) i" "calm i"
      using filled_shaped [OF net s0 True y(5)] y(6) by (simp_all add: i_def round_message_def)
    obtain z' where z': "reduce i z = (Inr (), z')" "shaped mt sz (combine (x (r - 1)) (x r)) z'" using reduces [OF i y(2,3)] by blast
    let ?s = "s\<lparr>rd_in := Some i, rd_recv := None, rd_out := Some z', rd_phase := StartButterfly\<rparr>"
    have step: "reduce_switch reduce ?rc s = (Inr (), ?s)"
      using True e rk y z' by (simp add: switch_simps ph complete_pre_remainder_def act_bind_def reduce_into_out_def i_def)
    have "logs_ok combine x n mt sz r ?s 1" by (rule logs_same [OF L [unfolded R(2)]]) simp_all
    moreover have "consts_ok n r ?s" by (rule consts_same [OF K]) simp_all
    moreover have "phase_ok combine x n mt sz r ?s 1" using part i z' R partial_start [OF part, of combine x] ok ph
      by (auto simp: rank_ok_def phase_ok_def has_def)
    ultimately have "rank_ok combine x n mt sz r ?s 1" by (simp add: rank_ok_def)
    from movesI [OF step this] show ?thesis using R by (simp add: place_def ph)
  qed
qed

end


lemma butterfly_end:
  assumes ok: "rank_ok c x n mt sz r s t" and ph: "rd_phase s = StartButterfly" and e: "t = Suc (stages n)"
  shows "moves reduce c x n mt sz (network_answers N r a d) r s t (may_move N r a d s)"
proof -
  have K: "consts_ok n r s" and L: "logs_ok c x n mt sz r s t" and part: "takes_part n r" and m: "rd_mask s = 2 ^ stages n"
    and i: "\<exists>v. has mt sz v (rd_in s)" and out: "has mt sz (reduction c x n) (rd_out s)"
    using ok ph e partial_end [of n r c x] by (auto simp: rank_ok_def phase_ok_def)
  have k: "rd_rank s = r" "rd_remainder s = spare n" "rd_pow2 s = 2 ^ stages n" using K by (simp_all add: consts_ok_def)
  show ?thesis
  proof (cases "r < 2 * spare n")
    case True
    let ?s = "s\<lparr>rd_phase := StartPostRemainder\<rparr>"
    have step: "reduce_switch reduce (network_answers N r a d) s = (Inr (), ?s)"
      using True k m by (simp add: switch_simps ph start_butterfly_def)
    have "logs_ok c x n mt sz r ?s t" by (rule logs_same [OF L]) simp_all
    moreover have "consts_ok n r ?s" by (rule consts_same [OF K]) simp_all
    ultimately have "rank_ok c x n mt sz r ?s t" using True e i out by (auto simp: rank_ok_def phase_ok_def)
    from movesI [OF step this] show ?thesis using e by (simp add: place_def ph)
  next
    case False
    let ?s = "s\<lparr>rd_phase := Reduce_Done\<rparr>"
    have step: "reduce_switch reduce (network_answers N r a d) s = (Inr (), ?s)"
      using False k m by (simp add: switch_simps ph start_butterfly_def)
    have "logs_ok c x n mt sz r ?s (Suc t)"
    proof (rule logs_quiet [OF L])
      fix q i assume "t \<le> i" "i < Suc t"
      then have "i = Suc (stages n)" using e by simp
      then show "\<not> sends n r q i \<and> \<not> sends n q r i" using False by (auto simp: sends_post)
    qed simp_all
    moreover have "consts_ok n r ?s" by (rule consts_same [OF K]) simp_all
    ultimately have "rank_ok c x n mt sz r ?s (Suc t)" using e i out by (auto simp: rank_ok_def phase_ok_def)
    from movesI [OF step this] show ?thesis using e by (simp add: place_def ph)
  qed
qed

lemma butterfly_start:
  assumes ok: "rank_ok c x n mt sz r s t" and ph: "rd_phase s = StartButterfly" and e: "t \<le> stages n"
  shows "moves reduce c x n mt sz (network_answers N r a d) r s t (may_move N r a d s)"
proof -
  have K: "consts_ok n r s" and L: "logs_ok c x n mt sz r s t" and part: "takes_part n r" and m: "rd_mask s = 2 ^ (t - 1)" "1 \<le> t"
    using ok ph by (auto simp: rank_ok_def phase_ok_def)
  obtain y z v where y: "rd_out s = Some z" "shaped mt sz (partial c x n (t - 1) r) z" "rd_in s = Some y" "shaped mt sz v y"
    using ok ph by (auto simp: rank_ok_def phase_ok_def has_def)
  have k: "rd_rank s = r" "rd_remainder s = spare n" "rd_pow2 s = 2 ^ stages n" "rd_logical s = int (logical n r)"
    using K part by (simp_all add: consts_ok_def)
  define q where "q = physical (spare n) (logical n r XOR 2 ^ (t - 1))"
  have qe: "physical (spare n) (logical n r XOR 2 ^ (t - Suc 0)) = q" by (simp add: q_def)
  have sq: "sends n r q t" using m(2) e part by (simp add: sends_stage q_def)
  note qs = sends_stage_sym [OF _ e sq]
  have lt: "(2::nat) ^ (t - 1) < 2 ^ stages n" using e m(2) by simp
  let ?s0 = "s\<lparr>rd_partner := int q\<rparr>"
  have same: "rank_ok c x n mt sz r ?s0 t" using ok ph by (simp add: rank_ok_def consts_ok_def logs_ok_def phase_ok_def)
  have p0: "rd_posts s q = 0" "rd_sent s q = []" using L qs sq m(2) by (auto simp: logs_ok_def)
  show ?thesis
  proof (cases "calm z \<and> calm y")
    case False
    have "reduce_switch reduce (network_answers N r a d) s = (Inr (), ?s0)"
      using False k y m(1) lt by (auto simp: reduce_switch_def ph start_butterfly_def when_holds_def write_done_shaped both_written_def res_bind_def q_def Let_def)
    moreover have "\<not> may_move N r a d s" using False y by (auto simp: may_move_def)
    ultimately show ?thesis unfolding moves_def using same by (intro exI [of _ ?s0] exI [of _ t]) (simp add: place_def)
  next
    case True
    let ?s = "?s0\<lparr>rd_in := None, rd_recv := Some (q, 0, y), rd_posts := (rd_posts s)(q := Suc 0),
        rd_out := None, rd_send := Some (q, z), rd_sent := (rd_sent s)(q := [z]), rd_phase := CompleteButterfly\<rparr>"
    have step: "reduce_switch reduce (network_answers N r a d) s = (Inr (), ?s)"
      using True k y m(1) lt p0 by (simp add: switch_simps ph start_butterfly_def write_done_shaped res_bind_def Let_def qe)
    have msg: "round_message c x n r t = partial c x n (t - 1) r" using m(2) e by (simp add: round_message_def)
    have to: "q' = q" if "sends n r q' t" for q' using sends_to_unique [OF that sq] .
    have fr: "q' = q" if "sends n q' r t" for q' using sends_from_unique [OF that qs] m(2) by simp
    have qs': "sends n q r t" using qs m(2) by simp
    have "logs_ok c x n mt sz r ?s (Suc t)"
    proof (rule logs_advance [OF L])
      fix q' i assume "sends n r q' i" "t \<le> i" "i < Suc t"
      then have "i = t" "q' = q" using to by (auto simp: le_less_Suc_eq)
      then show "\<exists>b. rd_sent ?s q' = rd_sent s q' @ [b] \<and> shaped mt sz (round_message c x n r i) b" using y msg p0 by simp
    next
      fix q' assume "\<forall>i. sends n r q' i \<longrightarrow> \<not> (t \<le> i \<and> i < Suc t)"
      then have "q' \<noteq> q" using sq by auto
      then show "rd_sent ?s q' = rd_sent s q'" by simp
    next
      fix q' i assume "sends n q' r i" "t \<le> i" "i < Suc t"
      then have "q' = q" using fr by (simp add: le_less_Suc_eq)
      then show "rd_posts ?s q' = Suc (rd_posts s q')" using p0 by simp
    next
      fix q' assume "\<forall>i. sends n q' r i \<longrightarrow> \<not> (t \<le> i \<and> i < Suc t)"
      then have "q' \<noteq> q" using qs' by auto
      then show "rd_posts ?s q' = rd_posts s q'" by simp
    qed simp
    moreover have "consts_ok n r ?s" by (rule consts_same [OF K]) simp_all
    moreover have "exchanging c x n mt sz r ?s (Suc t)" unfolding exchanging_def using sq y True by auto
    ultimately have "rank_ok c x n mt sz r ?s (Suc t)" using part m e by (simp add: rank_ok_def phase_ok_def)
    from movesI [OF step this] show ?thesis using m(2) by (simp add: place_def ph)
  qed
qed

lemma start_post_even:
  assumes ok: "rank_ok c x n mt sz r s t" and ph: "rd_phase s = StartPostRemainder" and e: "even r"
  shows "moves reduce c x n mt sz (network_answers N r a d) r s t (may_move N r a d s)"
proof -
  have R: "r < 2 * spare n" "t = Suc (stages n)" and K: "consts_ok n r s" and L: "logs_ok c x n mt sz r s t"
    and i: "\<exists>v. has mt sz v (rd_in s)" using ok ph by (auto simp: rank_ok_def phase_ok_def)
  obtain y v where y: "rd_out s = Some y" "shaped mt sz v y" using ok ph by (auto simp: rank_ok_def phase_ok_def has_def)
  have rk: "rd_rank s = r" using K by (simp add: consts_ok_def)
  have fr: "sends n q r t \<longleftrightarrow> q = Suc r" for q using e R spare_pairs [OF R(1)] by (auto simp: sends_post dest: odd_pos)
  have p0: "rd_posts s (Suc r) = 0" using L fr [of "Suc r"] by (auto simp: logs_ok_def)
  show ?thesis
  proof (cases "calm y")
    case False
    have "reduce_switch reduce (network_answers N r a d) s = (Inr (), s)"
      using False y by (simp add: reduce_switch_def ph start_post_remainder_def when_holds_def write_done_shaped)
    then show ?thesis using ok False y by (intro moves_stay) (auto simp: may_move_def)
  next
    case True
    let ?s = "s\<lparr>rd_out := None, rd_recv := Some (Suc r, 0, y), rd_posts := (rd_posts s)(Suc r := Suc 0), rd_phase := CompletePostRemainder\<rparr>"
    have step: "reduce_switch reduce (network_answers N r a d) s = (Inr (), ?s)"
      using True e rk y p0 by (simp add: switch_simps ph start_post_remainder_def write_done_shaped)
    have "logs_ok c x n mt sz r ?s (Suc t)"
    proof (rule logs_advance [OF L])
      fix q i assume "sends n r q i" "t \<le> i" "i < Suc t"
      then have "sends n r q (Suc (stages n))" using R by (simp add: le_less_Suc_eq)
      then show "\<exists>b. rd_sent ?s q = rd_sent s q @ [b] \<and> shaped mt sz (round_message c x n r i) b" using e by (simp add: sends_post)
    next
      fix q i assume "sends n q r i" "t \<le> i" "i < Suc t"
      then have "q = Suc r" using fr by (simp add: le_less_Suc_eq)
      then show "rd_posts ?s q = Suc (rd_posts s q)" using p0 by simp
    next
      fix q assume "\<forall>i. sends n q r i \<longrightarrow> \<not> (t \<le> i \<and> i < Suc t)"
      then have "q \<noteq> Suc r" using fr by auto
      then show "rd_posts ?s q = rd_posts s q" by simp
    qed simp_all
    moreover have "consts_ok n r ?s" by (rule consts_same [OF K]) simp_all
    ultimately have "rank_ok c x n mt sz r ?s (Suc t)" using R e y i by (auto simp: rank_ok_def phase_ok_def)
    from movesI [OF step this] show ?thesis by (simp add: place_def ph)
  qed
qed

lemma start_post_odd:
  assumes ok: "rank_ok c x n mt sz r s t" and ph: "rd_phase s = StartPostRemainder" and e: "odd r"
  shows "moves reduce c x n mt sz (network_answers N r a d) r s t (may_move N r a d s)"
proof -
  have R: "r < 2 * spare n" "t = Suc (stages n)" and K: "consts_ok n r s" and L: "logs_ok c x n mt sz r s t"
    and i: "\<exists>v. has mt sz v (rd_in s)" using ok ph by (auto simp: rank_ok_def phase_ok_def)
  obtain y where y: "rd_out s = Some y" "shaped mt sz (reduction c x n) y" using ok ph e by (auto simp: rank_ok_def phase_ok_def has_def)
  have rk: "rd_rank s = r" using K by (simp add: consts_ok_def)
  have to: "sends n r q t \<longleftrightarrow> q = r - 1" for q using e R by (auto simp: sends_post)
  have p0: "rd_sent s (r - 1) = []" using L to [of "r - 1"] by (auto simp: logs_ok_def)
  show ?thesis
  proof (cases "calm y")
    case False
    have "reduce_switch reduce (network_answers N r a d) s = (Inr (), s)"
      using False y by (simp add: reduce_switch_def ph start_post_remainder_def when_holds_def write_done_shaped)
    then show ?thesis using ok False y by (intro moves_stay) (auto simp: may_move_def)
  next
    case True
    let ?s = "s\<lparr>rd_out := None, rd_send := Some (r - 1, y), rd_sent := (rd_sent s)(r - 1 := [y]), rd_phase := CompletePostRemainder\<rparr>"
    have step: "reduce_switch reduce (network_answers N r a d) s = (Inr (), ?s)"
      using True e rk y p0 by (simp add: switch_simps ph start_post_remainder_def write_done_shaped)
    have msg: "round_message c x n r t = reduction c x n" using R by (simp add: round_message_def)
    have "logs_ok c x n mt sz r ?s (Suc t)"
    proof (rule logs_advance [OF L])
      fix q i assume "sends n r q i" "t \<le> i" "i < Suc t"
      then have "q = r - 1" "i = t" using to by (auto simp: le_less_Suc_eq)
      then show "\<exists>b. rd_sent ?s q = rd_sent s q @ [b] \<and> shaped mt sz (round_message c x n r i) b" using y msg p0 by simp
    next
      fix q assume "\<forall>i. sends n r q i \<longrightarrow> \<not> (t \<le> i \<and> i < Suc t)"
      then have "q \<noteq> r - 1" using to by auto
      then show "rd_sent ?s q = rd_sent s q" by simp
    next
      fix q i assume "sends n q r i" "t \<le> i" "i < Suc t"
      then have "sends n q r (Suc (stages n))" using R by (simp add: le_less_Suc_eq)
      then have "odd q" "r = q - 1" by (simp_all add: sends_post)
      then have "even r" by simp
      then show "rd_posts ?s q = Suc (rd_posts s q)" using e by simp
    qed simp_all
    moreover have "consts_ok n r ?s" by (rule consts_same [OF K]) simp_all
    ultimately have "rank_ok c x n mt sz r ?s (Suc t)" using R e y i by (auto simp: rank_ok_def phase_ok_def)
    from movesI [OF step this] show ?thesis by (simp add: place_def ph)
  qed
qed


lemma complete_post_even:
  assumes ok: "rank_ok c x n mt sz r s t" and ph: "rd_phase s = CompletePostRemainder" and e: "even r" and net: "net_sent c x n mt sz r N"
  shows "moves reduce c x n mt sz (network_answers N r a d) r s t (may_move N r a d s)"
proof -
  let ?rc = "network_answers N r a d"
  have R: "r < 2 * spare n" "t = Suc (Suc (stages n))" and K: "consts_ok n r s" and L: "logs_ok c x n mt sz r s t"
    and i: "\<exists>v. has mt sz v (rd_in s)" using ok ph by (auto simp: rank_ok_def phase_ok_def)
  obtain y v where y: "rd_recv s = Some (Suc r, 0, y)" "shaped mt sz v y" using ok ph e by (auto simp: rank_ok_def phase_ok_def)
  have rk: "rd_rank s = r" using K by (simp add: consts_ok_def)
  have s0: "sends n (Suc r) r (Suc (stages n))" using e R spare_pairs [OF R(1)] by (auto simp: sends_post)
  show ?thesis
  proof (cases "rc_arrived ?rc (Suc r) 0")
    case False
    have "reduce_switch reduce ?rc s = (Inr (), s)" using False e rk y by (simp add: switch_simps ph complete_post_remainder_def)
    moreover have "\<not> may_move N r a d s" using False y e ph rk by (auto simp: may_move_def network_answers_def waits_def)
    ultimately show ?thesis using ok by (intro moves_stay)
  next
    case True
    let ?s = "s\<lparr>rd_out := Some (rc_fill ?rc (Suc r) 0 y), rd_recv := None, rd_phase := Reduce_Done\<rparr>"
    have b: "shaped mt sz (reduction c x n) (rc_fill ?rc (Suc r) 0 y)" using filled_shaped(1) [OF net s0 True y(2)] by (simp add: round_message_def)
    have step: "reduce_switch reduce ?rc s = (Inr (), ?s)"
      using True e rk y by (simp add: switch_simps ph complete_post_remainder_def)
    have "logs_ok c x n mt sz r ?s t" by (rule logs_same [OF L]) simp_all
    moreover have "consts_ok n r ?s" by (rule consts_same [OF K]) simp_all
    ultimately have "rank_ok c x n mt sz r ?s t" using R i b by (simp add: rank_ok_def phase_ok_def has_def)
    from movesI [OF step this] show ?thesis by (simp add: place_def ph)
  qed
qed

lemma complete_post_odd:
  assumes ok: "rank_ok c x n mt sz r s t" and ph: "rd_phase s = CompletePostRemainder" and e: "odd r"
  shows "moves reduce c x n mt sz (network_answers N r a d) r s t (may_move N r a d s)"
proof -
  have R: "r < 2 * spare n" "t = Suc (Suc (stages n))" and K: "consts_ok n r s" and L: "logs_ok c x n mt sz r s t"
    and i: "\<exists>v. has mt sz v (rd_in s)" using ok ph by (auto simp: rank_ok_def phase_ok_def)
  obtain y where y: "rd_send s = Some (r - 1, y)" "shaped mt sz (reduction c x n) y" using ok ph e by (auto simp: rank_ok_def phase_ok_def)
  have rk: "rd_rank s = r" using K by (simp add: consts_ok_def)
  show ?thesis
  proof (cases d)
    case False
    have "reduce_switch reduce (network_answers N r a d) s = (Inr (), s)"
      using False e rk y by (simp add: switch_simps ph complete_post_remainder_def network_answers_def)
    then show ?thesis using ok False by (intro moves_stay) (auto simp: may_move_def)
  next
    case True
    let ?s = "s\<lparr>rd_out := Some y, rd_send := None, rd_phase := Reduce_Done\<rparr>"
    have step: "reduce_switch reduce (network_answers N r a d) s = (Inr (), ?s)"
      using True e rk y by (simp add: switch_simps ph complete_post_remainder_def network_answers_def)
    have "logs_ok c x n mt sz r ?s t" by (rule logs_same [OF L]) simp_all
    moreover have "consts_ok n r ?s" by (rule consts_same [OF K]) simp_all
    ultimately have "rank_ok c x n mt sz r ?s t" using R i y by (simp add: rank_ok_def phase_ok_def has_def)
    from movesI [OF step this] show ?thesis by (simp add: place_def ph)
  qed
qed

context reducer
begin

lemma complete_butterfly_moves:
  assumes ok: "rank_ok combine x n mt sz r s t" and ph: "rd_phase s = CompleteButterfly" and net: "net_sent combine x n mt sz r N"
  shows "moves reduce combine x n mt sz (network_answers N r a d) r s t (may_move N r a d s)"
proof -
  let ?rc = "network_answers N r a d"
  have K: "consts_ok n r s" and L: "logs_ok combine x n mt sz r s t" and part: "takes_part n r" and t: "2 \<le> t" "t \<le> Suc (stages n)"
    and m: "rd_mask s = 2 ^ (t - 2)" and ex: "exchanging combine x n mt sz r s t"
    using ok ph by (auto simp: rank_ok_def phase_ok_def)
  define j where "j = t - 2"
  have tj: "t = Suc (Suc j)" "j < stages n" using t by (simp_all add: j_def)
  obtain q y v z where q: "sends n r q (Suc j)" "rd_partner s = int q" "rd_recv s = Some (q, 0, y)" "shaped mt sz v y" "calm y"
    "rd_send s = Some (q, z)" "shaped mt sz (partial combine x n j r) z" "calm z"
    using ex by (auto simp: exchanging_def tj)
  have rk: "rd_rank s = r" using K by (simp add: consts_ok_def)
  have "Suc j \<le> stages n" using tj by simp
  note s0 = sends_stage_sym [OF zero_less_Suc this q(1)]
  show ?thesis
  proof (cases "rc_arrived ?rc q 0 \<and> d")
    case False
    have "reduce_switch reduce ?rc s = (Inr (), s)"
      using False q by (auto simp: switch_simps ph complete_butterfly_def res_bind_def network_answers_def)
    moreover have "\<not> may_move N r a d s" using False q ph by (auto simp: may_move_def network_answers_def waits_def)
    ultimately show ?thesis using ok by (intro moves_stay)
  next
    case True
    then have arr: "rc_arrived ?rc q 0" and d: "rc_sent ?rc" by (simp_all add: network_answers_def)
    define i where "i = rc_fill ?rc q 0 y"
    have "round_message combine x n q (Suc j) = partial combine x n j q" using tj(2) by (simp add: round_message_def)
    then have i: "shaped mt sz (partial combine x n j q) i" "calm i"
      using filled_shaped [OF net s0 arr q(4)] q(5) by (simp_all add: i_def)
    note step2 = partial_step [OF part tj(2) q(1), of combine x]
    have "\<exists>bi bo. reduce_switch reduce ?rc s = (Inr (), s\<lparr>rd_in := Some bi, rd_out := Some bo, rd_recv := None, rd_send := None,
        rd_mask := 2 * rd_mask s, rd_phase := StartButterfly\<rparr>) \<and> (\<exists>v. shaped mt sz v bi) \<and> shaped mt sz (partial combine x n (Suc j) r) bo"
    proof (cases "q < r")
      case True
      obtain z' where z': "reduce i z = (Inr (), z')" "shaped mt sz (combine (partial combine x n j q) (partial combine x n j r)) z'"
        using reduces [OF i q(7,8)] by blast
      have "reduce_switch reduce ?rc s = (Inr (), s\<lparr>rd_in := Some i, rd_out := Some z', rd_recv := None, rd_send := None,
          rd_mask := 2 * rd_mask s, rd_phase := StartButterfly\<rparr>)"
        using arr d q rk z' True by (simp add: switch_simps ph complete_butterfly_def res_bind_def act_bind_def reduce_into_out_def flip: i_def)
      then show ?thesis using i z'(2) step2 True by auto
    next
      case False
      obtain i' where i': "reduce z i = (Inr (), i')" "shaped mt sz (combine (partial combine x n j r) (partial combine x n j q)) i'"
        using reduces [OF q(7,8) i] by blast
      have "reduce_switch reduce ?rc s = (Inr (), s\<lparr>rd_in := Some z, rd_out := Some i', rd_recv := None, rd_send := None,
          rd_mask := 2 * rd_mask s, rd_phase := StartButterfly\<rparr>)"
        using arr d q rk i' False by (simp add: switch_simps ph complete_butterfly_def res_bind_def act_bind_def reduce_into_in_def flip: i_def)
      then show ?thesis using q(7) i'(2) step2 False by auto
    qed
    then obtain bi bo v' where step: "reduce_switch reduce ?rc s = (Inr (), s\<lparr>rd_in := Some bi, rd_out := Some bo, rd_recv := None, rd_send := None,
        rd_mask := 2 * rd_mask s, rd_phase := StartButterfly\<rparr>)" and b: "shaped mt sz v' bi" "shaped mt sz (partial combine x n (Suc j) r) bo"
      by blast
    let ?s = "s\<lparr>rd_in := Some bi, rd_out := Some bo, rd_recv := None, rd_send := None, rd_mask := 2 * rd_mask s, rd_phase := StartButterfly\<rparr>"
    have "logs_ok combine x n mt sz r ?s t" by (rule logs_same [OF L]) simp_all
    moreover have "consts_ok n r ?s" by (rule consts_same [OF K]) simp_all
    moreover have "phase_ok combine x n mt sz r ?s t" using part t m b by (auto simp: phase_ok_def has_def tj)
    ultimately have "rank_ok combine x n mt sz r ?s t" by (simp add: rank_ok_def)
    from movesI [OF step this] show ?thesis using t by (simp add: place_def ph)
  qed
qed

text \<open>Every phase.\<close>

lemma switch_moves:
  assumes ok: "rank_ok combine x n mt sz r s t" and ph: "rd_phase s \<noteq> ResultAvailable" "rd_phase s \<noteq> Reduce_Done" and net: "net_sent combine x n mt sz r N"
  shows "moves reduce combine x n mt sz (network_answers N r a d) r s t (may_move N r a d s)"
proof (cases "rd_phase s")
  case StartPreRemainder
  then show ?thesis using start_pre_even [OF ok] start_pre_odd [OF ok] by blast
next
  case CompletePreRemainder
  then show ?thesis using complete_pre_even [OF ok] complete_pre_odd [OF ok _ _ net] by blast
next
  case StartButterfly
  moreover from this have "t = Suc (stages n) \<or> t \<le> stages n" using ok by (auto simp: rank_ok_def phase_ok_def)
  ultimately show ?thesis using butterfly_end [OF ok] butterfly_start [OF ok] by blast
next
  case CompleteButterfly
  then show ?thesis using complete_butterfly_moves [OF ok _ net] by blast
next
  case StartPostRemainder
  then show ?thesis using start_post_even [OF ok] start_post_odd [OF ok] by blast
next
  case CompletePostRemainder
  then show ?thesis using complete_post_even [OF ok _ _ net] complete_post_odd [OF ok] by blast
qed (use ph in simp_all)

end


section \<open>The invariant of the network\<close>

definition net_at :: "(u8 list \<Rightarrow> u8 list \<Rightarrow> u8 list) \<Rightarrow> (nat \<Rightarrow> u8 list) \<Rightarrow> nat \<Rightarrow> mem_type \<Rightarrow> nat \<Rightarrow> (nat \<Rightarrow> nat) \<Rightarrow> (nat \<Rightarrow> all_reduce) \<Rightarrow> bool" where
  "net_at c x n mt sz \<tau> N \<longleftrightarrow> (\<forall>r<n. rank_ok c x n mt sz r (N r) (\<tau> r) \<and> rd_phase (N r) \<noteq> Reduce_Done)"

lemma net_at_sent: "net_at c x n mt sz \<tau> N \<Longrightarrow> net_sent c x n mt sz r N"
  unfolding net_sent_def
proof (intro allI impI)
  fix q i
  assume N: "net_at c x n mt sz \<tau> N" and s: "sends n q r i"
  then have "logs_ok c x n mt sz q (N q) (\<tau> q)" using sends_ranks [OF s] by (simp add: net_at_def rank_ok_def)
  then show "rd_sent (N q) r = [] \<or> (\<exists>b. rd_sent (N q) r = [b] \<and> shaped mt sz (round_message c x n q i) b)"
    using s unfolding logs_ok_def by (cases "i < \<tau> q") auto
qed

lemma phase_time: "rank_ok c x n mt sz r s t \<Longrightarrow> t \<le> Suc (Suc (stages n)) \<and> (rd_phase s = ResultAvailable \<longrightarrow> t = Suc (Suc (stages n))) \<and> (waits s \<longrightarrow> 0 < t)"
  by (auto simp: rank_ok_def phase_ok_def waits_def split: reduce_phase.splits)

text \<open>The message a rank waits for is the one of its last exchange.\<close>

lemma waits_for:
  assumes "rank_ok c x n mt sz r s t" and "waits s" and "rd_recv s = Some (q, k, y)"
  shows "sends n q r (t - 1)"
proof -
  have rk: "rd_rank s = r" using assms(1) by (simp add: rank_ok_def consts_ok_def)
  have P: "phase_ok c x n mt sz r s t" using assms(1) by (simp add: rank_ok_def)
  consider "rd_phase s = CompletePreRemainder" "odd r" | "rd_phase s = CompleteButterfly" | "rd_phase s = CompletePostRemainder" "even r"
    using assms(2) rk by (auto simp: waits_def split: reduce_phase.splits)
  then show ?thesis
  proof cases
    case 1
    then have "r < 2 * spare n" "t = 1" "q = r - 1" using P assms(3) by (auto simp: phase_ok_def)
    moreover have "even (r - 1)" "Suc (r - 1) = r" "r - 1 < 2 * spare n" using 1(2) odd_pos [OF 1(2)] calculation(1) by simp_all
    ultimately show ?thesis by (simp add: sends_pre)
  next
    case 2
    then have "sends n r q (t - 1)" "0 < t - 1" "t - 1 \<le> stages n" using P assms(3) by (auto simp: phase_ok_def exchanging_def)
    from sends_stage_sym [OF this(2,3,1)] show ?thesis .
  next
    case 3
    then have "r < 2 * spare n" "t = Suc (Suc (stages n))" "q = Suc r" using P assms(3) by (auto simp: phase_ok_def)
    moreover have "odd (Suc r)" "Suc r < 2 * spare n" using 3(2) spare_pairs [OF calculation(1)] by simp_all
    ultimately show ?thesis by (simp add: sends_post)
  qed
qed

lemma finish_writes_ok: "rank_ok c x n mt sz r s t \<Longrightarrow> rank_ok c x n mt sz r (finish_writes s) t"
proof -
  have h: "has mt sz v (map_option write_completes b) = has mt sz v b" for v b
    by (auto simp: has_def shaped_def write_completes_def)
  have w: "shaped mt sz v (write_completes b) = shaped mt sz v b" "calm (write_completes b)" for v b
    by (simp_all add: shaped_def calm_def write_completes_def)
  show "rank_ok c x n mt sz r s t \<Longrightarrow> rank_ok c x n mt sz r (finish_writes s) t"
    by (auto simp: rank_ok_def consts_ok_def logs_ok_def phase_ok_def finish_writes_def exchanging_def h w split: reduce_phase.splits)
qed

lemma finish_writes_fields: "rd_phase (finish_writes s) = rd_phase s" "rd_recv (finish_writes s) = rd_recv s" "rd_sent (finish_writes s) = rd_sent s"
  "waits (finish_writes s) = waits s" "place n (finish_writes s) t = place n s t"
  by (cases "rd_phase s"; simp add: finish_writes_def waits_def place_def)+

lemma finish_writes_calm: "rd_in (finish_writes s) = Some y \<or> rd_out (finish_writes s) = Some y \<Longrightarrow> calm y"
  by (auto simp: finish_writes_def write_completes_def calm_def)

lemma net_at_update: "net_at c x n mt sz \<tau> N \<Longrightarrow> rank_ok c x n mt sz r s t \<Longrightarrow> rd_phase s \<noteq> Reduce_Done \<Longrightarrow> net_at c x n mt sz (\<tau>(r := t)) (N(r := s))"
  by (simp add: net_at_def)

context reducer
begin

lemma turn_step:
  assumes N: "net_at combine x n mt sz \<tau> N" and r: "r < n"
  shows "\<exists>s t. reduce_step reduce (Turn r a d) N = (Inr (), N(r := s)) \<and> net_at combine x n mt sz (\<tau>(r := t)) (N(r := s)) \<and>
    \<tau> r \<le> t \<and> place n (N r) (\<tau> r) \<le> place n s t \<and>
    (rd_phase (N r) \<noteq> ResultAvailable \<and> may_move N r a d (N r) \<longrightarrow> place n (N r) (\<tau> r) < place n s t)"
proof (cases "rd_phase (N r) = ResultAvailable")
  case True
  then show ?thesis using N by (intro exI [of _ "N r"] exI [of _ "\<tau> r"]) (simp add: fun_upd_triv)
next
  case False
  have ok: "rank_ok combine x n mt sz r (N r) (\<tau> r)" and nd: "rd_phase (N r) \<noteq> Reduce_Done" using N r by (auto simp: net_at_def)
  from switch_moves [OF ok False nd net_at_sent [OF N], of a d] obtain s t where
    s: "reduce_switch reduce (network_answers N r a d) (N r) = (Inr (), s)" "rank_ok combine x n mt sz r s t" "\<tau> r \<le> t"
      "place n (N r) (\<tau> r) \<le> place n s t" "may_move N r a d (N r) \<longrightarrow> place n (N r) (\<tau> r) < place n s t"
    unfolding moves_def by blast
  have act: "rd_active (N r)" using ok by (simp add: rank_ok_def consts_ok_def)
  let ?s = "if rd_phase s = Reduce_Done then s\<lparr>rd_phase := ResultAvailable, rd_callback := False,
      rd_callback_calls := rd_callback_calls s + (if rd_callback s then 1 else 0)\<rparr> else s"
  have step: "reduce_step reduce (Turn r a d) N = (Inr (), N(r := ?s))"
    using False s(1) act by (simp add: reduce_event_loop_def act_bind_def)
  have ok': "rank_ok combine x n mt sz r ?s t" using s(2)
    by (cases "rd_phase s = Reduce_Done") (simp_all add: rank_ok_def consts_ok_def logs_ok_def phase_ok_def)
  have pl: "place n ?s t = place n s t" by (simp add: place_def)
  have "rd_phase ?s \<noteq> Reduce_Done" by simp
  from net_at_update [OF N ok' this] step s(3-5) pl show ?thesis by (intro exI [of _ ?s] exI [of _ t]) simp
qed

text \<open>No run fails, and the invariant holds throughout.\<close>

lemma reduce_run_ok:
  "net_at combine x n mt sz \<tau> N \<Longrightarrow> \<forall>e\<in>set es. reduce_event_ok n e \<Longrightarrow>
   \<exists>N' \<tau>'. reduce_run reduce es N = (Inr (), N') \<and> net_at combine x n mt sz \<tau>' N'"
proof (induction es arbitrary: \<tau> N)
  case Nil
  then show ?case by auto
next
  case (Cons e es)
  have "\<exists>N1 \<tau>1. reduce_step reduce e N = (Inr (), N1) \<and> net_at combine x n mt sz \<tau>1 N1"
  proof (cases e)
    case (Turn r a d)
    then show ?thesis using turn_step [OF Cons.prems(1), of r a d] Cons.prems(2) by auto
  next
    case (Writes_Finish r)
    then have r: "r < n" using Cons.prems(2) by simp
    then have ok: "rank_ok combine x n mt sz r (N r) (\<tau> r)" "rd_phase (finish_writes (N r)) \<noteq> Reduce_Done"
      using Cons.prems(1) by (auto simp: net_at_def finish_writes_fields)
    have "net_at combine x n mt sz (\<tau>(r := \<tau> r)) (N(r := finish_writes (N r)))"
      by (rule net_at_update [OF Cons.prems(1) finish_writes_ok [OF ok(1)] ok(2)])
    then show ?thesis using Writes_Finish by auto
  qed
  then obtain N1 \<tau>1 where 1: "reduce_step reduce e N = (Inr (), N1)" "net_at combine x n mt sz \<tau>1 N1" by blast
  from Cons.IH [OF 1(2)] Cons.prems(2) show ?case by (simp add: act_bind_def 1(1))
qed

section \<open>Progress\<close>

definition ahead :: "nat \<Rightarrow> (nat \<Rightarrow> nat) \<Rightarrow> nat \<Rightarrow> all_reduce \<Rightarrow> bool" where
  "ahead n \<tau> r s \<longleftrightarrow> (waits s \<longrightarrow> (\<forall>q. sends n q r (\<tau> r - 1) \<longrightarrow> \<tau> r - 1 < \<tau> q))"

lemma visit:
  assumes N: "net_at combine x n mt sz \<tau> N" and r: "r < n"
  shows "\<exists>s t. reduce_run reduce [Writes_Finish r, Turn r True True] N = (Inr (), N(r := s)) \<and> net_at combine x n mt sz (\<tau>(r := t)) (N(r := s)) \<and>
    \<tau> r \<le> t \<and> place n (N r) (\<tau> r) \<le> place n s t \<and>
    (rd_phase (N r) \<noteq> ResultAvailable \<and> ahead n \<tau> r (N r) \<longrightarrow> place n (N r) (\<tau> r) < place n s t)"
proof -
  let ?s = "finish_writes (N r)"
  let ?N = "N(r := ?s)"
  have ok: "rank_ok combine x n mt sz r (N r) (\<tau> r)" and nd: "rd_phase (N r) \<noteq> Reduce_Done" using N r by (auto simp: net_at_def)
  have N1: "net_at combine x n mt sz (\<tau>(r := \<tau> r)) ?N"
    by (intro net_at_update [OF N] finish_writes_ok ok) (simp add: finish_writes_fields nd)
  then have N1: "net_at combine x n mt sz \<tau> ?N" by simp
  have "may_move ?N r True True ?s" if "ahead n \<tau> r (N r)"
  proof -
    have "rd_sent (?N q) r \<noteq> []" if w: "waits ?s" and rcv: "rd_recv ?s = Some (q, k, y)" for q k y
    proof -
      have s: "sends n q r (\<tau> r - 1)" using waits_for [OF ok] w rcv by (simp add: finish_writes_fields)
      then have "\<tau> r - 1 < \<tau> q" using \<open>ahead n \<tau> r (N r)\<close> w by (simp add: ahead_def finish_writes_fields)
      moreover have "logs_ok combine x n mt sz q (N q) (\<tau> q)" using N sends_ranks [OF s] by (simp add: net_at_def rank_ok_def)
      ultimately have "rd_sent (N q) r \<noteq> []" using s unfolding logs_ok_def by fastforce
      then show ?thesis by (auto simp: finish_writes_fields)
    qed
    then show ?thesis using finish_writes_calm [of "N r"] by (auto simp: may_move_def)
  qed
  moreover obtain s t where "reduce_step reduce (Turn r True True) ?N = (Inr (), ?N(r := s))" "net_at combine x n mt sz (\<tau>(r := t)) (?N(r := s))"
    "\<tau> r \<le> t" "place n (?N r) (\<tau> r) \<le> place n s t"
    "rd_phase (?N r) \<noteq> ResultAvailable \<and> may_move ?N r True True (?N r) \<longrightarrow> place n (?N r) (\<tau> r) < place n s t"
    using turn_step [OF N1 r] by blast
  ultimately show ?thesis
    by (intro exI [of _ s] exI [of _ t]) (simp add: act_bind_def finish_writes_fields del: reduce_step.simps(1))
qed

end

end
