(* ===== verification/Reduce_Result.thy ===== *)
theory Reduce_Result
  imports Reduce_Network
begin

text \<open>
  The allreduce as a whole: the constructor establishes the invariant; visiting all ranks brings some rank on until
  all have the result; for an associative operation (the locale \<open>associative_on\<close>, interpreted on the sum of 64-bit
  words) the result is the fold over the ranks in their order; the properties.
\<close>

section \<open>The start\<close>

definition reduce_started :: "nat \<Rightarrow> mem_type \<Rightarrow> nat \<Rightarrow> (nat \<Rightarrow> u8 list) \<Rightarrow> (nat \<Rightarrow> all_reduce) \<Rightarrow> bool" where
  "reduce_started n mt sz x N \<longleftrightarrow>
     (\<forall>r<n. \<exists>stats i out callback transferred v. new_all_reduce r n stats (Some i) (Some out) callback transferred = Inr (N r) \<and>
        shaped mt sz (x r) i \<and> shaped mt sz v out)"

lemma copy_whole:
  assumes "shaped mt sz a src" and "shaped mt sz v dst" and "mt \<noteq> DISK" and "sz < 2 ^ 63"
    and "buffer_copy stats src (buf_size src) 0 0 tr dst = (Inr (), dst')"
  shows "shaped mt sz a dst'"
proof (cases "sz = 0")
  case True
  then have "dst' = dst" using assms(1,2,5) by (auto simp: buffer_copy_def shaped_def split: sum.splits)
  then show ?thesis using assms(1,2) True by (simp add: shaped_def)
next
  case False
  have st: "stats" using False assms(1,2,5) by (auto simp: buffer_copy_def shaped_def split: sum.splits if_splits)
  have W: "buffer_wf src" "buffer_wf dst" using assms(1-3) by (auto simp: buffer_wf_def shaped_def)
  have "buffer_copy True src sz (int 0) (int 0) tr dst = (Inr (), dst\<lparr>buf_storage := Some (overwrite 0 (take sz (drop 0 a)) v), buf_ready := False\<rparr>)"
    by (rule buffer_copy_memory) (use assms(1-4) False W in \<open>simp_all add: shaped_def\<close>)
  moreover have "overwrite 0 (take sz (drop 0 a)) v = a" using assms(1,2) by (simp add: overwrite_def shaped_def)
  ultimately have "dst' = dst\<lparr>buf_storage := Some a, buf_ready := False\<rparr>" using assms(1,5) st by (simp add: shaped_def)
  then show ?thesis using assms(1,2) by (simp add: shaped_def)
qed

lemma rebind_shaped: "shaped mt sz v b \<Longrightarrow> rebind_stream st b = (Inr u, b') \<Longrightarrow> shaped mt sz v b'"
  by (auto simp: rebind_stream_def shaped_def throw_if_locked_def split: if_splits)

lemma new_all_reduce_ok:
  assumes new: "new_all_reduce r n stats (Some i) (Some out) callback transferred = Inr s" and "shaped mt sz (x r) i" and "shaped mt sz v out"
    and "mt \<noteq> DISK" and "sz < 2 ^ 63" and "r < n"
  shows "rank_ok c x n mt sz r s (if r < 2 * spare n then 0 else 1) \<and> rd_phase s \<noteq> Reduce_Done"
proof -
  have n: "n > 0" using assms(6) by simp
  obtain o1 o2 where 1: "rebind_stream (buf_stream i) out = (Inr (), o1)" and 2: "buffer_copy stats i (buf_size i) 0 0 transferred o1 = (Inr (), o2)"
    and s: "s = \<lparr>rd_rank = r, rd_nranks = n, rd_in = Some i, rd_out = Some o2,
                          rd_phase = (if r < 2 * spare n then StartPreRemainder else StartButterfly),
                          rd_active = True, rd_callback = callback, rd_callback_calls = 0,
                          rd_logical = (if r < 2 * spare n then (if even r then -1 else int (r div 2)) else int r - int (spare n)),
                          rd_pow2 = bit_floor n, rd_remainder = spare n, rd_mask = 1, rd_partner = -1, rd_send = None, rd_recv = None,
                          rd_sent = (\<lambda>_. []), rd_posts = (\<lambda>_. 0)\<rparr>"
    using new by (auto simp: new_all_reduce_def Let_def spare_def split: if_splits prod.splits sum.splits)
  note out = copy_whole [OF assms(2) rebind_shaped [OF assms(3) 1] assms(4,5) 2]
  have K: "consts_ok n r s" using bit_floor_stages [OF n] by (auto simp: s consts_ok_def takes_part_def logical_def)
  have P: "phase_ok c x n mt sz r s (if r < 2 * spare n then 0 else 1)"
  proof (cases "r < 2 * spare n")
    case True
    then show ?thesis using assms(2) out by (auto simp: s phase_ok_def has_def)
  next
    case False
    then have part: "takes_part n r" using assms(6) by (simp add: takes_part_def)
    show ?thesis using False part partial_start [OF part, of c x] assms(2) out by (auto simp: s phase_ok_def has_def)
  qed
  have "logs_ok c x n mt sz r s (if r < 2 * spare n then 0 else 1)"
  proof (cases "r < 2 * spare n")
    case True
    then show ?thesis by (simp add: s logs_ok_def)
  next
    case False
    have "\<not> sends n r q 0 \<and> \<not> sends n q r 0" for q using False by (auto simp: sends_pre)
    then show ?thesis using False by (auto simp: s logs_ok_def)
  qed
  then show ?thesis using K P by (simp add: rank_ok_def s)
qed

lemma new_all_reduce_succeeds:
  assumes i: "shaped mt sz a i" "buf_stream i \<noteq> invalid_stream" and out: "shaped mt sz v out" and d: "mt \<noteq> DISK" and sz: "sz < 2 ^ 63"
  shows "\<exists>s. new_all_reduce r n True (Some i) (Some out) callback transferred = Inr s"
proof -
  have "\<exists>o1. rebind_stream (buf_stream i) out = (Inr (), o1)"
    using i(2) out by (simp add: rebind_stream_def throw_if_locked_def shaped_def)
  then obtain o1 where 1: "rebind_stream (buf_stream i) out = (Inr (), o1)" by blast
  have o1: "shaped mt sz v o1" by (rule rebind_shaped [OF out 1])
  have "\<exists>o2. buffer_copy True i (buf_size i) 0 0 transferred o1 = (Inr (), o2)"
  proof (cases "sz = 0")
    case True
    then show ?thesis using i(1) o1 by (simp add: shaped_def buffer_copy_def check_range_def to_ptrdiff_def chk64_def expects_def in_int64_def int64_min_def int64_max_def)
  next
    case False
    have "buffer_copy True i sz (int 0) (int 0) transferred o1 = (Inr (), o1\<lparr>buf_storage := Some (overwrite 0 (take sz (drop 0 a)) v), buf_ready := False\<rparr>)"
      by (rule buffer_copy_memory) (use i(1) o1 d sz False in \<open>simp_all add: shaped_def buffer_wf_def\<close>)
    then show ?thesis using i(1) by (simp add: shaped_def)
  qed
  then obtain o2 where 2: "buffer_copy True i (buf_size i) 0 0 transferred o1 = (Inr (), o2)" by blast
  have "buf_size i = sz" "buf_mem i = mt" "buf_size out = sz" "buf_mem out = mt" using i(1) out by (simp_all add: shaped_def)
  then show ?thesis unfolding new_all_reduce_def Let_def using 2 by (simp add: 1)
qed

lemma reduce_started_at:
  assumes "reduce_started n mt sz x N" and "mt \<noteq> DISK" and "sz < 2 ^ 63"
  shows "net_at c x n mt sz (\<lambda>r. if r < 2 * spare n then 0 else 1) N"
  using assms(1) new_all_reduce_ok [OF _ _ _ assms(2,3)] unfolding reduce_started_def net_at_def by metis

section \<open>Rounds\<close>

definition visits :: "nat list \<Rightarrow> reduce_event list" where
  "visits rs = concat (map (\<lambda>r. [Writes_Finish r, Turn r True True]) rs)"

abbreviation round_of :: "nat \<Rightarrow> reduce_event list" where
  "round_of n \<equiv> visits [0..<n]"

definition distance :: "nat \<Rightarrow> (nat \<Rightarrow> nat) \<Rightarrow> (nat \<Rightarrow> all_reduce) \<Rightarrow> nat" where
  "distance n \<tau> N = (\<Sum>r<n. place n (N r) (\<tau> r))"

lemma place_bound: "rank_ok c x n mt sz r s t \<Longrightarrow> place n s t \<le> 2 * stages n + 5 \<and> (rd_phase s \<noteq> ResultAvailable \<and> rd_phase s \<noteq> Reduce_Done \<longrightarrow> place n s t < 2 * stages n + 5)"
  by (auto simp: rank_ok_def phase_ok_def place_def split: reduce_phase.splits)

lemma distance_bound:
  assumes "net_at c x n mt sz \<tau> N"
  shows "distance n \<tau> N \<le> n * (2 * stages n + 5)"
    and "distance n \<tau> N = n * (2 * stages n + 5) \<Longrightarrow> \<forall>r<n. rd_phase (N r) = ResultAvailable"
proof -
  have b: "place n (N r) (\<tau> r) \<le> 2 * stages n + 5" if "r \<in> {..<n}" for r
    using assms place_bound [of c x n mt sz r "N r" "\<tau> r"] that by (simp add: net_at_def)
  have k: "(\<Sum>r<n. 2 * stages n + 5) = n * (2 * stages n + 5)" by simp
  show "distance n \<tau> N \<le> n * (2 * stages n + 5)" unfolding distance_def k [symmetric] by (rule sum_mono [OF b])
  assume d: "distance n \<tau> N = n * (2 * stages n + 5)"
  show "\<forall>r<n. rd_phase (N r) = ResultAvailable"
  proof (rule ccontr)
    assume "\<not> (\<forall>r<n. rd_phase (N r) = ResultAvailable)"
    then obtain r where r: "r < n" "rd_phase (N r) \<noteq> ResultAvailable" by blast
    have ok: "rank_ok c x n mt sz r (N r) (\<tau> r)" "rd_phase (N r) \<noteq> Reduce_Done" using assms r(1) by (simp_all add: net_at_def)
    have "place n (N r) (\<tau> r) < 2 * stages n + 5" using place_bound [OF ok(1)] ok(2) r(2) by blast
    then have "distance n \<tau> N < (\<Sum>r<n. 2 * stages n + 5)" unfolding distance_def
      using r(1) b by (intro sum_strict_mono_ex1) auto
    then show False using d k by simp
  qed
qed

lemma finished_distance: "\<forall>r<n. rd_phase (N r) = ResultAvailable \<Longrightarrow> distance n \<tau> N = n * (2 * stages n + 5)"
  by (simp add: distance_def place_def)

lemma reduce_run_append: "reduce_run reduce (es @ fs) N = act_bind (reduce_run reduce es) (\<lambda>_. reduce_run reduce fs) N"
  by (induction es arbitrary: N) (auto simp: act_bind_def split: prod.splits sum.splits)

context reducer
begin

text \<open>Visiting ranks brings none of them back, and brings one on that is not finished and not waiting in vain.\<close>

lemma visits_progress:
  assumes "net_at combine x n mt sz \<tau> N" and "distinct rs" and "\<forall>r\<in>set rs. r < n"
  shows "\<exists>N' \<tau>'. reduce_run reduce (visits rs) N = (Inr (), N') \<and> net_at combine x n mt sz \<tau>' N' \<and>
    (\<forall>q. \<tau> q \<le> \<tau>' q \<and> place n (N q) (\<tau> q) \<le> place n (N' q) (\<tau>' q)) \<and>
    (\<forall>r\<in>set rs. rd_phase (N r) \<noteq> ResultAvailable \<and> ahead n \<tau> r (N r) \<longrightarrow> place n (N r) (\<tau> r) < place n (N' r) (\<tau>' r))"
  using assms
proof (induction rs arbitrary: \<tau> N)
  case Nil
  then show ?case by (auto simp: visits_def)
next
  case (Cons r rs)
  have r: "r < n" and d: "distinct rs" and b: "\<forall>r\<in>set rs. r < n" and new: "r \<notin> set rs" using Cons.prems(2,3) by simp_all
  obtain s t where v: "reduce_run reduce [Writes_Finish r, Turn r True True] N = (Inr (), N(r := s))" and
    N1: "net_at combine x n mt sz (\<tau>(r := t)) (N(r := s))" and up: "\<tau> r \<le> t" "place n (N r) (\<tau> r) \<le> place n s t"
    and on: "rd_phase (N r) \<noteq> ResultAvailable \<and> ahead n \<tau> r (N r) \<longrightarrow> place n (N r) (\<tau> r) < place n s t"
    using visit [OF Cons.prems(1) r] by blast
  obtain N' \<tau>' where run: "reduce_run reduce (visits rs) (N(r := s)) = (Inr (), N')" and N': "net_at combine x n mt sz \<tau>' N'"
    and mono: "\<And>q. (\<tau>(r := t)) q \<le> \<tau>' q \<and> place n ((N(r := s)) q) ((\<tau>(r := t)) q) \<le> place n (N' q) (\<tau>' q)"
    and later: "\<And>q. q \<in> set rs \<Longrightarrow> rd_phase ((N(r := s)) q) \<noteq> ResultAvailable \<and> ahead n (\<tau>(r := t)) q ((N(r := s)) q) \<longrightarrow>
      place n ((N(r := s)) q) ((\<tau>(r := t)) q) < place n (N' q) (\<tau>' q)"
    using Cons.IH [OF N1 d b] by blast
  have e: "visits (r # rs) = [Writes_Finish r, Turn r True True] @ visits rs" by (simp add: visits_def)
  have go: "reduce_run reduce (visits (r # rs)) N = (Inr (), N')" unfolding e reduce_run_append act_bind_def v by (simp add: run)
  have m: "\<tau> q \<le> \<tau>' q \<and> place n (N q) (\<tau> q) \<le> place n (N' q) (\<tau>' q)" for q
    using mono [of q] up by (cases "q = r") auto
  have "place n (N q) (\<tau> q) < place n (N' q) (\<tau>' q)" if "q \<in> set (r # rs)" "rd_phase (N q) \<noteq> ResultAvailable \<and> ahead n \<tau> q (N q)" for q
  proof (cases "q = r")
    case True
    then show ?thesis using on that(2) mono [of r] by simp
  next
    case False
    have "ahead n (\<tau>(r := t)) q (N q)" using that(2) up(1) False unfolding ahead_def by (auto intro: less_le_trans)
    then show ?thesis using later [of q] that False by simp
  qed
  then show ?case using go N' m by (intro exI [of _ N'] exI [of _ \<tau>']) blast
qed

text \<open>Of the ranks that are not finished, the one least far in its exchanges does not wait in vain.\<close>

lemma someone_ahead:
  assumes N: "net_at combine x n mt sz \<tau> N" and u: "\<exists>r<n. rd_phase (N r) \<noteq> ResultAvailable"
  shows "\<exists>r<n. rd_phase (N r) \<noteq> ResultAvailable \<and> ahead n \<tau> r (N r)"
proof -
  define U where "U = {r. r < n \<and> rd_phase (N r) \<noteq> ResultAvailable}"
  have "finite U" "U \<noteq> {}" using u by (auto simp: U_def)
  then obtain r where r: "r \<in> U" and least: "\<And>q. q \<in> U \<Longrightarrow> \<tau> r \<le> \<tau> q"
    using arg_min_if_finite [of U \<tau>] by (metis linorder_not_less)
  have "ahead n \<tau> r (N r)" unfolding ahead_def
  proof (intro impI allI)
    fix q
    assume w: "waits (N r)" and s: "sends n q r (\<tau> r - 1)"
    have q: "q < n" using sends_ranks [OF s] by simp
    have R: "rank_ok combine x n mt sz r (N r) (\<tau> r)" "rank_ok combine x n mt sz q (N q) (\<tau> q)" using N r q by (auto simp: net_at_def U_def)
    have t: "0 < \<tau> r" "\<tau> r \<le> Suc (Suc (stages n))" using phase_time [OF R(1)] w by blast+
    show "\<tau> r - 1 < \<tau> q"
    proof (cases "q \<in> U")
      case True
      then show ?thesis using least [OF True] t(1) by simp
    next
      case False
      then have "\<tau> q = Suc (Suc (stages n))" using phase_time [OF R(2)] q by (simp add: U_def)
      then show ?thesis using t by simp
    qed
  qed
  then show ?thesis using r by (auto simp: U_def)
qed

lemma round_progress:
  assumes N: "net_at combine x n mt sz \<tau> N"
  shows "\<exists>N' \<tau>'. reduce_run reduce (round_of n) N = (Inr (), N') \<and> net_at combine x n mt sz \<tau>' N' \<and>
    ((\<exists>r<n. rd_phase (N r) \<noteq> ResultAvailable) \<longrightarrow> distance n \<tau> N < distance n \<tau>' N') \<and> distance n \<tau> N \<le> distance n \<tau>' N'"
proof -
  obtain N' \<tau>' where v: "reduce_run reduce (round_of n) N = (Inr (), N')" "net_at combine x n mt sz \<tau>' N'"
    "\<forall>q. \<tau> q \<le> \<tau>' q \<and> place n (N q) (\<tau> q) \<le> place n (N' q) (\<tau>' q)"
    "\<forall>r\<in>set [0..<n]. rd_phase (N r) \<noteq> ResultAvailable \<and> ahead n \<tau> r (N r) \<longrightarrow> place n (N r) (\<tau> r) < place n (N' r) (\<tau>' r)"
    using visits_progress [OF N, of "[0..<n]"] by auto
  have "distance n \<tau> N < distance n \<tau>' N'" if "\<exists>r<n. rd_phase (N r) \<noteq> ResultAvailable"
  proof -
    obtain r where "r < n" "rd_phase (N r) \<noteq> ResultAvailable" "ahead n \<tau> r (N r)" using someone_ahead [OF N \<open>\<exists>r<n. _\<close>] by blast
    then show ?thesis unfolding distance_def using v(3,4) by (intro sum_strict_mono_ex1) auto
  qed
  moreover have "distance n \<tau> N \<le> distance n \<tau>' N'" unfolding distance_def using v(3) by (intro sum_mono) simp
  ultimately show ?thesis using v(1,2) by blast
qed

lemma rounds_advance:
  "net_at combine x n mt sz \<tau> N \<Longrightarrow> \<exists>N' \<tau>'. reduce_run reduce (concat (replicate k (round_of n))) N = (Inr (), N') \<and>
     net_at combine x n mt sz \<tau>' N' \<and> min (n * (2 * stages n + 5)) (distance n \<tau> N + k) \<le> distance n \<tau>' N'"
proof (induction k arbitrary: \<tau> N)
  case 0
  then show ?case by (intro exI [of _ N] exI [of _ \<tau>]) simp
next
  case (Suc k)
  obtain N1 \<tau>1 where 1: "reduce_run reduce (round_of n) N = (Inr (), N1)" "net_at combine x n mt sz \<tau>1 N1"
    "(\<exists>r<n. rd_phase (N r) \<noteq> ResultAvailable) \<longrightarrow> distance n \<tau> N < distance n \<tau>1 N1" "distance n \<tau> N \<le> distance n \<tau>1 N1"
    using round_progress [OF Suc.prems] by blast
  obtain N' \<tau>' where 2: "reduce_run reduce (concat (replicate k (round_of n))) N1 = (Inr (), N')" "net_at combine x n mt sz \<tau>' N'"
    "min (n * (2 * stages n + 5)) (distance n \<tau>1 N1 + k) \<le> distance n \<tau>' N'"
    using Suc.IH [OF 1(2)] by blast
  have "min (n * (2 * stages n + 5)) (distance n \<tau> N + 1) \<le> distance n \<tau>1 N1"
    using 1(3,4) finished_distance [of n N \<tau>] by (cases "\<exists>r<n. rd_phase (N r) \<noteq> ResultAvailable") auto
  then have "min (n * (2 * stages n + 5)) (distance n \<tau> N + Suc k) \<le> distance n \<tau>' N'" using 2(3) by linarith
  moreover have "reduce_run reduce (concat (replicate (Suc k) (round_of n))) N = (Inr (), N')"
    by (simp add: reduce_run_append act_bind_def 1(1) 2(1))
  ultimately show ?case using 2(2) by blast
qed

lemma rounds_finish:
  assumes "net_at combine x n mt sz \<tau> N"
  shows "\<exists>N' \<tau>'. reduce_run reduce (concat (replicate (n * (2 * stages n + 5)) (round_of n))) N = (Inr (), N') \<and>
     net_at combine x n mt sz \<tau>' N' \<and> (\<forall>r<n. rd_phase (N' r) = ResultAvailable)"
  using rounds_advance [OF assms, of "n * (2 * stages n + 5)"] distance_bound by (metis le_antisym min.absorb1 le_add2)

end


section \<open>The combination as a fold over the ranks\<close>

definition fold_range :: "('b \<Rightarrow> 'b \<Rightarrow> 'b) \<Rightarrow> (nat \<Rightarrow> 'b) \<Rightarrow> nat \<Rightarrow> nat \<Rightarrow> 'b" where
  "fold_range c x a b = foldl c (x a) (map x [Suc a..<b])"

text \<open>The first rank whose contribution reaches logical rank \<open>l\<close>.\<close>

definition first_rank :: "nat \<Rightarrow> nat \<Rightarrow> nat" where
  "first_rank k l = (if l \<le> k then 2 * l else l + k)"

lemma first_rank_mono: "l < l' \<Longrightarrow> first_rank k l < first_rank k l'"
  by (auto simp: first_rank_def)

lemma first_rank_end: "n > 0 \<Longrightarrow> first_rank (spare n) (2 ^ stages n) = n"
  using split_ranks [of n] by (auto simp: first_rank_def)

locale associative_on =
  fixes c :: "'b \<Rightarrow> 'b \<Rightarrow> 'b" and ok :: "'b \<Rightarrow> bool"
  assumes closed: "ok a \<Longrightarrow> ok b \<Longrightarrow> ok (c a b)"
    and assoc: "ok a \<Longrightarrow> ok b \<Longrightarrow> ok d \<Longrightarrow> c (c a b) d = c a (c b d)"
begin

lemma foldl_ok: "ok a \<Longrightarrow> \<forall>y\<in>set ys. ok y \<Longrightarrow> ok (foldl c a ys)"
  by (induction ys arbitrary: a) (auto simp: closed)

lemma foldl_assoc: "ok a \<Longrightarrow> ok b \<Longrightarrow> \<forall>y\<in>set ys. ok y \<Longrightarrow> c a (foldl c b ys) = foldl c (c a b) ys"
  by (induction ys arbitrary: b) (auto simp: closed assoc)

lemma fold_range_join:
  assumes "i < m" and "m < k" and "\<forall>r<k. ok (x r)"
  shows "c (fold_range c x i m) (fold_range c x m k) = fold_range c x i k"
proof -
  have u: "[Suc i..<k] = [Suc i..<m] @ m # [Suc m..<k]" using assms(1,2)
    using upt_add_eq_append [of "Suc i" m "k - m"] by (simp add: upt_conv_Cons)
  have "ok (foldl c (x i) (map x [Suc i..<m]))" using assms by (intro foldl_ok) auto
  then show ?thesis unfolding fold_range_def u using assms by (simp add: foldl_assoc)
qed

lemma tree_fold:
  assumes "\<forall>r<first_rank (spare n) ((g + 1) * 2 ^ j). ok (x r)"
  shows "tree c (pair_leaf c x n) j g = fold_range c x (first_rank (spare n) (g * 2 ^ j)) (first_rank (spare n) ((g + 1) * 2 ^ j))"
  using assms
proof (induction j arbitrary: g)
  case 0
  have "[Suc (2 * g)..<2 * g + 2] = [Suc (2 * g)]" by (simp add: upt_rec)
  then show ?case by (auto simp: pair_leaf_def fold_range_def first_rank_def mult_2)
next
  case (Suc j)
  let ?f = "\<lambda>g. first_rank (spare n) (g * 2 ^ j)"
  have lt: "?f (2 * g) < ?f (2 * g + 1)" "?f (2 * g + 1) < ?f (2 * g + 1 + 1)" by (rule first_rank_mono, simp)+
  have e: "(g + 1) * 2 ^ Suc j = (2 * g + 1 + 1) * 2 ^ j" "g * 2 ^ Suc j = 2 * g * 2 ^ j" by (simp_all add: algebra_simps)
  have ok2: "\<forall>r<?f (2 * g + 1 + 1). ok (x r)" using Suc.prems unfolding e .
  then have ok1: "\<forall>r<?f (2 * g + 1). ok (x r)" using lt(2) by simp
  show ?case unfolding e
    using Suc.IH [OF ok1] Suc.IH [OF ok2] fold_range_join [OF lt ok2] by simp
qed

lemma reduction_fold:
  assumes "n > 0" and "\<forall>r<n. ok (x r)"
  shows "reduction c x n = foldl c (x 0) (map x [1..<n])"
  using tree_fold [of n 0 "stages n"] first_rank_end [OF assms(1)] assms
  by (simp add: reduction_def fold_range_def first_rank_def)

end

text \<open>Element by element, an associative operation stays associative.\<close>

lemma elementwise_assoc:
  assumes "\<And>a b. length (f a b) = w"
    and "\<And>a b d. length a = w \<Longrightarrow> length b = w \<Longrightarrow> length d = w \<Longrightarrow> f (f a b) d = f a (f b d)"
  shows "length a = length b \<Longrightarrow> length b = length d \<Longrightarrow>
    elementwise w f (elementwise w f a b) d = elementwise w f a (elementwise w f b d)"
proof (induction "length a" arbitrary: a b d rule: less_induct)
  case less
  show ?case
  proof (cases "w = 0 \<or> length a < w")
    case True
    then have "elementwise w f a b = b" "elementwise w f b d = d" "elementwise w f a d = d"
      using less.prems by (auto simp: elementwise.simps)
    then show ?thesis by simp
  next
    case False
    then have l: "0 < w" "w \<le> length a" "w \<le> length b" "w \<le> length d" using less.prems by auto
    have e: "elementwise w f u v = f (take w u) (take w v) @ elementwise w f (drop w u) (drop w v)" if "w \<le> length u" "w \<le> length v" for u v
      using that l(1) by (subst elementwise.simps) auto
    have len: "w \<le> length (elementwise w f u v)" if "w \<le> length v" for u v
      using that by (simp add: elementwise_length [OF assms(1)])
    have "elementwise w f (elementwise w f (drop w a) (drop w b)) (drop w d) = elementwise w f (drop w a) (elementwise w f (drop w b) (drop w d))"
      using less.prems l by (intro less.hyps) auto
    then show ?thesis using l assms by (simp add: e len)
  qed
qed

interpretation sum_words: associative_on "elementwise 8 (word_op (+))" "\<lambda>b. length b = 8 * k" for k
proof
  fix a b d :: "u8 list"
  show "length b = 8 * k \<Longrightarrow> length (elementwise 8 (word_op (+)) a b) = 8 * k"
    by (simp add: elementwise_length word_op_def)
  have "word_op (+) (word_op (+) u v) w = word_op (+) u (word_op (+) v w)" for u v w
    by (simp add: word_op_def add.assoc)
  then show "length a = 8 * k \<Longrightarrow> length b = 8 * k \<Longrightarrow> length d = 8 * k \<Longrightarrow>
    elementwise 8 (word_op (+)) (elementwise 8 (word_op (+)) a b) d = elementwise 8 (word_op (+)) a (elementwise 8 (word_op (+)) b d)"
    by (intro elementwise_assoc) (simp_all add: word_op_def)
qed

section \<open>Extraction\<close>

lemma extracted:
  assumes "net_at c x n mt sz \<tau> N" and "r < n" and "reduce_is_ready (N r)"
  obtains i out where "reduce_wait_and_extract timed_out (N r) = Some (Inr (i, out), (N r)\<lparr>rd_in := None, rd_out := None\<rparr>)"
    and "shaped mt sz (reduction c x n) out"
proof -
  have "phase_ok c x n mt sz r (N r) (\<tau> r)" "rd_phase (N r) = ResultAvailable" using assms by (auto simp: net_at_def rank_ok_def reduce_is_ready_def)
  then show ?thesis using that by (auto simp: phase_ok_def has_def reduce_wait_and_extract_def)
qed

context reducer
begin

lemma started_run:
  assumes "sz < 2 ^ 63" and "reduce_started n mt sz x N" and "\<forall>e\<in>set es. reduce_event_ok n e"
  shows "\<exists>N' \<tau>. reduce_run reduce es N = (Inr (), N') \<and> net_at combine x n mt sz \<tau> N'"
  by (rule reduce_run_ok [OF reduce_started_at [OF assms(2) not_on_disk assms(1)] assms(3)])

lemma started_finishes:
  assumes "sz < 2 ^ 63" and "reduce_started n mt sz x N"
  shows "\<exists>N' \<tau>. reduce_run reduce (concat (replicate (n * (2 * stages n + 5)) (round_of n))) N = (Inr (), N') \<and>
    net_at combine x n mt sz \<tau> N' \<and> (\<forall>r<n. rd_phase (N' r) = ResultAvailable)"
  by (rule rounds_finish [OF reduce_started_at [OF assms(2) not_on_disk assms(1)]])

end

lemma round_events: "e \<in> set (concat (replicate k (round_of n))) \<Longrightarrow> reduce_event_ok n e"
  by (auto simp: visits_def split: if_splits)

section \<open>The typing of a rank's state\<close>

definition fits :: "mem_type \<Rightarrow> nat \<Rightarrow> buffer option \<Rightarrow> bool" where
  "fits mt sz b = (case b of None \<Rightarrow> False | Some y \<Rightarrow> buf_mem y = mt \<and> buf_size y = sz \<and> \<not> buf_locked y \<and> map_option length (buf_storage y) = Some sz)"

definition quiet :: "buffer option \<Rightarrow> bool" where
  "quiet b = (case b of None \<Rightarrow> True | Some y \<Rightarrow> calm y)"

text \<open>
  In each phase, the buffers and futures that it uses are there, and the buffers are of the right kind and size. No
  device write to a buffer of the butterfly is outstanding while the communicator has it: neither the constructor's
  copy nor the operator's.
\<close>

definition rank_typed :: "mem_type \<Rightarrow> nat \<Rightarrow> all_reduce \<Rightarrow> bool" where
  "rank_typed mt sz s =
     (let sending = fits mt sz (map_option snd (rd_send s)); receiving = fits mt sz (map_option (snd \<circ> snd) (rd_recv s)) in
      case rd_phase s of
        CompletePreRemainder \<Rightarrow> if even (rd_rank s) then fits mt sz (rd_in s) \<and> sending else fits mt sz (rd_out s) \<and> quiet (rd_out s) \<and> receiving
      | CompleteButterfly \<Rightarrow> sending \<and> receiving \<and> 0 \<le> rd_partner s \<and>
          quiet (map_option snd (rd_send s)) \<and> quiet (map_option (snd \<circ> snd) (rd_recv s))
      | CompletePostRemainder \<Rightarrow> fits mt sz (rd_in s) \<and> (if even (rd_rank s) then receiving else sending)
      | _ \<Rightarrow> fits mt sz (rd_in s) \<and> fits mt sz (rd_out s))"

lemma rank_ok_typed:
  assumes "rank_ok c x n mt sz r s t"
  shows "rank_typed mt sz s"
proof -
  have "rd_rank s = r" "phase_ok c x n mt sz r s t" using assms by (simp_all add: rank_ok_def consts_ok_def)
  then show ?thesis
    by (cases "rd_phase s") (auto simp: phase_ok_def rank_typed_def exchanging_def has_def fits_def shaped_def quiet_def Let_def)
qed


section \<open>Properties\<close>

text \<open>Property C13: Whatever the order of iterations, arrivals and device writes, no iteration of an allreduce fails, and each rank has in each phase the buffers and futures the phase uses, of the right memory type and size and, during the butterfly, with no device write outstanding.\<close>

theorem allreduce_never_fails:
  assumes "reducer reduce combine mt sz" and "sz < 2 ^ 63" and "reduce_started n mt sz x N"
    and "\<forall>e\<in>set es. reduce_event_ok n e"
  shows "\<exists>N'. reduce_run reduce es N = (Inr (), N') \<and> (\<forall>r<n. rank_typed mt sz (N' r))"
proof -
  obtain N' \<tau> where "reduce_run reduce es N = (Inr (), N')" "net_at combine x n mt sz \<tau> N'"
    using reducer.started_run [OF assms] by blast
  then show ?thesis using rank_ok_typed unfolding net_at_def by blast
qed

text \<open>Property C3: Every rank that is ready extracts the same result, the tree of combinations given by the number of ranks, for any interleaving and for operators that are neither associative nor commutative.\<close>

theorem allreduce_agrees:
  assumes "reducer reduce combine mt sz" and "sz < 2 ^ 63" and "reduce_started n mt sz x N"
    and "\<forall>e\<in>set es. reduce_event_ok n e" and "reduce_run reduce es N = (Inr (), N')" and "r < n" and "reduce_is_ready (N' r)"
  shows "\<exists>i out s. reduce_wait_and_extract timed_out (N' r) = Some (Inr (i, out), s) \<and> shaped mt sz (reduction combine x n) out"
proof -
  obtain \<tau> where "net_at combine x n mt sz \<tau> N'" using reducer.started_run [OF assms(1-4)] assms(5) by auto
  from extracted [OF this assms(6,7)] show ?thesis by metis
qed

text \<open>Property C11: With an associative operator every rank that is ready extracts the fold of the contributions in the order of the ranks, whether or not the number of ranks is a power of two.\<close>

theorem allreduce_is_fold:
  assumes "reducer reduce combine mt sz" and "sz < 2 ^ 63" and "reduce_started n mt sz x N"
    and "\<forall>e\<in>set es. reduce_event_ok n e" and "reduce_run reduce es N = (Inr (), N')" and "r < n" and "reduce_is_ready (N' r)"
    and "associative_on combine (\<lambda>b. length b = sz)"
  shows "\<exists>i out s. reduce_wait_and_extract timed_out (N' r) = Some (Inr (i, out), s) \<and>
    buf_storage out = Some (foldl combine (x 0) (map x [1..<n]))"
proof -
  obtain \<tau> where N: "net_at combine x n mt sz \<tau> N'" using reducer.started_run [OF assms(1-4)] assms(5) by auto
  have "\<forall>q<n. length (x q) = sz" using assms(3) unfolding reduce_started_def shaped_def by metis
  then have "reduction combine x n = foldl combine (x 0) (map x [1..<n])"
    using associative_on.reduction_fold [OF assms(8), of n x] assms(6) by simp
  with extracted [OF N assms(6,7)] show ?thesis by (metis shaped_def)
qed

text \<open>Property C8: When all ranks take turns and messages arrive, every rank has its result after at most as many rounds as all ranks together have steps to make.\<close>

theorem allreduce_completes:
  assumes "reducer reduce combine mt sz" and "sz < 2 ^ 63" and "reduce_started n mt sz x N"
  shows "\<exists>N'. reduce_run reduce (concat (replicate (n * (2 * stages n + 5)) (round_of n))) N = (Inr (), N') \<and> (\<forall>r<n. reduce_is_ready (N' r))"
  using reducer.started_finishes [OF assms] by (auto simp: reduce_is_ready_def)

section \<open>A sum over three ranks\<close>

definition word_buffer :: "u64 \<Rightarrow> buffer" where
  "word_buffer w = \<lparr>buf_size = 8, buf_mem = HOST, buf_storage = Some (enc64 w), buf_stream = 1, buf_ready = True, buf_locked = False, buf_token = False\<rparr>"

definition sum_start :: "nat \<Rightarrow> all_reduce" where
  "sum_start r = (case new_all_reduce r 3 True (Some (word_buffer (word_of_nat (10 * r + 10)))) (Some (word_buffer 0)) True 1 of Inr s \<Rightarrow> s)"

lemma shaped_word: "shaped HOST 8 (enc64 w) (word_buffer w)"
  by (simp add: shaped_def word_buffer_def)

lemma sum_start_ok: "reduce_started 3 HOST 8 (\<lambda>r. enc64 (word_of_nat (10 * r + 10))) sum_start"
proof -
  have s: "buf_stream (word_buffer w) \<noteq> invalid_stream" for w by (simp add: word_buffer_def invalid_stream_def)
  have "new_all_reduce r 3 True (Some (word_buffer (word_of_nat (10 * r + 10)))) (Some (word_buffer 0)) True 1 = Inr (sum_start r)" for r
    using new_all_reduce_succeeds [OF shaped_word [of "word_of_nat (10 * r + 10)"] s shaped_word [of 0], where r = r and n = 3 and callback = True and transferred = 1]
    unfolding sum_start_def by (auto simp del: of_nat_add of_nat_mult)
  then show ?thesis unfolding reduce_started_def using shaped_word by blast
qed

lemma sum_host: "reducer (host_op 8 (word_op (+))) (elementwise 8 (word_op (+))) HOST 8"
  using host_words.reducer_axioms [of "(+)" 1] by simp

lemma sum_finishes:
  "\<exists>N'. reduce_run (host_op 8 (word_op (+))) (concat (replicate 21 (round_of 3))) sum_start = (Inr (), N') \<and> (\<forall>r<3. reduce_is_ready (N' r))"
proof -
  have "stages 3 = 1" by (simp add: stages.simps)
  then show ?thesis using reducer.started_finishes [OF sum_host _ sum_start_ok] by (auto simp: reduce_is_ready_def)
qed

lemma sum_associative: "associative_on (elementwise 8 (word_op (+))) (\<lambda>b. length b = 8)"
  using sum_words.associative_on_axioms [of 1] by simp

theorem allreduce_never_fails_witness:
  "\<exists>N'. reduce_run (host_op 8 (word_op (+))) [Turn 2 True True, Writes_Finish 0, Turn 0 False False, Turn 2 True True] sum_start = (Inr (), N') \<and>
    rank_typed HOST 8 (N' 2)"
  using allreduce_never_fails [OF sum_host _ sum_start_ok, of "[Turn 2 True True, Writes_Finish 0, Turn 0 False False, Turn 2 True True]"] by auto

theorem allreduce_agrees_witness:
  "\<exists>N' i out s. reduce_run (host_op 8 (word_op (+))) (concat (replicate 21 (round_of 3))) sum_start = (Inr (), N') \<and>
    reduce_wait_and_extract False (N' 0) = Some (Inr (i, out), s) \<and>
    buf_storage out = Some (reduction (elementwise 8 (word_op (+))) (\<lambda>r. enc64 (word_of_nat (10 * r + 10))) 3)"
proof -
  obtain N' where run: "reduce_run (host_op 8 (word_op (+))) (concat (replicate 21 (round_of 3))) sum_start = (Inr (), N')"
    and ready: "\<forall>r<3. reduce_is_ready (N' r)" using sum_finishes by blast
  have "reduce_is_ready (N' 0)" using ready by simp
  from allreduce_agrees [OF sum_host _ sum_start_ok _ run _ this, of False] round_events [of _ 21 3]
  show ?thesis using run by (auto simp: shaped_def)
qed

theorem allreduce_is_fold_witness:
  "\<exists>N' i out s. reduce_run (host_op 8 (word_op (+))) (concat (replicate 21 (round_of 3))) sum_start = (Inr (), N') \<and>
    reduce_wait_and_extract False (N' 0) = Some (Inr (i, out), s) \<and> buf_storage out = Some (enc64 60)"
proof -
  obtain N' where run: "reduce_run (host_op 8 (word_op (+))) (concat (replicate 21 (round_of 3))) sum_start = (Inr (), N')"
    and ready: "\<forall>r<3. reduce_is_ready (N' r)" using sum_finishes by blast
  have r: "reduce_is_ready (N' 0)" using ready by simp
  have e: "\<forall>e\<in>set (concat (replicate 21 (round_of 3))). reduce_event_ok 3 e" using round_events by blast
  have "\<exists>i out s. reduce_wait_and_extract False (N' 0) = Some (Inr (i, out), s) \<and>
    buf_storage out = Some (foldl (elementwise 8 (word_op (+))) (enc64 (word_of_nat (10 * 0 + 10))) (map (\<lambda>r. enc64 (word_of_nat (10 * r + 10))) [1..<3]))"
    by (rule allreduce_is_fold [OF sum_host _ sum_start_ok e run _ r sum_associative]) simp_all
  moreover have "foldl (elementwise 8 (word_op (+))) (enc64 (word_of_nat (10 * 0 + 10))) (map (\<lambda>r. enc64 (word_of_nat (10 * r + 10))) [1..<3]) = enc64 60"
    by (simp add: elementwise.simps word_op_def upt_rec)
  ultimately show ?thesis using run by auto
qed

theorem allreduce_completes_witness:
  "\<exists>N'. reduce_run (host_op 8 (word_op (+))) (concat (replicate (3 * (2 * stages 3 + 5)) (round_of 3))) sum_start = (Inr (), N') \<and>
    reduce_is_ready (N' 0) \<and> reduce_is_ready (N' 1) \<and> reduce_is_ready (N' 2)"
  using allreduce_completes [OF sum_host _ sum_start_ok] by auto

end
