(* ===== verification/Messages.thy ===== *)
theory Messages
  imports Buffer_Resource
begin

text \<open>
  The type-erased messages of the streaming layer, \<^verbatim>\<open>streaming/core/message.hpp\<close>. A message carries callbacks chosen by
  the type of its payload; here they are a function of the message, a parameter. The locale \<open>message_callbacks\<close> is what
  the container below relies on, interpreted on the callbacks of packed data (\<^verbatim>\<open>streaming/chunks/packed_data.hpp\<close>).
\<close>

section \<open>Messages\<close>

record 'p stream_message =
  msg_seq :: nat
  msg_payload :: "'p option"
  msg_cd :: content_desc

text \<open>The callbacks a message carries depend on its payload type; either may be missing.\<close>

type_synonym 'p msg_callback = "'p stream_message \<Rightarrow> (br \<times> reservation, 'p stream_message) act"

record 'p callbacks =
  cb_copy :: "'p msg_callback option"
  cb_move :: "'p msg_callback option"

definition new_message :: "nat \<Rightarrow> 'p option \<Rightarrow> content_desc \<Rightarrow> 'p stream_message result" where
  "new_message seq payload cd =
     (case payload of None \<Rightarrow> Inl Invalid_Argument | Some p \<Rightarrow> Inr \<lparr>msg_seq = seq, msg_payload = Some p, msg_cd = cd\<rparr>)"

definition empty_message :: "'p stream_message" where
  "empty_message = \<lparr>msg_seq = 0, msg_payload = None, msg_cd = \<lparr>content_sizes = (\<lambda>_. 0), cd_spillable = False\<rparr>\<rparr>"

definition msg_reset :: "'p stream_message \<Rightarrow> 'p stream_message" where
  "msg_reset m = m\<lparr>msg_payload := None\<rparr>"

definition msg_empty :: "'p stream_message \<Rightarrow> bool" where
  "msg_empty m \<longleftrightarrow> msg_payload m = None"

definition msg_get :: "'p stream_message \<Rightarrow> 'p result" where
  "msg_get m = (case msg_payload m of None \<Rightarrow> Inl Invalid_Argument | Some p \<Rightarrow> Inr p)"

definition msg_release :: "('p stream_message, 'p) act" where
  "msg_release m = (case msg_get m of Inl e \<Rightarrow> (Inl e, m) | Inr p \<Rightarrow> (Inr p, msg_reset m))"

definition copy_cost :: "'p stream_message \<Rightarrow> nat" where
  "copy_cost m = content_size_total (msg_cd m)"

definition message_copy :: "('p stream_message \<Rightarrow> 'p callbacks) \<Rightarrow> 'p msg_callback" where
  "message_copy cbs m st = (case cb_copy (cbs m) of None \<Rightarrow> (Inl Invalid_Argument, st) | Some f \<Rightarrow> f m st)"

text \<open>The message moved from is left empty, also when the callback throws.\<close>

definition message_move :: "('p stream_message \<Rightarrow> 'p callbacks) \<Rightarrow> ('p stream_message \<times> br \<times> reservation, 'p stream_message) act" where
  "message_move cbs s =
     (case s of (m, st) \<Rightarrow>
        case cb_move (cbs m) of
          None \<Rightarrow> (Inl Invalid_Argument, s)
        | Some f \<Rightarrow> (case f m st of (out, st') \<Rightarrow> (out, (msg_reset m, st'))))"

section \<open>Messages of packed data\<close>

definition packed_desc :: "packed_data \<Rightarrow> content_desc" where
  "packed_desc p = content_description [(buf_mem (pd_data p), buf_size (pd_data p))] True"

definition copy_packed :: "packed_data \<Rightarrow> ('w br_scheme \<times> reservation, packed_data) act" where
  "copy_packed p st =
     (let src = pd_data p in
      case make_buffer (buf_size src) (buf_stream src) st of
        (Inl e, st1) \<Rightarrow> (Inl e, st1)
      | (Inr dst, (b1, r1)) \<Rightarrow>
          (case buffer_copy True src (buf_size src) 0 0 (br_transfer b1 (buf_size src)) dst of
             (Inl e, dst1) \<Rightarrow> (Inl e, (destroy_buffer dst1 b1, r1))
           | (Inr _, dst1) \<Rightarrow>
               (case make_packed_data (Some (pd_metadata p)) (Some dst1) of
                  Inl e \<Rightarrow> (Inl e, (destroy_buffer dst1 b1, r1))
                | Inr q \<Rightarrow> (Inr q, (b1, r1)))))"

definition packed_to_message :: "nat \<Rightarrow> packed_data \<Rightarrow> packed_data stream_message result" where
  "packed_to_message seq p = new_message seq (Some p) (packed_desc p)"

definition packed_callbacks :: "bool \<Rightarrow> packed_data stream_message \<Rightarrow> packed_data callbacks" where
  "packed_callbacks stats m =
     \<lparr>cb_copy = Some (\<lambda>m st.
        (case msg_get m of
           Inl e \<Rightarrow> (Inl e, st)
         | Inr p \<Rightarrow> act_bind (copy_packed p) (\<lambda>q st. (packed_to_message (msg_seq m) q, st)) st)),
      cb_move = Some (\<lambda>m st.
        (case msg_release m of
           (Inl e, _) \<Rightarrow> (Inl e, st)
         | (Inr p, m') \<Rightarrow>
             act_bind (move_buffer stats (pd_data p))
               (\<lambda>d st. (packed_to_message (msg_seq m') (p\<lparr>pd_data := d\<rparr>), st)) st))\<rparr>"

text \<open>What callbacks owe their users: the message they return says the same as the one they are given.\<close>

locale message_callbacks =
  fixes cbs :: "'p stream_message \<Rightarrow> 'p callbacks"
    and ok :: "'p \<Rightarrow> bool"
    and view :: "'p \<Rightarrow> 'v"
    and desc :: "'p \<Rightarrow> content_desc"
  assumes copies: "cb_copy (cbs m) = Some f \<Longrightarrow> msg_payload m = Some p \<Longrightarrow> ok p \<Longrightarrow> f m st = (Inr m', st') \<Longrightarrow>
      msg_seq m' = msg_seq m \<and> (\<exists>q. msg_payload m' = Some q \<and> ok q \<and> view q = view p \<and> msg_cd m' = desc q)"
    and moves: "cb_move (cbs m) = Some f \<Longrightarrow> msg_payload m = Some p \<Longrightarrow> ok p \<Longrightarrow> f m st = (Inr m', st') \<Longrightarrow>
      msg_seq m' = msg_seq m \<and> (\<exists>q. msg_payload m' = Some q \<and> ok q \<and> view q = view p \<and> msg_cd m' = desc q \<and>
        (res_mem (snd st) \<noteq> DEVICE \<longrightarrow> content_sizes (desc q) DEVICE = 0))"
    and empties: "msg_payload m = None \<Longrightarrow> cb_copy (cbs m) = Some f \<or> cb_move (cbs m) = Some f \<Longrightarrow> \<exists>e st'. f m st = (Inl e, st')"

definition packed_view :: "packed_data \<Rightarrow> u8 list \<times> u8 list option" where
  "packed_view p = (pd_metadata p, buf_storage (pd_data p))"

lemma copy_packed_Inr:
  assumes "packed_holds p" and "copy_packed p (b, r) = (Inr q, st')"
  shows "packed_holds q \<and> packed_view q = packed_view p \<and> buf_mem (pd_data q) = res_mem r"
proof -
  let ?d = "pd_data p"
  obtain bs where h: "holds bs ?d" "buf_size ?d < 2 ^ 63" using assms(1) by (auto simp: packed_holds_def)
  obtain dst b1 r1 dst1 where mk: "make_buffer (buf_size ?d) (buf_stream ?d) (b, r) = (Inr dst, (b1, r1))"
    and cp: "buffer_copy True ?d (buf_size ?d) 0 0 (br_transfer b1 (buf_size ?d)) dst = (Inr (), dst1)"
    and q: "make_packed_data (Some (pd_metadata p)) (Some dst1) = Inr q"
    using assms(2) by (auto simp: copy_packed_def Let_def split: prod.splits sum.splits)
  have "holds bs dst1 \<and> buf_mem dst1 = res_mem r \<and> buf_size dst1 = buf_size ?d"
    using move_copy_whole [OF h _ cp] make_buffer_Inr [OF mk] by blast
  then show ?thesis using q h by (auto simp: make_packed_data_def packed_holds_def packed_view_def holds_def split: if_splits)
qed

interpretation packed: message_callbacks "packed_callbacks stats" packed_holds packed_view packed_desc for stats
proof
  fix m m' :: "packed_data stream_message" and f p and st st' :: "br \<times> reservation"
  obtain b r where st: "st = (b, r)" by fastforce
  assume c: "cb_copy (packed_callbacks stats m) = Some f" and p: "msg_payload m = Some p" "packed_holds p" and run: "f m st = (Inr m', st')"
  obtain q where cp: "copy_packed p (b, r) = (Inr q, st')" and m': "packed_to_message (msg_seq m) q = Inr m'"
    using c p run by (auto simp: st packed_callbacks_def msg_get_def act_bind_def split: prod.splits sum.splits)
  obtain b1 r1 where "st' = (b1, r1)" by fastforce
  then have "packed_holds q \<and> packed_view q = packed_view p" using copy_packed_Inr [OF p(2), of b r q "(b1, r1)"] cp by blast
  then show "msg_seq m' = msg_seq m \<and>
      (\<exists>q. msg_payload m' = Some q \<and> packed_holds q \<and> packed_view q = packed_view p \<and> msg_cd m' = packed_desc q)"
    using m' by (auto simp: packed_to_message_def new_message_def)
next
  fix m m' :: "packed_data stream_message" and f p and st st' :: "br \<times> reservation"
  obtain b r where st: "st = (b, r)" by fastforce
  assume c: "cb_move (packed_callbacks stats m) = Some f" and p: "msg_payload m = Some p" "packed_holds p" and run: "f m st = (Inr m', st')"
  obtain bs where h: "holds bs (pd_data p)" "buf_size (pd_data p) < 2 ^ 63" using p(2) by (auto simp: packed_holds_def)
  obtain d where mv: "move_buffer stats (pd_data p) (b, r) = (Inr d, st')"
    and m': "packed_to_message (msg_seq m) (p\<lparr>pd_data := d\<rparr>) = Inr m'"
    using c p run by (auto simp: st packed_callbacks_def msg_get_def msg_release_def msg_reset_def act_bind_def split: prod.splits sum.splits)
  obtain b1 r1 where "st' = (b1, r1)" by fastforce
  then have "holds bs d \<and> buf_size d = buf_size (pd_data p) \<and> buf_mem d = res_mem r" using move_buffer_Inr [OF h, of stats b r d b1 r1] mv by blast
  then show "msg_seq m' = msg_seq m \<and> (\<exists>q. msg_payload m' = Some q \<and> packed_holds q \<and> packed_view q = packed_view p \<and> msg_cd m' = packed_desc q \<and>
        (res_mem (snd st) \<noteq> DEVICE \<longrightarrow> content_sizes (packed_desc q) DEVICE = 0))"
    using m' h by (auto simp: st packed_to_message_def new_message_def packed_holds_def packed_view_def holds_def packed_desc_def content_description_def)
next
  fix m :: "packed_data stream_message" and f and st :: "br \<times> reservation"
  assume "msg_payload m = None" "cb_copy (packed_callbacks stats m) = Some f \<or> cb_move (packed_callbacks stats m) = Some f"
  then show "\<exists>e st'. f m st = (Inl e, st')"
    by (auto simp: packed_callbacks_def msg_get_def msg_release_def)
qed

end
