(* ===== verification/Spillable_Messages.thy ===== *)
theory Spillable_Messages
  imports Messages
begin

text \<open>
  The container of messages in transit, \<^verbatim>\<open>streaming/core/spillable_messages.cpp\<close>, used by several threads. The code
  has a lock for the container and one for each item; an operation that takes them one after the other is split into the
  steps between, \<open>sm_thread\<close> is where a thread stands, and \<open>sm_run\<close> is any interleaving. The log has what the calls have
  returned. The invariant \<open>sm_inv\<close> ties each item to the message inserted, to the thread that holds it, and to the log.
\<close>

text \<open>Descriptions are compared when definitions are evaluated.\<close>

instantiation mem_type :: enum
begin

definition enum_mem_type :: "mem_type list" where
  "enum_mem_type = MEMORY_TYPES"

definition enum_all_mem_type :: "(mem_type \<Rightarrow> bool) \<Rightarrow> bool" where
  "enum_all_mem_type P \<longleftrightarrow> list_all P MEMORY_TYPES"

definition enum_ex_mem_type :: "(mem_type \<Rightarrow> bool) \<Rightarrow> bool" where
  "enum_ex_mem_type P \<longleftrightarrow> list_ex P MEMORY_TYPES"

instance
  by standard (auto simp: enum_mem_type_def enum_all_mem_type_def enum_ex_mem_type_def list_all_iff list_ex_iff MEMORY_TYPES_def UNIV_mem_type)

end

section \<open>The container\<close>

text \<open>
  An item is made by an insertion and named by its identifier; threads that found it in the index keep it alive after
  it has left the index. \<open>sm_busy\<close> is the item's mutex, where it is held over more than one step.
\<close>

record 'p spillable_messages =
  sm_br :: br
  sm_counter :: nat
  sm_present :: "nat \<Rightarrow> bool"
  sm_item :: "nat \<Rightarrow> 'p stream_message option"
  sm_busy :: "nat \<Rightarrow> bool"
  sm_descs :: "nat \<Rightarrow> content_desc option"

definition new_spillable_messages :: "br \<Rightarrow> 'p spillable_messages" where
  "new_spillable_messages b =
     \<lparr>sm_br = b, sm_counter = 0, sm_present = (\<lambda>_. False), sm_item = (\<lambda>_. None), sm_busy = (\<lambda>_. False), sm_descs = (\<lambda>_. None)\<rparr>"

definition sm_insert :: "'p stream_message \<Rightarrow> ('p, 'z) spillable_messages_scheme \<Rightarrow> nat \<times> ('p, 'z) spillable_messages_scheme" where
  "sm_insert m s =
     (let mid = sm_counter s in
      (mid, s\<lparr>sm_descs := (sm_descs s)(mid := Some (msg_cd m)), sm_present := (sm_present s)(mid := True),
              sm_item := (sm_item s)(mid := Some m), sm_counter := mid + 1\<rparr>))"

text \<open>\<open>extract\<close>: under the global mutex the item leaves the index; then, under its own, it is emptied.\<close>

definition sm_extract_find :: "nat \<Rightarrow> (('p, 'z) spillable_messages_scheme, unit) act" where
  "sm_extract_find mid s =
     (if \<not> sm_present s mid then (Inl Out_Of_Range, s)
      else (Inr (), s\<lparr>sm_present := (sm_present s)(mid := False), sm_descs := (sm_descs s)(mid := None)\<rparr>))"

text \<open>\<open>Bad_Value\<close> is \<^verbatim>\<open>std::bad_optional_access\<close>.\<close>

definition sm_extract_take :: "nat \<Rightarrow> (('p, 'z) spillable_messages_scheme, 'p stream_message) act" where
  "sm_extract_take mid s =
     (case sm_item s mid of
        None \<Rightarrow> (Inl Bad_Value, s)
      | Some m \<Rightarrow> (Inr m, s\<lparr>sm_item := (sm_item s)(mid := None)\<rparr>))"

definition sm_find :: "nat \<Rightarrow> ('p, 'z) spillable_messages_scheme \<Rightarrow> unit result" where
  "sm_find mid s = expects (sm_present s mid) Out_Of_Range"

definition sm_copy_lock :: "nat \<Rightarrow> (('p, 'z) spillable_messages_scheme, unit) act" where
  "sm_copy_lock mid s =
     (if sm_item s mid = None then (Inl Out_Of_Range, s) else (Inr (), s\<lparr>sm_busy := (sm_busy s)(mid := True)\<rparr>))"

definition sm_copy_work :: "('p stream_message \<Rightarrow> 'p callbacks) \<Rightarrow> nat \<Rightarrow> (('p, 'z) spillable_messages_scheme \<times> reservation, 'p stream_message) act" where
  "sm_copy_work cbs mid st =
     (case st of (s, r) \<Rightarrow>
        case sm_item s mid of
          None \<Rightarrow> (Inl Undefined, st)
        | Some m \<Rightarrow>
            (case message_copy cbs m (sm_br s, r) of
               (out, (b, r')) \<Rightarrow> (out, (s\<lparr>sm_br := b, sm_busy := (sm_busy s)(mid := False)\<rparr>, r'))))"

text \<open>\<open>spill\<close> gives up when the item is locked, empty, or has nothing to spill.\<close>

definition sm_spill_lock :: "nat \<Rightarrow> ('p, 'z) spillable_messages_scheme \<Rightarrow> bool \<times> ('p, 'z) spillable_messages_scheme" where
  "sm_spill_lock mid s =
     (if sm_busy s mid then (False, s)
      else case sm_item s mid of
             None \<Rightarrow> (False, s)
           | Some m \<Rightarrow>
               if \<not> cd_spillable (msg_cd m) \<or> content_sizes (msg_cd m) DEVICE = 0 then (False, s)
               else (True, s\<lparr>sm_busy := (sm_busy s)(mid := True)\<rparr>))"

text \<open>The new description, the bytes that were in device memory, and the reservation, which lives on.\<close>

definition sm_spill_work :: "('p stream_message \<Rightarrow> 'p callbacks) \<Rightarrow> nat
    \<Rightarrow> (('p, 'z) spillable_messages_scheme, content_desc \<times> nat \<times> reservation) act" where
  "sm_spill_work cbs mid s =
     (case sm_item s mid of
        None \<Rightarrow> (Inl Undefined, s)
      | Some m \<Rightarrow>
          let unlocked = s\<lparr>sm_busy := (sm_busy s)(mid := False)\<rparr> in
          case reserve_or_fail (copy_cost m) SPILL_TARGET_MEMORY_TYPES (sm_br s) of
            (Inl e, b) \<Rightarrow> (Inl e, unlocked\<lparr>sm_br := b\<rparr>)
          | (Inr res, b) \<Rightarrow>
              (case message_move cbs (m, (b, res)) of
                 (Inl e, (m1, (b1, r1))) \<Rightarrow>
                   (case clear (b1, r1) of
                      (c, (b2, _)) \<Rightarrow>
                        (Inl (case c of Inl f \<Rightarrow> f | Inr _ \<Rightarrow> e),
                         unlocked\<lparr>sm_br := b2, sm_item := (sm_item s)(mid := Some m1)\<rparr>))
               | (Inr m', (_, (b1, r1))) \<Rightarrow>
                   (Inr (msg_cd m', content_sizes (msg_cd m) DEVICE, r1),
                    unlocked\<lparr>sm_br := b1, sm_item := (sm_item s)(mid := Some m')\<rparr>)))"

definition sm_describe :: "nat \<Rightarrow> content_desc \<Rightarrow> reservation \<Rightarrow> (('p, 'z) spillable_messages_scheme, unit) act" where
  "sm_describe mid cd r s =
     (let s1 = (if sm_descs s mid = None then s else s\<lparr>sm_descs := (sm_descs s)(mid := Some cd)\<rparr>) in
      case clear (sm_br s1, r) of (c, (b, _)) \<Rightarrow> (c, s1\<lparr>sm_br := b\<rparr>))"

definition sm_get_content_description :: "nat \<Rightarrow> ('p, 'z) spillable_messages_scheme \<Rightarrow> content_desc result" where
  "sm_get_content_description mid s = (case sm_descs s mid of None \<Rightarrow> Inl Out_Of_Range | Some cd \<Rightarrow> Inr cd)"

text \<open>The map of descriptions, in the order of the keys.\<close>

definition sm_get_content_descriptions :: "('p, 'z) spillable_messages_scheme \<Rightarrow> (nat \<times> content_desc) list" where
  "sm_get_content_descriptions s = concat (map (\<lambda>mid. case sm_descs s mid of None \<Rightarrow> [] | Some cd \<Rightarrow> [(mid, cd)]) [0..<sm_counter s])"

definition sm_clear :: "('p, 'z) spillable_messages_scheme \<Rightarrow> ('p, 'z) spillable_messages_scheme" where
  "sm_clear s = s\<lparr>sm_present := (\<lambda>_. False), sm_descs := (\<lambda>_. None)\<rparr>"

section \<open>Operations without interference\<close>

definition sm_extract :: "nat \<Rightarrow> (('p, 'z) spillable_messages_scheme, 'p stream_message) act" where
  "sm_extract mid = act_bind (sm_extract_find mid) (\<lambda>_. sm_extract_take mid)"

definition sm_copy :: "('p stream_message \<Rightarrow> 'p callbacks) \<Rightarrow> nat \<Rightarrow> (('p, 'z) spillable_messages_scheme \<times> reservation, 'p stream_message) act" where
  "sm_copy cbs mid st =
     (case st of (s, r) \<Rightarrow>
        case sm_find mid s of
          Inl e \<Rightarrow> (Inl e, st)
        | Inr _ \<Rightarrow>
            (case sm_copy_lock mid s of
               (Inl e, s1) \<Rightarrow> (Inl e, (s1, r))
             | (Inr _, s1) \<Rightarrow> sm_copy_work cbs mid (s1, r)))"

definition sm_spill :: "('p stream_message \<Rightarrow> 'p callbacks) \<Rightarrow> nat \<Rightarrow> (('p, 'z) spillable_messages_scheme, nat) act" where
  "sm_spill cbs mid s =
     (if \<not> sm_present s mid then (Inr 0, s)
      else case sm_spill_lock mid s of
             (False, s1) \<Rightarrow> (Inr 0, s1)
           | (True, s1) \<Rightarrow>
               act_bind (sm_spill_work cbs mid) (\<lambda>(cd, n, r). act_bind (sm_describe mid cd r) (\<lambda>_. act_return n)) s1)"

text \<open>\<open>spill_messages\<close>, the spill function of the streaming context.\<close>

fun spill_messages_loop :: "('p stream_message \<Rightarrow> 'p callbacks) \<Rightarrow> (nat \<times> content_desc) list \<Rightarrow> nat \<Rightarrow> nat
    \<Rightarrow> (('p, 'z) spillable_messages_scheme, nat) act" where
  "spill_messages_loop cbs [] amount spilled s = (Inr spilled, s)"
| "spill_messages_loop cbs ((mid, cd) # cds) amount spilled s =
     (if spilled \<ge> amount then (Inr spilled, s)
      else if cd_spillable cd then act_bind (sm_spill cbs mid) (\<lambda>n. spill_messages_loop cbs cds amount (spilled + n)) s
      else spill_messages_loop cbs cds amount spilled s)"

definition spill_messages :: "('p stream_message \<Rightarrow> 'p callbacks) \<Rightarrow> nat \<Rightarrow> (('p, 'z) spillable_messages_scheme, nat) act" where
  "spill_messages cbs amount s = spill_messages_loop cbs (sm_get_content_descriptions s) amount 0 s"

section \<open>Threads\<close>

text \<open>Where a thread is in its call, and what calls have returned.\<close>

datatype sm_thread =
    Ready
  | Extracting nat
  | Copy_Found nat reservation
  | Copying nat reservation
  | Spill_Found nat
  | Spilling nat
  | Describing nat content_desc nat reservation

datatype 'p sm_outcome =
    Inserted nat "'p stream_message"
  | Extracted nat "'p stream_message"
  | Extract_Failed nat exn
  | Copied nat "'p stream_message"
  | Copy_Failed nat exn
  | Spilled nat nat
  | Spill_Failed nat exn
  | Cleared

record 'p sm_system = "'p spillable_messages" +
  sy_thread :: "nat \<Rightarrow> sm_thread"
  sy_log :: "'p sm_outcome list"

definition set_thread :: "nat \<Rightarrow> sm_thread \<Rightarrow> 'p sm_system \<Rightarrow> 'p sm_system" where
  "set_thread t pc s = s\<lparr>sy_thread := (sy_thread s)(t := pc)\<rparr>"

definition returns :: "nat \<Rightarrow> 'p sm_outcome \<Rightarrow> 'p sm_system \<Rightarrow> 'p sm_system" where
  "returns t x s = s\<lparr>sy_thread := (sy_thread s)(t := Ready), sy_log := x # sy_log s\<rparr>"

fun sm_continue :: "('p stream_message \<Rightarrow> 'p callbacks) \<Rightarrow> nat \<Rightarrow> sm_thread \<Rightarrow> 'p sm_system \<Rightarrow> 'p sm_system" where
  "sm_continue cbs t Ready s = s"
| "sm_continue cbs t (Extracting mid) s =
     (if sm_busy s mid then s
      else case sm_extract_take mid s of
             (Inl e, s') \<Rightarrow> returns t (Extract_Failed mid e) s'
           | (Inr m, s') \<Rightarrow> returns t (Extracted mid m) s')"
| "sm_continue cbs t (Copy_Found mid r) s =
     (if sm_busy s mid then s
      else case sm_copy_lock mid s of
             (Inl e, s') \<Rightarrow> returns t (Copy_Failed mid e) s'
           | (Inr _, s') \<Rightarrow> set_thread t (Copying mid r) s')"
| "sm_continue cbs t (Copying mid r) s =
     (case sm_copy_work cbs mid (s, r) of
        (Inl e, (s', _)) \<Rightarrow> returns t (Copy_Failed mid e) s'
      | (Inr m, (s', _)) \<Rightarrow> returns t (Copied mid m) s')"
| "sm_continue cbs t (Spill_Found mid) s =
     (case sm_spill_lock mid s of
        (False, s') \<Rightarrow> returns t (Spilled mid 0) s'
      | (True, s') \<Rightarrow> set_thread t (Spilling mid) s')"
| "sm_continue cbs t (Spilling mid) s =
     (case sm_spill_work cbs mid s of
        (Inl e, s') \<Rightarrow> returns t (Spill_Failed mid e) s'
      | (Inr (cd, n, r), s') \<Rightarrow> set_thread t (Describing mid cd n r) s')"
| "sm_continue cbs t (Describing mid cd n r) s =
     (case sm_describe mid cd r s of
        (Inl e, s') \<Rightarrow> returns t (Spill_Failed mid e) s'
      | (Inr _, s') \<Rightarrow> returns t (Spilled mid n) s')"

text \<open>Threads call and continue in any order; \<open>Elsewhere\<close> is what other users do to the shared resource.\<close>

datatype 'p sm_event =
    Inserts nat "'p stream_message"
  | Extracts nat nat
  | Copies nat nat reservation
  | Spills nat nat
  | Continues nat
  | Clears nat
  | Elsewhere "br \<Rightarrow> br"

fun sm_step :: "('p stream_message \<Rightarrow> 'p callbacks) \<Rightarrow> 'p sm_event \<Rightarrow> 'p sm_system \<Rightarrow> 'p sm_system" where
  "sm_step cbs (Inserts t m) s =
     (if sy_thread s t \<noteq> Ready then s else case sm_insert m s of (mid, s') \<Rightarrow> returns t (Inserted mid m) s')"
| "sm_step cbs (Extracts t mid) s =
     (if sy_thread s t \<noteq> Ready then s
      else case sm_extract_find mid s of
             (Inl e, s') \<Rightarrow> returns t (Extract_Failed mid e) s'
           | (Inr _, s') \<Rightarrow> set_thread t (Extracting mid) s')"
| "sm_step cbs (Copies t mid r) s =
     (if sy_thread s t \<noteq> Ready then s
      else case sm_find mid s of
             Inl e \<Rightarrow> returns t (Copy_Failed mid e) s
           | Inr _ \<Rightarrow> set_thread t (Copy_Found mid r) s)"
| "sm_step cbs (Spills t mid) s =
     (if sy_thread s t \<noteq> Ready then s
      else if \<not> sm_present s mid then returns t (Spilled mid 0) s
      else set_thread t (Spill_Found mid) s)"
| "sm_step cbs (Continues t) s = sm_continue cbs t (sy_thread s t) s"
| "sm_step cbs (Clears t) s = (if sy_thread s t \<noteq> Ready then s else returns t Cleared (sm_clear s))"
| "sm_step cbs (Elsewhere f) s = s\<lparr>sm_br := f (sm_br s)\<rparr>"

fun sm_run :: "('p stream_message \<Rightarrow> 'p callbacks) \<Rightarrow> 'p sm_event list \<Rightarrow> 'p sm_system \<Rightarrow> 'p sm_system" where
  "sm_run cbs [] s = s"
| "sm_run cbs (e # es) s = sm_run cbs es (sm_step cbs e s)"


section \<open>The invariant\<close>

text \<open>A message says the same as the inserted one; or a failed spill has left it empty.\<close>

definition says :: "('p \<Rightarrow> bool) \<Rightarrow> ('p \<Rightarrow> 'v) \<Rightarrow> 'p stream_message \<Rightarrow> 'p stream_message \<Rightarrow> bool" where
  "says ok view m0 m \<longleftrightarrow> msg_seq m = msg_seq m0 \<and>
     (\<exists>p0 p. msg_payload m0 = Some p0 \<and> msg_payload m = Some p \<and> ok p \<and> view p = view p0)"

definition carries :: "('p \<Rightarrow> bool) \<Rightarrow> ('p \<Rightarrow> 'v) \<Rightarrow> 'p stream_message \<Rightarrow> 'p stream_message \<Rightarrow> bool" where
  "carries ok view m0 m \<longleftrightarrow> says ok view m0 m \<or> (msg_seq m = msg_seq m0 \<and> msg_payload m = None)"

definition kept :: "('p \<Rightarrow> bool) \<Rightarrow> ('p \<Rightarrow> 'v) \<Rightarrow> 'p sm_system \<Rightarrow> nat \<Rightarrow> 'p stream_message \<Rightarrow> 'p stream_message \<Rightarrow> bool" where
  "kept ok view s mid m0 m \<longleftrightarrow>
     says ok view m0 m \<or> (msg_seq m = msg_seq m0 \<and> msg_payload m = None \<and> (\<exists>e. Spill_Failed mid e \<in> set (sy_log s)))"

fun locks :: "sm_thread \<Rightarrow> nat \<Rightarrow> bool" where
  "locks (Copying m r) mid \<longleftrightarrow> m = mid"
| "locks (Spilling m) mid \<longleftrightarrow> m = mid"
| "locks pc mid \<longleftrightarrow> False"

definition extractions :: "nat \<Rightarrow> 'p sm_outcome list \<Rightarrow> nat" where
  "extractions mid L = length (filter (\<lambda>x. \<exists>m. x = Extracted mid m) L)"

definition at_most_one :: "('a \<Rightarrow> bool) \<Rightarrow> bool" where
  "at_most_one P \<longleftrightarrow> (\<forall>a b. P a \<and> P b \<longrightarrow> a = b)"

lemma at_most_oneD: "at_most_one P \<Longrightarrow> P a \<Longrightarrow> P b \<Longrightarrow> a = b"
  unfolding at_most_one_def by blast

lemma at_most_one_only: "(\<And>a. P a \<Longrightarrow> a = b) \<Longrightarrow> at_most_one P"
  unfolding at_most_one_def by metis

definition inserted_as :: "'p sm_outcome list \<Rightarrow> nat \<Rightarrow> 'p stream_message \<Rightarrow> bool" where
  "inserted_as L mid m0 \<longleftrightarrow> Inserted mid m0 \<in> set L \<and> (\<forall>m1. Inserted mid m1 \<in> set L \<longrightarrow> m1 = m0)"

lemma inserted_as_Cons: "(\<And>m. x \<noteq> Inserted mid m) \<Longrightarrow> inserted_as (x # L) mid m0 = inserted_as L mid m0"
  unfolding inserted_as_def set_simps by blast

definition entry_ok :: "('p \<Rightarrow> bool) \<Rightarrow> ('p \<Rightarrow> 'v) \<Rightarrow> 'p sm_system \<Rightarrow> nat \<Rightarrow> 'p stream_message \<Rightarrow> bool" where
  "entry_ok ok view s mid m0 \<longleftrightarrow>
     (sm_present s mid \<or> (\<exists>t. sy_thread s t = Extracting mid) \<or> sm_busy s mid \<longrightarrow> sm_item s mid \<noteq> None) \<and>
     (\<forall>t. sy_thread s t = Extracting mid \<longrightarrow> \<not> sm_present s mid) \<and>
     at_most_one (\<lambda>t. sy_thread s t = Extracting mid) \<and>
     (sm_busy s mid \<longleftrightarrow> (\<exists>t. locks (sy_thread s t) mid)) \<and>
     at_most_one (\<lambda>t. locks (sy_thread s t) mid) \<and>
     (\<forall>m. sm_item s mid = Some m \<longrightarrow> kept ok view s mid m0 m) \<and>
     (\<forall>m. Extracted mid m \<in> set (sy_log s) \<longrightarrow> sm_item s mid = None \<and> kept ok view s mid m0 m) \<and>
     extractions mid (sy_log s) \<le> 1 \<and>
     (\<forall>m. Copied mid m \<in> set (sy_log s) \<longrightarrow> says ok view m0 m) \<and>
     (sm_item s mid = None \<longrightarrow> (\<exists>m. Extracted mid m \<in> set (sy_log s))) \<and>
     (\<not> sm_present s mid \<and> sm_item s mid \<noteq> None \<longrightarrow> (\<exists>t. sy_thread s t = Extracting mid) \<or> Cleared \<in> set (sy_log s))"

definition unused :: "'p sm_system \<Rightarrow> nat \<Rightarrow> bool" where
  "unused s mid \<longleftrightarrow> \<not> sm_present s mid \<and> sm_item s mid = None \<and> \<not> sm_busy s mid \<and>
     (\<forall>t. sy_thread s t \<noteq> Extracting mid \<and> \<not> locks (sy_thread s t) mid) \<and>
     (\<forall>m. Inserted mid m \<notin> set (sy_log s) \<and> Extracted mid m \<notin> set (sy_log s) \<and> Copied mid m \<notin> set (sy_log s))"

definition used :: "('p \<Rightarrow> bool) \<Rightarrow> ('p \<Rightarrow> 'v) \<Rightarrow> 'p sm_system \<Rightarrow> nat \<Rightarrow> bool" where
  "used ok view s mid \<longleftrightarrow>
     (\<exists>m0. inserted_as (sy_log s) mid m0 \<and> entry_ok ok view s mid m0)"

definition sm_inv :: "('p \<Rightarrow> bool) \<Rightarrow> ('p \<Rightarrow> 'v) \<Rightarrow> 'p sm_system \<Rightarrow> bool" where
  "sm_inv ok view s \<longleftrightarrow>
     (\<forall>mid. if mid < sm_counter s then used ok view s mid else unused s mid) \<and>
     (\<forall>mid e. Extract_Failed mid e \<in> set (sy_log s) \<longrightarrow> e = Out_Of_Range)"

text \<open>What a step leaves alone.\<close>

fun matters :: "'p sm_outcome \<Rightarrow> nat \<Rightarrow> bool" where
  "matters (Inserted m x) mid \<longleftrightarrow> m = mid"
| "matters (Extracted m x) mid \<longleftrightarrow> m = mid"
| "matters (Copied m x) mid \<longleftrightarrow> m = mid"
| "matters _ mid \<longleftrightarrow> False"

definition same_entry :: "'p sm_system \<Rightarrow> 'p sm_system \<Rightarrow> nat \<Rightarrow> bool" where
  "same_entry s s' mid \<longleftrightarrow> sm_present s' mid = sm_present s mid \<and> sm_item s' mid = sm_item s mid \<and> sm_busy s' mid = sm_busy s mid \<and>
     (\<forall>t. (sy_thread s' t = Extracting mid) = (sy_thread s t = Extracting mid)) \<and>
     (\<forall>t. locks (sy_thread s' t) mid = locks (sy_thread s t) mid)"

definition log_grows :: "'p sm_system \<Rightarrow> 'p sm_system \<Rightarrow> nat \<Rightarrow> bool" where
  "log_grows s s' mid \<longleftrightarrow> (sy_log s' = sy_log s \<or> (\<exists>x. sy_log s' = x # sy_log s \<and> \<not> matters x mid))"

lemma log_grows_mem:
  assumes "log_grows s s' mid"
  shows "inserted_as (sy_log s') mid m0 = inserted_as (sy_log s) mid m0"
    and "Inserted mid m \<in> set (sy_log s') \<longleftrightarrow> Inserted mid m \<in> set (sy_log s)"
    and "Extracted mid m \<in> set (sy_log s') \<longleftrightarrow> Extracted mid m \<in> set (sy_log s)"
    and "Copied mid m \<in> set (sy_log s') \<longleftrightarrow> Copied mid m \<in> set (sy_log s)"
    and "extractions mid (sy_log s') = extractions mid (sy_log s)"
    and "set (sy_log s) \<subseteq> set (sy_log s')"
proof -
  have a: "Inserted mid m \<in> set (sy_log s') \<longleftrightarrow> Inserted mid m \<in> set (sy_log s)" for m using assms by (auto simp: log_grows_def)
  show "inserted_as (sy_log s') mid m0 = inserted_as (sy_log s) mid m0" by (simp only: inserted_as_def a)
qed (use assms in \<open>auto simp: log_grows_def extractions_def\<close>)

lemma kept_grows: "kept ok view s mid m0 m \<Longrightarrow> set (sy_log s) \<subseteq> set (sy_log s') \<Longrightarrow> kept ok view s' mid m0 m"
  by (auto simp: kept_def)

lemma entry_same:
  assumes "entry_ok ok view s mid m0" and "same_entry s s' mid" and "log_grows s s' mid"
  shows "entry_ok ok view s' mid m0"
proof -
  note S = assms(2) [unfolded same_entry_def] and G = log_grows_mem [OF assms(3)]
  have "kept ok view s mid m0 m \<Longrightarrow> kept ok view s' mid m0 m" for m by (rule kept_grows [OF _ G(6)])
  moreover have "Cleared \<in> set (sy_log s) \<Longrightarrow> Cleared \<in> set (sy_log s')" using G(6) by blast
  ultimately show ?thesis using assms(1) unfolding entry_ok_def G(3,4,5) using S by (simp; blast)
qed

lemma used_same: "used ok view s mid \<Longrightarrow> same_entry s s' mid \<Longrightarrow> log_grows s s' mid \<Longrightarrow> used ok view s' mid"
  unfolding used_def using entry_same log_grows_mem(1) by metis

lemma unused_same: "unused s mid \<Longrightarrow> same_entry s s' mid \<Longrightarrow> log_grows s s' mid \<Longrightarrow> unused s' mid"
  unfolding unused_def same_entry_def by (simp add: log_grows_mem)

text \<open>A step that concerns one identifier.\<close>

lemma inv_one:
  assumes inv: "sm_inv ok view s" and c: "sm_counter s' = sm_counter s"
    and other: "\<forall>k. k \<noteq> mid \<longrightarrow> same_entry s s' k \<and> log_grows s s' k"
    and here: "mid < sm_counter s \<longrightarrow> used ok view s' mid" "\<not> mid < sm_counter s \<longrightarrow> unused s' mid"
    and failed: "\<forall>k e. Extract_Failed k e \<in> set (sy_log s') \<longrightarrow> Extract_Failed k e \<in> set (sy_log s) \<or> e = Out_Of_Range"
  shows "sm_inv ok view s'"
  unfolding sm_inv_def
proof (intro conjI allI)
  fix k
  have k: "if k < sm_counter s then used ok view s k else unused s k" using inv by (simp add: sm_inv_def)
  show "if k < sm_counter s' then used ok view s' k else unused s' k"
  proof (cases "k = mid")
    case True
    then show ?thesis using here c by simp
  next
    case False
    then have "same_entry s s' k" "log_grows s s' k" using other by blast+
    then show ?thesis using k used_same unused_same unfolding c by (metis (full_types))
  qed
next
  fix k e
  show "Extract_Failed k e \<in> set (sy_log s') \<longrightarrow> e = Out_Of_Range" using failed inv unfolding sm_inv_def by blast
qed

text \<open>A step that concerns none.\<close>

lemma inv_none:
  assumes inv: "sm_inv ok view s" and c: "sm_counter s' = sm_counter s"
    and other: "\<forall>k. same_entry s s' k \<and> log_grows s s' k"
    and failed: "\<forall>k e. Extract_Failed k e \<in> set (sy_log s') \<longrightarrow> Extract_Failed k e \<in> set (sy_log s) \<or> e = Out_Of_Range"
  shows "sm_inv ok view s'"
proof -
  have k: "if 0 < sm_counter s then used ok view s 0 else unused s 0" using inv by (simp add: sm_inv_def)
  have o: "same_entry s s' 0" "log_grows s s' 0" using other by blast+
  have "0 < sm_counter s \<longrightarrow> used ok view s' 0" "\<not> 0 < sm_counter s \<longrightarrow> unused s' 0"
    using k used_same [OF _ o] unused_same [OF _ o] by (auto split: if_splits)
  from inv_one [OF inv c _ this failed] show ?thesis using other by blast
qed


lemma op_fields:
  "sy_thread (returns t x s) = (sy_thread s)(t := Ready)" "sy_log (returns t x s) = x # sy_log s"
  "sm_present (returns t x s) = sm_present s" "sm_item (returns t x s) = sm_item s" "sm_busy (returns t x s) = sm_busy s"
  "sm_counter (returns t x s) = sm_counter s" "sm_descs (returns t x s) = sm_descs s" "sm_br (returns t x s) = sm_br s"
  "sy_thread (set_thread t pc s) = (sy_thread s)(t := pc)" "sy_log (set_thread t pc s) = sy_log s"
  "sm_present (set_thread t pc s) = sm_present s" "sm_item (set_thread t pc s) = sm_item s" "sm_busy (set_thread t pc s) = sm_busy s"
  "sm_counter (set_thread t pc s) = sm_counter s" "sm_descs (set_thread t pc s) = sm_descs s"
  by (simp_all add: returns_def set_thread_def)

lemma extractions_Cons: "extractions mid (x # L) = (if \<exists>m. x = Extracted mid m then Suc (extractions mid L) else extractions mid L)"
  by (simp add: extractions_def)

lemma extractions_none: "(\<forall>m. Extracted mid m \<notin> set L) \<Longrightarrow> extractions mid L = 0"
  by (auto simp: extractions_def filter_empty_conv)

lemma entry_of:
  assumes "sm_inv ok view s" and "sm_present s mid \<or> sm_busy s mid \<or> (\<exists>t. sy_thread s t = Extracting mid) \<or> (\<exists>t. locks (sy_thread s t) mid) \<or> sm_item s mid \<noteq> None"
  obtains m0 where "mid < sm_counter s" and "inserted_as (sy_log s) mid m0" and "entry_ok ok view s mid m0"
proof -
  have "if mid < sm_counter s then used ok view s mid else unused s mid" using assms(1) by (simp add: sm_inv_def)
  then show ?thesis using assms(2) that by (auto simp: used_def unused_def split: if_splits)
qed

text \<open>When the identifier stays in use, it is enough to look at its entry.\<close>

lemma inv_entry:
  assumes inv: "sm_inv ok view s" and c: "sm_counter s' = sm_counter s"
    and other: "\<forall>k. k \<noteq> mid \<longrightarrow> same_entry s s' k \<and> log_grows s s' k"
    and m0: "mid < sm_counter s" "inserted_as (sy_log s) mid m0"
    and e: "entry_ok ok view s' mid m0"
    and g: "sy_log s' = sy_log s \<or> (\<exists>x. sy_log s' = x # sy_log s \<and> (\<forall>k m. x \<noteq> Inserted k m))"
    and failed: "\<forall>k e. Extract_Failed k e \<in> set (sy_log s') \<longrightarrow> Extract_Failed k e \<in> set (sy_log s) \<or> e = Out_Of_Range"
  shows "sm_inv ok view s'"
proof (rule inv_one [OF inv c other _ _ failed])
  show "mid < sm_counter s \<longrightarrow> used ok view s' mid" unfolding used_def using m0(2) e g inserted_as_Cons by metis
qed (use m0(1) in simp)

lemma entry_okI:
  assumes "sm_present s mid \<Longrightarrow> sm_item s mid \<noteq> None" and "\<And>t. sy_thread s t = Extracting mid \<Longrightarrow> sm_item s mid \<noteq> None \<and> \<not> sm_present s mid"
    and "sm_busy s mid \<Longrightarrow> sm_item s mid \<noteq> None"
    and "at_most_one (\<lambda>t. sy_thread s t = Extracting mid)"
    and "sm_busy s mid \<longleftrightarrow> (\<exists>t. locks (sy_thread s t) mid)" and "at_most_one (\<lambda>t. locks (sy_thread s t) mid)"
    and "\<And>m. sm_item s mid = Some m \<Longrightarrow> kept ok view s mid m0 m"
    and "\<And>m. Extracted mid m \<in> set (sy_log s) \<Longrightarrow> sm_item s mid = None \<and> kept ok view s mid m0 m"
    and "extractions mid (sy_log s) \<le> 1" and "\<And>m. Copied mid m \<in> set (sy_log s) \<Longrightarrow> says ok view m0 m"
    and "sm_item s mid = None \<Longrightarrow> \<exists>m. Extracted mid m \<in> set (sy_log s)"
    and "\<not> sm_present s mid \<Longrightarrow> sm_item s mid \<noteq> None \<Longrightarrow> (\<exists>t. sy_thread s t = Extracting mid) \<or> Cleared \<in> set (sy_log s)"
  shows "entry_ok ok view s mid m0"
  unfolding entry_ok_def using assms by (intro conjI) (blast | assumption)+

lemma entry_okD:
  assumes "entry_ok ok view s mid m0"
  shows "sm_present s mid \<Longrightarrow> sm_item s mid \<noteq> None" and "sy_thread s t = Extracting mid \<Longrightarrow> sm_item s mid \<noteq> None \<and> \<not> sm_present s mid"
    and "sm_busy s mid \<Longrightarrow> sm_item s mid \<noteq> None"
    and "at_most_one (\<lambda>t. sy_thread s t = Extracting mid)"
    and "sm_busy s mid \<longleftrightarrow> (\<exists>t. locks (sy_thread s t) mid)" and "at_most_one (\<lambda>t. locks (sy_thread s t) mid)"
    and "sm_item s mid = Some m \<Longrightarrow> kept ok view s mid m0 m"
    and "Extracted mid m \<in> set (sy_log s) \<Longrightarrow> sm_item s mid = None \<and> kept ok view s mid m0 m"
    and "extractions mid (sy_log s) \<le> 1" and "Copied mid m \<in> set (sy_log s) \<Longrightarrow> says ok view m0 m"
    and "sm_item s mid = None \<Longrightarrow> \<exists>m. Extracted mid m \<in> set (sy_log s)"
    and "\<not> sm_present s mid \<Longrightarrow> sm_item s mid \<noteq> None \<Longrightarrow> (\<exists>t. sy_thread s t = Extracting mid) \<or> Cleared \<in> set (sy_log s)"
  using assms unfolding entry_ok_def by blast+

lemma step_extract_take:
  assumes inv: "sm_inv ok view s" and t: "sy_thread s t = Extracting mid" and b: "\<not> sm_busy s mid"
  shows "sm_inv ok view (sm_continue cbs t (Extracting mid) s)"
proof -
  obtain m0 where m0: "mid < sm_counter s" "inserted_as (sy_log s) mid m0"
    and e: "entry_ok ok view s mid m0" by (rule entry_of [OF inv, of mid]) (use t in blast)
  note E = entry_okD [OF e]
  obtain m where m: "sm_item s mid = Some m" and np: "\<not> sm_present s mid" using E(2) [OF t] by blast
  have k: "kept ok view s mid m0 m" using E(7) [OF m] .
  let ?s = "returns t (Extracted mid m) (s\<lparr>sm_item := (sm_item s)(mid := None)\<rparr>)"
  have step: "sm_continue cbs t (Extracting mid) s = ?s" using b m by (simp add: sm_extract_take_def)
  have none: "Extracted mid m' \<notin> set (sy_log s)" for m' using E(8) m by auto
  have ks: "kept ok view ?s mid m0 m" by (rule kept_grows [OF k]) (auto simp: op_fields)
  have only: "t' \<noteq> t \<Longrightarrow> sy_thread s t' \<noteq> Extracting mid" for t' using at_most_oneD [OF E(4)] t by blast
  have nl: "\<not> locks (sy_thread s t') mid" for t' using E(5) b by blast
  show ?thesis unfolding step
  proof (rule inv_entry [OF inv _ _ m0])
    show "entry_ok ok view ?s mid m0"
    proof (rule entry_okI)
      show "at_most_one (\<lambda>u. sy_thread ?s u = Extracting mid)" "at_most_one (\<lambda>u. locks (sy_thread ?s u) mid)"
        using only nl by (auto simp: op_fields at_most_one_def)
      show "extractions mid (sy_log ?s) \<le> 1" using extractions_none [of mid "sy_log s"] none by (simp add: op_fields extractions_Cons)
      show "sm_busy ?s mid = (\<exists>u. locks (sy_thread ?s u) mid)" using nl b by (simp add: op_fields)
      show "Extracted mid m' \<in> set (sy_log ?s) \<Longrightarrow> sm_item ?s mid = None \<and> kept ok view ?s mid m0 m'" for m'
        using none ks by (auto simp: op_fields)
      show "Copied mid m' \<in> set (sy_log ?s) \<Longrightarrow> says ok view m0 m'" for m' using E(10) by (simp add: op_fields)
    qed (use np only b in \<open>auto simp: op_fields split: if_splits\<close>)
  qed (auto simp: op_fields same_entry_def log_grows_def t)
qed

text \<open>Taking an item's mutex, and giving it back with a message put into the item.\<close>

lemma step_locks:
  assumes inv: "sm_inv ok view s" and i: "sm_item s mid \<noteq> None" and b: "\<not> sm_busy s mid"
    and t: "\<And>k. sy_thread s t \<noteq> Extracting k \<and> \<not> locks (sy_thread s t) k" and pc: "\<And>k. locks pc k = (k = mid)"
  shows "sm_inv ok view (set_thread t pc (s\<lparr>sm_busy := (sm_busy s)(mid := True)\<rparr>))"
proof -
  obtain m0 where m0: "mid < sm_counter s" "inserted_as (sy_log s) mid m0" and e: "entry_ok ok view s mid m0"
    by (rule entry_of [OF inv, of mid]) (use i in blast)
  note E = entry_okD [OF e]
  let ?s = "set_thread t pc (s\<lparr>sm_busy := (sm_busy s)(mid := True)\<rparr>)"
  have nl: "\<not> locks (sy_thread s t') mid" for t' using E(5) b by blast
  have pe: "pc \<noteq> Extracting k" for k using pc [of mid] by auto
  have ex: "(sy_thread ?s u = Extracting k) = (sy_thread s u = Extracting k)" for u k using t pe by (simp add: op_fields)
  have k: "kept ok view ?s mid m0 m" if "kept ok view s mid m0 m" for m by (rule kept_grows [OF that]) (simp add: op_fields)
  show ?thesis
  proof (rule inv_entry [OF inv _ _ m0])
    show "entry_ok ok view ?s mid m0"
    proof (rule entry_okI)
      show "at_most_one (\<lambda>u. sy_thread ?s u = Extracting mid)" unfolding ex by (rule E(4))
      show "at_most_one (\<lambda>u. locks (sy_thread ?s u) mid)" by (rule at_most_one_only [of _ t]) (use nl in \<open>auto simp: op_fields split: if_splits\<close>)
      show "sm_busy ?s mid = (\<exists>u. locks (sy_thread ?s u) mid)" using pc by (auto simp: op_fields)
      show "extractions mid (sy_log ?s) \<le> 1" using E(9) by (simp add: op_fields)
      show "\<exists>m. Extracted mid m \<in> set (sy_log ?s)" if "sm_item ?s mid = None" using E(11) that by (simp add: op_fields)
      show "(\<exists>u. sy_thread ?s u = Extracting mid) \<or> Cleared \<in> set (sy_log ?s)" if "\<not> sm_present ?s mid" "sm_item ?s mid \<noteq> None"
        unfolding ex using E(12) that by (simp add: op_fields)
      show "sm_item ?s mid \<noteq> None \<and> \<not> sm_present ?s mid" if "sy_thread ?s u = Extracting mid" for u
        using E(2) that unfolding ex by (simp add: op_fields)
      show "kept ok view ?s mid m0 m" if "sm_item ?s mid = Some m" for m using k E(7) that by (simp add: op_fields)
      show "sm_item ?s mid = None \<and> kept ok view ?s mid m0 m" if "Extracted mid m \<in> set (sy_log ?s)" for m using k E(8) that by (simp add: op_fields)
      show "says ok view m0 m" if "Copied mid m \<in> set (sy_log ?s)" for m using E(10) that by (simp add: op_fields)
    qed (use i in \<open>simp_all add: op_fields\<close>)
  qed (use t pc ex in \<open>auto simp: op_fields same_entry_def log_grows_def\<close>)
qed

lemma step_unlocks:
  assumes inv: "sm_inv ok view s" and t: "locks (sy_thread s t) mid"
    and s': "sm_counter s' = sm_counter s" "sm_present s' = sm_present s" "sm_item s' = (sm_item s)(mid := Some m1)"
      "sm_busy s' = (sm_busy s)(mid := False)" "sy_thread s' = (sy_thread s)(t := pc)"
    and pc: "\<And>k. \<not> locks pc k \<and> pc \<noteq> Extracting k"
    and log: "sy_log s' = sy_log s \<or> (\<exists>x. sy_log s' = x # sy_log s \<and> (\<forall>k m. x \<noteq> Inserted k m \<and> x \<noteq> Extracted k m) \<and>
      (\<forall>k e. x \<noteq> Extract_Failed k e) \<and> (\<forall>k m. x = Copied k m \<longrightarrow> k = mid \<and> (\<forall>m0. entry_ok ok view s mid m0 \<longrightarrow> says ok view m0 m)))"
    and m1: "\<And>m0. entry_ok ok view s mid m0 \<Longrightarrow> kept ok view s' mid m0 m1"
  shows "sm_inv ok view s'"
proof -
  obtain m0 where m0: "mid < sm_counter s" "inserted_as (sy_log s) mid m0" and e: "entry_ok ok view s mid m0"
    by (rule entry_of [OF inv, of mid]) (use t in blast)
  note E = entry_okD [OF e]
  have i: "sm_item s mid \<noteq> None" using E(3,5) t by blast
  have te: "sy_thread s t \<noteq> Extracting k" for k using t by auto
  have tl: "locks (sy_thread s t) k \<longleftrightarrow> k = mid" for k using t by (cases "sy_thread s t") auto
  have nl: "t' \<noteq> t \<Longrightarrow> \<not> locks (sy_thread s t') mid" for t' using at_most_oneD [OF E(6)] t by blast
  have ex: "(sy_thread s' u = Extracting k) = (sy_thread s u = Extracting k)" for u k using te pc by (simp add: s')
  have sub: "set (sy_log s) \<subseteq> set (sy_log s')" and xn: "Extracted mid m \<in> set (sy_log s') \<longleftrightarrow> Extracted mid m \<in> set (sy_log s)" for m
    using log by auto
  have xc: "extractions mid (sy_log s') = extractions mid (sy_log s)" using log by (auto simp: extractions_Cons)
  have cc: "says ok view m0 m" if "Copied mid m \<in> set (sy_log s')" for m
  proof (cases "Copied mid m \<in> set (sy_log s)")
    case False
    then have "sy_log s' = Copied mid m # sy_log s" using log that by (elim disjE exE conjE) simp_all
    then show ?thesis using log e by auto
  qed (rule E(10))
  have none: "Extracted mid m \<notin> set (sy_log s)" for m using E(8) [of m] i by (cases "Extracted mid m \<in> set (sy_log s)") simp_all
  show ?thesis
  proof (rule inv_entry [OF inv s'(1) _ m0])
    show "entry_ok ok view s' mid m0"
    proof (rule entry_okI)
      show "at_most_one (\<lambda>u. sy_thread s' u = Extracting mid)" unfolding ex by (rule E(4))
      show "at_most_one (\<lambda>u. locks (sy_thread s' u) mid)" by (rule at_most_one_only [of _ t]) (use nl in \<open>auto simp: s' split: if_splits\<close>)
      show "sm_busy s' mid = (\<exists>u. locks (sy_thread s' u) mid)" using pc nl by (auto simp: s')
      show "(\<exists>u. sy_thread s' u = Extracting mid) \<or> Cleared \<in> set (sy_log s')" if "\<not> sm_present s' mid" "sm_item s' mid \<noteq> None"
        unfolding ex using E(12) that i sub by (auto simp: s')
      show "sm_item s' mid \<noteq> None \<and> \<not> sm_present s' mid" if "sy_thread s' u = Extracting mid" for u
        using E(2) that unfolding ex by (simp add: s')
      show "kept ok view s' mid m0 m" if "sm_item s' mid = Some m" for m using that m1 [OF e] by (simp add: s')
      show "sm_item s' mid = None \<and> kept ok view s' mid m0 m" if "Extracted mid m \<in> set (sy_log s')" for m using that none by (simp add: xn)
    qed (use E(9) cc in \<open>auto simp: s' xc\<close>)
    show "\<forall>k. k \<noteq> mid \<longrightarrow> same_entry s s' k \<and> log_grows s s' k"
    proof (intro allI impI conjI)
      fix k
      assume k: "k \<noteq> mid"
      show "same_entry s s' k" unfolding same_entry_def using k ex pc tl by (auto simp: s')
      show "log_grows s s' k" unfolding log_grows_def using log k
      proof (elim disjE exE conjE)
        fix x
        assume "sy_log s' = x # sy_log s" "\<forall>k m. x \<noteq> Inserted k m \<and> x \<noteq> Extracted k m"
          "\<forall>k m. x = Copied k m \<longrightarrow> k = mid \<and> (\<forall>m0. entry_ok ok view s mid m0 \<longrightarrow> says ok view m0 m)"
        then show "sy_log s' = sy_log s \<or> (\<exists>x. sy_log s' = x # sy_log s \<and> \<not> matters x k)" using k by (cases x) auto
      qed simp
    qed
  qed (use log in auto)
qed


text \<open>Steps that touch no item, and no claim on one.\<close>

definition idle_pc :: "sm_thread \<Rightarrow> bool" where
  "idle_pc pc \<longleftrightarrow> (\<forall>k. \<not> locks pc k \<and> pc \<noteq> Extracting k)"

fun quiet_outcome :: "'p sm_outcome \<Rightarrow> bool" where
  "quiet_outcome (Extract_Failed k e) \<longleftrightarrow> e = Out_Of_Range"
| "quiet_outcome (Copy_Failed k e) \<longleftrightarrow> True"
| "quiet_outcome (Spilled k n) \<longleftrightarrow> True"
| "quiet_outcome (Spill_Failed k e) \<longleftrightarrow> True"
| "quiet_outcome x \<longleftrightarrow> False"

lemma quiet_outcomeD: "quiet_outcome x \<Longrightarrow> \<not> matters x k \<and> (x = Extract_Failed j e \<longrightarrow> e = Out_Of_Range)"
  by (cases x) auto

lemma step_quiet:
  assumes inv: "sm_inv ok view s" and t: "idle_pc (sy_thread s t)" and pc: "idle_pc pc"
    and s': "sm_counter s' = sm_counter s" "sm_present s' = sm_present s" "sm_item s' = sm_item s" "sm_busy s' = sm_busy s"
      "sy_thread s' = (sy_thread s)(t := pc)"
    and log: "sy_log s' = sy_log s \<or> (\<exists>x. sy_log s' = x # sy_log s \<and> quiet_outcome x)"
  shows "sm_inv ok view s'"
proof (rule inv_none [OF inv s'(1)])
  have "same_entry s s' k" for k using t pc by (auto simp: same_entry_def s' idle_pc_def)
  moreover have "log_grows s s' k" for k using log quiet_outcomeD unfolding log_grows_def by blast
  ultimately show "\<forall>k. same_entry s s' k \<and> log_grows s s' k" by blast
  show "\<forall>k e. Extract_Failed k e \<in> set (sy_log s') \<longrightarrow> Extract_Failed k e \<in> set (sy_log s) \<or> e = Out_Of_Range"
    using log quiet_outcomeD by auto
qed

lemma step_extract_find:
  assumes inv: "sm_inv ok view s" and t: "sy_thread s t = Ready" and p: "sm_present s mid"
  shows "sm_inv ok view (set_thread t (Extracting mid) (s\<lparr>sm_present := (sm_present s)(mid := False), sm_descs := (sm_descs s)(mid := None)\<rparr>))"
proof -
  obtain m0 where m0: "mid < sm_counter s" "inserted_as (sy_log s) mid m0" and e: "entry_ok ok view s mid m0"
    by (rule entry_of [OF inv, of mid]) (use p in blast)
  note E = entry_okD [OF e]
  let ?s = "set_thread t (Extracting mid) (s\<lparr>sm_present := (sm_present s)(mid := False), sm_descs := (sm_descs s)(mid := None)\<rparr>)"
  have i: "sm_item s mid \<noteq> None" using E(1) p .
  have ne: "sy_thread s u \<noteq> Extracting mid" for u using E(2) p by blast
  have lk: "locks (sy_thread ?s u) k = locks (sy_thread s u) k" for u k using t by (simp add: op_fields)
  have k: "kept ok view ?s mid m0 m" if "kept ok view s mid m0 m" for m by (rule kept_grows [OF that]) (simp add: op_fields)
  show ?thesis
  proof (rule inv_entry [OF inv _ _ m0])
    show "entry_ok ok view ?s mid m0"
    proof (rule entry_okI)
      show "at_most_one (\<lambda>u. sy_thread ?s u = Extracting mid)" by (rule at_most_one_only [of _ t]) (use ne in \<open>auto simp: op_fields split: if_splits\<close>)
      show "at_most_one (\<lambda>u. locks (sy_thread ?s u) mid)" unfolding lk by (rule E(6))
      show "sm_busy ?s mid = (\<exists>u. locks (sy_thread ?s u) mid)" unfolding lk using E(5) by (simp add: op_fields)
      show "kept ok view ?s mid m0 m" if "sm_item ?s mid = Some m" for m using k E(7) that by (simp add: op_fields)
      show "sm_item ?s mid = None \<and> kept ok view ?s mid m0 m" if "Extracted mid m \<in> set (sy_log ?s)" for m using k E(8) that by (simp add: op_fields)
      show "\<exists>m. Extracted mid m \<in> set (sy_log ?s)" if "sm_item ?s mid = None" using i that by (simp add: op_fields)
      show "says ok view m0 m" if "Copied mid m \<in> set (sy_log ?s)" for m using E(10) that by (simp add: op_fields)
    qed (use i E(9) in \<open>auto simp: op_fields\<close>)
    show "\<forall>k. k \<noteq> mid \<longrightarrow> same_entry s ?s k \<and> log_grows s ?s k"
      using t by (auto simp: same_entry_def log_grows_def op_fields)
  qed (auto simp: op_fields)
qed

lemma step_insert:
  assumes inv: "sm_inv ok view s" and t: "sy_thread s t = Ready" and m: "msg_payload m = Some p" "ok p"
  shows "sm_inv ok view (sm_step cbs (Inserts t m) s)"
proof -
  let ?c = "sm_counter s"
  define s1 where "s1 = sm_step cbs (Inserts t m) s"
  have s': "sm_counter s1 = Suc ?c" "sm_present s1 = (sm_present s)(?c := True)" "sm_item s1 = (sm_item s)(?c := Some m)" "sm_busy s1 = sm_busy s"
    "sy_thread s1 = sy_thread s" "sy_log s1 = Inserted ?c m # sy_log s"
    using t by (simp_all add: s1_def sm_insert_def op_fields Let_def fun_upd_idem)
  have u: "unused s ?c" using inv unfolding sm_inv_def by (metis less_irrefl)
  note U = u [unfolded unused_def]
  have "inserted_as (sy_log s1) ?c m" using U unfolding inserted_as_def s' by auto
  moreover have "entry_ok ok view s1 ?c m"
  proof (rule entry_okI)
    show "at_most_one (\<lambda>t. sy_thread s1 t = Extracting ?c)" "at_most_one (\<lambda>t. locks (sy_thread s1 t) ?c)"
      using U unfolding s' at_most_one_def by blast+
    show "extractions ?c (sy_log s1) \<le> 1" using U extractions_none [of ?c "sy_log s"] unfolding s' by (simp add: extractions_Cons)
    show "\<And>m'. sm_item s1 ?c = Some m' \<Longrightarrow> kept ok view s1 ?c m m'" using m by (auto simp: s' kept_def says_def)
  qed (use U in \<open>auto simp: s'\<close>)
  ultimately have here: "used ok view s1 ?c" unfolding used_def by blast
  show ?thesis unfolding s1_def [symmetric] sm_inv_def
  proof (intro conjI allI)
    fix k
    show "if k < sm_counter s1 then used ok view s1 k else unused s1 k"
    proof (cases "k = ?c")
      case True
      then show ?thesis using here s'(1) by simp
    next
      case False
      have "same_entry s s1 k" "log_grows s s1 k" using False unfolding same_entry_def log_grows_def s' by auto
      moreover have "if k < ?c then used ok view s k else unused s k" using inv by (simp add: sm_inv_def)
      moreover have "k < Suc ?c \<longleftrightarrow> k < ?c" using False by auto
      ultimately show ?thesis unfolding s'(1) using used_same unused_same by metis
    qed
  next
    fix k e
    show "Extract_Failed k e \<in> set (sy_log s1) \<longrightarrow> e = Out_Of_Range" using inv unfolding sm_inv_def s' by auto
  qed
qed

lemma step_clear:
  assumes inv: "sm_inv ok view s" and t: "sy_thread s t = Ready"
  shows "sm_inv ok view (sm_step cbs (Clears t) s)"
proof -
  define s1 where "s1 = sm_step cbs (Clears t) s"
  have s': "sm_counter s1 = sm_counter s" "sm_present s1 = (\<lambda>_. False)" "sm_item s1 = sm_item s" "sm_busy s1 = sm_busy s"
    "sy_thread s1 = sy_thread s" "sy_log s1 = Cleared # sy_log s"
    using t by (simp_all add: s1_def sm_clear_def op_fields fun_upd_idem)
  show ?thesis unfolding s1_def [symmetric] sm_inv_def
  proof (intro conjI allI)
    fix k
    have K: "if k < sm_counter s then used ok view s k else unused s k" using inv by (simp add: sm_inv_def)
    have "used ok view s1 k" if us: "used ok view s k"
    proof -
      obtain m0 where m0: "inserted_as (sy_log s) k m0" and e: "entry_ok ok view s k m0" using us by (auto simp: used_def)
      note E = entry_okD [OF e]
      have kk: "kept ok view s1 k m0 m" if "kept ok view s k m0 m" for m by (rule kept_grows [OF that]) (auto simp: s')
      have "entry_ok ok view s1 k m0"
      proof (rule entry_okI)
        show "at_most_one (\<lambda>t. sy_thread s1 t = Extracting k)" unfolding s' by (rule E(4))
        show "at_most_one (\<lambda>t. locks (sy_thread s1 t) k)" unfolding s' by (rule E(6))
        show "sm_busy s1 k = (\<exists>t. locks (sy_thread s1 t) k)" unfolding s' by (rule E(5))
        show "extractions k (sy_log s1) \<le> 1" using E(9) unfolding s' by (simp add: extractions_Cons)
        show "kept ok view s1 k m0 m" if "sm_item s1 k = Some m" for m using kk E(7) that unfolding s' by blast
        show "sm_item s1 k = None \<and> kept ok view s1 k m0 m" if "Extracted k m \<in> set (sy_log s1)" for m using kk E(8) that unfolding s' by auto
        show "says ok view m0 m" if "Copied k m \<in> set (sy_log s1)" for m using E(10) that unfolding s' by auto
        show "\<exists>m. Extracted k m \<in> set (sy_log s1)" if "sm_item s1 k = None" using E(11) that unfolding s' by auto
        show "\<And>u. sy_thread s1 u = Extracting k \<Longrightarrow> sm_item s1 k \<noteq> None \<and> \<not> sm_present s1 k" using E(2) unfolding s' by blast
        show "sm_busy s1 k \<Longrightarrow> sm_item s1 k \<noteq> None" using E(3) unfolding s' .
      qed (simp_all add: s')
      moreover have "inserted_as (sy_log s1) k m0" using m0 unfolding s' by (simp add: inserted_as_Cons)
      ultimately show ?thesis unfolding used_def by blast
    qed
    moreover have "unused s1 k" if "unused s k" using that unfolding unused_def s' by auto
    ultimately show "if k < sm_counter s1 then used ok view s1 k else unused s1 k" using K unfolding s'(1) by (simp split: if_splits)
  next
    fix k e
    show "Extract_Failed k e \<in> set (sy_log s1) \<longrightarrow> e = Out_Of_Range" using inv unfolding sm_inv_def s' by auto
  qed
qed


fun fine_event :: "('p \<Rightarrow> bool) \<Rightarrow> 'p sm_event \<Rightarrow> bool" where
  "fine_event ok (Inserts t m) \<longleftrightarrow> (\<exists>p. msg_payload m = Some p \<and> ok p)"
| "fine_event ok _ \<longleftrightarrow> True"

definition new_system :: "br \<Rightarrow> 'p sm_system" where
  "new_system b =
     \<lparr>sm_br = b, sm_counter = 0, sm_present = (\<lambda>_. False), sm_item = (\<lambda>_. None), sm_busy = (\<lambda>_. False), sm_descs = (\<lambda>_. None),
      sy_thread = (\<lambda>_. Ready), sy_log = []\<rparr>"

lemma new_system_inv: "sm_inv ok view (new_system b)"
  by (simp add: sm_inv_def new_system_def unused_def)

context message_callbacks
begin

text \<open>A message that is kept is copied and moved with what it says; an emptied one is neither.\<close>

lemma carries_copy:
  assumes "carries ok view m0 m" and "message_copy cbs m st = (Inr m', st')"
  shows "says ok view m0 m'"
proof -
  obtain f where f: "cb_copy (cbs m) = Some f" "f m st = (Inr m', st')" using assms(2) by (auto simp: message_copy_def split: option.splits)
  have "msg_payload m \<noteq> None" using empties [of m f st] f by auto
  then have "says ok view m0 m" using assms(1) by (auto simp: carries_def)
  then obtain p0 p where p: "msg_payload m0 = Some p0" "msg_payload m = Some p" "ok p" "view p = view p0" "msg_seq m = msg_seq m0"
    unfolding says_def by blast
  from copies [OF f(1) p(2,3) f(2)] show ?thesis using p by (auto simp: says_def)
qed

lemma carries_move:
  assumes "carries ok view m0 m" and "message_move cbs (m, st) = (Inr m', s')"
  shows "says ok view m0 m'"
proof -
  obtain f where f: "cb_move (cbs m) = Some f" and "fst (f m st) = Inr m'"
    using assms(2) by (auto simp: message_move_def split: option.splits prod.splits)
  then obtain st' where run: "f m st = (Inr m', st')" by (cases "f m st") auto
  have "msg_payload m \<noteq> None" using empties [of m f st] f run by auto
  then have "says ok view m0 m" using assms(1) by (auto simp: carries_def)
  then obtain p0 p where p: "msg_payload m0 = Some p0" "msg_payload m = Some p" "ok p" "view p = view p0" "msg_seq m = msg_seq m0"
    unfolding says_def by blast
  from moves [OF f p(2,3) run] show ?thesis using p by (auto simp: says_def)
qed

lemma kept_carries: "kept ok view s mid m0 m \<Longrightarrow> carries ok view m0 m"
  by (auto simp: kept_def carries_def)

lemma move_failed: "message_move cbs (m, st) = (Inl e, (m1, st')) \<Longrightarrow> m1 = m \<or> m1 = msg_reset m"
  by (auto simp: message_move_def split: option.splits prod.splits)

lemma locked_entry:
  assumes "sm_inv ok view s" and "locks (sy_thread s t) mid"
  obtains m0 m where "entry_ok ok view s mid m0" and "sm_item s mid = Some m"
proof -
  obtain m0 where e: "entry_ok ok view s mid m0" by (rule entry_of [OF assms(1), of mid]) (use assms(2) in blast)+
  have "sm_item s mid \<noteq> None" using entry_okD(3,5) [OF e] assms(2) by blast
  then show ?thesis using that e by blast
qed

lemma step_copy_work:
  assumes inv: "sm_inv ok view s" and t: "sy_thread s t = Copying mid r"
  shows "sm_inv ok view (sm_continue cbs t (Copying mid r) s)"
proof -
  have l: "locks (sy_thread s t) mid" using t by simp
  obtain m0 m where e0: "entry_ok ok view s mid m0" and m: "sm_item s mid = Some m" by (rule locked_entry [OF inv l])
  obtain out b r' where c: "message_copy cbs m (sm_br s, r) = (out, (b, r'))" by (metis surj_pair)
  let ?s1 = "s\<lparr>sm_br := b, sm_busy := (sm_busy s)(mid := False)\<rparr>"
  obtain x where step: "sm_continue cbs t (Copying mid r) s = returns t x ?s1"
    and x: "x = (case out of Inl e \<Rightarrow> Copy_Failed mid e | Inr m' \<Rightarrow> Copied mid m')"
    using m c by (cases out) (simp_all add: sm_copy_work_def)
  have says: "says ok view m1 m'" if "entry_ok ok view s mid m1" "x = Copied k m'" for k m1 m'
    using carries_copy [OF kept_carries [OF entry_okD(7) [OF that(1) m]], of "(sm_br s, r)"] c that(2) x by (cases out) auto
  show ?thesis unfolding step
  proof (rule step_unlocks [OF inv l, where pc = Ready and ?m1.0 = m])
    show "kept ok view (returns t x ?s1) mid m1 m" if "entry_ok ok view s mid m1" for m1
      by (rule kept_grows [OF entry_okD(7) [OF that m]]) (auto simp: op_fields)
    show "sy_log (returns t x ?s1) = sy_log s \<or> (\<exists>y. sy_log (returns t x ?s1) = y # sy_log s \<and> (\<forall>k m. y \<noteq> Inserted k m \<and> y \<noteq> Extracted k m) \<and>
      (\<forall>k e. y \<noteq> Extract_Failed k e) \<and> (\<forall>k m. y = Copied k m \<longrightarrow> k = mid \<and> (\<forall>m0. entry_ok ok view s mid m0 \<longrightarrow> says ok view m0 m)))"
      using says x by (intro disjI2 exI [of _ x]) (auto simp: op_fields split: sum.splits)
  qed (use m in \<open>auto simp: op_fields\<close>)
qed

lemma step_spill_work:
  assumes inv: "sm_inv ok view s" and t: "sy_thread s t = Spilling mid"
  shows "sm_inv ok view (sm_continue cbs t (Spilling mid) s)"
proof -
  have l: "locks (sy_thread s t) mid" using t by simp
  obtain m0 m where e0: "entry_ok ok view s mid m0" and m: "sm_item s mid = Some m" by (rule locked_entry [OF inv l])
  obtain o1 b1 where 1: "reserve_or_fail (copy_cost m) SPILL_TARGET_MEMORY_TYPES (sm_br s) = (o1, b1)" by (metis surj_pair)
  let ?u = "\<lambda>b m1. s\<lparr>sm_busy := (sm_busy s)(mid := False), sm_br := b, sm_item := (sm_item s)(mid := m1)\<rparr>"
  have same: "s\<lparr>sm_busy := (sm_busy s)(mid := False), sm_br := b\<rparr> = ?u b (Some m)" for b using m by (simp add: fun_upd_idem)
  have fail: "sm_inv ok view (returns t (Spill_Failed mid e) (?u b (Some m1)))" if "m1 = m \<or> m1 = msg_reset m" for e b m1
  proof (rule step_unlocks [OF inv l, where pc = Ready and ?m1.0 = m1])
    fix m2
    assume "entry_ok ok view s mid m2"
    then have "kept ok view s mid m2 m" using m entry_okD(7) by blast
    then show "kept ok view (returns t (Spill_Failed mid e) (?u b (Some m1))) mid m2 m1"
      using that by (auto simp: kept_def says_def msg_reset_def op_fields)
  qed (auto simp: op_fields)
  show ?thesis
  proof (cases o1)
    case (Inl e)
    then have "sm_continue cbs t (Spilling mid) s = returns t (Spill_Failed mid e) (?u b1 (Some m))"
      using m 1 same by (simp add: sm_spill_work_def Let_def)
    then show ?thesis using fail by simp
  next
    case (Inr res)
    obtain o2 m1 b2 r2 where 2: "message_move cbs (m, (b1, res)) = (o2, (m1, (b2, r2)))" by (metis surj_pair)
    show ?thesis
    proof (cases o2)
      case (Inl e)
      obtain c b3 r3 where 3: "clear (b2, r2) = (c, (b3, r3))" by (metis surj_pair)
      have "sm_continue cbs t (Spilling mid) s = returns t (Spill_Failed mid (case c of Inl f \<Rightarrow> f | Inr _ \<Rightarrow> e)) (?u b3 (Some m1))"
        using m 1 2 3 Inr Inl by (simp add: sm_spill_work_def Let_def)
      then show ?thesis using fail move_failed [of m "(b1, res)" e m1 "(b2, r2)"] 2 Inl by simp
    next
      case (Inr m')
      have step: "sm_continue cbs t (Spilling mid) s =
          set_thread t (Describing mid (msg_cd m') (content_sizes (msg_cd m) DEVICE) r2) (?u b2 (Some m'))"
        using m 1 2 \<open>o1 = _\<close> Inr by (simp add: sm_spill_work_def Let_def)
      show ?thesis unfolding step
      proof (rule step_unlocks [OF inv l, where pc = "Describing mid (msg_cd m') (content_sizes (msg_cd m) DEVICE) r2" and ?m1.0 = m'])
        fix m2
        assume "entry_ok ok view s mid m2"
        then have "kept ok view s mid m2 m" using m entry_okD(7) by blast
        then show "kept ok view (set_thread t (Describing mid (msg_cd m') (content_sizes (msg_cd m) DEVICE) r2) (?u b2 (Some m'))) mid m2 m'"
          using carries_move [OF kept_carries] 2 Inr unfolding kept_def by blast
      qed (auto simp: op_fields)
    qed
  qed
qed

lemma step_describe:
  assumes inv: "sm_inv ok view s" and t: "sy_thread s t = Describing mid cd n r"
  shows "sm_inv ok view (sm_continue cbs t (Describing mid cd n r) s)"
proof -
  obtain c b r' where "clear (sm_br (if sm_descs s mid = None then s else s\<lparr>sm_descs := (sm_descs s)(mid := Some cd)\<rparr>), r) = (c, (b, r'))"
    by (metis surj_pair)
  then have c: "clear (sm_br s, r) = (c, (b, r'))" by (simp split: if_splits)
  define x where "x = (case c of Inl e \<Rightarrow> Spill_Failed mid e :: 'p sm_outcome | Inr _ \<Rightarrow> Spilled mid n)"
  define d where "d = (if sm_descs s mid = None then sm_descs s else (sm_descs s)(mid := Some cd))"
  have x: "quiet_outcome x" by (simp add: x_def split: sum.splits)
  have step: "sm_continue cbs t (Describing mid cd n r) s = returns t x (s\<lparr>sm_descs := d, sm_br := b\<rparr>)"
    using c by (cases c; cases "sm_descs s mid = None") (auto simp: sm_describe_def x_def d_def)
  show ?thesis unfolding step by (rule step_quiet [OF inv, of t Ready]) (use t x in \<open>auto simp: idle_pc_def op_fields\<close>)
qed

lemma continue_inv:
  assumes inv: "sm_inv ok view s" and t: "sy_thread s t = pc"
  shows "sm_inv ok view (sm_continue cbs t pc s)"
proof (cases pc)
  case Ready
  then show ?thesis using inv by simp
next
  case (Extracting mid)
  then show ?thesis using step_extract_take [OF inv, of t mid cbs] t inv by (cases "sm_busy s mid") simp_all
next
  case (Copy_Found mid r)
  have idle: "idle_pc (sy_thread s t)" "idle_pc Ready" using t Copy_Found by (simp_all add: idle_pc_def)
  consider "sm_busy s mid" | "\<not> sm_busy s mid" "sm_item s mid = None" | "\<not> sm_busy s mid" "sm_item s mid \<noteq> None" by blast
  then show ?thesis
  proof cases
    case 2
    then have "sm_continue cbs t pc s = returns t (Copy_Failed mid Out_Of_Range) s" using Copy_Found by (simp add: sm_copy_lock_def)
    then show ?thesis using step_quiet [OF inv idle, of "returns t (Copy_Failed mid Out_Of_Range) s"] by (simp add: op_fields)
  next
    case 3
    have "sm_continue cbs t pc s = set_thread t (Copying mid r) (s\<lparr>sm_busy := (sm_busy s)(mid := True)\<rparr>)"
      using 3 Copy_Found by (auto simp: sm_copy_lock_def)
    moreover have "sm_inv ok view (set_thread t (Copying mid r) (s\<lparr>sm_busy := (sm_busy s)(mid := True)\<rparr>))"
      by (rule step_locks [OF inv 3(2,1)]) (use idle in \<open>auto simp: idle_pc_def\<close>)
    ultimately show ?thesis by simp
  qed (use inv Copy_Found in simp)
next
  case (Copying mid r)
  then show ?thesis using step_copy_work [OF inv] t by simp
next
  case (Spill_Found mid)
  have idle: "idle_pc (sy_thread s t)" "idle_pc Ready" using t Spill_Found by (simp_all add: idle_pc_def)
  show ?thesis
  proof (cases "fst (sm_spill_lock mid s)")
    case True
    then have b: "\<not> sm_busy s mid" "sm_item s mid \<noteq> None" "snd (sm_spill_lock mid s) = s\<lparr>sm_busy := (sm_busy s)(mid := True)\<rparr>"
      by (auto simp: sm_spill_lock_def split: if_splits option.splits)
    have "sm_continue cbs t pc s = set_thread t (Spilling mid) (s\<lparr>sm_busy := (sm_busy s)(mid := True)\<rparr>)"
      using Spill_Found True b(3) by (cases "sm_spill_lock mid s") simp
    moreover have "sm_inv ok view (set_thread t (Spilling mid) (s\<lparr>sm_busy := (sm_busy s)(mid := True)\<rparr>))"
      by (rule step_locks [OF inv b(2,1)]) (use idle in \<open>auto simp: idle_pc_def\<close>)
    ultimately show ?thesis by simp
  next
    case False
    then have "snd (sm_spill_lock mid s) = s" by (auto simp: sm_spill_lock_def split: option.splits)
    then have "sm_continue cbs t pc s = returns t (Spilled mid 0) s" using Spill_Found False by (cases "sm_spill_lock mid s") simp
    then show ?thesis using step_quiet [OF inv idle, of "returns t (Spilled mid 0) s"] by (simp add: op_fields)
  qed
next
  case (Spilling mid)
  then show ?thesis using step_spill_work [OF inv] t by simp
next
  case (Describing mid cd n r)
  then show ?thesis using step_describe [OF inv] t by simp
qed

lemma sm_step_inv:
  assumes inv: "sm_inv ok view s" and e: "fine_event ok e"
  shows "sm_inv ok view (sm_step cbs e s)"
proof (cases e)
  case (Inserts t m)
  then show ?thesis using step_insert [OF inv] inv e by (cases "sy_thread s t = Ready") auto
next
  case (Extracts t mid)
  consider "sy_thread s t \<noteq> Ready" | "sy_thread s t = Ready" "sm_present s mid" | "sy_thread s t = Ready" "\<not> sm_present s mid" by blast
  then show ?thesis
  proof cases
    case 2
    then show ?thesis using step_extract_find [OF inv 2] Extracts by (simp add: sm_extract_find_def)
  next
    case 3
    then have "sm_step cbs e s = returns t (Extract_Failed mid Out_Of_Range) s" using Extracts by (simp add: sm_extract_find_def)
    then show ?thesis using step_quiet [OF inv, of t Ready "returns t (Extract_Failed mid Out_Of_Range) s"] 3 by (simp add: op_fields idle_pc_def)
  qed (use inv Extracts in simp)
next
  case (Copies t mid r)
  consider "sy_thread s t \<noteq> Ready" | "sy_thread s t = Ready" "sm_present s mid" | "sy_thread s t = Ready" "\<not> sm_present s mid" by blast
  then show ?thesis
  proof cases
    case 2
    then have "sm_step cbs e s = set_thread t (Copy_Found mid r) s" using Copies by (simp add: sm_find_def expects_def)
    then show ?thesis using step_quiet [OF inv, of t "Copy_Found mid r" "set_thread t (Copy_Found mid r) s"] 2 by (simp add: op_fields idle_pc_def)
  next
    case 3
    then have "sm_step cbs e s = returns t (Copy_Failed mid Out_Of_Range) s" using Copies by (simp add: sm_find_def expects_def)
    then show ?thesis using step_quiet [OF inv, of t Ready "returns t (Copy_Failed mid Out_Of_Range) s"] 3 by (simp add: op_fields idle_pc_def)
  qed (use inv Copies in simp)
next
  case (Spills t mid)
  consider "sy_thread s t \<noteq> Ready" | "sy_thread s t = Ready" "sm_present s mid" | "sy_thread s t = Ready" "\<not> sm_present s mid" by blast
  then show ?thesis
  proof cases
    case 2
    then have "sm_step cbs e s = set_thread t (Spill_Found mid) s" using Spills by simp
    then show ?thesis using step_quiet [OF inv, of t "Spill_Found mid" "set_thread t (Spill_Found mid) s"] 2 by (simp add: op_fields idle_pc_def)
  next
    case 3
    then have "sm_step cbs e s = returns t (Spilled mid 0) s" using Spills by simp
    then show ?thesis using step_quiet [OF inv, of t Ready "returns t (Spilled mid 0) s"] 3 by (simp add: op_fields idle_pc_def)
  qed (use inv Spills in simp)
next
  case (Continues t)
  then show ?thesis using continue_inv [OF inv] by simp
next
  case (Clears t)
  then show ?thesis using step_clear [OF inv] inv by (cases "sy_thread s t = Ready") auto
next
  case (Elsewhere f)
  have "sm_inv ok view (s\<lparr>sm_br := f (sm_br s)\<rparr>)"
    by (rule inv_none [OF inv]) (simp_all add: same_entry_def log_grows_def)
  then show ?thesis using Elsewhere by simp
qed

lemma sm_run_inv: "sm_inv ok view s \<Longrightarrow> \<forall>e\<in>set es. fine_event ok e \<Longrightarrow> sm_inv ok view (sm_run cbs es s)"
  by (induction es arbitrary: s) (simp_all add: sm_step_inv)

end


text \<open>A thread waits for an item only while another thread holds it, which gives it back with its next step.\<close>

lemma busy_held: "sm_inv ok view s \<Longrightarrow> sm_busy s mid \<Longrightarrow> \<exists>t. locks (sy_thread s t) mid"
  using entry_of [of ok view s mid] entry_okD(5) by metis

lemma holder_finishes:
  assumes "sm_item s mid \<noteq> None" and "locks (sy_thread s t) mid"
  shows "\<not> sm_busy (sm_step cbs (Continues t) s) mid"
  using assms
  by (cases "sy_thread s t")
    (auto simp: sm_copy_work_def sm_spill_work_def Let_def op_fields split: prod.splits sum.splits)

section \<open>Properties\<close>

text \<open>Property C5: Threads insert, extract, copy and spill in any interleaving. A message is extracted at most once. Each message extracted, and each copy made, has the sequence number and the contents of the message inserted under its identifier; an extracted message without contents is one whose spill has failed. Extraction never finds a slot emptied by another thread, and a thread waits for an item only while another thread holds it, which gives it back with its next step.\<close>

theorem spillable_messages_exact:
  assumes "message_callbacks cbs ok view desc" and "\<forall>e\<in>set es. fine_event ok e" and s: "s = sm_run cbs es (new_system b)"
  shows "(\<forall>mid m. Extracted mid m \<in> set (sy_log s) \<longrightarrow> (\<exists>m0. Inserted mid m0 \<in> set (sy_log s) \<and> kept ok view s mid m0 m)) \<and>
    (\<forall>mid. extractions mid (sy_log s) \<le> 1) \<and>
    (\<forall>mid m. Copied mid m \<in> set (sy_log s) \<longrightarrow> (\<exists>m0. Inserted mid m0 \<in> set (sy_log s) \<and> says ok view m0 m)) \<and>
    (\<forall>mid e. Extract_Failed mid e \<in> set (sy_log s) \<longrightarrow> e = Out_Of_Range) \<and>
    (\<forall>mid m0. Inserted mid m0 \<in> set (sy_log s) \<longrightarrow>
       (\<exists>m. Extracted mid m \<in> set (sy_log s)) \<or>
       (\<exists>m. sm_item s mid = Some m \<and> kept ok view s mid m0 m \<and>
          (sm_present s mid \<or> (\<exists>t. sy_thread s t = Extracting mid) \<or> Cleared \<in> set (sy_log s)))) \<and>
    (\<forall>mid. sm_busy s mid \<longrightarrow> (\<exists>t. \<not> sm_busy (sm_step cbs (Continues t) s) mid))"
proof -
  have inv: "sm_inv ok view s" unfolding s by (rule message_callbacks.sm_run_inv [OF assms(1) new_system_inv assms(2)])
  have U: "if mid < sm_counter s then used ok view s mid else unused s mid" for mid using inv by (simp add: sm_inv_def)
  have one: "(\<exists>m0. inserted_as (sy_log s) mid m0 \<and> entry_ok ok view s mid m0) \<or> unused s mid" for mid
    using U [of mid] by (cases "mid < sm_counter s") (auto simp: used_def)
  have 1: "\<exists>m0. Inserted mid m0 \<in> set (sy_log s) \<and> kept ok view s mid m0 m" if x: "Extracted mid m \<in> set (sy_log s)" for mid m
    using one [of mid] entry_okD(8) x unfolding inserted_as_def unused_def by metis
  have 2: "extractions mid (sy_log s) \<le> 1" for mid
    using one [of mid] entry_okD(9) extractions_none [of mid "sy_log s"] unfolding unused_def by (metis zero_le_one)
  have 3: "\<exists>m0. Inserted mid m0 \<in> set (sy_log s) \<and> says ok view m0 m" if x: "Copied mid m \<in> set (sy_log s)" for mid m
    using one [of mid] entry_okD(10) x unfolding inserted_as_def unused_def by metis
  have 4: "e = Out_Of_Range" if "Extract_Failed mid e \<in> set (sy_log s)" for mid e using inv that unfolding sm_inv_def by blast
  have 5: "(\<exists>m. Extracted mid m \<in> set (sy_log s)) \<or>
      (\<exists>m. sm_item s mid = Some m \<and> kept ok view s mid m0 m \<and>
        (sm_present s mid \<or> (\<exists>t. sy_thread s t = Extracting mid) \<or> Cleared \<in> set (sy_log s)))" if x: "Inserted mid m0 \<in> set (sy_log s)" for mid m0
  proof -
    have e: "entry_ok ok view s mid m0" using one [of mid] x unfolding inserted_as_def unused_def by metis
    show ?thesis using entry_okD(7,11,12) [OF e] by (cases "sm_item s mid") auto
  qed
  have 6: "\<exists>t. \<not> sm_busy (sm_step cbs (Continues t) s) mid" if b: "sm_busy s mid" for mid
  proof -
    obtain t where t: "locks (sy_thread s t) mid" using busy_held [OF inv b] by blast
    have "sm_item s mid \<noteq> None" using one [of mid] entry_okD(3) b unfolding unused_def by metis
    from holder_finishes [OF this t] show ?thesis by blast
  qed
  show ?thesis using 1 2 3 4 5 6 by blast
qed

text \<open>One thread has found the message it copies when another extracts it; a third spills it in between.\<close>

definition example_message :: "packed_data stream_message" where
  "example_message = \<lparr>msg_seq = 3, msg_payload = Some \<lparr>pd_metadata = [1], pd_data = example_buffer DEVICE [5, 6]\<rparr>,
     msg_cd = packed_desc \<lparr>pd_metadata = [1], pd_data = example_buffer DEVICE [5, 6]\<rparr>\<rparr>"

definition example_race :: "packed_data sm_event list" where
  "example_race = [Inserts 0 example_message, Copies 1 0 (null_reservation HOST), Spills 3 0, Extracts 2 0, Continues 3, Continues 2, Continues 3, Continues 2, Continues 1]"

lemma example_fine: "\<forall>e\<in>set example_race. fine_event packed_holds e"
  by (simp add: example_race_def example_message_def packed_holds_def holds_def example_buffer_def)

lemma example_move:
  "\<exists>m' b r. message_move (packed_callbacks True) (example_message,
      (example_br\<lparr>br_reserved := (br_reserved example_br)(HOST := 2)\<rparr>, \<lparr>res_mem = HOST, res_br = True, res_size = 2\<rparr>)) =
    (Inr m', (msg_reset example_message, (b, r)))"
  by (simp add: message_move_def example_message_def packed_callbacks_def msg_release_def msg_get_def msg_reset_def act_bind_def
      move_buffer_def make_buffer_def allocate_storage_def example_buffer_def example_br_def
      invalid_stream_def new_host_buffer_def host_buffer_types_def release_def add_allocated_def
      buffer_copy_def check_range_def to_ptrdiff_def cast_defs Let_def upt_rec write_access_def
      buffer_data_def throw_if_locked_def storage_bytes_def memcpy_def record_write_event_def packed_to_message_def new_message_def)

lemma example_desc: "copy_cost example_message = 2" "content_sizes (msg_cd example_message) DEVICE = 2" "cd_spillable (msg_cd example_message)"
  by (simp_all add: copy_cost_def example_message_def packed_desc_def content_description_def content_size_total_def MEMORY_TYPES_def example_buffer_def)

lemma example_reserve: "reserve_or_fail 2 SPILL_TARGET_MEMORY_TYPES example_br =
    (Inr \<lparr>res_mem = HOST, res_br = True, res_size = 2\<rparr>, example_br\<lparr>br_reserved := (br_reserved example_br)(HOST := 2)\<rparr>)"
  by (simp add: SPILL_TARGET_MEMORY_TYPES_def reserve_or_fail_def reserve_evals numeral_2_eq_2)

lemma example_spill:
  obtains m' n r b where "\<And>s :: packed_data sm_system. sm_item s 0 = Some example_message \<Longrightarrow> sm_br s = example_br \<Longrightarrow>
     sm_spill_work (packed_callbacks True) 0 s =
       (Inr (msg_cd m', n, r), s\<lparr>sm_busy := (sm_busy s)(0 := False), sm_br := b, sm_item := (sm_item s)(0 := Some m')\<rparr>)"
proof -
  obtain m' b r where "message_move (packed_callbacks True) (example_message,
      (example_br\<lparr>br_reserved := (br_reserved example_br)(HOST := 2)\<rparr>, \<lparr>res_mem = HOST, res_br = True, res_size = 2\<rparr>)) =
    (Inr m', (msg_reset example_message, (b, r)))" using example_move by blast
  then show ?thesis using that [of m' 2 r b] by (simp add: sm_spill_work_def Let_def example_desc example_reserve)
qed

theorem spillable_messages_exact_witness:
  "let s = sm_run (packed_callbacks True) example_race (new_system example_br) in
     extractions 0 (sy_log s) = 1 \<and> (\<exists>m. Extracted 0 m \<in> set (sy_log s) \<and> says packed_holds packed_view example_message m)"
proof -
  define s where "s = sm_run (packed_callbacks True) example_race (new_system example_br)"
  note E = spillable_messages_exact [OF packed.message_callbacks_axioms [of True] example_fine s_def]
  obtain m' n r b where sp: "\<And>s :: packed_data sm_system. sm_item s 0 = Some example_message \<Longrightarrow> sm_br s = example_br \<Longrightarrow>
     sm_spill_work (packed_callbacks True) 0 s =
       (Inr (msg_cd m', n, r), s\<lparr>sm_busy := (sm_busy s)(0 := False), sm_br := b, sm_item := (sm_item s)(0 := Some m')\<rparr>)"
    using example_spill by blast
  have log: "sy_log s = [Copy_Failed 0 Out_Of_Range, Extracted 0 m', Inserted 0 example_message]"
    unfolding s_def
    by (simp add: example_race_def new_system_def sm_insert_def Let_def returns_def set_thread_def sm_find_def expects_def
        sm_extract_find_def sm_spill_lock_def example_desc sp sm_extract_take_def sm_copy_lock_def)
  obtain m0 where "Inserted 0 m0 \<in> set (sy_log s)" "kept packed_holds packed_view s 0 m0 m'" using E log by auto
  then have "says packed_holds packed_view example_message m'" by (auto simp: log kept_def)
  then show ?thesis unfolding s_def [symmetric] Let_def by (auto simp: log extractions_def)
qed

end
