(* ===== verification/Context_Spill.thy ===== *)
theory Context_Spill
  imports Spillable_Messages Spill_Manager
begin

text \<open>
  The spill function that the streaming context registers with the spill manager, \<^verbatim>\<open>streaming/core/context.cpp\<close>: it goes
  over the container's messages until enough is freed. It meets the contract \<open>spillable\<close> of a spill function.
\<close>

section \<open>The spill function of the streaming context\<close>

text \<open>A container whose messages are packed data with the descriptions that belong to them, and that nobody is using.\<close>

definition device_part :: "packed_data spillable_messages \<Rightarrow> nat \<Rightarrow> nat" where
  "device_part s mid =
     (if sm_present s mid then
        (case sm_item s mid of None \<Rightarrow> 0
         | Some m \<Rightarrow> (case msg_payload m of None \<Rightarrow> 0 | Some p \<Rightarrow> if buf_mem (pd_data p) = DEVICE then buf_size (pd_data p) else 0))
      else 0)"

definition in_device :: "packed_data spillable_messages \<Rightarrow> nat" where
  "in_device s = sum (device_part s) {..<sm_counter s}"

definition packed_item :: "packed_data stream_message \<Rightarrow> bool" where
  "packed_item m \<longleftrightarrow> (\<exists>p. msg_payload m = Some p \<and> packed_holds p \<and> msg_cd m = packed_desc p)"

definition context_ok :: "packed_data spillable_messages \<Rightarrow> bool" where
  "context_ok s \<longleftrightarrow> (\<forall>mid. \<not> sm_busy s mid) \<and> in_device s < 2 ^ 63 \<and>
     (\<forall>mid. sm_present s mid \<longrightarrow> mid < sm_counter s \<and> (\<exists>m. sm_item s mid = Some m \<and> packed_item m))"

lemma packed_desc_size: "content_sizes (packed_desc p) DEVICE = (if buf_mem (pd_data p) = DEVICE then buf_size (pd_data p) else 0)"
  "content_size_total (packed_desc p) = buf_size (pd_data p)" "cd_spillable (packed_desc p)"
  by (cases "buf_mem (pd_data p)"; simp add: packed_desc_def content_description_def content_size_total_def MEMORY_TYPES_def)+

text \<open>A spill that returns takes what it reports out of device memory.\<close>

lemma sm_spill_exact:
  fixes s s' :: "packed_data spillable_messages"
  assumes ok: "context_ok s" and run: "sm_spill (packed_callbacks stats) mid s = (Inr n, s')"
  shows "context_ok s' \<and> spilled_by n (sm_br s) (sm_br s') \<and> in_device s = n + in_device s'"
proof (cases "sm_present s mid \<and> fst (sm_spill_lock mid s)")
  case False
  have "sm_spill_lock mid s = (False, s)" if "\<not> fst (sm_spill_lock mid s)" using that by (auto simp: sm_spill_lock_def split: option.splits if_splits)
  then have "sm_spill (packed_callbacks stats) mid s = (Inr 0, s)" using False by (auto simp: sm_spill_def)
  then have "s' = s" "n = 0" using run by simp_all
  then show ?thesis using ok by simp
next
  case True
  then have p: "sm_present s mid" by simp
  obtain m pd where m: "sm_item s mid = Some m" and pd: "msg_payload m = Some pd" "packed_holds pd" "msg_cd m = packed_desc pd"
    using ok p by (auto simp: context_ok_def packed_item_def)
  let ?l = "s\<lparr>sm_busy := (sm_busy s)(mid := True)\<rparr>" and ?d = "pd_data pd"
  have l: "sm_spill_lock mid s = (True, ?l)" and dev: "buf_mem ?d = DEVICE" "buf_size ?d \<noteq> 0"
    using True m pd(3) by (auto simp: sm_spill_lock_def packed_desc_size split: if_splits)
  have cost: "copy_cost m = buf_size ?d" by (simp add: copy_cost_def pd packed_desc_size)
  obtain res b1 where 1: "reserve_or_fail (buf_size ?d) SPILL_TARGET_MEMORY_TYPES (sm_br s) = (Inr res, b1)"
  proof (cases "reserve_or_fail (buf_size ?d) SPILL_TARGET_MEMORY_TYPES (sm_br s)")
    case (Pair o1 b1)
    then show ?thesis using run p l m cost that by (cases o1) (auto simp: sm_spill_def act_bind_def sm_spill_work_def Let_def)
  qed
  obtain o2 m1 b2 r2 where 2: "message_move (packed_callbacks stats) (m, (b1, res)) = (o2, (m1, (b2, r2)))" by (metis surj_pair)
  obtain m' where o2: "o2 = Inr m'"
    using run p l m cost 1 2 by (cases o2) (auto simp: sm_spill_def act_bind_def sm_spill_work_def Let_def split: prod.splits)
  obtain d' where mv: "move_buffer stats ?d (b1, res) = (Inr d', (b2, r2))" and m': "packed_to_message (msg_seq m) (pd\<lparr>pd_data := d'\<rparr>) = Inr m'"
    using 2 o2 pd(1) by (auto simp: message_move_def packed_callbacks_def msg_release_def msg_get_def msg_reset_def act_bind_def split: prod.splits sum.splits)
  obtain c b3 r3 where 3: "clear (b2, r2) = (c, (b3, r3))" by (metis surj_pair)
  let ?ds = "if sm_descs s mid = None then sm_descs s else (sm_descs s)(mid := Some (msg_cd m'))"
  let ?s = "s\<lparr>sm_busy := (sm_busy s)(mid := False), sm_br := b3, sm_item := (sm_item s)(mid := Some m'), sm_descs := ?ds\<rparr>"
  have size: "content_sizes (packed_desc pd) DEVICE = buf_size ?d" using dev by (simp add: packed_desc_size)
  have "sm_spill (packed_callbacks stats) mid s = ((case c of Inl e \<Rightarrow> Inl e | Inr _ \<Rightarrow> Inr (buf_size ?d)), ?s)"
    using p l m cost 1 2 [unfolded o2] 3 pd(3) size
    by (cases "sm_descs s mid"; cases c) (simp_all add: sm_spill_def act_bind_def sm_spill_work_def Let_def sm_describe_def act_return_def)
  then have "c = Inr ()" and n: "n = buf_size ?d" and s': "s' = ?s" using run by (cases c; simp)+
  obtain bs where h: "holds bs ?d" "buf_size ?d < 2 ^ 63" using pd(2) by (auto simp: packed_holds_def)
  have "act_bind (reserve_or_fail (buf_size ?d) SPILL_TARGET_MEMORY_TYPES) (\<lambda>res. with_reservation res (move_buffer stats ?d)) (sm_br s) = (Inr d', b3)"
    using 1 mv 3 \<open>c = _\<close> by (simp add: act_bind_def with_reservation_def)
  from spill_buffer_Inr [OF h dev(1) this] have S: "holds bs d'" "buf_mem d' \<noteq> DEVICE" "buf_size d' = buf_size ?d" "spilled_by (buf_size ?d) (sm_br s) b3" by auto
  have item: "packed_item m'" using m' S h by (auto simp: packed_to_message_def new_message_def packed_item_def packed_holds_def)
  have part: "device_part s' k = (if k = mid then 0 else device_part s k)" for k
    using m' S p by (auto simp: s' device_part_def packed_to_message_def new_message_def)
  have here: "device_part s mid = n" using p m pd dev n by (simp add: device_part_def)
  have lt: "mid < sm_counter s" using ok p by (simp add: context_ok_def)
  have sum: "in_device s = n + in_device s'"
  proof -
    have "in_device s = device_part s mid + sum (device_part s) ({..<sm_counter s} - {mid})"
      unfolding in_device_def using lt by (subst sum.remove [of _ mid]) simp_all
    moreover have "in_device s' = device_part s' mid + sum (device_part s') ({..<sm_counter s} - {mid})"
      unfolding in_device_def using lt by (subst sum.remove [of _ mid]) (simp_all add: s')
    moreover have "sum (device_part s') ({..<sm_counter s} - {mid}) = sum (device_part s) ({..<sm_counter s} - {mid})"
      by (rule sum.cong) (simp_all add: part)
    ultimately show ?thesis using here part by simp
  qed
  have "context_ok s'" unfolding context_ok_def
  proof (intro conjI allI impI)
    show "in_device s' < 2 ^ 63" using sum ok by (simp add: context_ok_def)
    show "\<not> sm_busy s' k" for k using ok by (simp add: context_ok_def s')
    fix k
    assume "sm_present s' k"
    then have "k < sm_counter s" "\<exists>m. sm_item s k = Some m \<and> packed_item m" using ok by (simp_all add: context_ok_def s')
    then show "k < sm_counter s'" "\<exists>m. sm_item s' k = Some m \<and> packed_item m" using item by (simp_all add: s')
  qed
  then show ?thesis using S n sum by (simp add: s')
qed

lemma spill_loop_exact:
  fixes s s' :: "packed_data spillable_messages"
  assumes "context_ok s" and "spill_messages_loop (packed_callbacks stats) cds amount spilled s = (Inr k, s')"
  shows "context_ok s' \<and> spilled \<le> k \<and> spilled_by (k - spilled) (sm_br s) (sm_br s') \<and> spilled + in_device s = k + in_device s'"
  using assms
proof (induction "packed_callbacks stats" cds amount spilled s rule: spill_messages_loop.induct)
  case (1 amount spilled s)
  then show ?case by simp
next
  case (2 mid cd cds amount spilled s)
  show ?case
  proof (cases "spilled \<ge> amount \<or> \<not> cd_spillable cd")
    case True
    then show ?thesis using 2 by (auto split: if_splits)
  next
    case False
    then obtain n s1 where sp: "sm_spill (packed_callbacks stats) mid s = (Inr n, s1)"
      and rest: "spill_messages_loop (packed_callbacks stats) cds amount (spilled + n) s1 = (Inr k, s')"
      using 2(4) by (auto simp: act_bind_def split: prod.splits sum.splits)
    note S = sm_spill_exact [OF 2(3) sp]
    have I: "context_ok s' \<and> spilled + n \<le> k \<and> spilled_by (k - (spilled + n)) (sm_br s1) (sm_br s') \<and> spilled + n + in_device s1 = k + in_device s'"
      using 2(1) [OF _ _ _ rest] False S by simp
    have "spilled_by (n + (k - (spilled + n))) (sm_br s) (sm_br s')" using spilled_by_trans S I by blast
    moreover have "n + (k - (spilled + n)) = k - spilled" using I by linarith
    ultimately show ?thesis using S I by simp
  qed
qed

text \<open>The streaming context keeps the contract that the spill manager asks of its spill functions.\<close>

interpretation context_spills: spillable "spill_messages (packed_callbacks stats)" context_ok "\<lambda>s. device_headroom (sm_br s)" for stats
proof
  fix s s' :: "packed_data spillable_messages" and n k
  assume ok: "context_ok s" and "spill_messages (packed_callbacks stats) n s = (Inr k, s')"
  then have S: "context_ok s' \<and> 0 \<le> k \<and> spilled_by (k - 0) (sm_br s) (sm_br s') \<and> 0 + in_device s = k + in_device s'"
    using spill_loop_exact unfolding spill_messages_def by blast
  show "context_ok s'" using S by blast
  show "k < 2 ^ 63" using S ok by (simp add: context_ok_def)
  show "device_headroom (sm_br s') = device_headroom (sm_br s) + int k" using S spilled_by_headroom [of k "sm_br s" "sm_br s'"] by simp
qed

section \<open>After a failed spill\<close>

context message_callbacks
begin

text \<open>
  A message that a failed spill has emptied keeps its description, so that the container still takes it for one to
  spill; every later attempt fails, and with it the context's spill function.
\<close>

lemma spill_of_emptied_fails:
  assumes "sm_present s mid" and "\<not> sm_busy s mid" and "sm_item s mid = Some m" and "msg_payload m = None"
    and "cd_spillable (msg_cd m)" and "content_sizes (msg_cd m) DEVICE \<noteq> 0"
  shows "\<exists>e s'. sm_spill cbs mid s = (Inl e, s')"
proof -
  have mv: "\<exists>e y. message_move cbs (m, st) = (Inl e, y)" for st
    using empties [OF assms(4), of _ st] by (auto simp: message_move_def split: option.splits prod.splits) fastforce
  have w: "\<exists>e s'. sm_spill_work cbs mid x = (Inl e, s')" if x: "sm_item x mid = Some m" for x
  proof (cases "reserve_or_fail (copy_cost m) SPILL_TARGET_MEMORY_TYPES (sm_br x)")
    case (Pair out b)
    show ?thesis
    proof (cases out)
      case (Inr res)
      obtain e y where "message_move cbs (m, (b, res)) = (Inl e, y)" using mv by blast
      then show ?thesis by (cases y) (auto simp: sm_spill_work_def Let_def x Pair Inr split: prod.split)
    qed (simp add: sm_spill_work_def Let_def x Pair)
  qed
  obtain e s' where "sm_spill_work cbs mid (s\<lparr>sm_busy := (sm_busy s)(mid := True)\<rparr>) = (Inl e, s')"
    using w [of "s\<lparr>sm_busy := (sm_busy s)(mid := True)\<rparr>"] assms(3) by auto
  then show ?thesis using assms by (simp add: sm_spill_def sm_spill_lock_def act_bind_def)
qed

lemma spill_loop_of_emptied_fails:
  assumes "sm_present s mid" and "\<not> sm_busy s mid" and "sm_item s mid = Some m" and "msg_payload m = None"
    and "cd_spillable (msg_cd m)" and "content_sizes (msg_cd m) DEVICE \<noteq> 0" and "cd_spillable cd" and "n < amount"
  shows "\<exists>e s'. spill_messages_loop cbs ((mid, cd) # cds) amount n s = (Inl e, s')"
  using spill_of_emptied_fails [OF assms(1-6)] assms(7,8) by (auto simp: act_bind_def)

end

end
