(* ===== verification/Fanout.thy ===== *)
theory Fanout
  imports Spillable_Messages
begin

text \<open>
  The unbounded fanout, \<^verbatim>\<open>streaming/core/fanout.cpp\<close>: a task that receives messages into the container and one task per
  output channel that copies them out. A coroutine that waits on a condition variable evaluates its predicate at its
  next turn, so that a turn that finds it false does nothing; each block under the lock is one turn. Whether an output
  channel accepts a message is part of the event, and so is a spill by another thread at any moment.
\<close>

section \<open>The tasks\<close>

text \<open>
  \<open>None\<close> is \<^verbatim>\<open>InvalidIdx\<close>. The receiving task keeps the two values its wait's predicate has last stored, and
  the bound up to which it purges. A sending task keeps the identifiers it has copied, and the number of
  messages it has seen.
\<close>

datatype 'p recv_task =
    Requesting "nat option" "nat option"
  | Receiving "nat option"
  | Storing "nat option" "'p stream_message"
  | Purging "nat option"
  | Recv_Draining
  | Recv_Done
  | Recv_Failed exn

datatype 'p send_task =
    Waiting
  | Sending "nat list" nat
  | Offering "'p stream_message" reservation "nat list" nat
  | Updating nat
  | Draining
  | Send_Done
  | Send_Refused
  | Send_Failed exn

record 'p fanout = "'p spillable_messages" +
  fo_channels :: nat
  fo_ids :: "nat list"
  fo_no_more :: bool
  fo_next :: "nat \<Rightarrow> nat option"
  fo_purged :: nat
  fo_recv :: "'p recv_task"
  fo_send :: "nat \<Rightarrow> 'p send_task"
  fo_input :: "'p stream_message list"
  fo_sent :: "nat \<Rightarrow> 'p stream_message list"

definition new_fanout :: "br \<Rightarrow> nat \<Rightarrow> 'p stream_message list \<Rightarrow> 'p fanout" where
  "new_fanout b n input =
     \<lparr>sm_br = b, sm_counter = 0, sm_present = (\<lambda>_. False), sm_item = (\<lambda>_. None), sm_busy = (\<lambda>_. False), sm_descs = (\<lambda>_. None),
      fo_channels = n, fo_ids = [], fo_no_more = False, fo_next = (\<lambda>_. Some 0), fo_purged = 0, fo_recv = Requesting None None,
      fo_send = (\<lambda>_. Waiting), fo_input = input, fo_sent = (\<lambda>_. [])\<rparr>"

definition set_send :: "nat \<Rightarrow> 'p send_task \<Rightarrow> 'p fanout \<Rightarrow> 'p fanout" where
  "set_send i pc f = f\<lparr>fo_send := (fo_send f)(i := pc)\<rparr>"

definition set_next :: "nat \<Rightarrow> nat option \<Rightarrow> 'p fanout \<Rightarrow> 'p fanout" where
  "set_next i k f = f\<lparr>fo_next := (fo_next f)(i := k)\<rparr>"

text \<open>A sending task that ends marks its channel as invalid.\<close>

definition leave :: "nat \<Rightarrow> 'p send_task \<Rightarrow> 'p fanout \<Rightarrow> 'p fanout" where
  "leave i pc f = set_send i pc (set_next i None f)"

section \<open>The receiving task\<close>

definition valid_indices :: "'p fanout \<Rightarrow> nat list" where
  "valid_indices f = concat (map (\<lambda>i. case fo_next f i of None \<Rightarrow> [] | Some k \<Rightarrow> [k]) [0..<fo_channels f])"

text \<open>An evaluation of the wait's predicate: its value, and the two values it stores.\<close>

definition data_requested :: "nat option \<Rightarrow> nat option \<Rightarrow> 'p fanout \<Rightarrow> bool \<times> nat option \<times> nat option" where
  "data_requested lo hi f =
     (case valid_indices f of
        [] \<Rightarrow> (True, lo, hi)
      | k # ks \<Rightarrow>
          (let l = fold min ks k; h = fold max ks k in (h = length (fo_ids f), Some l, Some h)))"

definition next_round :: "'p fanout \<Rightarrow> 'p fanout" where
  "next_round f = f\<lparr>fo_recv := (if fo_no_more f then Recv_Draining else Requesting None None)\<rparr>"

definition recv_turn :: "'p fanout \<Rightarrow> 'p fanout" where
  "recv_turn f =
     (case fo_recv f of
        Requesting lo hi \<Rightarrow>
          (case data_requested lo hi f of
             (ready, l, h) \<Rightarrow>
               if \<not> ready then f\<lparr>fo_recv := Requesting l h\<rparr>
               else if l = None \<and> h = None then f\<lparr>fo_recv := Recv_Draining\<rparr>
               else f\<lparr>fo_recv := Receiving l\<rparr>)
      | Receiving l \<Rightarrow>
          (case fo_input f of
             [] \<Rightarrow> f\<lparr>fo_recv := Storing l empty_message\<rparr>
           | m # ms \<Rightarrow> f\<lparr>fo_recv := Storing l m, fo_input := ms\<rparr>)
      | Storing l m \<Rightarrow>
          (if msg_empty m then f\<lparr>fo_no_more := True, fo_recv := Purging l\<rparr>
           else case sm_insert m f of (mid, f') \<Rightarrow> f'\<lparr>fo_ids := fo_ids f' @ [mid], fo_recv := Purging l\<rparr>)
      | Purging l \<Rightarrow>
          (if \<not> (case l of None \<Rightarrow> True | Some k \<Rightarrow> fo_purged f < k) then next_round f
           else if length (fo_ids f) \<le> fo_purged f then f\<lparr>fo_recv := Recv_Failed Undefined\<rparr>
           else case sm_extract (fo_ids f ! fo_purged f) f of
                  (Inl e, f') \<Rightarrow> f'\<lparr>fo_recv := Recv_Failed e, fo_no_more := True\<rparr>
                | (Inr _, f') \<Rightarrow> f'\<lparr>fo_purged := fo_purged f' + 1\<rparr>)
      | Recv_Draining \<Rightarrow> f\<lparr>fo_recv := Recv_Done, fo_no_more := True\<rparr>
      | _ \<Rightarrow> f)"

section \<open>The sending tasks\<close>

definition copy_for_sending :: "('p stream_message \<Rightarrow> 'p callbacks) \<Rightarrow> nat \<Rightarrow> ('p fanout, 'p stream_message \<times> reservation) act" where
  "copy_for_sending cbs mid f =
     (case sm_get_content_description mid f of
        Inl e \<Rightarrow> (Inl e, f)
      | Inr cd \<Rightarrow>
          (case reserve_or_fail (content_size_total cd) (leq_memory_types (principal_memory_type cd)) (sm_br f) of
             (Inl e, b) \<Rightarrow> (Inl e, f\<lparr>sm_br := b\<rparr>)
           | (Inr res, b) \<Rightarrow>
               (case sm_copy cbs mid (f\<lparr>sm_br := b\<rparr>, res) of
                  (Inl e, (f1, r1)) \<Rightarrow> (case clear (sm_br f1, r1) of (c, (b2, _)) \<Rightarrow> (Inl (case c of Inl x \<Rightarrow> x | Inr _ \<Rightarrow> e), f1\<lparr>sm_br := b2\<rparr>))
                | (Inr m, (f1, r1)) \<Rightarrow> (Inr (m, r1), f1))))"

definition after_update :: "nat \<Rightarrow> nat \<Rightarrow> 'p fanout \<Rightarrow> 'p fanout" where
  "after_update i available f =
     (let f1 = set_next i (Some available) f in
      set_send i (if available = length (fo_ids f1) \<and> fo_no_more f1 then Draining else Waiting) f1)"

definition send_turn :: "('p stream_message \<Rightarrow> 'p callbacks) \<Rightarrow> nat \<Rightarrow> bool \<Rightarrow> 'p fanout \<Rightarrow> 'p fanout" where
  "send_turn cbs i accepted f =
     (case fo_send f i of
        Waiting \<Rightarrow>
          (case fo_next f i of
             None \<Rightarrow> f
           | Some k \<Rightarrow>
               (let available = length (fo_ids f) in
                if \<not> (fo_no_more f \<or> k < available) then f
                else if fo_no_more f \<and> k = available then set_send i Draining f
                else set_send i (Sending (drop k (fo_ids f)) available) f))
      | Sending [] available \<Rightarrow> set_send i (Updating available) f
      | Sending (mid # mids) available \<Rightarrow>
          (case copy_for_sending cbs mid f of
             (Inl e, f') \<Rightarrow> leave i (Send_Failed e) f'
           | (Inr (m, r), f') \<Rightarrow> set_send i (Offering m r mids available) f')
      | Offering m r mids available \<Rightarrow>
          (case clear (sm_br f, r) of
             (Inl e, (b, _)) \<Rightarrow> leave i (Send_Failed e) (f\<lparr>sm_br := b\<rparr>)
           | (Inr _, (b, _)) \<Rightarrow>
               if accepted then set_send i (Sending mids available) (f\<lparr>sm_br := b, fo_sent := (fo_sent f)(i := fo_sent f i @ [m])\<rparr>)
               else leave i Send_Refused (f\<lparr>sm_br := b\<rparr>))
      | Updating available \<Rightarrow> after_update i available f
      | Draining \<Rightarrow> leave i Send_Done f
      | _ \<Rightarrow> f)"

text \<open>Tasks take turns; the consumers decide when an offered message is taken; messages are spilled at any time.\<close>

datatype fanout_event = Recv_Turn | Send_Turn nat bool | Spill_Message nat | Memory_Use "br \<Rightarrow> br"

fun fanout_step :: "('p stream_message \<Rightarrow> 'p callbacks) \<Rightarrow> fanout_event \<Rightarrow> 'p fanout \<Rightarrow> 'p fanout" where
  "fanout_step cbs Recv_Turn f = recv_turn f"
| "fanout_step cbs (Send_Turn i accepted) f = (if i < fo_channels f then send_turn cbs i accepted f else f)"
| "fanout_step cbs (Spill_Message mid) f = snd (sm_spill cbs mid f)"
| "fanout_step cbs (Memory_Use g) f = f\<lparr>sm_br := g (sm_br f)\<rparr>"

fun fanout_run :: "('p stream_message \<Rightarrow> 'p callbacks) \<Rightarrow> fanout_event list \<Rightarrow> 'p fanout \<Rightarrow> 'p fanout" where
  "fanout_run cbs [] f = f"
| "fanout_run cbs (e # es) f = fanout_run cbs es (fanout_step cbs e f)"


section \<open>What the container's operations do to the fanout\<close>

definition quiet_container :: "'p fanout \<Rightarrow> bool" where
  "quiet_container f \<longleftrightarrow> (\<forall>mid. \<not> sm_busy f mid)"

context message_callbacks
begin

text \<open>A spill only exchanges an item for one that carries the same message.\<close>

lemma sm_spill_effect:
  fixes f :: "'p fanout"
  assumes q: "quiet_container f"
  shows "\<exists>b item descs busy. snd (sm_spill cbs mid f) = f\<lparr>sm_br := b, sm_item := item, sm_descs := descs, sm_busy := busy\<rparr> \<and>
    (\<forall>k. \<not> busy k) \<and> (\<forall>k m. sm_item f k = Some m \<longrightarrow> (\<exists>m'. item k = Some m' \<and> (\<forall>m0. carries ok view m0 m \<longrightarrow> carries ok view m0 m'))) \<and>
    (\<forall>k. (descs k = None) = (sm_descs f k = None))"
proof (cases "sm_present f mid \<and> fst (sm_spill_lock mid f)")
  case False
  then have "snd (sm_spill cbs mid f) = f" by (auto simp: sm_spill_def sm_spill_lock_def split: option.splits)
  then show ?thesis using q by (intro exI [of _ "sm_br f"] exI [of _ "sm_item f"] exI [of _ "sm_descs f"] exI [of _ "sm_busy f"])
      (simp add: quiet_container_def)
next
  case True
  let ?l = "f\<lparr>sm_busy := (sm_busy f)(mid := True)\<rparr>"
  have l: "sm_spill_lock mid f = (True, ?l)" and p: "sm_present f mid" using True by (auto simp: sm_spill_lock_def split: option.splits if_splits)
  obtain m where m: "sm_item f mid = Some m" using True by (auto simp: sm_spill_lock_def split: option.splits if_splits)
  let ?e = "\<lambda>b i d. f\<lparr>sm_br := b, sm_item := i, sm_descs := d, sm_busy := (sm_busy f)(mid := False)\<rparr>"
  have nb: "\<forall>k. \<not> ((sm_busy f)(mid := False)) k" using q by (simp add: quiet_container_def)
  have fin: ?thesis if "snd (sm_spill cbs mid f) = ?e b ((sm_item f)(mid := Some m1)) d" "\<forall>m0. carries ok view m0 m \<longrightarrow> carries ok view m0 m1"
      "\<forall>k. (d k = None) = (sm_descs f k = None)" for b m1 d
    using that nb m by (intro exI [of _ b] exI [of _ "(sm_item f)(mid := Some m1)"] exI [of _ d] exI [of _ "(sm_busy f)(mid := False)"]) auto
  obtain o1 b1 where 1: "reserve_or_fail (copy_cost m) SPILL_TARGET_MEMORY_TYPES (sm_br f) = (o1, b1)" by (metis surj_pair)
  show ?thesis
  proof (cases o1)
    case (Inl e)
    have "snd (sm_spill cbs mid f) = ?e b1 ((sm_item f)(mid := Some m)) (sm_descs f)"
      using p l m 1 Inl by (simp add: sm_spill_def act_bind_def sm_spill_work_def Let_def fun_upd_idem)
    then show ?thesis by (rule fin) auto
  next
    case (Inr res)
    obtain o2 m1 b2 r2 where 2: "message_move cbs (m, (b1, res)) = (o2, (m1, (b2, r2)))" by (metis surj_pair)
    show ?thesis
    proof (cases o2)
      case (Inl e)
      obtain c b3 r3 where 3: "clear (b2, r2) = (c, (b3, r3))" by (metis surj_pair)
      have "snd (sm_spill cbs mid f) = ?e b3 ((sm_item f)(mid := Some m1)) (sm_descs f)"
        using p l m 1 2 3 Inr Inl by (simp add: sm_spill_def act_bind_def sm_spill_work_def Let_def)
      moreover have "\<forall>m0. carries ok view m0 m \<longrightarrow> carries ok view m0 m1"
        using move_failed [of m "(b1, res)" e m1 "(b2, r2)"] 2 Inl by (auto simp: carries_def says_def msg_reset_def)
      ultimately show ?thesis by (rule fin) auto
    next
      case (Inr m')
      let ?d = "if sm_descs f mid = None then sm_descs f else (sm_descs f)(mid := Some (msg_cd m'))"
      obtain c b3 r3 where 3: "clear (b2, r2) = (c, (b3, r3))" by (metis surj_pair)
      have "snd (sm_spill cbs mid f) = ?e b3 ((sm_item f)(mid := Some m')) ?d"
        using p l m 1 2 3 \<open>o1 = _\<close> Inr
        by (cases "sm_descs f mid"; cases c) (simp_all add: sm_spill_def act_bind_def sm_spill_work_def Let_def sm_describe_def act_return_def)
      moreover have "\<forall>m0. carries ok view m0 m \<longrightarrow> carries ok view m0 m'"
        using carries_move 2 Inr unfolding carries_def by blast
      ultimately show ?thesis by (rule fin) auto
    qed
  qed
qed

text \<open>Copying for a channel changes the memory ledger only, and a copy says what the item carries.\<close>

lemma copy_for_sending_effect:
  fixes f :: "'p fanout"
  assumes q: "quiet_container f"
  shows "\<exists>b busy. snd (copy_for_sending cbs mid f) = f\<lparr>sm_br := b, sm_busy := busy\<rparr> \<and> (\<forall>k. \<not> busy k)"
    and "copy_for_sending cbs mid f = (Inr (m', r), f') \<Longrightarrow> sm_item f mid = Some m \<Longrightarrow> carries ok view m0 m \<Longrightarrow> says ok view m0 m'"
proof -
  have nb: "\<forall>k. \<not> sm_busy f k" using q by (simp add: quiet_container_def)
  have triv: "\<exists>b busy. f\<lparr>sm_br := b0\<rparr> = f\<lparr>sm_br := b, sm_busy := busy\<rparr> \<and> (\<forall>k. \<not> busy k)" for b0
    by (rule exI [of _ b0], rule exI [of _ "sm_busy f"]) (simp add: nb)
  have cp: "\<exists>b2 busy r2. snd (sm_copy cbs mid (f\<lparr>sm_br := b\<rparr>, r)) = (f\<lparr>sm_br := b2, sm_busy := busy\<rparr>, r2) \<and> (\<forall>k. \<not> busy k)" for b r
  proof (cases "sm_present f mid \<and> sm_item f mid \<noteq> None")
    case True
    then obtain m where m: "sm_item f mid = Some m" and p: "sm_present f mid" by auto
    obtain out b2 r2 where c: "message_copy cbs m (b, r) = (out, (b2, r2))" by (metis surj_pair)
    have "snd (sm_copy cbs mid (f\<lparr>sm_br := b\<rparr>, r)) = (f\<lparr>sm_br := b2, sm_busy := (sm_busy f)(mid := False)\<rparr>, r2)"
      using m p c by (simp add: sm_copy_def sm_find_def expects_def sm_copy_lock_def sm_copy_work_def)
    then show ?thesis using nb by (intro exI [of _ b2] exI [of _ "(sm_busy f)(mid := False)"] exI [of _ r2]) simp
  next
    case False
    then have "snd (sm_copy cbs mid (f\<lparr>sm_br := b\<rparr>, r)) = (f\<lparr>sm_br := b, sm_busy := sm_busy f\<rparr>, r)"
      by (auto simp: sm_copy_def sm_find_def expects_def sm_copy_lock_def)
    then show ?thesis using nb by blast
  qed
  show "\<exists>b busy. snd (copy_for_sending cbs mid f) = f\<lparr>sm_br := b, sm_busy := busy\<rparr> \<and> (\<forall>k. \<not> busy k)"
  proof (cases "sm_get_content_description mid f")
    case (Inl e)
    then show ?thesis using triv [of "sm_br f"] by (simp add: copy_for_sending_def)
  next
    case (Inr cd)
    obtain o1 b1 where 1: "reserve_or_fail (content_size_total cd) (leq_memory_types (principal_memory_type cd)) (sm_br f) = (o1, b1)" by (metis surj_pair)
    show ?thesis
    proof (cases o1)
      case (Inl e)
      then show ?thesis using triv [of b1] 1 \<open>sm_get_content_description mid f = _\<close> by (simp add: copy_for_sending_def)
    next
      case (Inr res)
      obtain b2 busy r2 where c: "snd (sm_copy cbs mid (f\<lparr>sm_br := b1\<rparr>, res)) = (f\<lparr>sm_br := b2, sm_busy := busy\<rparr>, r2)" and n: "\<forall>k. \<not> busy k"
        using cp by blast
      obtain o2 where o2: "sm_copy cbs mid (f\<lparr>sm_br := b1\<rparr>, res) = (o2, (f\<lparr>sm_br := b2, sm_busy := busy\<rparr>, r2))"
        using c by (cases "sm_copy cbs mid (f\<lparr>sm_br := b1\<rparr>, res)") simp
      obtain c b3 r3 where 3: "clear (b2, r2) = (c, (b3, r3))" by (metis surj_pair)
      have comm: "f\<lparr>sm_busy := busy, sm_br := b3\<rparr> = f\<lparr>sm_br := b3, sm_busy := busy\<rparr>" by (cases f) simp
      obtain b where "snd (copy_for_sending cbs mid f) = f\<lparr>sm_br := b, sm_busy := busy\<rparr>"
        using 1 \<open>sm_get_content_description mid f = _\<close> Inr o2 3 by (cases o2) (simp_all add: copy_for_sending_def comm)
      then show ?thesis using n by blast
    qed
  qed
  assume run: "copy_for_sending cbs mid f = (Inr (m', r), f')" and m: "sm_item f mid = Some m" and k: "carries ok view m0 m"
  obtain b1 res st where "sm_copy cbs mid (f\<lparr>sm_br := b1\<rparr>, res) = (Inr m', st)"
    using run by (auto simp: copy_for_sending_def split: sum.splits prod.splits)
  then obtain st' where "message_copy cbs m (b1, res) = (Inr m', st')"
    using m by (auto simp: sm_copy_def sm_find_def expects_def sm_copy_lock_def sm_copy_work_def split: sum.splits prod.splits if_splits)
  from carries_copy [OF k this] show "says ok view m0 m'" .
qed

end


section \<open>The invariant of the fanout\<close>

fun gone :: "'p send_task \<Rightarrow> bool" where
  "gone Send_Refused \<longleftrightarrow> True"
| "gone (Send_Failed e) \<longleftrightarrow> True"
| "gone _ \<longleftrightarrow> False"

definition low :: "'p fanout \<Rightarrow> nat option \<Rightarrow> bool" where
  "low f l \<longleftrightarrow> (\<forall>a. l = Some a \<longrightarrow> a \<le> length (fo_ids f) \<and> (\<forall>i<fo_channels f. \<forall>k. fo_next f i = Some k \<longrightarrow> a \<le> k))"

definition stored_ok :: "('p \<Rightarrow> bool) \<Rightarrow> ('p \<Rightarrow> 'v) \<Rightarrow> 'p stream_message list \<Rightarrow> 'p fanout \<Rightarrow> bool" where
  "stored_ok ok view xs f \<longleftrightarrow> quiet_container f \<and> fo_ids f = [0..<sm_counter f] \<and> sm_counter f \<le> length xs \<and> fo_purged f \<le> sm_counter f \<and>
     (\<forall>i<fo_channels f. \<forall>k. fo_next f i = Some k \<longrightarrow> fo_purged f \<le> k) \<and>
     (\<forall>k. fo_purged f \<le> k \<and> k < sm_counter f \<longrightarrow> sm_present f k \<and> sm_descs f k \<noteq> None \<and> (\<exists>m. sm_item f k = Some m \<and> carries ok view (xs ! k) m))"

definition recv_ok :: "'p stream_message list \<Rightarrow> 'p fanout \<Rightarrow> bool" where
  "recv_ok xs f \<longleftrightarrow>
     (let n = length (fo_ids f) in
      case fo_recv f of
        Requesting lo hi \<Rightarrow> fo_input f = drop n xs \<and> \<not> fo_no_more f \<and> (lo = None \<longleftrightarrow> hi = None) \<and> low f lo
      | Receiving l \<Rightarrow> fo_input f = drop n xs \<and> \<not> fo_no_more f \<and> l \<noteq> None \<and> low f l
      | Storing l m \<Rightarrow> \<not> fo_no_more f \<and> l \<noteq> None \<and> low f l \<and>
          (if msg_empty m then n = length xs \<and> fo_input f = [] else n < length xs \<and> m = xs ! n \<and> fo_input f = drop (Suc n) xs)
      | Purging l \<Rightarrow> fo_input f = drop n xs \<and> l \<noteq> None \<and> low f l
      | Recv_Failed e \<Rightarrow> False
      | _ \<Rightarrow> fo_input f = drop n xs)"

definition send_ok :: "('p \<Rightarrow> bool) \<Rightarrow> ('p \<Rightarrow> 'v) \<Rightarrow> 'p stream_message list \<Rightarrow> 'p fanout \<Rightarrow> nat \<Rightarrow> bool" where
  "send_ok ok view xs f i \<longleftrightarrow>
     (let s = fo_sent f i; n = length (fo_ids f) in
      list_all2 (says ok view) (take (length s) xs) s \<and> length s \<le> n \<and>
      (case fo_send f i of
         Waiting \<Rightarrow> fo_next f i = Some (length s)
       | Sending mids available \<Rightarrow> (\<exists>k. fo_next f i = Some k \<and> k \<le> length s) \<and> length s \<le> available \<and> available \<le> n \<and> mids = [length s..<available]
       | Offering m r mids available \<Rightarrow> (\<exists>k. fo_next f i = Some k \<and> k \<le> length s) \<and> length s < available \<and> available \<le> n \<and>
           mids = [Suc (length s)..<available] \<and> says ok view (xs ! length s) m
       | Updating available \<Rightarrow> (\<exists>k. fo_next f i = Some k \<and> k \<le> length s) \<and> available = length s
       | Draining \<Rightarrow> fo_next f i = Some (length s) \<and> fo_no_more f \<and> length s = n
       | Send_Done \<Rightarrow> fo_next f i = None \<and> fo_no_more f \<and> length s = n
       | _ \<Rightarrow> fo_next f i = None))"

definition ended :: "'p fanout \<Rightarrow> bool" where
  "ended f \<longleftrightarrow> fo_no_more f \<or> fo_recv f = Recv_Draining \<or> fo_recv f = Recv_Done"

definition fanout_ok :: "('p \<Rightarrow> bool) \<Rightarrow> ('p \<Rightarrow> 'v) \<Rightarrow> 'p stream_message list \<Rightarrow> 'p fanout \<Rightarrow> bool" where
  "fanout_ok ok view xs f \<longleftrightarrow> stored_ok ok view xs f \<and> recv_ok xs f \<and> (\<forall>i<fo_channels f. send_ok ok view xs f i) \<and>
     (ended f \<longrightarrow> length (fo_ids f) = length xs \<or> (\<forall>i<fo_channels f. gone (fo_send f i)))"

lemma new_fanout_ok: "fanout_ok ok view xs (new_fanout b n xs)"
  by (simp add: fanout_ok_def new_fanout_def stored_ok_def recv_ok_def send_ok_def ended_def quiet_container_def low_def Let_def)

lemma send_ok_frame:
  assumes "send_ok ok view xs f i" and "fo_sent f' i = fo_sent f i" "fo_send f' i = fo_send f i" "fo_next f' i = fo_next f i"
    and "fo_no_more f \<Longrightarrow> fo_no_more f' \<and> length (fo_ids f') = length (fo_ids f)" and "length (fo_ids f) \<le> length (fo_ids f')"
  shows "send_ok ok view xs f' i"
  using assms unfolding send_ok_def Let_def by (cases "fo_send f i") auto

lemma low_frame:
  assumes "low f l" and "fo_channels f' = fo_channels f" and "length (fo_ids f) \<le> length (fo_ids f')"
    and "\<And>i k'. i < fo_channels f \<Longrightarrow> fo_next f' i = Some k' \<Longrightarrow> \<exists>k\<le>k'. fo_next f i = Some k"
  shows "low f' l"
  using assms unfolding low_def by (metis le_trans)

text \<open>A turn of a sending task.\<close>

lemma send_frame:
  assumes inv: "fanout_ok ok view xs f" and i: "i < fo_channels f"
    and same: "fo_channels f' = fo_channels f" "fo_ids f' = fo_ids f" "fo_no_more f' = fo_no_more f" "fo_purged f' = fo_purged f"
      "fo_recv f' = fo_recv f" "fo_input f' = fo_input f" "sm_counter f' = sm_counter f" "sm_present f' = sm_present f"
      "sm_item f' = sm_item f" "sm_descs f' = sm_descs f" "quiet_container f'"
    and other: "\<And>j. j \<noteq> i \<Longrightarrow> fo_sent f' j = fo_sent f j \<and> fo_send f' j = fo_send f j \<and> fo_next f' j = fo_next f j"
    and nxt: "\<And>k'. fo_next f' i = Some k' \<Longrightarrow> \<exists>k\<le>k'. fo_next f i = Some k"
    and g: "gone (fo_send f i) \<Longrightarrow> gone (fo_send f' i)"
    and here: "send_ok ok view xs f' i"
  shows "fanout_ok ok view xs f'"
proof -
  have nx: "\<exists>k\<le>k'. fo_next f j = Some k" if "j < fo_channels f" "fo_next f' j = Some k'" for j k'
    using that nxt other by (cases "j = i") auto
  have "stored_ok ok view xs f'"
  proof -
    have st: "stored_ok ok view xs f" using inv by (simp add: fanout_ok_def)
    have "fo_purged f' \<le> k'" if j: "j < fo_channels f'" "fo_next f' j = Some k'" for j k'
    proof -
      obtain k where k: "k \<le> k'" "fo_next f j = Some k" using nx [OF j(1) [unfolded same(1)] j(2)] by blast
      have "fo_purged f \<le> k" using st j(1) k(2) unfolding stored_ok_def same(1) by blast
      then show ?thesis using k(1) by (simp add: same)
    qed
    then show ?thesis using st same(11) unfolding stored_ok_def by (simp add: same)
  qed
  moreover have "recv_ok xs f'"
  proof -
    have "low f l \<Longrightarrow> low f' l" for l by (rule low_frame) (use nx in \<open>auto simp: same\<close>)
    then show ?thesis using inv unfolding fanout_ok_def recv_ok_def Let_def by (auto simp: same split: recv_task.splits)
  qed
  moreover have "send_ok ok view xs f' j" if "j < fo_channels f'" for j
  proof (cases "j = i")
    case False
    have "send_ok ok view xs f j" using inv that by (simp add: fanout_ok_def same)
    then show ?thesis by (rule send_ok_frame) (use other False in \<open>auto simp: same\<close>)
  qed (use here in simp)
  moreover have "ended f' \<longrightarrow> length (fo_ids f') = length xs \<or> (\<forall>j<fo_channels f'. gone (fo_send f' j))"
    using inv other g unfolding fanout_ok_def ended_def same by metis
  ultimately show ?thesis by (simp add: fanout_ok_def)
qed

lemma set_fields:
  "fo_send (set_send i pc f) = (fo_send f)(i := pc)" "fo_next (set_send i pc f) = fo_next f" "fo_sent (set_send i pc f) = fo_sent f"
  "fo_next (set_next i k f) = (fo_next f)(i := k)" "fo_send (set_next i k f) = fo_send f" "fo_sent (set_next i k f) = fo_sent f"
  "fo_channels (set_send i pc f) = fo_channels f" "fo_ids (set_send i pc f) = fo_ids f" "fo_no_more (set_send i pc f) = fo_no_more f"
  "fo_purged (set_send i pc f) = fo_purged f" "fo_recv (set_send i pc f) = fo_recv f" "fo_input (set_send i pc f) = fo_input f"
  "sm_counter (set_send i pc f) = sm_counter f" "sm_present (set_send i pc f) = sm_present f" "sm_item (set_send i pc f) = sm_item f"
  "sm_descs (set_send i pc f) = sm_descs f" "quiet_container (set_send i pc f) = quiet_container f"
  "fo_channels (set_next i k f) = fo_channels f" "fo_ids (set_next i k f) = fo_ids f" "fo_no_more (set_next i k f) = fo_no_more f"
  "fo_purged (set_next i k f) = fo_purged f" "fo_recv (set_next i k f) = fo_recv f" "fo_input (set_next i k f) = fo_input f"
  "sm_counter (set_next i k f) = sm_counter f" "sm_present (set_next i k f) = sm_present f" "sm_item (set_next i k f) = sm_item f"
  "sm_descs (set_next i k f) = sm_descs f" "quiet_container (set_next i k f) = quiet_container f"
  by (simp_all add: set_send_def set_next_def quiet_container_def)


lemma stored_item:
  assumes "stored_ok ok view xs f" and "fo_purged f \<le> k" and "k < length (fo_ids f)"
  obtains m where "sm_present f k" and "sm_descs f k \<noteq> None" and "sm_item f k = Some m" and "carries ok view (xs ! k) m" and "fo_ids f ! k = k"
proof -
  have ids: "fo_ids f = [0..<sm_counter f]" using assms(1) by (simp add: stored_ok_def)
  then have "k < sm_counter f" using assms(3) by simp
  then show ?thesis using assms(1,2) that ids unfolding stored_ok_def by auto
qed

lemma says_append:
  assumes "list_all2 P (take (length s) xs) s" and "length s < length xs" and "P (xs ! length s) m"
  shows "list_all2 P (take (length (s @ [m])) xs) (s @ [m])"
  using assms by (simp add: take_Suc_conv_app_nth list_all2_appendI)

context message_callbacks
begin

lemma send_turn_ok:
  assumes inv: "fanout_ok ok view xs f" and i: "i < fo_channels f"
  shows "fanout_ok ok view xs (send_turn cbs i accepted f)"
proof -
  have S: "send_ok ok view xs f i" and st: "stored_ok ok view xs f" using inv i by (simp_all add: fanout_ok_def)
  have q: "quiet_container f" and L: "length (fo_ids f) \<le> length xs" using st by (simp_all add: stored_ok_def)
  let ?s = "fo_sent f i"
  have la: "list_all2 (says ok view) (take (length ?s) xs) ?s" and sl: "length ?s \<le> length (fo_ids f)" using S by (simp_all add: send_ok_def Let_def)
  show ?thesis
  proof (cases "fo_send f i")
    case Waiting
    have k: "fo_next f i = Some (length ?s)" using S Waiting by (simp add: send_ok_def Let_def)
    consider "send_turn cbs i accepted f = f"
      | "fo_no_more f" "length ?s = length (fo_ids f)" "send_turn cbs i accepted f = set_send i Draining f"
      | "length ?s \<le> length (fo_ids f)" "send_turn cbs i accepted f = set_send i (Sending (drop (length ?s) (fo_ids f)) (length (fo_ids f))) f"
      using Waiting k sl by (simp add: send_turn_def Let_def) metis
    then show ?thesis
    proof cases
      case 2
      show ?thesis unfolding 2(3)
      proof (rule send_frame [OF inv i])
        show "send_ok ok view xs (set_send i Draining f) i" using la 2 k by (simp add: send_ok_def Let_def set_fields)
      qed (use Waiting q in \<open>auto simp: set_fields\<close>)
    next
      case 3
      have d: "drop (length ?s) (fo_ids f) = [length ?s..<length (fo_ids f)]" using st by (simp add: stored_ok_def)
      show ?thesis unfolding 3(2)
      proof (rule send_frame [OF inv i])
        show "send_ok ok view xs (set_send i (Sending (drop (length ?s) (fo_ids f)) (length (fo_ids f))) f) i"
          using la 3 k d by (simp add: send_ok_def Let_def set_fields)
      qed (use Waiting q in \<open>auto simp: set_fields\<close>)
    qed (use inv in simp)
  next
    case (Sending mids available)
    then have k: "\<exists>k. fo_next f i = Some k \<and> k \<le> length ?s" "length ?s \<le> available" "available \<le> length (fo_ids f)" "mids = [length ?s..<available]"
      using S by (auto simp: send_ok_def Let_def)
    show ?thesis
    proof (cases mids)
      case Nil
      then have a: "available = length ?s" using k(2,4) by auto
      have step: "send_turn cbs i accepted f = set_send i (Updating available) f" using Sending Nil by (simp add: send_turn_def)
      show ?thesis unfolding step
      proof (rule send_frame [OF inv i])
        show "send_ok ok view xs (set_send i (Updating available) f) i" using la sl a k by (simp add: send_ok_def Let_def set_fields)
      qed (use Sending q in \<open>auto simp: set_fields\<close>)
    next
      case (Cons mid rest)
      then have c: "length ?s < available" "mid = length ?s" "rest = [Suc (length ?s)..<available]"
        using k(2,4) by (cases "length ?s < available"; simp add: upt_conv_Cons)+
      obtain b busy where e: "snd (copy_for_sending cbs mid f) = f\<lparr>sm_br := b, sm_busy := busy\<rparr>" and nb: "\<forall>k. \<not> busy k"
        using copy_for_sending_effect(1) [OF q] by blast
      let ?f = "f\<lparr>sm_br := b, sm_busy := busy\<rparr>"
      have qf: "quiet_container ?f" using nb by (simp add: quiet_container_def)
      obtain out where run: "copy_for_sending cbs mid f = (out, ?f)" using e by (cases "copy_for_sending cbs mid f") simp
      show ?thesis
      proof (cases out)
        case (Inl x)
        have step: "send_turn cbs i accepted f = leave i (Send_Failed x) ?f" using Sending Cons run Inl by (simp add: send_turn_def)
        show ?thesis unfolding step leave_def
        proof (rule send_frame [OF inv i])
          show "send_ok ok view xs (set_send i (Send_Failed x) (set_next i None ?f)) i" using la sl by (simp add: send_ok_def Let_def set_fields)
        qed (use Sending qf in \<open>auto simp: set_fields\<close>)
      next
        case (Inr p)
        obtain m r where p: "p = (m, r)" by fastforce
        have step: "send_turn cbs i accepted f = set_send i (Offering m r rest available) ?f" using Sending Cons run Inr p by (simp add: send_turn_def)
        have "fo_purged f \<le> length ?s" using st i k(1) le_trans unfolding stored_ok_def by blast
        then obtain m' where "sm_item f mid = Some m'" "carries ok view (xs ! mid) m'"
          using stored_item [OF st, of mid] c k(3) by (metis less_le_trans)
        then have says: "says ok view (xs ! length ?s) m" using copy_for_sending_effect(2) [OF q] run Inr p c(2) by blast
        show ?thesis unfolding step
        proof (rule send_frame [OF inv i])
          show "send_ok ok view xs (set_send i (Offering m r rest available) ?f) i"
            using la sl c k says by (simp add: send_ok_def Let_def set_fields)
        qed (use Sending qf in \<open>auto simp: set_fields\<close>)
      qed
    qed
  next
    case (Offering m r mids available)
    then have k: "\<exists>k. fo_next f i = Some k \<and> k \<le> length ?s" "length ?s < available" "available \<le> length (fo_ids f)"
      "mids = [Suc (length ?s)..<available]" "says ok view (xs ! length ?s) m"
      using S by (auto simp: send_ok_def Let_def)
    obtain out b r' where c: "clear (sm_br f, r) = (out, (b, r'))" by (metis surj_pair)
    let ?f = "f\<lparr>sm_br := b\<rparr>"
    have qf: "quiet_container (f\<lparr>sm_br := b\<rparr>)" "quiet_container (f\<lparr>sm_br := b, fo_sent := x\<rparr>)" for x using q by (simp_all add: quiet_container_def)
    have gone_ok: "fanout_ok ok view xs (leave i pc ?f)" if "gone pc" for pc
      unfolding leave_def
    proof (rule send_frame [OF inv i])
      show "send_ok ok view xs (set_send i pc (set_next i None ?f)) i" using la sl that by (cases pc) (simp_all add: send_ok_def Let_def set_fields)
    qed (use Offering qf that in \<open>auto simp: set_fields\<close>)
    show ?thesis
    proof (cases "out = Inr () \<and> accepted")
      case True
      let ?g = "f\<lparr>sm_br := b, fo_sent := (fo_sent f)(i := ?s @ [m])\<rparr>"
      have step: "send_turn cbs i accepted f = set_send i (Sending mids available) ?g" using Offering c True by (simp add: send_turn_def)
      have la': "list_all2 (says ok view) (take (length (?s @ [m])) xs) (?s @ [m])" by (rule says_append [OF la _ k(5)]) (use k L in simp)
      show ?thesis unfolding step
      proof (rule send_frame [OF inv i])
        show "send_ok ok view xs (set_send i (Sending mids available) ?g) i" using la' k by (auto simp: send_ok_def Let_def set_fields)
      qed (use Offering qf in \<open>auto simp: set_fields\<close>)
    next
      case False
      then have "send_turn cbs i accepted f = leave i (case out of Inl e \<Rightarrow> Send_Failed e | Inr _ \<Rightarrow> Send_Refused) ?f"
        using Offering c by (cases out) (auto simp: send_turn_def)
      then show ?thesis using gone_ok by (cases out) simp_all
    qed
  next
    case (Updating available)
    then have k: "\<exists>k. fo_next f i = Some k \<and> k \<le> length ?s" "available = length ?s" using S by (auto simp: send_ok_def Let_def)
    show ?thesis
    proof (cases "available = length (fo_ids f) \<and> fo_no_more f")
      case True
      then have step: "send_turn cbs i accepted f = set_send i Draining (set_next i (Some available) f)"
        using Updating by (simp add: send_turn_def after_update_def Let_def set_fields)
      show ?thesis unfolding step
      proof (rule send_frame [OF inv i])
        show "send_ok ok view xs (set_send i Draining (set_next i (Some available) f)) i" using la sl k True by (simp add: send_ok_def Let_def set_fields)
      qed (use Updating q k in \<open>auto simp: set_fields\<close>)
    next
      case False
      then have step: "send_turn cbs i accepted f = set_send i Waiting (set_next i (Some available) f)"
        using Updating by (auto simp: send_turn_def after_update_def Let_def set_fields)
      show ?thesis unfolding step
      proof (rule send_frame [OF inv i])
        show "send_ok ok view xs (set_send i Waiting (set_next i (Some available) f)) i" using la sl k by (simp add: send_ok_def Let_def set_fields)
      qed (use Updating q k in \<open>auto simp: set_fields\<close>)
    qed
  next
    case Draining
    then have k: "fo_no_more f" "length ?s = length (fo_ids f)" using S by (simp_all add: send_ok_def Let_def)
    have step: "send_turn cbs i accepted f = set_send i Send_Done (set_next i None f)" using Draining by (simp add: send_turn_def leave_def)
    show ?thesis unfolding step
    proof (rule send_frame [OF inv i])
      show "send_ok ok view xs (set_send i Send_Done (set_next i None f)) i" using la k by (simp add: send_ok_def Let_def set_fields)
    qed (use Draining q in \<open>auto simp: set_fields\<close>)
  qed (use inv in \<open>simp_all add: send_turn_def\<close>)
qed

end


lemma fold_min_le: "x = k \<or> x \<in> set ks \<Longrightarrow> fold min ks k \<le> x" for x :: nat
proof (induction ks arbitrary: k x)
  case (Cons a ks)
  have "fold min ks (min a k) \<le> min a k" using Cons.IH by blast
  moreover have "x \<in> set ks \<Longrightarrow> fold min ks (min a k) \<le> x" using Cons.IH by blast
  ultimately show ?case using Cons.prems by auto
qed simp

lemma fold_min_in: "fold min ks k \<in> insert k (set ks)" for k :: nat
  by (induction ks arbitrary: k) (auto simp: min_def)

lemma valid_indices_mem: "k \<in> set (valid_indices f) \<longleftrightarrow> (\<exists>i<fo_channels f. fo_next f i = Some k)"
proof -
  have "k \<in> set (case fo_next f i of None \<Rightarrow> [] | Some k \<Rightarrow> [k]) \<longleftrightarrow> fo_next f i = Some k" for i by (auto split: option.splits)
  then show ?thesis by (auto simp: valid_indices_def)
qed

lemma next_bound:
  assumes "fanout_ok ok view xs f" and "i < fo_channels f" and "fo_next f i = Some k"
  shows "k \<le> length (fo_ids f)"
proof -
  have "send_ok ok view xs f i" using assms by (simp add: fanout_ok_def)
  then show ?thesis using assms(3) by (cases "fo_send f i") (auto simp: send_ok_def Let_def)
qed

text \<open>The two values the predicate stores: set from valid indices, or left as they were.\<close>

lemma data_requested_low:
  assumes inv: "fanout_ok ok view xs f" and l: "low f lo" "lo = None \<longleftrightarrow> hi = None" and run: "data_requested lo hi f = (ready, l', h')"
  shows "low f l'" and "l' = None \<longleftrightarrow> h' = None" and "l' = None \<Longrightarrow> \<forall>i<fo_channels f. fo_next f i = None"
proof -
  show "low f l'"
  proof (cases "valid_indices f")
    case Nil
    then show ?thesis using run l by (auto simp: data_requested_def)
  next
    case (Cons k ks)
    have m: "fold min ks k \<le> x" if "i < fo_channels f" "fo_next f i = Some x" for i x
      using fold_min_le [of x k ks] valid_indices_mem [of x f] that Cons by auto
    have "fold min ks k \<in> set (valid_indices f)" using fold_min_in [of ks k] Cons by simp
    then obtain i where "i < fo_channels f" "fo_next f i = Some (fold min ks k)" using valid_indices_mem by blast
    then have "fold min ks k \<le> length (fo_ids f)" by (rule next_bound [OF inv])
    then show ?thesis using run Cons m by (auto simp: data_requested_def low_def Let_def)
  qed
  show "l' = None \<longleftrightarrow> h' = None" using run l(2) by (auto simp: data_requested_def Let_def split: list.splits)
  show "\<forall>i<fo_channels f. fo_next f i = None" if "l' = None"
  proof -
    have "valid_indices f = []" using run that by (auto simp: data_requested_def Let_def split: list.splits)
    then show ?thesis using valid_indices_mem [of _ f] by (metis empty_iff list.set(1) not_Some_eq)
  qed
qed

text \<open>A turn of the receiving task that stores or purges nothing.\<close>

lemma recv_frame:
  assumes inv: "fanout_ok ok view xs f"
    and same: "fo_channels f' = fo_channels f" "fo_ids f' = fo_ids f" "fo_purged f' = fo_purged f"
      "sm_counter f' = sm_counter f" "sm_present f' = sm_present f" "sm_item f' = sm_item f" "sm_descs f' = sm_descs f" "sm_busy f' = sm_busy f"
      "fo_next f' = fo_next f" "fo_send f' = fo_send f" "fo_sent f' = fo_sent f"
    and more: "fo_no_more f \<Longrightarrow> fo_no_more f'" and r: "recv_ok xs f'"
    and e: "ended f' \<Longrightarrow> \<not> ended f \<Longrightarrow> length (fo_ids f) = length xs \<or> (\<forall>i<fo_channels f. gone (fo_send f i))"
  shows "fanout_ok ok view xs f'"
proof -
  have "stored_ok ok view xs f'" using inv by (simp add: fanout_ok_def stored_ok_def quiet_container_def same)
  moreover have "send_ok ok view xs f' j" if "j < fo_channels f'" for j
    by (rule send_ok_frame [of ok view xs f]) (use inv that more in \<open>auto simp: same fanout_ok_def\<close>)
  moreover have "ended f' \<longrightarrow> length (fo_ids f') = length xs \<or> (\<forall>i<fo_channels f'. gone (fo_send f' i))"
    using inv e unfolding fanout_ok_def same by blast
  ultimately show ?thesis using r by (simp add: fanout_ok_def)
qed

lemma low_same: "fo_channels f' = fo_channels f \<Longrightarrow> fo_ids f' = fo_ids f \<Longrightarrow> fo_next f' = fo_next f \<Longrightarrow> low f' l = low f l"
  by (simp add: low_def)

lemma recv_ok_same:
  assumes "fo_channels f' = fo_channels f" "fo_ids f' = fo_ids f" "fo_next f' = fo_next f" "fo_recv f' = fo_recv f"
    "fo_input f' = fo_input f" "fo_no_more f' = fo_no_more f"
  shows "recv_ok xs f' = recv_ok xs f"
proof -
  have "low f' l = low f l" for l by (rule low_same [OF assms(1-3)])
  then show ?thesis by (cases "fo_recv f") (simp_all add: recv_ok_def Let_def assms)
qed

lemma recv_request_ok:
  assumes inv: "fanout_ok ok view xs f" and r: "fo_recv f = Requesting lo hi"
  shows "fanout_ok ok view xs (recv_turn f)"
proof -
  have R: "fo_input f = drop (length (fo_ids f)) xs" "\<not> fo_no_more f" "lo = None \<longleftrightarrow> hi = None" "low f lo"
    using inv r by (simp_all add: fanout_ok_def recv_ok_def Let_def)
  obtain ready l h where d: "data_requested lo hi f = (ready, l, h)" by (metis surj_pair)
  note D = data_requested_low [OF inv R(4,3) d]
  consider "\<not> ready" "recv_turn f = f\<lparr>fo_recv := Requesting l h\<rparr>"
    | "ready" "l = None" "recv_turn f = f\<lparr>fo_recv := Recv_Draining\<rparr>"
    | "ready" "l \<noteq> None" "recv_turn f = f\<lparr>fo_recv := Receiving l\<rparr>"
    using r d D(2) by (auto simp: recv_turn_def)
  then show ?thesis
  proof cases
    case 1
    show ?thesis unfolding 1(2) by (rule recv_frame [OF inv])
        (use R D(1,2) r in \<open>auto simp: recv_ok_def Let_def ended_def low_def\<close>)
  next
    case 2
    have "gone (fo_send f i)" if "i < fo_channels f" for i
    proof -
      have "send_ok ok view xs f i" "fo_next f i = None" using inv D(3) [OF 2(2)] that by (auto simp: fanout_ok_def)
      then show ?thesis using R(2) by (cases "fo_send f i") (auto simp: send_ok_def Let_def)
    qed
    then show ?thesis unfolding 2(3) by (intro recv_frame [OF inv]) (use R in \<open>auto simp: recv_ok_def Let_def\<close>)
  next
    case 3
    show ?thesis unfolding 3(3) by (rule recv_frame [OF inv])
        (use R D(1) 3 r in \<open>auto simp: recv_ok_def Let_def ended_def low_def\<close>)
  qed
qed

lemma recv_receive_ok:
  assumes inv: "fanout_ok ok view xs f" and r: "fo_recv f = Receiving l" and full: "\<forall>m\<in>set xs. \<not> msg_empty m"
  shows "fanout_ok ok view xs (recv_turn f)"
proof -
  let ?n = "length (fo_ids f)"
  have R: "fo_input f = drop ?n xs" "\<not> fo_no_more f" "l \<noteq> None" "low f l" using inv r by (simp_all add: fanout_ok_def recv_ok_def Let_def)
  have L: "?n \<le> length xs" using inv by (simp add: fanout_ok_def stored_ok_def)
  show ?thesis
  proof (cases "fo_input f")
    case Nil
    then have step: "recv_turn f = f\<lparr>fo_recv := Storing l empty_message\<rparr>" using r by (simp add: recv_turn_def)
    show ?thesis unfolding step by (rule recv_frame [OF inv])
        (use R L Nil r in \<open>auto simp: recv_ok_def Let_def ended_def low_def msg_empty_def empty_message_def\<close>)
  next
    case (Cons m ms)
    then have n: "?n < length xs" using R(1) by (cases "?n < length xs") auto
    then have m: "m = xs ! ?n" "ms = drop (Suc ?n) xs" using R(1) Cons by (simp_all add: Cons_nth_drop_Suc [symmetric])
    have step: "recv_turn f = f\<lparr>fo_recv := Storing l m, fo_input := ms\<rparr>" using r Cons by (simp add: recv_turn_def)
    have "\<not> msg_empty m" using full m(1) n by simp
    then show ?thesis unfolding step by (intro recv_frame [OF inv])
        (use R n m r in \<open>auto simp: recv_ok_def Let_def ended_def low_def\<close>)
  qed
qed

lemma recv_store_ok:
  assumes inv: "fanout_ok ok view xs f" and r: "fo_recv f = Storing l m" and full: "\<forall>m\<in>set xs. \<exists>p. msg_payload m = Some p \<and> ok p"
  shows "fanout_ok ok view xs (recv_turn f)"
proof -
  let ?n = "length (fo_ids f)"
  have R: "\<not> fo_no_more f" "l \<noteq> None" "low f l"
    "if msg_empty m then ?n = length xs \<and> fo_input f = [] else ?n < length xs \<and> m = xs ! ?n \<and> fo_input f = drop (Suc ?n) xs"
    using inv r by (simp_all add: fanout_ok_def recv_ok_def Let_def)
  have st: "stored_ok ok view xs f" using inv by (simp add: fanout_ok_def)
  show ?thesis
  proof (cases "msg_empty m")
    case True
    then have step: "recv_turn f = f\<lparr>fo_no_more := True, fo_recv := Purging l\<rparr>" using r by (simp add: recv_turn_def)
    show ?thesis unfolding step by (rule recv_frame [OF inv])
        (use R True r in \<open>auto simp: recv_ok_def Let_def low_def\<close>)
  next
    case False
    let ?c = "sm_counter f"
    define f' where "f' = recv_turn f"
    have c: "?n = ?c" using st by (simp add: stored_ok_def)
    have F: "fo_channels f' = fo_channels f" "fo_ids f' = fo_ids f @ [?c]" "fo_purged f' = fo_purged f" "sm_counter f' = Suc ?c"
      "sm_present f' = (sm_present f)(?c := True)" "sm_item f' = (sm_item f)(?c := Some m)" "sm_descs f' = (sm_descs f)(?c := Some (msg_cd m))"
      "sm_busy f' = sm_busy f" "fo_next f' = fo_next f" "fo_send f' = fo_send f" "fo_sent f' = fo_sent f" "fo_no_more f' = fo_no_more f"
      "fo_input f' = fo_input f" "fo_recv f' = Purging l"
      using r False by (simp_all add: f'_def recv_turn_def sm_insert_def Let_def)
    have m: "?n < length xs" "m = xs ! ?n" "fo_input f = drop (Suc ?n) xs" using R(4) False by simp_all
    have "\<exists>p. msg_payload m = Some p \<and> ok p" using full m(1,2) nth_mem by blast
    then have car: "carries ok view (xs ! ?c) m" using m(2) c by (auto simp: carries_def says_def)
    have "stored_ok ok view xs f'"
    proof -
      have "sm_present f' k \<and> sm_descs f' k \<noteq> None \<and> (\<exists>m. sm_item f' k = Some m \<and> carries ok view (xs ! k) m)"
        if "fo_purged f' \<le> k" "k < sm_counter f'" for k
      proof (cases "k = ?c")
        case True
        then show ?thesis using car by (simp add: F)
      next
        case False
        then have "fo_purged f \<le> k" "k < ?c" using that by (simp_all add: F)
        then show ?thesis using st False unfolding stored_ok_def by (simp add: F)
      qed
      then show ?thesis using st m(1) c unfolding stored_ok_def quiet_container_def by (simp add: F)
    qed
    moreover have "recv_ok xs f'" using R(2,3) m low_frame [OF R(3), of f'] by (simp add: recv_ok_def Let_def F)
    moreover have "send_ok ok view xs f' j" if "j < fo_channels f'" for j
      by (rule send_ok_frame [of ok view xs f]) (use inv that R(1) in \<open>auto simp: F fanout_ok_def\<close>)
    moreover have "\<not> ended f'" using R(1) by (simp add: ended_def F)
    ultimately show ?thesis unfolding f'_def [symmetric] by (simp add: fanout_ok_def)
  qed
qed

lemma recv_purge_ok:
  assumes inv: "fanout_ok ok view xs f" and r: "fo_recv f = Purging l"
  shows "fanout_ok ok view xs (recv_turn f)"
proof -
  let ?n = "length (fo_ids f)"
  obtain a where l: "l = Some a" using inv r by (auto simp: fanout_ok_def recv_ok_def Let_def)
  have R: "fo_input f = drop ?n xs" "low f (Some a)" using inv r l by (simp_all add: fanout_ok_def recv_ok_def Let_def)
  have st: "stored_ok ok view xs f" using inv by (simp add: fanout_ok_def)
  show ?thesis
  proof (cases "fo_purged f < a")
    case False
    then have step: "recv_turn f = next_round f" using r l by (simp add: recv_turn_def)
    show ?thesis unfolding step next_round_def by (rule recv_frame [OF inv])
        (use R r in \<open>auto simp: recv_ok_def Let_def low_def ended_def\<close>)
  next
    case True
    let ?p = "fo_purged f"
    have p: "?p < ?n" using True R(2) by (simp add: low_def)
    obtain m where m: "sm_present f ?p" "sm_item f ?p = Some m" "fo_ids f ! ?p = ?p" using stored_item [OF st le_refl p] by blast
    define f' where "f' = recv_turn f"
    have F: "fo_channels f' = fo_channels f" "fo_ids f' = fo_ids f" "fo_purged f' = Suc ?p" "sm_counter f' = sm_counter f"
      "sm_present f' = (sm_present f)(?p := False)" "sm_item f' = (sm_item f)(?p := None)" "sm_descs f' = (sm_descs f)(?p := None)"
      "sm_busy f' = sm_busy f" "fo_next f' = fo_next f" "fo_send f' = fo_send f" "fo_sent f' = fo_sent f" "fo_no_more f' = fo_no_more f"
      "fo_input f' = fo_input f" "fo_recv f' = Purging (Some a)"
      using r l True p m by (simp_all add: f'_def recv_turn_def sm_extract_def act_bind_def sm_extract_find_def sm_extract_take_def)
    have c: "?n = sm_counter f" using st by (simp add: stored_ok_def)
    have low: "a \<le> k" if "i < fo_channels f" "fo_next f i = Some k" for i k using R(2) that by (simp add: low_def)
    have "stored_ok ok view xs f'"
    proof -
      have "Suc ?p \<le> k" if "i < fo_channels f" "fo_next f i = Some k" for i k using low [OF that] True by simp
      moreover have "sm_present f k \<and> sm_descs f k \<noteq> None \<and> (\<exists>m. sm_item f k = Some m \<and> carries ok view (xs ! k) m)"
        if "Suc ?p \<le> k" "k < sm_counter f" for k
        using st that Suc_leD unfolding stored_ok_def by blast
      ultimately show ?thesis using st p c unfolding stored_ok_def quiet_container_def by (simp add: F)
    qed
    moreover have "recv_ok xs f'" using R by (simp add: recv_ok_def Let_def F low_def)
    moreover have "send_ok ok view xs f' j" if "j < fo_channels f'" for j
      by (rule send_ok_frame [of ok view xs f]) (use inv that in \<open>auto simp: F fanout_ok_def\<close>)
    moreover have "ended f' \<longrightarrow> length (fo_ids f') = length xs \<or> (\<forall>i<fo_channels f'. gone (fo_send f' i))"
      using inv r unfolding fanout_ok_def ended_def F by auto
    ultimately show ?thesis unfolding f'_def [symmetric] by (simp add: fanout_ok_def)
  qed
qed

lemma recv_turn_ok:
  assumes inv: "fanout_ok ok view xs f" and full: "\<forall>m\<in>set xs. \<exists>p. msg_payload m = Some p \<and> ok p"
  shows "fanout_ok ok view xs (recv_turn f)"
proof (cases "fo_recv f")
  case (Receiving l)
  have "\<forall>m\<in>set xs. \<not> msg_empty m" using full by (auto simp: msg_empty_def)
  then show ?thesis using recv_receive_ok [OF inv Receiving] by blast
next
  case (Storing l m)
  then show ?thesis using recv_store_ok [OF inv _ full] by blast
next
  case Recv_Draining
  have R: "fo_input f = drop (length (fo_ids f)) xs" using inv Recv_Draining by (simp add: fanout_ok_def recv_ok_def Let_def)
  have step: "recv_turn f = f\<lparr>fo_recv := Recv_Done, fo_no_more := True\<rparr>" using Recv_Draining by (simp add: recv_turn_def)
  show ?thesis unfolding step by (rule recv_frame [OF inv]) (use R Recv_Draining in \<open>auto simp: recv_ok_def Let_def ended_def\<close>)
qed (use recv_request_ok [OF inv] recv_purge_ok [OF inv] inv in \<open>simp_all add: recv_turn_def\<close>)

context message_callbacks
begin

lemma fanout_step_ok:
  assumes inv: "fanout_ok ok view xs f" and full: "\<forall>m\<in>set xs. \<exists>p. msg_payload m = Some p \<and> ok p"
  shows "fanout_ok ok view xs (fanout_step cbs e f)"
proof (cases e)
  case Recv_Turn
  then show ?thesis using recv_turn_ok [OF inv full] by simp
next
  case (Send_Turn i accepted)
  then show ?thesis using send_turn_ok [OF inv] inv by simp
next
  case (Spill_Message mid)
  have q: "quiet_container f" using inv by (simp add: fanout_ok_def stored_ok_def)
  obtain b item descs busy where s: "snd (sm_spill cbs mid f) = f\<lparr>sm_br := b, sm_item := item, sm_descs := descs, sm_busy := busy\<rparr>"
    and nb: "\<forall>k. \<not> busy k" and it: "\<And>k m. sm_item f k = Some m \<Longrightarrow> \<exists>m'. item k = Some m' \<and> (\<forall>m0. carries ok view m0 m \<longrightarrow> carries ok view m0 m')"
    and de: "\<And>k. (descs k = None) = (sm_descs f k = None)"
    using sm_spill_effect [OF q, of mid] by blast
  let ?f = "f\<lparr>sm_br := b, sm_item := item, sm_descs := descs, sm_busy := busy\<rparr>"
  have st: "stored_ok ok view xs f" using inv by (simp add: fanout_ok_def)
  have "sm_present ?f k \<and> sm_descs ?f k \<noteq> None \<and> (\<exists>m. sm_item ?f k = Some m \<and> carries ok view (xs ! k) m)"
    if "fo_purged ?f \<le> k" "k < sm_counter ?f" for k
  proof -
    have "sm_present f k" "sm_descs f k \<noteq> None" "\<exists>m. sm_item f k = Some m \<and> carries ok view (xs ! k) m"
      using st that unfolding stored_ok_def by simp_all
    then show ?thesis using it [of k] de [of k] by auto
  qed
  then have "stored_ok ok view xs ?f" using st nb unfolding stored_ok_def quiet_container_def by simp
  moreover have "recv_ok xs ?f" using inv recv_ok_same [of ?f f xs] by (simp add: fanout_ok_def)
  moreover have "send_ok ok view xs ?f j" if "j < fo_channels ?f" for j
    by (rule send_ok_frame [of ok view xs f]) (use inv that in \<open>auto simp: fanout_ok_def\<close>)
  ultimately have "fanout_ok ok view xs ?f" using inv by (simp add: fanout_ok_def ended_def)
  then show ?thesis using Spill_Message s by simp
next
  case (Memory_Use g)
  have "fanout_ok ok view xs (f\<lparr>sm_br := g (sm_br f)\<rparr>)"
    by (rule recv_frame [OF inv]) (use inv recv_ok_same [of "f\<lparr>sm_br := g (sm_br f)\<rparr>" f xs] in \<open>auto simp: fanout_ok_def ended_def\<close>)
  then show ?thesis using Memory_Use by simp
qed

lemma fanout_run_ok:
  "fanout_ok ok view xs f \<Longrightarrow> \<forall>m\<in>set xs. \<exists>p. msg_payload m = Some p \<and> ok p \<Longrightarrow> fanout_ok ok view xs (fanout_run cbs es f)"
  by (induction es arbitrary: f) (simp_all add: fanout_step_ok)

end


context message_callbacks
begin

lemma send_turn_channels: "quiet_container f \<Longrightarrow> fo_channels (send_turn cbs i accepted f) = fo_channels f"
proof -
  assume q: "quiet_container f"
  have c: "fo_channels f' = fo_channels f" if x: "copy_for_sending cbs mid f = (out, f')" for mid out f'
  proof -
    have "f' = snd (copy_for_sending cbs mid f)" using x by simp
    then show ?thesis using copy_for_sending_effect(1) [OF q, of mid] by auto
  qed
  show ?thesis
    by (cases "fo_send f i")
      (auto simp: send_turn_def leave_def set_fields after_update_def Let_def dest: c split: option.splits list.splits prod.splits sum.splits)
qed

lemma fanout_channels:
  "fanout_ok ok view xs f \<Longrightarrow> \<forall>m\<in>set xs. \<exists>p. msg_payload m = Some p \<and> ok p \<Longrightarrow> fo_channels (fanout_run cbs es f) = fo_channels f"
proof (induction es arbitrary: f)
  case (Cons e es)
  have q: "quiet_container f" using Cons.prems(1) by (simp add: fanout_ok_def stored_ok_def)
  have "fo_channels (fanout_step cbs e f) = fo_channels f"
  proof (cases e)
    case Recv_Turn
    then show ?thesis
      by (auto simp: recv_turn_def next_round_def sm_insert_def Let_def sm_extract_def act_bind_def sm_extract_find_def sm_extract_take_def
          split: recv_task.splits prod.splits list.splits sum.splits option.splits)
  next
    case (Send_Turn i accepted)
    then show ?thesis using send_turn_channels [OF q] by simp
  next
    case (Spill_Message mid)
    then show ?thesis using sm_spill_effect [OF q, of mid] by auto
  qed simp
  then show ?case using Cons.IH [OF fanout_step_ok [OF Cons.prems(1,2)] Cons.prems(2)] by simp
qed simp

end

section \<open>Properties\<close>

text \<open>Property C7: Whatever the order in which the tasks run, with spills in between and channels that shut down at any time, each output channel is given a prefix of the input messages, in order and with their contents, and all of them when its task ends normally. A sending task has copied only identifiers of messages that are still stored, and the receiving task never fails.\<close>

theorem fanout_in_order:
  assumes "message_callbacks cbs ok view desc" and "\<forall>m\<in>set xs. \<exists>p. msg_payload m = Some p \<and> ok p"
    and f: "f = fanout_run cbs es (new_fanout b n xs)" and i: "i < n"
  shows "list_all2 (says ok view) (take (length (fo_sent f i)) xs) (fo_sent f i) \<and>
    (fo_send f i = Send_Done \<longrightarrow> length (fo_sent f i) = length xs) \<and>
    (\<forall>mids available. fo_send f i = Sending mids available \<longrightarrow> (\<forall>mid\<in>set mids. sm_present f mid)) \<and>
    (\<forall>e. fo_recv f \<noteq> Recv_Failed e)"
proof -
  have inv: "fanout_ok ok view xs f" unfolding f by (rule message_callbacks.fanout_run_ok [OF assms(1) new_fanout_ok assms(2)])
  have "fo_channels f = n" unfolding f message_callbacks.fanout_channels [OF assms(1) new_fanout_ok assms(2)] by (simp add: new_fanout_def)
  then have i: "i < fo_channels f" using i by simp
  have st: "stored_ok ok view xs f" and S: "send_ok ok view xs f i" and r: "recv_ok xs f"
    and e: "ended f \<Longrightarrow> length (fo_ids f) = length xs \<or> gone (fo_send f i)" using inv i by (auto simp: fanout_ok_def)
  have "length (fo_sent f i) = length xs" if "fo_send f i = Send_Done" using S e that by (auto simp: send_ok_def Let_def ended_def)
  moreover have "sm_present f mid" if m: "fo_send f i = Sending mids available" "mid \<in> set mids" for mids available mid
  proof -
    obtain k where k: "fo_next f i = Some k" "k \<le> mid" "mid < length (fo_ids f)" using S m by (auto simp: send_ok_def Let_def)
    then have "fo_purged f \<le> mid" using st i unfolding stored_ok_def by (meson le_trans)
    from stored_item [OF st this k(3)] show ?thesis by blast
  qed
  moreover have "fo_recv f \<noteq> Recv_Failed x" for x using r by (auto simp: recv_ok_def Let_def)
  ultimately show ?thesis using S by (auto simp: send_ok_def Let_def)
qed

text \<open>Messages that are numbers, to follow the tasks alone.\<close>

definition number_desc :: "nat \<Rightarrow> content_desc" where
  "number_desc k = \<lparr>content_sizes = (\<lambda>_. 0), cd_spillable = True\<rparr>"

definition number_message :: "nat \<Rightarrow> nat stream_message" where
  "number_message k = \<lparr>msg_seq = k, msg_payload = Some k, msg_cd = number_desc k\<rparr>"

definition number_callbacks :: "nat stream_message \<Rightarrow> nat callbacks" where
  "number_callbacks m = \<lparr>cb_copy = Some (\<lambda>m st. (case msg_payload m of None \<Rightarrow> (Inl Invalid_Argument, st) | Some k \<Rightarrow> (Inr (m\<lparr>msg_cd := number_desc k\<rparr>), st))),
     cb_move = None\<rparr>"

lemma number_contract: "message_callbacks number_callbacks (\<lambda>_. True) id number_desc"
  by unfold_locales (auto simp: number_callbacks_def)

text \<open>The first channel takes both messages, the second one refuses the second.\<close>

definition example_fanout :: "fanout_event list" where
  "example_fanout = replicate 4 Recv_Turn @ replicate 5 (Send_Turn 0 True) @ replicate 5 (Send_Turn 1 True) @
     replicate 4 Recv_Turn @ replicate 5 (Send_Turn 0 True) @ Send_Turn 1 True # Send_Turn 1 True # replicate 3 (Send_Turn 1 False) @
     replicate 7 Recv_Turn @ replicate 3 (Send_Turn 0 True)"

lemma example_fanout_outcome:
  "let f = fanout_run number_callbacks example_fanout (new_fanout example_br 2 [number_message 0, number_message 1]) in
     fo_send f 0 = Send_Done \<and> map msg_seq (fo_sent f 1) = [0] \<and> fo_send f 1 = Send_Refused \<and> fo_recv f = Recv_Done"
  by code_simp

theorem fanout_in_order_witness:
  "list_all2 (says (\<lambda>_. True) id) [number_message 0, number_message 1]
     (fo_sent (fanout_run number_callbacks example_fanout (new_fanout example_br 2 [number_message 0, number_message 1])) 0)"
proof -
  let ?f = "fanout_run number_callbacks example_fanout (new_fanout example_br 2 [number_message 0, number_message 1])"
  have a: "\<forall>m\<in>set [number_message 0, number_message 1]. \<exists>p. msg_payload m = Some p \<and> True" by (simp add: number_message_def)
  have d: "fo_send ?f 0 = Send_Done" using example_fanout_outcome by (simp add: Let_def)
  note r = fanout_in_order [OF number_contract a refl zero_less_numeral [of "num.Bit0 num.One"], where b = example_br and es = example_fanout]
  have "list_all2 (says (\<lambda>_. True) id) (take (length (fo_sent ?f 0)) [number_message 0, number_message 1]) (fo_sent ?f 0)" by (rule r [THEN conjunct1])
  moreover have "length (fo_sent ?f 0) = length [number_message 0, number_message 1]" by (rule r [THEN conjunct2, THEN conjunct1, rule_format, OF d])
  ultimately show ?thesis by simp
qed

text \<open>
  Two schedules. When the input has ended, the messages that all channels have taken are no longer purged: they stay
  in the container. And the messages to keep are counted when the receiving task looks, not when it acts, so that
  it takes another message from the input after all channels have refused.
\<close>

definition all_taken :: "fanout_event list" where
  "all_taken = replicate 4 Recv_Turn @ replicate 5 (Send_Turn 0 True) @ replicate 4 Recv_Turn @ replicate 5 (Send_Turn 0 True) @
     replicate 5 Recv_Turn @ replicate 5 (Send_Turn 0 True) @ replicate 20 (Send_Turn 1 True) @ replicate 5 (Send_Turn 0 True)"

lemma taken_messages_stay:
  "let f = fanout_run number_callbacks all_taken (new_fanout example_br 2 [number_message 0, number_message 1]) in
     (\<forall>i<2. fo_send f i = Send_Done \<and> map msg_seq (fo_sent f i) = [0, 1]) \<and> fo_recv f = Recv_Done \<and> sm_present f 0 \<and> sm_present f 1"
  by code_simp

definition all_refused :: "fanout_event list" where
  "all_refused = replicate 5 Recv_Turn @ replicate 2 (Send_Turn 0 True) @ replicate 2 (Send_Turn 1 True) @
     [Send_Turn 0 False, Send_Turn 1 False, Recv_Turn]"

lemma receives_after_refusals:
  "let f = fanout_run number_callbacks all_refused (new_fanout example_br 2 [number_message 0, number_message 1]) in
     (\<forall>i<2. fo_send f i = Send_Refused) \<and> fo_recv f = Receiving (Some 0)"
  by code_simp

end
