(* ===== verification/Channels.thy ===== *)
theory Channels
  imports Spillable_Messages
begin

text \<open>
  Channels, \<^verbatim>\<open>streaming/core/channel.cpp\<close>, whose messages stay in the container while their identifiers travel, and the
  lineariser, \<^verbatim>\<open>streaming/core/lineariser.hpp\<close>, which merges the queues of several producers round robin.
\<close>

section \<open>Channels\<close>

text \<open>The counters wrap at their widths.\<close>

record channel_metrics =
  cm_send_bytes :: "mem_type \<Rightarrow> u64"
  cm_recv_bytes :: "mem_type \<Rightarrow> u64"
  cm_messages :: u32
  cm_spillable :: u32

definition record_send :: "'p stream_message \<Rightarrow> channel_metrics \<Rightarrow> channel_metrics" where
  "record_send m cm =
     cm\<lparr>cm_messages := cm_messages cm + 1, cm_spillable := cm_spillable cm + (if cd_spillable (msg_cd m) then 1 else 0),
        cm_send_bytes := (\<lambda>mt. cm_send_bytes cm mt + word_of_nat (content_sizes (msg_cd m) mt))\<rparr>"

definition record_receive :: "'p stream_message \<Rightarrow> channel_metrics \<Rightarrow> channel_metrics" where
  "record_receive m cm = cm\<lparr>cm_recv_bytes := (\<lambda>mt. cm_recv_bytes cm mt + word_of_nat (content_sizes (msg_cd m) mt))\<rparr>"

text \<open>
  A channel over the container, with the identifiers in its ring buffer. Whether the buffer takes an identifier is
  an input: it does not after a shutdown. An empty ring buffer answers a receive only when it is shut down.
\<close>

record 'p channel = "'p spillable_messages" +
  ch_ring :: "nat list"
  ch_metadata :: "'p stream_message list"
  ch_metrics :: channel_metrics

definition channel_send :: "bool \<Rightarrow> 'p stream_message \<Rightarrow> ('p channel, bool) act" where
  "channel_send produced m s =
     (if msg_empty m then (Inl Logic_Error, s)
      else case sm_insert m (s\<lparr>ch_metrics := record_send m (ch_metrics s)\<rparr>) of
             (mid, s1) \<Rightarrow> (Inr produced, if produced then s1\<lparr>ch_ring := ch_ring s1 @ [mid]\<rparr> else s1))"

definition channel_receive :: "('p channel, 'p stream_message) act" where
  "channel_receive s =
     (case ch_ring s of
        [] \<Rightarrow> (Inr empty_message, s)
      | mid # mids \<Rightarrow>
          act_bind (sm_extract mid) (\<lambda>m s. (Inr m, s\<lparr>ch_metrics := record_receive m (ch_metrics s)\<rparr>)) (s\<lparr>ch_ring := mids\<rparr>))"

text \<open>The queue of metadata messages, which are not in the container.\<close>

definition channel_send_metadata :: "bool \<Rightarrow> 'p stream_message \<Rightarrow> ('p channel, bool) act" where
  "channel_send_metadata produced m s =
     (if msg_empty m then (Inl Logic_Error, s)
      else (Inr produced, if produced then s\<lparr>ch_metadata := ch_metadata s @ [m]\<rparr> else s))"

definition channel_receive_metadata :: "'p channel \<Rightarrow> 'p stream_message \<times> 'p channel" where
  "channel_receive_metadata s = (case ch_metadata s of [] \<Rightarrow> (empty_message, s) | m # ms \<Rightarrow> (m, s\<lparr>ch_metadata := ms\<rparr>))"

lemma channel_roundtrip:
  assumes "\<not> msg_empty m" and "ch_ring s = []" and "channel_send True m s = (out, s1)"
  shows "out = Inr True \<and> (\<exists>s2. channel_receive s1 = (Inr m, s2) \<and> ch_ring s2 = [] \<and> \<not> sm_present s2 (sm_counter s))"
  using assms
  by (auto simp: channel_send_def sm_insert_def Let_def channel_receive_def sm_extract_def act_bind_def sm_extract_find_def sm_extract_take_def)

text \<open>A refused message stays in the container, and no channel will ask for it.\<close>

lemma refused_send_stays:
  assumes "\<not> msg_empty m" and "channel_send False m s = (out, s1)"
  shows "out = Inr False \<and> sm_present s1 (sm_counter s) \<and> sm_item s1 (sm_counter s) = Some m \<and> ch_ring s1 = ch_ring s"
  using assms by (auto simp: channel_send_def sm_insert_def Let_def)

section \<open>The lineariser\<close>

text \<open>
  A queue holds what its producer sends before it shuts it down; \<open>open\<close> is how many messages the output channel
  takes before it is shut down. A pass polls each queue once: what remains of the queues, the messages sent, what
  is left of \<open>open\<close>, and whether the output has refused one.
\<close>

fun linearise_pass :: "nat \<Rightarrow> 'm list list \<Rightarrow> 'm list list \<times> 'm list \<times> nat \<times> bool" where
  "linearise_pass n [] = ([], [], n, False)"
| "linearise_pass n ([] # qs) = linearise_pass n qs"
| "linearise_pass n ((m # ms) # qs) =
     (if n = 0 then (ms # qs, [], 0, True)
      else case linearise_pass (n - 1) qs of (qs', sent, n', refused) \<Rightarrow> (ms # qs', m # sent, n', refused))"

lemma linearise_pass_size:
  "linearise_pass n qs = (qs', sent, n', refused) \<Longrightarrow> qs \<noteq> [] \<Longrightarrow> length qs' + length (concat qs') < length qs + length (concat qs)"
proof (induction n qs arbitrary: qs' sent n' rule: linearise_pass.induct)
  case (2 n qs)
  then show ?case by (cases "qs = []") fastforce+
next
  case (3 n m ms qs)
  show ?case
  proof (cases "n = 0")
    case False
    obtain q1 s1 k1 r1 where 0: "linearise_pass (n - 1) qs = (q1, s1, k1, r1)" by (metis surj_pair)
    then have 1: "linearise_pass (n - 1) qs = (q1, s1, k1, refused)" "qs' = ms # q1" using 3(2) False by simp_all
    then show ?thesis using 3(1) [OF False 1(1)] by (cases "qs = []") auto
  qed (use 3(2) in auto)
qed simp

function linearise :: "nat \<Rightarrow> 'm list list \<Rightarrow> 'm list" where
  "linearise n qs =
     (if qs = [] then []
      else case linearise_pass n qs of (qs', sent, n', refused) \<Rightarrow> if refused then sent else sent @ linearise n' qs')"
  by pat_completeness auto
termination
  by (relation "measure (\<lambda>(_, qs). length qs + length (concat qs))") (auto dest: linearise_pass_size [OF sym])

declare linearise.simps [simp del]

lemma linearise_pass_all:
  "length (filter (\<lambda>q. q \<noteq> []) qs) \<le> n \<Longrightarrow>
   linearise_pass n qs = (let ne = filter (\<lambda>q. q \<noteq> []) qs in (map tl ne, map hd ne, n - length ne, False))"
  by (induction n qs rule: linearise_pass.induct) (auto simp: Let_def)

lemma linearise_pass_refused:
  "n < length (filter (\<lambda>q. q \<noteq> []) qs) \<Longrightarrow>
   \<exists>qs'. linearise_pass n qs = (qs', take n (map hd (filter (\<lambda>q. q \<noteq> []) qs)), 0, True)"
proof (induction n qs rule: linearise_pass.induct)
  case (3 n m ms qs)
  then show ?case by (cases n) auto
qed auto

text \<open>What producer \<open>i\<close> of \<open>p\<close> still sends from message \<open>s\<close> on, of the messages below \<open>k\<close>.\<close>

definition stride :: "nat \<Rightarrow> nat \<Rightarrow> nat \<Rightarrow> nat list" where
  "stride p k a = map (\<lambda>j. a + j * p) [0..<(k - a + p - 1) div p]"

definition producers :: "(nat \<Rightarrow> 'm) \<Rightarrow> nat \<Rightarrow> nat \<Rightarrow> nat \<Rightarrow> 'm list list" where
  "producers msg p k s = map (\<lambda>i. map msg (stride p k (s + i))) [0..<p]"

lemma stride_unfold: "p > 0 \<Longrightarrow> stride p k a = (if k \<le> a then [] else a # stride p k (a + p))"
proof -
  assume p: "p > 0"
  show ?thesis
  proof (cases "k \<le> a")
    case True
    then show ?thesis using p by (simp add: stride_def)
  next
    case False
    have "k - a + p - 1 = p + (k - a - 1)" using False by simp
    then have "(k - a + p - 1) div p = (p + (k - a - 1)) div p" by (rule arg_cong)
    also have "\<dots> = (k - a - 1) div p + 1" by (rule div_add_self1) (use p in simp)
    finally have 0: "(k - a + p - 1) div p = Suc ((k - a - 1) div p)" by simp
    have "(k - (a + p) + p - 1) div p = (k - a - 1) div p"
    proof (cases "k \<le> a + p")
      case True
      then have "(k - a - 1) div p = 0" using p False by (simp add: div_eq_0_iff)
      then show ?thesis using True p by simp
    next
      case F2: False
      then have "k - (a + p) + p - 1 = k - a - 1" by simp
      then show ?thesis by simp
    qed
    with 0 have e: "(k - a + p - 1) div p = Suc ((k - (a + p) + p - 1) div p)" by simp
    show ?thesis unfolding stride_def e using False by (simp add: upt_conv_Cons map_Suc_upt [symmetric] algebra_simps del: upt_Suc)
  qed
qed

lemma filter_producers:
  assumes "p > 0"
  shows "filter (\<lambda>q. q \<noteq> []) (producers msg p k s) = map (\<lambda>i. map msg (stride p k (s + i))) [0..<min p (k - s)]"
proof -
  have n: "stride p k a = [] \<longleftrightarrow> k \<le> a" for a using stride_unfold [OF assms, of k a] by auto
  have f: "filter (\<lambda>i. \<not> k \<le> s + i) [0..<p] = [0..<min p (k - s)]"
  proof -
    have "[0..<p] = [0..<min p (k - s)] @ [min p (k - s)..<p]" using upt_add_eq_append [of 0 "min p (k - s)" "p - min p (k - s)"] by simp
    moreover have "filter (\<lambda>i. \<not> k \<le> s + i) [0..<min p (k - s)] = [0..<min p (k - s)]" by (auto simp: filter_id_conv)
    moreover have "filter (\<lambda>i. \<not> k \<le> s + i) [min p (k - s)..<p] = []" by (auto simp: filter_empty_conv)
    ultimately show ?thesis by simp
  qed
  show ?thesis by (simp add: producers_def filter_map o_def n f)
qed

lemma linearise_empty: "linearise n (replicate m ([] :: 'm list)) = []"
proof -
  have 0: "linearise n ([] :: 'm list list) = []" by (subst linearise.simps) simp
  have "linearise_pass n (replicate m ([] :: 'm list)) = ([], [], n, False)" by (induction m) simp_all
  then show ?thesis by (subst linearise.simps) (simp add: 0)
qed

text \<open>Producers that keep to the round robin are merged into one increasing sequence.\<close>

lemma linearise_from:
  assumes p: "p > 0"
  shows "linearise n (producers msg p k s) = take n (map msg [s..<k])"
proof (induction "k - s" arbitrary: n s rule: less_induct)
  case less
  let ?m = "min p (k - s)"
  let ?qs = "producers msg p k s"
  have f: "filter (\<lambda>q. q \<noteq> []) ?qs = map (\<lambda>i. map msg (stride p k (s + i))) [0..<?m]" by (rule filter_producers [OF p])
  have st: "stride p k (s + i) = (s + i) # stride p k (s + p + i)" if "i < ?m" for i using stride_unfold [OF p, of k "s + i"] that by (auto simp: ac_simps)
  have hd: "map hd (filter (\<lambda>q. q \<noteq> []) ?qs) = map msg [s..<s + ?m]"
    unfolding f by (rule nth_equalityI) (simp_all add: st)
  have tl: "map tl (filter (\<lambda>q. q \<noteq> []) ?qs) = map (\<lambda>i. map msg (stride p k (s + p + i))) [0..<?m]"
    unfolding f by (rule nth_equalityI) (simp_all add: st)
  have ne: "?qs \<noteq> []" using p by (simp add: producers_def)
  have len: "length (filter (\<lambda>q. q \<noteq> []) ?qs) = ?m" by (simp add: f)
  show ?case
  proof (cases "?m \<le> n")
    case False
    then have lt: "n < ?m" by (simp only: not_le)
    then obtain qs' where "linearise_pass n ?qs = (qs', take n (map msg [s..<s + ?m]), 0, True)"
      using linearise_pass_refused [of n ?qs, unfolded len hd] by blast
    then have "linearise n ?qs = take n (map msg [s..<s + ?m])" using ne by (subst linearise.simps) simp
    also have "\<dots> = take n (map msg [s..<k])"
    proof -
      have "s + n \<le> k" "s + n \<le> s + ?m" using lt by linarith+
      then show ?thesis by (simp add: take_map del: min_less_iff_conj)
    qed
    finally show ?thesis .
  next
    case True
    have pass: "linearise_pass n ?qs = (map (\<lambda>i. map msg (stride p k (s + p + i))) [0..<?m], map msg [s..<s + ?m], n - ?m, False)"
      using linearise_pass_all [of ?qs n] len hd tl True by (simp add: Let_def)
    have rec: "linearise (n - ?m) (map (\<lambda>i. map msg (stride p k (s + p + i))) [0..<?m]) = take (n - ?m) (map msg [s + ?m..<k])"
    proof (cases "p \<le> k - s")
      case True
      then have "map (\<lambda>i. map msg (stride p k (s + p + i))) [0..<?m] = producers msg p k (s + p)" by (simp add: producers_def)
      moreover have "k - (s + p) < k - s" using p True by simp
      ultimately show ?thesis using less [of "s + p" "n - ?m"] True by simp
    next
      case False
      then have "stride p k (s + p + i) = []" for i using stride_unfold [OF p, of k "s + p + i"] by simp
      then have "map (\<lambda>i. map msg (stride p k (s + p + i))) [0..<?m] = replicate ?m []" by (simp add: map_replicate_const)
      moreover have "s + ?m \<ge> k" using False by simp
      ultimately show ?thesis using linearise_empty [of "n - ?m" ?m] by simp
    qed
    have "linearise n ?qs = map msg [s..<s + ?m] @ take (n - ?m) (map msg [s + ?m..<k])"
      using ne pass rec by (subst linearise.simps) simp
    moreover have "[s..<k] = [s..<s + ?m] @ [s + ?m..<k]"
    proof (cases "s \<le> k")
      case sk: True
      then have "k = s + ?m + (k - (s + ?m))" by simp
      then show ?thesis using upt_add_eq_append [of s "s + ?m" "k - (s + ?m)"] by simp
    qed simp
    ultimately show ?thesis using True by simp
  qed
qed

end
