(* ===== verification/Statistics.thy ===== *)
theory Statistics
  imports Config_Options Scoped_Memory Memory_Types
begin

text \<open>
  Statistics, \<^verbatim>\<open>statistics.cpp\<close> and \<^verbatim>\<open>stream_ordered_timing.cpp\<close>: named statistics and report entries in ordered maps,
  memory recorders, timings that a stream completes later, the lines of the report, JSON, the binary format and
  merging. The locale \<open>front_format\<close> is what a writer and a reader owe each other when the reader takes its item from
  the front of a buffer; it is interpreted for names, statistics and report entries, and carries the round trip.
\<close>

section \<open>Doubles\<close>

text \<open>
  A double is its bit pattern; the operations on doubles are a parameter. \<^verbatim>\<open>std::max\<close> and the default of a
  maximum, minus infinity, are as in the code.
\<close>

type_synonym double = u64

record float_ops =
  f_add :: "double \<Rightarrow> double \<Rightarrow> double"
  f_less :: "double \<Rightarrow> double \<Rightarrow> bool"
  f_of_size :: "nat \<Rightarrow> double"
  f_seconds :: "int \<Rightarrow> double"

definition std_max :: "float_ops \<Rightarrow> double \<Rightarrow> double \<Rightarrow> double" where
  "std_max fo a b = (if f_less fo a b then b else a)"

definition NEGATIVE_INFINITY :: double where
  "NEGATIVE_INFINITY = 0xFFF0000000000000"

section \<open>A statistic\<close>

record stat =
  st_count :: u64
  st_value :: double
  st_max :: double

definition new_stat :: stat where
  "new_stat = \<lparr>st_count = 0, st_value = 0, st_max = NEGATIVE_INFINITY\<rparr>"

definition stat_add :: "float_ops \<Rightarrow> double \<Rightarrow> stat \<Rightarrow> stat" where
  "stat_add fo v s = \<lparr>st_count = st_count s + 1, st_value = f_add fo (st_value s) v, st_max = std_max fo (st_max s) v\<rparr>"

definition stat_merge :: "float_ops \<Rightarrow> stat \<Rightarrow> stat \<Rightarrow> stat" where
  "stat_merge fo s t =
     \<lparr>st_count = st_count s + st_count t, st_value = f_add fo (st_value s) (st_value t), st_max = std_max fo (st_max s) (st_max t)\<rparr>"

definition STAT_SIZE :: nat where
  "STAT_SIZE = 8 + 8 + 8"

definition stat_serialize :: "stat \<Rightarrow> u8 list" where
  "stat_serialize s = enc64 (st_count s) @ enc64 (st_value s) @ enc64 (st_max s)"

definition stat_deserialize :: "u8 list \<Rightarrow> (stat \<times> u8 list) result" where
  "stat_deserialize data =
     res_bind (expects (length data \<ge> STAT_SIZE) Invalid_Argument) (\<lambda>_.
     res_bind (rd64 data 0) (\<lambda>count.
     res_bind (rd64 (drop 8 data) 0) (\<lambda>value.
     res_bind (rd64 (drop 8 (drop 8 data)) 0) (\<lambda>mx.
       Inr (\<lparr>st_count = count, st_value = value, st_max = mx\<rparr>, drop 8 (drop 8 (drop 8 data)))))))"

section \<open>Ordered maps\<close>

text \<open>A \<^verbatim>\<open>std::map\<close> is its entries in the order of the keys. \<open>emplace_key\<close> leaves an existing entry as it is.\<close>

fun emplace_key :: "'k :: linorder \<Rightarrow> 'v \<Rightarrow> ('k \<times> 'v) list \<Rightarrow> ('k \<times> 'v) list" where
  "emplace_key k v [] = [(k, v)]"
| "emplace_key k v ((k', v') # m) =
     (if k < k' then (k, v) # (k', v') # m else if k = k' then (k', v') # m else (k', v') # emplace_key k v m)"

definition change_key :: "'k \<Rightarrow> ('v \<Rightarrow> 'v) \<Rightarrow> ('k \<times> 'v) list \<Rightarrow> ('k \<times> 'v) list" where
  "change_key k f m = map (\<lambda>(k', v). (k', if k' = k then f v else v)) m"

definition ordered_map :: "('k :: linorder \<times> 'v) list \<Rightarrow> bool" where
  "ordered_map m \<longleftrightarrow> sorted (map fst m) \<and> distinct (map fst m)"

lemma emplace_key_keys: "set (map fst (emplace_key k v m)) = insert k (set (map fst m))"
  by (induction k v m rule: emplace_key.induct) auto

lemma emplace_key_ordered [intro]: "ordered_map m \<Longrightarrow> ordered_map (emplace_key k v m)"
proof (induction k v m rule: emplace_key.induct)
  case (2 k v k' v' m)
  show ?case
  proof (cases "k' < k")
    case True
    have "ordered_map (emplace_key k v m)" using 2 True by (auto simp: ordered_map_def)
    moreover have "set (map fst (emplace_key k v m)) = insert k (set (map fst m))" by (rule emplace_key_keys)
    ultimately show ?thesis using True 2(2) by (auto simp: ordered_map_def)
  next
    case False
    then show ?thesis using 2(2) by (force simp: ordered_map_def)
  qed
qed (simp add: ordered_map_def)

lemma map_of_emplace_key:
  "ordered_map m \<Longrightarrow> map_of (emplace_key k v m) = (case map_of m k of None \<Rightarrow> (map_of m)(k \<mapsto> v) | Some _ \<Rightarrow> map_of m)"
proof (induction k v m rule: emplace_key.induct)
  case (2 k v k' v' m)
  have o: "ordered_map m" "\<forall>x\<in>set (map fst m). k' < x" using 2(2) by (auto simp: ordered_map_def less_le)
  consider "k < k'" | "k = k'" | "k' < k" by (rule linorder_cases)
  then show ?case
  proof cases
    case 1
    then have "k \<notin> set (map fst m)" using o(2) by (metis less_asym)
    then have "map_of m k = None" by (simp add: map_of_eq_None_iff)
    then show ?thesis using 1 by (auto simp: fun_eq_iff)
  next
    case 3
    then have "map_of (emplace_key k v m) = (case map_of m k of None \<Rightarrow> (map_of m)(k \<mapsto> v) | Some _ \<Rightarrow> map_of m)" using 2(1) o(1) by simp
    then show ?thesis using 3 by (auto simp: fun_eq_iff split: option.split)
  qed simp
qed simp

lemma change_key_keys [simp]: "map fst (change_key k f m) = map fst m"
  by (simp add: change_key_def split_def o_def)

lemma change_key_ordered [simp]: "ordered_map (change_key k f m) \<longleftrightarrow> ordered_map m"
  by (simp add: ordered_map_def)

lemma map_of_change_key: "map_of (change_key k f m) x = (if x = k then map_option f (map_of m x) else map_of m x)"
  by (induction m) (auto simp: change_key_def)

lemma emplace_all_ordered:
  "ordered_map m \<Longrightarrow> foldl (\<lambda>m (k, v). emplace_key k v m) [] m = m"
proof (induction m rule: rev_induct)
  case (snoc x m)
  have e: "ordered_map (m @ [(k, v)]) \<Longrightarrow> emplace_key k v m = m @ [(k, v)]" for k v
    by (induction k v m rule: emplace_key.induct) (force simp: ordered_map_def)+
  have "ordered_map m" using snoc(2) by (auto simp: ordered_map_def sorted_append)
  then show ?case using snoc e [of "fst x" "snd x"] by (cases x) simp
qed simp

lemma emplace_all_wf: "ordered_map m \<Longrightarrow> ordered_map (foldl (\<lambda>m (k, v). emplace_key k v m) m xs)"
  by (induction xs arbitrary: m) auto


section \<open>The statistics object\<close>

datatype formatter = Fmt_Default | Fmt_Bytes | Fmt_Duration | Fmt_Hit_Rate | Fmt_Memory_Throughput | Fmt_Gauge

definition FORMATTERS :: "formatter list" where
  "FORMATTERS = [Fmt_Default, Fmt_Bytes, Fmt_Duration, Fmt_Hit_Rate, Fmt_Memory_Throughput, Fmt_Gauge]"

definition formatter_code :: "formatter \<Rightarrow> u8" where
  "formatter_code f =
     (case f of Fmt_Default \<Rightarrow> 0 | Fmt_Bytes \<Rightarrow> 1 | Fmt_Duration \<Rightarrow> 2 | Fmt_Hit_Rate \<Rightarrow> 3 | Fmt_Memory_Throughput \<Rightarrow> 4 | Fmt_Gauge \<Rightarrow> 5)"

record report_entry =
  re_names :: "string list"
  re_formatter :: formatter

record memory_record =
  mr_scoped :: scoped_record
  mr_global_peak :: int
  mr_num_calls :: u64

definition new_memory_record :: memory_record where
  "new_memory_record = \<lparr>mr_scoped = empty_record, mr_global_peak = 0, mr_num_calls = 0\<rparr>"

record statistics =
  ss_enabled :: bool
  ss_stats :: "(string \<times> stat) list"
  ss_entries :: "(string \<times> report_entry) list"
  ss_records :: "(string \<times> memory_record) list"

definition statistics_create :: "bool \<Rightarrow> statistics" where
  "statistics_create enabled = \<lparr>ss_enabled = enabled, ss_stats = [], ss_entries = [], ss_records = []\<rparr>"

definition statistics_from_options :: "(bool options, statistics) act" where
  "statistics_from_options = act_bind (get_option ''statistics'' 0 parse_bool) (\<lambda>enabled. act_return (statistics_create enabled))"

definition statistics_enable :: "statistics \<Rightarrow> statistics" where
  "statistics_enable s = s\<lparr>ss_enabled := True\<rparr>"

definition statistics_disable :: "statistics \<Rightarrow> statistics" where
  "statistics_disable s = s\<lparr>ss_enabled := False\<rparr>"

definition has_stat :: "string \<Rightarrow> statistics \<Rightarrow> bool" where
  "has_stat name s \<longleftrightarrow> map_of (ss_stats s) name \<noteq> None"

definition get_stat :: "string \<Rightarrow> statistics \<Rightarrow> stat result" where
  "get_stat name s = (case map_of (ss_stats s) name of None \<Rightarrow> Inl Out_Of_Range | Some x \<Rightarrow> Inr x)"

definition add_stat :: "float_ops \<Rightarrow> string \<Rightarrow> double \<Rightarrow> statistics \<Rightarrow> statistics" where
  "add_stat fo name value s =
     (if \<not> ss_enabled s then s
      else s\<lparr>ss_stats := change_key name (stat_add fo value) (emplace_key name new_stat (ss_stats s))\<rparr>)"

definition add_report_entry :: "string \<Rightarrow> string list \<Rightarrow> formatter \<Rightarrow> statistics \<Rightarrow> statistics" where
  "add_report_entry name names f s =
     (if \<not> ss_enabled s then s
      else if map_of (ss_entries s) name \<noteq> None then s
      else s\<lparr>ss_entries := emplace_key name \<lparr>re_names = names, re_formatter = f\<rparr> (ss_entries s)\<rparr>)"

definition add_bytes_stat :: "float_ops \<Rightarrow> string \<Rightarrow> nat \<Rightarrow> statistics \<Rightarrow> statistics" where
  "add_bytes_stat fo name nbytes s = add_report_entry name [name] Fmt_Bytes (add_stat fo name (f_of_size fo nbytes) s)"

definition add_duration_stat :: "float_ops \<Rightarrow> string \<Rightarrow> double \<Rightarrow> statistics \<Rightarrow> statistics" where
  "add_duration_stat fo name seconds s = add_report_entry name [name] Fmt_Duration (add_stat fo name seconds s)"

definition list_stat_names :: "statistics \<Rightarrow> string list" where
  "list_stat_names s = map fst (ss_stats s)"

definition statistics_clear :: "statistics \<Rightarrow> statistics" where
  "statistics_clear s = s\<lparr>ss_stats := []\<rparr>"

definition statistics_copy :: "statistics \<Rightarrow> statistics" where
  "statistics_copy s = (statistics_create (ss_enabled s))\<lparr>ss_stats := ss_stats s, ss_entries := ss_entries s\<rparr>"

section \<open>Memory recorders\<close>

text \<open>A recorder that does nothing is \<open>None\<close>. A thread pops the scope that its recorder has pushed.\<close>

definition create_memory_recorder :: "nat \<Rightarrow> bool \<Rightarrow> string \<Rightarrow> statistics \<times> adaptor \<Rightarrow> string option \<times> statistics \<times> adaptor" where
  "create_memory_recorder t tracking name st =
     (case st of (s, a) \<Rightarrow>
        if \<not> ss_enabled s \<or> \<not> tracking then (None, st) else (Some name, (s, begin_scoped_memory_record t a)))"

definition destroy_memory_recorder :: "nat \<Rightarrow> string option \<Rightarrow> (statistics \<times> adaptor, unit) act" where
  "destroy_memory_recorder t recorder st =
     (case recorder of
        None \<Rightarrow> (Inr (), st)
      | Some name \<Rightarrow>
          (case st of (s, a) \<Rightarrow>
             case end_scoped_memory_record t a of
               (Inl e, a1) \<Rightarrow> (Inl (if e = Undefined then Undefined else Fatal), (s, a1))
             | (Inr scope, a1) \<Rightarrow>
                 if \<not> ss_enabled s then (Inr (), (s, a1))
                 else
                   (let records = emplace_key name new_memory_record (ss_records s); r = the (map_of records name) in
                    case add_scope scope (mr_scoped r) of
                      Inl e \<Rightarrow> (Inl e, (s, a1))
                    | Inr sc \<Rightarrow>
                        (Inr (),
                         (s\<lparr>ss_records := change_key name
                              (\<lambda>r. r\<lparr>mr_num_calls := mr_num_calls r + 1, mr_scoped := sc, mr_global_peak := max (mr_global_peak r) (peak scope)\<rparr>)
                              records\<rparr>, a1)))))"

section \<open>Copies and allocations\<close>

text \<open>A name and the three statistics that belong to it.\<close>

definition copy_base :: "mem_type \<Rightarrow> mem_type \<Rightarrow> string" where
  "copy_base src dst = ''copy-'' @ to_lower (mem_type_to_string src) @ ''-to-'' @ to_lower (mem_type_to_string dst)"

definition alloc_base :: "mem_type \<Rightarrow> string" where
  "alloc_base mt = ''alloc-'' @ to_lower (mem_type_to_string mt)"

definition bytes_name :: "string \<Rightarrow> string" where "bytes_name base = base @ ''-bytes''"
definition time_name :: "string \<Rightarrow> string" where "time_name base = base @ ''-time''"
definition delay_name :: "string \<Rightarrow> string" where "delay_name base = base @ ''-stream-delay''"

text \<open>
  The timings in flight, by identifier. The two callbacks run when the stream reaches them; \<open>alive\<close> says whether
  the statistics object still exists. The times are those of the clock when they are read.
\<close>

record timing =
  tg_stream_start :: int
  tg_name :: string
  tg_host_start :: int
  tg_delay_name :: "string option"

record timings =
  tm_next :: nat
  tm_entries :: "(nat \<times> timing) list"

definition start_timing :: "int \<Rightarrow> statistics \<Rightarrow> timings \<Rightarrow> nat option \<times> timings" where
  "start_timing now s tm =
     (if \<not> ss_enabled s then (None, tm)
      else (Some (tm_next tm),
            \<lparr>tm_next = tm_next tm + 1,
             tm_entries = (tm_next tm, \<lparr>tg_stream_start = 0, tg_name = [], tg_host_start = now, tg_delay_name = None\<rparr>) # tm_entries tm\<rparr>))"

definition timing_start_cb :: "int \<Rightarrow> nat \<Rightarrow> timings \<Rightarrow> timings" where
  "timing_start_cb now uid tm = tm\<lparr>tm_entries := change_key uid (\<lambda>t. t\<lparr>tg_stream_start := now\<rparr>) (tm_entries tm)\<rparr>"

definition stop_and_record :: "nat option \<Rightarrow> string \<Rightarrow> string option \<Rightarrow> timings \<Rightarrow> timings result" where
  "stop_and_record u name delay tm =
     (case u of
        None \<Rightarrow> Inr tm
      | Some uid \<Rightarrow>
          if map_of (tm_entries tm) uid = None then Inl Out_Of_Range
          else Inr (tm\<lparr>tm_entries := change_key uid (\<lambda>t. t\<lparr>tg_name := name, tg_delay_name := delay\<rparr>) (tm_entries tm)\<rparr>))"

definition timing_stop_cb :: "float_ops \<Rightarrow> bool \<Rightarrow> int \<Rightarrow> nat \<Rightarrow> statistics \<times> timings \<Rightarrow> statistics \<times> timings" where
  "timing_stop_cb fo alive now uid st =
     (case st of (s, tm) \<Rightarrow>
        case map_of (tm_entries tm) uid of
          None \<Rightarrow> (s, tm)
        | Some t \<Rightarrow>
            (let tm1 = tm\<lparr>tm_entries := filter (\<lambda>(k, _). k \<noteq> uid) (tm_entries tm)\<rparr> in
             if \<not> alive then (s, tm1)
             else
               (let s1 = add_stat fo (tg_name t) (f_seconds fo (now - tg_stream_start t)) s in
                (case tg_delay_name t of
                   None \<Rightarrow> s1
                 | Some d \<Rightarrow> add_stat fo d (f_seconds fo (tg_stream_start t - tg_host_start t)) s1, tm1))))"

definition cancel_inflight_timings :: "timings \<Rightarrow> timings" where
  "cancel_inflight_timings tm = tm\<lparr>tm_entries := []\<rparr>"

definition record_named :: "float_ops \<Rightarrow> string \<Rightarrow> nat \<Rightarrow> nat option \<Rightarrow> (statistics \<times> timings, unit) act" where
  "record_named fo base nbytes u st =
     (case st of (s, tm) \<Rightarrow>
        case stop_and_record u (time_name base) (Some (delay_name base)) tm of
          Inl e \<Rightarrow> (Inl e, st)
        | Inr tm1 \<Rightarrow>
            (Inr (),
             (add_report_entry base [bytes_name base, time_name base, delay_name base] Fmt_Memory_Throughput
                (add_stat fo (bytes_name base) (f_of_size fo nbytes) s), tm1)))"

definition record_copy :: "float_ops \<Rightarrow> mem_type \<Rightarrow> mem_type \<Rightarrow> nat \<Rightarrow> nat option \<Rightarrow> (statistics \<times> timings, unit) act" where
  "record_copy fo src dst nbytes u = record_named fo (copy_base src dst) nbytes u"

definition record_alloc :: "float_ops \<Rightarrow> mem_type \<Rightarrow> nat \<Rightarrow> nat option \<Rightarrow> (statistics \<times> timings, unit) act" where
  "record_alloc fo mt nbytes u st = (if mt = DISK then (Inr (), st) else record_named fo (alloc_base mt) nbytes u st)"

section \<open>The report\<close>

text \<open>
  What a formatter asks of its statistics. The text it writes from them is a parameter.
\<close>

definition formatter_check :: "formatter \<Rightarrow> stat list \<Rightarrow> unit result" where
  "formatter_check f xs =
     (if f \<noteq> Fmt_Memory_Throughput then expects (length xs > 0) Out_Of_Range
      else if length xs < 2 then Inl Out_Of_Range
      else if st_count (xs ! 0) \<noteq> st_count (xs ! 1) then Inl Logic_Error
      else if length xs < 3 then Inl Out_Of_Range
      else expects (st_count (xs ! 1) = st_count (xs ! 2)) Logic_Error)"

definition has_all_stats :: "statistics \<Rightarrow> string list \<Rightarrow> bool" where
  "has_all_stats s names \<longleftrightarrow> (\<forall>n\<in>set names. has_stat n s)"

fun entry_lines :: "(formatter \<Rightarrow> stat list \<Rightarrow> string) \<Rightarrow> statistics \<Rightarrow> (string \<times> report_entry) list
    \<Rightarrow> ((string \<times> string) list \<times> string list) result" where
  "entry_lines render s [] = Inr ([], [])"
| "entry_lines render s ((name, e) # es) =
     (if \<not> has_all_stats s (re_names e) then
        res_bind (entry_lines render s es) (\<lambda>(ls, consumed). Inr ((name, ''No data collected'') # ls, consumed))
      else
        (let args = map (\<lambda>n. the (map_of (ss_stats s) n)) (re_names e) in
         res_bind (formatter_check (re_formatter e) args) (\<lambda>_.
         res_bind (entry_lines render s es) (\<lambda>(ls, consumed).
           Inr ((name, render (re_formatter e) args) # ls, re_names e @ consumed)))))"

text \<open>\<open>None\<close> is the report of a disabled object. The code's sort leaves the order of lines with one name open.\<close>

definition report_lines :: "(formatter \<Rightarrow> stat list \<Rightarrow> string) \<Rightarrow> statistics \<Rightarrow> (string \<times> string) list option result" where
  "report_lines render s =
     (if \<not> ss_enabled s then Inr None
      else res_bind (entry_lines render s (ss_entries s)) (\<lambda>(ls, consumed).
        Inr (Some (sort_key fst (ls @ map (\<lambda>(n, x). (n, render Fmt_Default [x])) (filter (\<lambda>(n, _). n \<notin> set consumed) (ss_stats s)))))))"


section \<open>Serialisation\<close>

text \<open>What is written to the front of a buffer is read from the front, and the rest remains.\<close>

locale front_format =
  fixes wr :: "'a \<Rightarrow> u8 list"
    and rd :: "u8 list \<Rightarrow> ('a \<times> u8 list) result"
    and fits :: "'a \<Rightarrow> bool"
  assumes rd_wr: "fits x \<Longrightarrow> rd (wr x @ rest) = Inr (x, rest)"
begin

lemma wr_prefix_free: "fits x \<Longrightarrow> fits y \<Longrightarrow> wr x @ r = wr y @ r' \<Longrightarrow> x = y \<and> r = r'"
  using rd_wr [of x r] rd_wr [of y r'] by (metis sum.inject(2) prod.inject)

end

text \<open>The loops of the code read a number of items that was written before them.\<close>

fun read_many :: "(u8 list \<Rightarrow> ('a \<times> u8 list) result) \<Rightarrow> nat \<Rightarrow> u8 list \<Rightarrow> ('a list \<times> u8 list) result" where
  "read_many rd 0 data = Inr ([], data)"
| "read_many rd (Suc n) data =
     res_bind (rd data) (\<lambda>(x, data1). res_bind (read_many rd n data1) (\<lambda>(xs, data2). Inr (x # xs, data2)))"

context front_format
begin

lemma read_many_written: "\<forall>x\<in>set xs. fits x \<Longrightarrow> read_many rd (length xs) (concat (map wr xs) @ rest) = Inr (xs, rest)"
  by (induction xs) (simp_all add: rd_wr)

end

definition read_pod8 :: "u8 list \<Rightarrow> (u8 \<times> u8 list) result" where
  "read_pod8 data =
     res_bind (expects (length data \<ge> 1) Invalid_Argument) (\<lambda>_.
     res_bind (rd_byte data 0) (\<lambda>b. Inr (b, drop 1 data)))"

definition read_pod64 :: "u8 list \<Rightarrow> (u64 \<times> u8 list) result" where
  "read_pod64 data =
     res_bind (expects (length data \<ge> 8) Invalid_Argument) (\<lambda>_.
     res_bind (rd64 data 0) (\<lambda>w. Inr (w, drop 8 data)))"

definition read_chars :: "nat \<Rightarrow> u8 list \<Rightarrow> (string \<times> u8 list) result" where
  "read_chars len data =
     res_bind (expects (length data \<ge> len) Invalid_Argument) (\<lambda>_.
     res_bind (rd_bytes data 0 len) (\<lambda>bs. Inr (bytes_str bs, drop len data)))"

definition write_size :: "nat \<Rightarrow> u8 list" where
  "write_size n = enc64 (word_of_nat n)"

definition write_name :: "string \<Rightarrow> u8 list" where
  "write_name name = write_size (length name) @ str_bytes name"

definition read_name :: "u8 list \<Rightarrow> (string \<times> u8 list) result" where
  "read_name data = res_bind (read_pod64 data) (\<lambda>(len, data1). read_chars (unat len) data1)"

definition write_stat :: "string \<times> stat \<Rightarrow> u8 list" where
  "write_stat ns = write_name (fst ns) @ stat_serialize (snd ns)"

definition read_stat :: "u8 list \<Rightarrow> ((string \<times> stat) \<times> u8 list) result" where
  "read_stat data =
     res_bind (read_name data) (\<lambda>(name, data1).
     res_bind (stat_deserialize data1) (\<lambda>(x, data2). Inr ((name, x), data2)))"

definition write_entry :: "string \<times> report_entry \<Rightarrow> u8 list" where
  "write_entry ne =
     write_name (fst ne) @ formatter_code (re_formatter (snd ne)) # write_size (length (re_names (snd ne))) @
       concat (map write_name (re_names (snd ne)))"

text \<open>
  \<open>vector::reserve\<close> of strings throws \<^verbatim>\<open>length_error\<close>, a logic error, above the largest size of such a vector,
  and \<^verbatim>\<open>bad_alloc\<close> when there is no memory, which \<open>room\<close> says.
\<close>

definition MAX_STRINGS :: nat where
  "MAX_STRINGS = (2 ^ 63 - 1) div 32"

definition reserve_strings :: "(nat \<Rightarrow> bool) \<Rightarrow> nat \<Rightarrow> unit result" where
  "reserve_strings room n = (if n > MAX_STRINGS then Inl Logic_Error else expects (room n) Bad_Alloc)"

definition read_entry :: "(nat \<Rightarrow> bool) \<Rightarrow> u8 list \<Rightarrow> ((string \<times> report_entry) \<times> u8 list) result" where
  "read_entry room data =
     res_bind (read_name data) (\<lambda>(name, data1).
     res_bind (read_pod8 data1) (\<lambda>(fmt, data2).
     res_bind (expects (unat fmt < length FORMATTERS) Invalid_Argument) (\<lambda>_.
     res_bind (read_pod64 data2) (\<lambda>(n, data3).
     res_bind (reserve_strings room (unat n)) (\<lambda>_.
     res_bind (read_many read_name (unat n) data3) (\<lambda>(names, data4).
       Inr ((name, \<lparr>re_names = names, re_formatter = FORMATTERS ! unat fmt\<rparr>), data4)))))))"

definition statistics_size :: "statistics \<Rightarrow> nat" where
  "statistics_size s =
     1 + 8 + total (\<lambda>(name, _). 8 + length name + STAT_SIZE) (ss_stats s) +
     8 + total (\<lambda>(name, e). 8 + length name + 1 + 8 + total (\<lambda>sn. 8 + length sn) (re_names e)) (ss_entries s)"

definition statistics_serialize :: "statistics \<Rightarrow> u8 list" where
  "statistics_serialize s =
     (if ss_enabled s then 1 else 0) # write_size (length (ss_stats s)) @ concat (map write_stat (ss_stats s)) @
       write_size (length (ss_entries s)) @ concat (map write_entry (ss_entries s))"

definition statistics_deserialize :: "(nat \<Rightarrow> bool) \<Rightarrow> u8 list \<Rightarrow> statistics result" where
  "statistics_deserialize room data =
     res_bind (read_pod8 data) (\<lambda>(enabled, data1).
     res_bind (read_pod64 data1) (\<lambda>(num_stats, data2).
     res_bind (read_many read_stat (unat num_stats) data2) (\<lambda>(xs, data3).
     res_bind (read_pod64 data3) (\<lambda>(num_entries, data4).
     res_bind (read_many (read_entry room) (unat num_entries) data4) (\<lambda>(es, _).
       Inr ((statistics_create (enabled \<noteq> 0))
         \<lparr>ss_stats := foldl (\<lambda>m (k, v). emplace_key k v m) [] xs,
          ss_entries := foldl (\<lambda>m (k, v). emplace_key k v m) [] es\<rparr>))))))"

section \<open>Reading what was written\<close>

lemma read_pod8_Cons [simp]: "read_pod8 (b # rest) = Inr (b, rest)"
  by (simp add: read_pod8_def rd_byte_def)

lemma read_pod64_enc [simp]: "read_pod64 (enc64 w @ rest) = Inr (w, rest)"
  by (simp add: read_pod64_def)

lemma read_pod64_size: "n < 2 ^ 64 \<Longrightarrow> \<exists>w. read_pod64 (write_size n @ rest) = Inr (w, rest) \<and> unat w = n"
  by (auto simp: write_size_def unat_of_nat)

interpretation name_format: front_format write_name read_name "\<lambda>s. length s < 2 ^ 64"
proof
  fix x :: string and rest
  assume "length x < 2 ^ 64"
  then have "unat (word_of_nat (length x) :: u64) = length x" by (simp add: unat_of_nat)
  then show "read_name (write_name x @ rest) = Inr (x, rest)"
    by (simp add: read_name_def write_name_def write_size_def read_chars_def rd_bytes_def)
qed

interpretation stat_format: front_format write_stat read_stat "\<lambda>ns. length (fst ns) < 2 ^ 64"
  by unfold_locales
    (simp add: read_stat_def write_stat_def name_format.rd_wr stat_deserialize_def stat_serialize_def STAT_SIZE_def prod_eq_iff)

lemma formatter_of_code: "unat (formatter_code f) < length FORMATTERS \<and> FORMATTERS ! unat (formatter_code f) = f"
  by (cases f) (simp_all add: formatter_code_def FORMATTERS_def)

definition entry_fits :: "(nat \<Rightarrow> bool) \<Rightarrow> string \<times> report_entry \<Rightarrow> bool" where
  "entry_fits room ne \<longleftrightarrow> length (fst ne) < 2 ^ 64 \<and> length (re_names (snd ne)) \<le> MAX_STRINGS \<and> room (length (re_names (snd ne))) \<and>
     (\<forall>sn\<in>set (re_names (snd ne)). length sn < 2 ^ 64)"

interpretation entry_format: front_format write_entry "read_entry room" "entry_fits room" for room
proof
  fix x :: "string \<times> report_entry" and rest
  assume x: "entry_fits room x"
  obtain n e where xe: "x = (n, e)" by (cases x)
  have "length (re_names e) < 2 ^ 64" using x xe by (simp add: entry_fits_def MAX_STRINGS_def)
  then obtain w where w: "read_pod64 (write_size (length (re_names e)) @ r) = Inr (w, r)" "unat w = length (re_names e)" for r
    by (auto simp: write_size_def unat_of_nat)
  have rs: "reserve_strings room (length (re_names e)) = Inr ()" using x xe by (simp add: entry_fits_def reserve_strings_def)
  have m: "read_many read_name (length (re_names e)) (concat (map write_name (re_names e)) @ rest) = Inr (re_names e, rest)"
    by (rule name_format.read_many_written) (use x xe in \<open>simp add: entry_fits_def\<close>)
  have nm: "read_name (write_name n @ r) = Inr (n, r)" for r by (rule name_format.rd_wr) (use x xe in \<open>simp add: entry_fits_def\<close>)
  show "read_entry room (write_entry x @ rest) = Inr (x, rest)"
    using formatter_of_code [of "re_formatter e"]
    by (simp add: read_entry_def write_entry_def xe nm w rs m)
qed

text \<open>The buffer of \<open>serialize\<close> has the size that was computed for it.\<close>

lemma length_write_name [simp]: "length (write_name n) = 8 + length n"
  by (simp add: write_name_def write_size_def)

lemma length_statistics_serialize: "length (statistics_serialize s) = statistics_size s"
proof -
  have "length (write_stat ns) = (case ns of (name, _) \<Rightarrow> 8 + length name + STAT_SIZE)" for ns
    by (cases ns) (simp add: write_stat_def stat_serialize_def STAT_SIZE_def)
  moreover have "length (concat (map write_name xs)) = total (\<lambda>sn. 8 + length sn) xs" for xs
    by (simp add: length_concat o_def)
  then have "length (write_entry ne) = (case ne of (name, e) \<Rightarrow> 8 + length name + 1 + 8 + total (\<lambda>sn. 8 + length sn) (re_names e))" for ne
    by (cases ne) (simp add: write_entry_def write_size_def)
  ultimately show ?thesis by (simp add: statistics_serialize_def statistics_size_def length_concat o_def write_size_def)
qed

definition statistics_ok :: "(nat \<Rightarrow> bool) \<Rightarrow> statistics \<Rightarrow> bool" where
  "statistics_ok room s \<longleftrightarrow> ordered_map (ss_stats s) \<and> ordered_map (ss_entries s) \<and> length (ss_stats s) < 2 ^ 64 \<and> length (ss_entries s) < 2 ^ 64 \<and>
     (\<forall>ns\<in>set (ss_stats s). length (fst ns) < 2 ^ 64) \<and> (\<forall>ne\<in>set (ss_entries s). entry_fits room ne)"

lemma deserialize_serialize_aux:
  assumes "statistics_ok room s"
  shows "statistics_deserialize room (statistics_serialize s) = Inr (statistics_copy s)"
proof -
  obtain w where w: "read_pod64 (write_size (length (ss_stats s)) @ r) = Inr (w, r)" "unat w = length (ss_stats s)" for r
    using assms by (auto simp: statistics_ok_def write_size_def unat_of_nat)
  obtain v where v: "read_pod64 (write_size (length (ss_entries s)) @ r) = Inr (v, r)" "unat v = length (ss_entries s)" for r
    using assms by (auto simp: statistics_ok_def write_size_def unat_of_nat)
  have a: "read_many read_stat (length (ss_stats s)) (concat (map write_stat (ss_stats s)) @ r) = Inr (ss_stats s, r)" for r
    by (rule stat_format.read_many_written) (use assms in \<open>simp add: statistics_ok_def\<close>)
  have b: "read_many (read_entry room) (length (ss_entries s)) (concat (map write_entry (ss_entries s)) @ []) = Inr (ss_entries s, [])"
    by (rule entry_format.read_many_written) (use assms in \<open>simp add: statistics_ok_def\<close>)
  show ?thesis using assms a b
    by (simp add: statistics_deserialize_def statistics_serialize_def w v statistics_copy_def emplace_all_ordered statistics_ok_def
        statistics_create_def)
qed

section \<open>Any input\<close>

text \<open>A reader that keeps inside its buffer and has only certain errors.\<close>

definition reads_safely :: "exn set \<Rightarrow> (u8 list \<Rightarrow> ('a \<times> u8 list) result) \<Rightarrow> bool" where
  "reads_safely E rd \<longleftrightarrow> (\<forall>data e. rd data = Inl e \<longrightarrow> e \<in> E)"

lemma reads_safelyD: "reads_safely E rd \<Longrightarrow> rd data = Inl e \<Longrightarrow> e \<in> E"
  by (auto simp: reads_safely_def)

lemma res_bind_eq_Inl: "res_bind r f = Inl e \<longleftrightarrow> r = Inl e \<or> (\<exists>a. r = Inr a \<and> f a = Inl e)"
  by (simp add: res_bind_def split: sum.splits)

lemma expects_eq_Inl: "expects c x = Inl e \<longleftrightarrow> \<not> c \<and> e = x"
  by (auto simp: expects_def)

lemmas reads = res_bind_eq_Inl expects_eq_Inl split_beta

lemma reads_many: "reads_safely E rd \<Longrightarrow> reads_safely E (read_many rd n)"
proof (induction n)
  case (Suc n)
  then show ?case by (auto simp: reads_safely_def reads)
qed (simp add: reads_safely_def)

lemma reads_pod8: "reads_safely {Invalid_Argument} read_pod8"
  by (auto simp: reads_safely_def read_pod8_def reads rd_byte_def split: if_splits)

lemma reads_pod64: "reads_safely {Invalid_Argument} read_pod64"
  by (auto simp: reads_safely_def read_pod64_def reads rd64_def split: if_splits)

lemma reads_chars: "reads_safely {Invalid_Argument} (read_chars n)"
  by (auto simp: reads_safely_def read_chars_def reads rd_bytes_def split: if_splits)

lemma reads_name: "reads_safely {Invalid_Argument} read_name"
  using reads_pod64 reads_chars by (fastforce simp: reads_safely_def read_name_def reads)

lemma reads_stat: "reads_safely {Invalid_Argument} read_stat"
  using reads_name by (fastforce simp: reads_safely_def read_stat_def stat_deserialize_def STAT_SIZE_def reads rd64_def split: if_splits)

lemma reads_entry: "reads_safely {Invalid_Argument, Logic_Error, Bad_Alloc} (read_entry room)"
  using reads_name reads_pod8 reads_pod64 reads_many [OF reads_name]
  by (fastforce simp: reads_safely_def read_entry_def reads reserve_strings_def split: if_splits)

lemma deserialize_errors:
  assumes "statistics_deserialize room data = Inl e"
  shows "e \<in> {Invalid_Argument, Logic_Error, Bad_Alloc}"
  using assms reads_safelyD [OF reads_pod8] reads_safelyD [OF reads_pod64] reads_safelyD [OF reads_many [OF reads_stat]]
    reads_safelyD [OF reads_many [OF reads_entry]]
  unfolding statistics_deserialize_def reads by blast

lemma emplace_all_from_empty: "ordered_map (foldl (\<lambda>m (k, v). emplace_key k v m) [] xs)"
  by (rule emplace_all_wf) (simp add: ordered_map_def)

lemma deserialize_ordered:
  "statistics_deserialize room data = Inr s \<Longrightarrow> ordered_map (ss_stats s) \<and> ordered_map (ss_entries s) \<and> ss_records s = []"
  by (auto simp: statistics_deserialize_def res_bind_eq_Inr split_beta statistics_create_def emplace_all_from_empty)


section \<open>Merging\<close>

fun merge_stats :: "float_ops \<Rightarrow> (string \<times> stat) list \<Rightarrow> (string \<times> stat) list \<Rightarrow> (string \<times> stat) list" where
  "merge_stats fo m [] = m"
| "merge_stats fo m ((name, x) # xs) =
     merge_stats fo (if map_of m name = None then emplace_key name x m else change_key name (\<lambda>y. stat_merge fo y x) m) xs"

fun merge_entries :: "(string \<times> report_entry) list \<Rightarrow> (string \<times> report_entry) list \<Rightarrow> (string \<times> report_entry) list result" where
  "merge_entries m [] = Inr m"
| "merge_entries m ((name, e) # es) =
     (case map_of m name of
        None \<Rightarrow> merge_entries (emplace_key name e m) es
      | Some e' \<Rightarrow>
          res_bind (expects (re_formatter e' = re_formatter e \<and> re_names e' = re_names e) Invalid_Argument) (\<lambda>_. merge_entries m es))"

fun merge_snapshots :: "float_ops \<Rightarrow> statistics list \<Rightarrow> statistics \<Rightarrow> statistics result" where
  "merge_snapshots fo [] r = Inr r"
| "merge_snapshots fo (s # ss) r =
     res_bind (merge_entries (ss_entries r) (ss_entries s)) (\<lambda>es.
       merge_snapshots fo ss (r\<lparr>ss_stats := merge_stats fo (ss_stats r) (ss_stats s), ss_entries := es\<rparr>))"

text \<open>A null pointer is \<open>None\<close>.\<close>

definition statistics_merge :: "float_ops \<Rightarrow> statistics option list \<Rightarrow> statistics result" where
  "statistics_merge fo inputs =
     res_bind (expects (inputs \<noteq> []) Invalid_Argument) (\<lambda>_.
     res_bind (expects (None \<notin> set inputs) Invalid_Argument) (\<lambda>_.
       (let snapshots = map the inputs in
        merge_snapshots fo snapshots (statistics_create (\<exists>s\<in>set snapshots. ss_enabled s)))))"

section \<open>What a merge is\<close>

definition stats_of :: "string \<Rightarrow> statistics list \<Rightarrow> stat list" where
  "stats_of name ss = List.map_filter (\<lambda>s. map_of (ss_stats s) name) ss"

definition entries_of :: "string \<Rightarrow> statistics list \<Rightarrow> report_entry list" where
  "entries_of name ss = List.map_filter (\<lambda>s. map_of (ss_entries s) name) ss"

fun fold_stats :: "float_ops \<Rightarrow> stat list \<Rightarrow> stat option" where
  "fold_stats fo [] = None"
| "fold_stats fo (x # xs) = Some (foldl (stat_merge fo) x xs)"

definition maps_ok :: "statistics \<Rightarrow> bool" where
  "maps_ok s \<longleftrightarrow> ordered_map (ss_stats s) \<and> ordered_map (ss_entries s)"

text \<open>Continuing from an optional statistic.\<close>

definition fold_from :: "float_ops \<Rightarrow> stat option \<Rightarrow> stat list \<Rightarrow> stat option" where
  "fold_from fo a xs = (case a of None \<Rightarrow> fold_stats fo xs | Some x \<Rightarrow> Some (foldl (stat_merge fo) x xs))"

lemma fold_from_Cons: "fold_from fo a (x # xs) = fold_from fo (Some (case a of None \<Rightarrow> x | Some y \<Rightarrow> stat_merge fo y x)) xs"
  by (cases a) (simp_all add: fold_from_def)

lemma fold_from_Nil [simp]: "fold_from fo a [] = a"
  by (cases a) (simp_all add: fold_from_def)

lemma merge_stats_ordered: "ordered_map m \<Longrightarrow> ordered_map (merge_stats fo m xs)"
  by (induction fo m xs rule: merge_stats.induct) (auto simp: emplace_key_ordered)

lemma map_of_merge_stats:
  "ordered_map m \<Longrightarrow> distinct (map fst xs) \<Longrightarrow>
   map_of (merge_stats fo m xs) n =
     (case map_of xs n of None \<Rightarrow> map_of m n | Some x \<Rightarrow> Some (case map_of m n of None \<Rightarrow> x | Some y \<Rightarrow> stat_merge fo y x))"
proof (induction fo m xs rule: merge_stats.induct)
  case (2 fo m name x xs)
  let ?m = "if map_of m name = None then emplace_key name x m else change_key name (\<lambda>y. stat_merge fo y x) m"
  have o: "ordered_map ?m" using 2(2) by auto
  have m: "map_of ?m n = (if n = name then Some (case map_of m n of None \<Rightarrow> x | Some y \<Rightarrow> stat_merge fo y x) else map_of m n)"
    using 2(2) by (auto simp: map_of_emplace_key map_of_change_key split: option.splits)
  have "map_of xs name = None" using 2(3) by (auto simp: map_of_eq_None_iff)
  then show ?case using 2(1) [OF o] 2(3) m by (auto split: option.splits)
qed simp

lemma stats_of_simps [simp]:
  "stats_of n [] = []" "stats_of n (s # ss) = (case map_of (ss_stats s) n of None \<Rightarrow> stats_of n ss | Some x \<Rightarrow> x # stats_of n ss)"
  by (simp_all add: stats_of_def map_filter_simps split: option.split)

lemma entries_of_simps [simp]:
  "entries_of n [] = []" "entries_of n (s # ss) = (case map_of (ss_entries s) n of None \<Rightarrow> entries_of n ss | Some x \<Rightarrow> x # entries_of n ss)"
  by (simp_all add: entries_of_def map_filter_simps split: option.split)

lemma map_of_entries_of: "s \<in> set ss \<Longrightarrow> map_of (ss_entries s) n = Some e \<Longrightarrow> e \<in> set (entries_of n ss)"
  by (induction ss) (auto split: option.splits)

text \<open>The report entries: they join when those with one name are equal, and fail otherwise.\<close>

definition agrees :: "(string \<times> report_entry) list \<Rightarrow> (string \<times> report_entry) list \<Rightarrow> bool" where
  "agrees m es \<longleftrightarrow> (\<forall>n e e'. map_of m n = Some e \<longrightarrow> map_of es n = Some e' \<longrightarrow> e = e')"

lemma merge_entries_joins:
  assumes "ordered_map m" and "distinct (map fst es)"
  shows "if agrees m es then \<exists>r. merge_entries m es = Inr r \<and> ordered_map r \<and> map_of r = map_of es ++ map_of m
    else merge_entries m es = Inl Invalid_Argument"
  using assms
proof (induction m es rule: merge_entries.induct)
  case (2 m name e es)
  have n: "map_of es name = None" using 2(4) by (auto simp: map_of_eq_None_iff)
  show ?case
  proof (cases "map_of m name")
    case None
    let ?m = "emplace_key name e m"
    have m: "map_of ?m = (map_of m)(name \<mapsto> e)" using 2(3) None by (simp add: map_of_emplace_key)
    have "agrees ?m es \<longleftrightarrow> agrees m ((name, e) # es)" using n None by (auto simp: agrees_def m)
    moreover have "map_of es ++ (map_of m)(name \<mapsto> e) = (map_of es)(name \<mapsto> e) ++ map_of m"
      using None n by (auto simp: map_add_def fun_eq_iff split: option.splits)
    ultimately show ?thesis using 2(1) [OF None emplace_key_ordered [OF 2(3)]] 2(4) None by (auto simp: m fun_upd_def split: if_splits)
  next
    case (Some e')
    show ?thesis
    proof (cases "e' = e")
      case True
      have a: "agrees m ((name, e) # es) \<longleftrightarrow> agrees m es" using n Some True by (auto simp: agrees_def) (metis option.distinct(1))
      have b: "(map_of es)(name \<mapsto> e) ++ map_of m = map_of es ++ map_of m" using Some True by (auto simp: map_add_def fun_eq_iff split: option.splits)
      show ?thesis using 2(2) [OF Some 2(3)] 2(4) Some True a b by (auto simp: expects_def fun_upd_def split: if_splits)
    next
      case False
      then have "\<not> agrees m ((name, e) # es)" using Some by (auto simp: agrees_def)
      moreover have "\<not> (re_formatter e' = re_formatter e \<and> re_names e' = re_names e)" using False by (auto intro: report_entry.equality)
      ultimately show ?thesis using Some by (auto simp: expects_def)
    qed
  qed
qed (simp add: agrees_def)

definition all_agree :: "statistics list \<Rightarrow> bool" where
  "all_agree ss \<longleftrightarrow> (\<forall>s\<in>set ss. \<forall>t\<in>set ss. agrees (ss_entries s) (ss_entries t))"

lemma agrees_refl [simp]: "agrees m m"
  by (simp add: agrees_def)

lemma agrees_sym: "agrees m es \<longleftrightarrow> agrees es m"
  by (auto simp: agrees_def)

lemma all_agree_Cons: "all_agree (s # ss) \<longleftrightarrow> (\<forall>t\<in>set ss. agrees (ss_entries s) (ss_entries t)) \<and> all_agree ss"
  using agrees_sym by (auto simp: all_agree_def)

lemma agrees_join:
  assumes "agrees m es" and "map_of r = map_of es ++ map_of m"
  shows "agrees r x \<longleftrightarrow> agrees m x \<and> agrees es x"
  using assms by (auto simp: agrees_def map_add_def split: option.splits) (metis option.inject option.exhaust)+

definition merged :: "float_ops \<Rightarrow> statistics list \<Rightarrow> statistics \<Rightarrow> statistics \<Rightarrow> bool" where
  "merged fo ss r q \<longleftrightarrow> ss_enabled q = ss_enabled r \<and> ss_records q = ss_records r \<and> maps_ok q \<and>
     (\<forall>n. map_of (ss_stats q) n = fold_from fo (map_of (ss_stats r) n) (stats_of n ss)) \<and>
     (\<forall>n. map_of (ss_entries q) n = (case map_of (ss_entries r) n of
        Some e \<Rightarrow> Some e | None \<Rightarrow> (case entries_of n ss of [] \<Rightarrow> None | e # _ \<Rightarrow> Some e)))"

lemma merge_snapshots_joins:
  assumes "maps_ok r" and "\<forall>s\<in>set ss. maps_ok s"
  shows "if (\<forall>s\<in>set ss. agrees (ss_entries r) (ss_entries s)) \<and> all_agree ss then \<exists>q. merge_snapshots fo ss r = Inr q \<and> merged fo ss r q
    else merge_snapshots fo ss r = Inl Invalid_Argument"
  using assms
proof (induction ss arbitrary: r)
  case Nil
  then show ?case by (auto simp: merged_def all_agree_def split: option.split)
next
  case (Cons s ss)
  have s: "ordered_map (ss_entries s)" "ordered_map (ss_stats s)" "distinct (map fst (ss_entries s))" "distinct (map fst (ss_stats s))"
    using Cons.prems by (auto simp: maps_ok_def ordered_map_def)
  have r: "ordered_map (ss_entries r)" "ordered_map (ss_stats r)" using Cons.prems by (auto simp: maps_ok_def)
  note J = merge_entries_joins [OF r(1) s(3)]
  show ?case
  proof (cases "agrees (ss_entries r) (ss_entries s)")
    case False
    then show ?thesis using J by simp
  next
    case True
    then obtain es where es: "merge_entries (ss_entries r) (ss_entries s) = Inr es" "ordered_map es"
      "map_of es = map_of (ss_entries s) ++ map_of (ss_entries r)" using J by auto
    define r1 where "r1 = r\<lparr>ss_stats := merge_stats fo (ss_stats r) (ss_stats s), ss_entries := es\<rparr>"
    have ok: "maps_ok r1" using es(2) merge_stats_ordered [OF r(2)] by (simp add: r1_def maps_ok_def)
    have step: "merge_snapshots fo (s # ss) r = merge_snapshots fo ss r1" by (simp add: es(1) r1_def)
    have ag: "agrees (ss_entries r1) x \<longleftrightarrow> agrees (ss_entries r) x \<and> agrees (ss_entries s) x" for x
      using agrees_join [OF True es(3)] by (simp add: r1_def)
    have cond: "(\<forall>t\<in>set ss. agrees (ss_entries r1) (ss_entries t)) \<and> all_agree ss \<longleftrightarrow>
        (\<forall>t\<in>set (s # ss). agrees (ss_entries r) (ss_entries t)) \<and> all_agree (s # ss)"
      using True by (auto simp: ag all_agree_Cons)
    have st: "map_of (ss_stats r1) n = (case map_of (ss_stats s) n of None \<Rightarrow> map_of (ss_stats r) n
        | Some x \<Rightarrow> Some (case map_of (ss_stats r) n of None \<Rightarrow> x | Some y \<Rightarrow> stat_merge fo y x))" for n
      by (simp add: r1_def map_of_merge_stats [OF r(2) s(4)])
    have "merged fo (s # ss) r q" if "merged fo ss r1 q" for q
      using that
      by (auto simp: merged_def r1_def st [unfolded r1_def, simplified] fold_from_Cons es(3) map_add_def split: option.splits)
    then show ?thesis using Cons.IH [OF ok] Cons.prems cond unfolding step by (auto split: if_splits)
  qed
qed


section \<open>Lemmas on the operations\<close>

text \<open>Every operation keeps the maps in order.\<close>

lemma maps_ok_create [simp]: "maps_ok (statistics_create b)"
  by (simp add: statistics_create_def maps_ok_def ordered_map_def)

lemma maps_ok_add_stat [simp]: "maps_ok s \<Longrightarrow> maps_ok (add_stat fo name v s)"
  by (auto simp: add_stat_def maps_ok_def)

lemma maps_ok_add_report_entry [simp]: "maps_ok s \<Longrightarrow> maps_ok (add_report_entry name names f s)"
  by (auto simp: add_report_entry_def maps_ok_def)

lemma maps_ok_bytes [simp]: "maps_ok s \<Longrightarrow> maps_ok (add_bytes_stat fo name n s)"
  by (simp add: add_bytes_stat_def)

lemma maps_ok_duration [simp]: "maps_ok s \<Longrightarrow> maps_ok (add_duration_stat fo name x s)"
  by (simp add: add_duration_stat_def)

lemma maps_ok_clear [simp]: "maps_ok s \<Longrightarrow> maps_ok (statistics_clear s)"
  by (simp add: statistics_clear_def maps_ok_def ordered_map_def)

lemma maps_ok_record_named: "maps_ok s \<Longrightarrow> record_named fo base n u (s, tm) = (out, (s', tm')) \<Longrightarrow> maps_ok s'"
  by (auto simp: record_named_def split: sum.splits)

lemma maps_ok_stop_cb: "maps_ok s \<Longrightarrow> maps_ok (fst (timing_stop_cb fo alive now uid (s, tm)))"
  by (simp add: timing_stop_cb_def Let_def split: option.split)

text \<open>Adding to a statistic touches that one only; it is made when it is missing.\<close>

lemma get_stat_add_stat:
  assumes "maps_ok s" and "ss_enabled s"
  shows "get_stat n (add_stat fo name v s) =
    (if n = name then Inr (stat_add fo v (case get_stat name s of Inr x \<Rightarrow> x | Inl _ \<Rightarrow> new_stat)) else get_stat n s)"
  using assms by (auto simp: add_stat_def get_stat_def maps_ok_def map_of_change_key map_of_emplace_key split: option.splits)

lemma disabled_is_silent:
  assumes "\<not> ss_enabled s"
  shows "add_stat fo name v s = s" "add_report_entry name names f s = s" "start_timing now s tm = (None, tm)"
    "create_memory_recorder t tracking name (s, a) = (None, (s, a))"
  using assms by (simp_all add: add_stat_def add_report_entry_def start_timing_def create_memory_recorder_def)

section \<open>The report covers everything\<close>

lemma entry_lines_names:
  "entry_lines render s es = Inr (ls, consumed) \<Longrightarrow> map fst ls = map fst es \<and>
     (\<forall>n\<in>set consumed. \<exists>(name, e)\<in>set es. n \<in> set (re_names e) \<and> has_all_stats s (re_names e))"
  by (induction render s es arbitrary: ls consumed rule: entry_lines.induct)
    (fastforce simp: res_bind_eq_Inr Let_def split: if_splits)+

lemma report_covers:
  assumes "report_lines render s = Inr (Some ls)" and "map_of (ss_stats s) n = Some x"
  shows "(n, render Fmt_Default [x]) \<in> set ls \<or> (\<exists>(name, e)\<in>set (ss_entries s). n \<in> set (re_names e) \<and> has_all_stats s (re_names e))"
proof -
  obtain el c where e: "entry_lines render s (ss_entries s) = Inr (el, c)" and
    ls: "set ls = set el \<union> set (map (\<lambda>(n, x). (n, render Fmt_Default [x])) (filter (\<lambda>(n, _). n \<notin> set c) (ss_stats s)))"
    using assms(1) by (auto simp: report_lines_def res_bind_eq_Inr split: if_splits)
  have "(n, x) \<in> set (ss_stats s)" using assms(2) by (rule map_of_SomeD)
  then show ?thesis using entry_lines_names [OF e] by (cases "n \<in> set c") (force simp: ls)+
qed

lemma report_entries_listed:
  assumes "report_lines render s = Inr (Some ls)"
  shows "sorted (map fst ls) \<and> (\<forall>name\<in>set (map fst (ss_entries s)). name \<in> set (map fst ls))"
proof -
  obtain el c where e: "entry_lines render s (ss_entries s) = Inr (el, c)" and
    ls: "ls = sort_key fst (el @ map (\<lambda>(n, x). (n, render Fmt_Default [x])) (filter (\<lambda>(n, _). n \<notin> set c) (ss_stats s)))"
    using assms by (auto simp: report_lines_def res_bind_eq_Inr split: if_splits)
  have "set (map fst el) \<subseteq> set (map fst ls)" by (auto simp: ls)
  moreover have "map fst el = map fst (ss_entries s)" using entry_lines_names [OF e] by simp
  moreover have "sorted (map fst ls)" by (simp add: ls)
  ultimately show ?thesis by (metis subsetD)
qed

section \<open>JSON\<close>

fun show_nat :: "nat \<Rightarrow> string" where
  "show_nat n = (if n < 10 then [char_of (48 + n)] else show_nat (n div 10) @ [char_of (48 + n mod 10)])"

declare show_nat.simps [simp del]

definition show_int :: "int \<Rightarrow> string" where
  "show_int i = (if i < 0 then CHR ''-'' # show_nat (nat (- i)) else show_nat (nat i))"

definition has_json_unsafe_chars :: "string \<Rightarrow> bool" where
  "has_json_unsafe_chars s \<longleftrightarrow> (\<exists>c\<in>set s. c = CHR 0x22 \<or> c = CHR 0x5C \<or> (of_char c :: nat) < 32)"

definition quoted :: "string \<Rightarrow> string" where
  "quoted s = CHR 0x22 # s @ [CHR 0x22]"

text \<open>Items under a heading, separated by commas, each on a line of its own.\<close>

fun json_items :: "string list \<Rightarrow> string" where
  "json_items [] = []"
| "json_items [x] = CHR 0x0A # ''    '' @ x"
| "json_items (x # xs) = CHR 0x0A # ''    '' @ x @ '','' @ json_items xs"

definition json_stat :: "(double \<Rightarrow> string) \<Rightarrow> string \<times> stat \<Rightarrow> string" where
  "json_stat shw nx = quoted (fst nx) @ '': {'' @ quoted ''count'' @ '': '' @ show_nat (unat (st_count (snd nx))) @ '', '' @
     quoted ''value'' @ '': '' @ shw (st_value (snd nx)) @ '', '' @ quoted ''max'' @ '': '' @ shw (st_max (snd nx)) @ ''}''"

definition json_record :: "string \<times> memory_record \<Rightarrow> string" where
  "json_record nr = quoted (fst nr) @ '': {'' @ quoted ''num_calls'' @ '': '' @ show_nat (unat (mr_num_calls (snd nr))) @ '', '' @
     quoted ''peak_bytes'' @ '': '' @ show_int (peak (mr_scoped (snd nr))) @ '', '' @
     quoted ''total_bytes'' @ '': '' @ show_int (total_bytes (mr_scoped (snd nr))) @ '', '' @
     quoted ''global_peak_bytes'' @ '': '' @ show_int (mr_global_peak (snd nr)) @ ''}''"

definition write_json :: "(double \<Rightarrow> string) \<Rightarrow> statistics \<Rightarrow> string result" where
  "write_json shw s =
     (if (\<exists>n\<in>set (map fst (ss_stats s)). has_json_unsafe_chars n) \<or> (\<exists>n\<in>set (map fst (ss_records s)). has_json_unsafe_chars n)
      then Inl Invalid_Argument
      else Inr (''{'' @ CHR 0x0A # ''  '' @ quoted ''statistics'' @ '': {'' @ json_items (map (json_stat shw) (ss_stats s)) @
        (if ss_stats s = [] then [] else CHR 0x0A # ''  '') @ ''}'' @
        (if ss_records s = [] then []
         else '','' @ CHR 0x0A # ''  '' @ quoted ''memory_records'' @ '': {'' @ json_items (map json_record (ss_records s)) @ CHR 0x0A # ''  }'') @
        CHR 0x0A # ''}'' @ [CHR 0x0A]))"

section \<open>Counters that no longer match\<close>

text \<open>
  A double for examples: the natural number itself. A report throws when a stream has not reached a copy's end,
  and, for good, after the statistics have been cleared while a copy was in flight.
\<close>

definition example_floats :: float_ops where
  "example_floats = \<lparr>f_add = (+), f_less = (\<lambda>a b. a = NEGATIVE_INFINITY \<or> a < b), f_of_size = word_of_nat, f_seconds = word_of_int\<rparr>"

definition one_copy :: "statistics \<times> timings \<Rightarrow> nat option \<times> statistics \<times> timings" where
  "one_copy st =
     (case st of (s, tm) \<Rightarrow> case start_timing 10 s tm of (u, tm1) \<Rightarrow>
        (u, snd (record_copy example_floats DEVICE HOST 100 u (s, case u of None \<Rightarrow> tm1 | Some k \<Rightarrow> timing_start_cb 20 k tm1))))"

definition finish_copy :: "nat option \<Rightarrow> statistics \<times> timings \<Rightarrow> statistics \<times> timings" where
  "finish_copy u st = (case u of None \<Rightarrow> st | Some k \<Rightarrow> timing_stop_cb example_floats True 30 k st)"

definition example_start :: "statistics \<times> timings" where
  "example_start = (statistics_create True, \<lparr>tm_next = 0, tm_entries = []\<rparr>)"

lemma report_in_flight_throws:
  "let (u, st) = one_copy example_start; (v, st2) = one_copy (finish_copy u st) in
     report_lines (\<lambda>_ _. ''text'') (fst st2) = Inl Logic_Error \<and>
     report_lines (\<lambda>_ _. ''text'') (fst (finish_copy v st2)) = Inr (Some [(''copy-device-to-host'', ''text'')])"
  by code_simp

lemma report_after_clear_throws:
  "let (u, (s, tm)) = one_copy example_start; st2 = finish_copy u (statistics_clear s, tm); (v, st3) = one_copy st2 in
     tm_entries (snd (finish_copy v st3)) = [] \<and> report_lines (\<lambda>_ _. ''text'') (fst (finish_copy v st3)) = Inl Logic_Error"
  by code_simp


section \<open>Properties\<close>

text \<open>Property C30: A statistics object whose maps are in order and whose sizes fit is serialised into a buffer of exactly the size computed for it, and reading that buffer gives the object back, without its memory records.\<close>

theorem statistics_roundtrip:
  assumes "statistics_ok room s"
  shows "statistics_deserialize room (statistics_serialize s) = Inr (statistics_copy s) \<and> length (statistics_serialize s) = statistics_size s"
  using deserialize_serialize_aux [OF assms] length_statistics_serialize by simp

definition example_statistics :: statistics where
  "example_statistics =
     (statistics_create True)
       \<lparr>ss_stats := [(''a'', \<lparr>st_count = 2, st_value = 7, st_max = 5\<rparr>), (''b'', new_stat)],
        ss_entries := [(''e'', \<lparr>re_names = [''a'', ''b''], re_formatter = Fmt_Gauge\<rparr>)]\<rparr>"

theorem statistics_roundtrip_witness:
  "statistics_deserialize (\<lambda>n. n < 10) (statistics_serialize example_statistics) = Inr example_statistics"
proof -
  have "statistics_ok (\<lambda>n. n < 10) example_statistics"
    by (simp add: statistics_ok_def example_statistics_def statistics_create_def ordered_map_def entry_fits_def MAX_STRINGS_def)
  moreover have "statistics_copy example_statistics = example_statistics"
    by (simp add: statistics_copy_def example_statistics_def statistics_create_def)
  ultimately show ?thesis using statistics_roundtrip [of "\<lambda>n. n < 10" example_statistics] by simp
qed

text \<open>Property C33: Whatever the bytes, \<open>deserialize\<close> does not read outside its input: it fails with \<^verbatim>\<open>invalid_argument\<close> or with what reserving a vector of the announced length throws, or gives an object whose maps are in order.\<close>

theorem statistics_deserialize_safe:
  "case statistics_deserialize room data of
     Inl e \<Rightarrow> e \<in> {Invalid_Argument, Logic_Error, Bad_Alloc}
   | Inr s \<Rightarrow> maps_ok s \<and> ss_records s = []"
  by (auto simp: maps_ok_def deserialize_ordered dest: deserialize_errors split: sum.split)

text \<open>Property C29: Merging fails exactly when two inputs have different report entries under one name. Otherwise a statistic is the fold, in the order of the inputs, of those that have it, the report entries are those of all inputs, and the result is enabled when one of them is.\<close>

theorem statistics_merge_exact:
  assumes "ss \<noteq> []" and "\<forall>s\<in>set ss. maps_ok s"
  shows "if all_agree ss
    then \<exists>q. statistics_merge fo (map Some ss) = Inr q \<and> maps_ok q \<and> ss_records q = [] \<and>
      (ss_enabled q \<longleftrightarrow> (\<exists>s\<in>set ss. ss_enabled s)) \<and>
      (\<forall>n. map_of (ss_stats q) n = fold_stats fo (stats_of n ss)) \<and>
      (\<forall>n. \<forall>s\<in>set ss. \<forall>e. map_of (ss_entries s) n = Some e \<longrightarrow> map_of (ss_entries q) n = Some e) \<and>
      (\<forall>n e. map_of (ss_entries q) n = Some e \<longrightarrow> (\<exists>s\<in>set ss. map_of (ss_entries s) n = Some e))
    else statistics_merge fo (map Some ss) = Inl Invalid_Argument"
proof -
  let ?r = "statistics_create (\<exists>s\<in>set ss. ss_enabled s)"
  have r: "maps_ok ?r" "ss_entries ?r = []" "ss_stats ?r = []" "ss_records ?r = []" "ss_enabled ?r \<longleftrightarrow> (\<exists>s\<in>set ss. ss_enabled s)"
    by (simp_all add: statistics_create_def maps_ok_def ordered_map_def)
  have m: "statistics_merge fo (map Some ss) = merge_snapshots fo ss ?r"
    using assms(1) by (auto simp: statistics_merge_def o_def image_iff)
  have e: "entries_of n ss = e # es \<Longrightarrow> \<exists>s\<in>set ss. map_of (ss_entries s) n = Some e" for n e es ss
    by (induction ss) (auto split: option.splits)
  have f: "map_of (ss_entries s) n = Some e' \<Longrightarrow> s \<in> set ss \<Longrightarrow> all_agree ss \<Longrightarrow> \<exists>es. entries_of n ss = e' # es" for n e' s
  proof -
    assume a: "map_of (ss_entries s) n = Some e'" "s \<in> set ss" "all_agree ss"
    then obtain x xs where x: "entries_of n ss = x # xs" using map_of_entries_of by (metis list.exhaust empty_iff list.set(1))
    then obtain t where "t \<in> set ss" "map_of (ss_entries t) n = Some x" using e by blast
    then have "x = e'" using a unfolding all_agree_def agrees_def by blast
    then show ?thesis using x by blast
  qed
  show ?thesis
  proof (cases "all_agree ss")
    case True
    then obtain q where q: "merge_snapshots fo ss ?r = Inr q" "merged fo ss ?r q"
      using merge_snapshots_joins [OF r(1) assms(2), of fo] by (auto simp: r(2) agrees_def)
    have "map_of (ss_stats q) n = fold_stats fo (stats_of n ss)" for n using q(2) by (simp add: merged_def r fold_from_def)
    moreover have "map_of (ss_entries q) n = (case entries_of n ss of [] \<Rightarrow> None | e # _ \<Rightarrow> Some e)" for n using q(2) by (simp add: merged_def r)
    ultimately show ?thesis using True q f e r unfolding m merged_def by (fastforce split: list.splits)
  next
    case False
    then show ?thesis using merge_snapshots_joins [OF r(1) assms(2), of fo] unfolding m by auto
  qed
qed

theorem statistics_merge_exact_witness:
  "\<exists>q. statistics_merge example_floats (map Some [example_statistics, example_statistics]) = Inr q \<and>
     map_of (ss_stats q) ''a'' = Some \<lparr>st_count = 4, st_value = 14, st_max = 5\<rparr>"
proof -
  let ?ss = "[example_statistics, example_statistics]"
  have "maps_ok example_statistics"
    by (simp add: maps_ok_def example_statistics_def statistics_create_def ordered_map_def)
  then have ok: "\<forall>s\<in>set ?ss. maps_ok s" by simp
  have ag: "all_agree ?ss" by (simp add: all_agree_def)
  have v: "fold_stats example_floats (stats_of ''a'' ?ss) = Some \<lparr>st_count = 4, st_value = 14, st_max = 5\<rparr>"
    by (simp add: example_statistics_def statistics_create_def stat_merge_def std_max_def example_floats_def NEGATIVE_INFINITY_def)
  have "?ss \<noteq> []" by simp
  from statistics_merge_exact [OF this ok, of example_floats] ag v show ?thesis by (simp only: if_True) metis
qed

end
