(* ===== verification/Spec2Isabelle.thy ===== *)
theory Spec2Isabelle
  imports Config_Options Scoped_Memory Progress_Thread Finish_Counter Shuffle_Postbox Shuffle_Extraction Gather_Done
    Reserve_Or_Wait Sparse_Exchange Reduce_Result Context_Spill Fanout Channels Statistics
begin

text \<open>
  A verification library of RapidsMPF, the C++ library under \<^verbatim>\<open>cpp/\<close>: its memory management (types, buffers,
  reservations, spilling), its background threads, its configuration, its collectives (the shuffler on the
  metadata and payload exchange, the ring allgather, the sparse all-to-all, the butterfly allreduce), and the core of its
  streaming layer: waiting reservations, the container of messages in transit, channels, the fanout and the lineariser.

  \<^bold>\<open>How the program hangs together.\<close> A buffer resource hands out reservations and buffers in device, pinned, host
  and disk memory; a spill manager calls registered functions to move data out of device memory. A rank
  owns a progress thread, a pausable loop that calls registered functions again and again. The collectives
  register such a function: the shuffler pushes its outgoing chunks into a metadata and payload exchange and
  takes what arrives; the allgather talks to its two neighbours in a ring; the allreduce exchanges with one
  partner per stage. The shuffler and the allgather also register a spill function over the chunks they hold.
  The streaming layer sends type-erased messages between coroutines; while a message is in a channel it is stored in
  a container that the context's spill function goes over.

  \<^bold>\<open>Conventions.\<close> \<open>Prelude\<close> holds the vocabulary: \<open>u8\<close>, \<open>u32\<close>, \<open>u64\<close> are words, the exceptions of the code are the
  datatype \<open>exn\<close>, a fallible function returns \<open>'a result\<close>, an operation on a state has type \<open>('s, 'a) act\<close> and returns
  its state also when it throws, as a C++ operation leaves its mutations behind. \<open>Undefined\<close> is an execution
  C++ gives no meaning to; \<open>Fatal\<close> is \<^verbatim>\<open>std::terminate\<close>. Quantities of type \<^verbatim>\<open>size_t\<close> are natural numbers where
  the code's ranges exclude overflow, with \<open>mod 2 ^ 64\<close> written where it does not. An object with a base state extends
  its record: the exchange, the shuffler and the allgather extend \<open>br\<close>, the buffer resource they share.

  \<^bold>\<open>The theories\<close>, in the order of the code's layers:
  \<^item> \<open>Bytes\<close>: little-endian integers in byte vectors, as \<^verbatim>\<open>memcpy\<close> lays them out; the locale \<open>wire_format\<close> states what
    a pair of a writer and a reader owes, and is interpreted for each message format.
  \<^item> \<open>String_Utils\<close>, \<open>Config_Options\<close>: \<^verbatim>\<open>utils/string.cpp\<close> (trimming, splitting, Boolean and optional values) and
    \<^verbatim>\<open>config.cpp\<close> (typed access with caching, the serialised store with its checksum).
  \<^item> \<open>Memory_Types\<close>, \<open>Scoped_Memory\<close>: memory kinds and content descriptions; allocation statistics of nested scopes.
  \<^item> \<open>Statistics\<close>: \<^verbatim>\<open>statistics.cpp\<close> with \<^verbatim>\<open>stream_ordered_timing.cpp\<close>: named statistics, report entries, their binary
    format and merging; the operations above leave out the calls that record them.
  \<^item> \<open>Buffers\<close>, \<open>Buffer_Resource\<close>: \<^verbatim>\<open>memory/buffer.cpp\<close> (locking, readiness, copies) and \<^verbatim>\<open>memory/buffer_resource.cpp\<close>
    with reservations: the ledger of limits, counters and live handles, moves between memory types.
  \<^item> \<open>Spill_Manager\<close>: \<^verbatim>\<open>memory/spill_manager.cpp\<close>; the locale \<open>spillable\<close> is the contract of a spill function.
  \<^item> \<open>Pausable_Thread_Loop\<close>, \<open>Progress_Thread\<close>: the loop thread as an interleaving of atomic steps with its callers, and
    the functions it calls.
  \<^item> \<open>Shuffle_Chunk\<close>, \<open>Finish_Counter\<close>, \<open>Shuffle_Postbox\<close>: the shuffler's wire format, its completion counter, and the
    containers of outgoing and received chunks with their spilling.
  \<^item> \<open>Metadata_Exchange\<close>: \<^verbatim>\<open>metadata_payload_exchange/tag.cpp\<close>; what it receives from the communicator is an input of
    each step. Its history lemmas follow every message from its metadata to the client.
  \<^item> \<open>Shuffler\<close>, \<open>Shuffle_Delivery\<close>, \<open>Shuffle_Extraction\<close>: \<^verbatim>\<open>shuffler/shuffler.cpp\<close>, what is announced and delivered, and the
    life of a shuffler as an interleaving of its progress function, its client and its environment.
  \<^item> \<open>Coll_Postbox\<close>, \<open>All_Gather\<close>: \<^verbatim>\<open>coll/utils.cpp\<close> and \<^verbatim>\<open>coll/allgather.cpp\<close>. \<open>Gather_Flow\<close> shows that each part of an
    iteration only moves chunks; \<open>Gather_Ring\<close> composes the ranks and bounds what any of them holds; \<open>Gather_Done\<close>
    concludes that an allgather that reports completion is complete, and extracts in order.
  \<^item> \<open>Sparse_Alltoall\<close>, \<open>Sparse_Flow\<close>, \<open>Sparse_Exchange\<close>: \<^verbatim>\<open>coll/sparse_alltoall.cpp\<close>, what an iteration does to messages and
    payloads, and what all ranks together deliver, with the bytes.
  \<^item> \<open>All_Reduce\<close>: \<^verbatim>\<open>coll/allreduce.cpp\<close>, a rank's state machine, and the host operator of \<^verbatim>\<open>coll/allreduce.hpp\<close>.
    \<open>Reduce_Tree\<close> specifies what is exchanged and computed (the locale \<open>reducer\<close> is the operator's contract),
    \<open>Reduce_Network\<close> runs all ranks together, \<open>Reduce_Result\<close> concludes that no run fails, that all ranks get the
    same result, the fold over the ranks when the operator is associative, and that it is reached.
  \<^item> \<open>Reserve_Or_Wait\<close>: \<^verbatim>\<open>streaming/core/memory_reserve_or_wait.cpp\<close>, requests that wait for memory and the periodic task
    that admits them.
  \<^item> \<open>Messages\<close>, \<open>Spillable_Messages\<close>, \<open>Context_Spill\<close>: \<^verbatim>\<open>streaming/core/message.hpp\<close> with the locale
    \<open>message_callbacks\<close> for what a payload type provides, \<^verbatim>\<open>streaming/core/spillable_messages.cpp\<close> as an interleaving of
    threads, and the spill function of \<^verbatim>\<open>streaming/core/context.cpp\<close>.
  \<^item> \<open>Channels\<close>, \<open>Fanout\<close>: \<^verbatim>\<open>streaming/core/channel.cpp\<close>, \<^verbatim>\<open>streaming/core/lineariser.hpp\<close> and the unbounded
    fanout of \<^verbatim>\<open>streaming/core/fanout.cpp\<close>, whose tasks take turns in any order.

  \<^bold>\<open>Interleaving.\<close> An operation that holds its mutex throughout is one step. Where the code releases a lock or uses
  atomics between steps (the thread loop, adding and removing progress functions, the locks of the message container,
  the coroutines of the fanout), the steps are separate and any interleaving is allowed. A coroutine that waits on a
  condition variable evaluates its predicate at its turns; that it is notified in time is not shown. Messages between two ranks on one tag arrive in order, as the code relies on; delays
  are arbitrary.

  \<^bold>\<open>Bounds.\<close> Ranks are below \<open>2 ^ 26\<close> and sequence numbers below \<open>2 ^ 38\<close> where identifiers pack both into 64 bits; byte
  counts are below \<open>2 ^ 63\<close> where the code converts them to signed numbers; the 64-bit counter of the message container does
  not wrap. The counters of the memory records are checked at 64 bits at every sum, and the properties of scopes bound the
  sums of the sizes; the finish counter of the shuffler stays below its limit once all ranks have reported. No definition uses fuel; every
  loop of the model is recursion on data or has a termination proof.

  \<^bold>\<open>Not modelled.\<close> The communicators (\<^verbatim>\<open>ucxx.cpp\<close>, \<^verbatim>\<open>mpi.cpp\<close>, \<^verbatim>\<open>single.cpp\<close>) wrap network libraries: their answers are inputs.
  CUDA streams and events are reduced to a readiness flag of a buffer. Process launching and bootstrapping
  (\<^verbatim>\<open>rrun\<close>, \<^verbatim>\<open>bootstrap\<close>), CUPTI monitoring, pinned pools, disk I/O and the Python bindings are
  I/O around this core. Logging, NVTX ranges and the layout of the report's text are left out. Of the streaming layer, the ring
  buffers, queues and condition variables come from a coroutine library, so whether a channel accepts a message is an
  input; the bounded fanout and the streaming wrappers of the collectives only call it. The destruction of a payload is
  not entered in the ledger.
\<close>

end
